(* ===== verification/Prelude.thy ===== *)
theory Prelude
  imports Main "HOL-Library.Word" "HOL-Library.AList" "HOL-Library.List_Lexorder"
    "HOL-Library.Char_ord" "HOL-Library.Sublist"
begin

text \<open>
  What every component shares: Rust's 64-bit integers, the containers of the
  standard library the engine uses, and generic facts on lists.

  A u64 is a natural number. The source's \<open>saturating_add\<close> is \<open>sat_add\<close>, which stops
  at \<open>u64_max\<close>; its \<open>saturating_sub\<close> is subtraction on \<open>nat\<close>, which stops at 0.
  A plain \<open>+\<close> of the source on sequence numbers and counters is \<open>+\<close> on \<open>nat\<close>. An i64 is
  an \<open>int\<close>; its saturating subtraction clamps at both ends, and the cast
  \<open>as i64\<close> of a u64 wraps.
\<close>

named_theorems arith64 \<open>unfolding rules of the 64-bit helpers\<close>
named_theorems inv_intro \<open>preservation lemmas of the component invariants\<close>

type_synonym u8 = "8 word"
type_synonym u64 = nat
type_synonym i64 = int
type_synonym seq = nat

definition u64_max :: nat where
  "u64_max = 18446744073709551615"

definition i64_max :: int where
  "i64_max = 9223372036854775807"

definition i64_min :: int where
  "i64_min = - 9223372036854775808"

definition sat_add :: "nat \<Rightarrow> nat \<Rightarrow> nat" where
  "sat_add a b = min (a + b) u64_max"

definition sat_mul :: "nat \<Rightarrow> nat \<Rightarrow> nat" where
  "sat_mul a b = min (a * b) u64_max"

definition i64_sat_sub :: "int \<Rightarrow> int \<Rightarrow> int" where
  "i64_sat_sub a b = max i64_min (min i64_max (a - b))"

definition i64_sat_add :: "int \<Rightarrow> int \<Rightarrow> int" where
  "i64_sat_add a b = max i64_min (min i64_max (a + b))"

definition as_i64 :: "nat \<Rightarrow> int" where
  "as_i64 n = (if n < 9223372036854775808 then int n else int n - 18446744073709551616)"

lemmas [arith64] = u64_max_def i64_max_def i64_min_def sat_add_def sat_mul_def
  i64_sat_sub_def i64_sat_add_def as_i64_def

lemma sat_add_exact [simp]: "a + b \<le> u64_max \<Longrightarrow> sat_add a b = a + b"
  by (simp add: sat_add_def)

lemma sat_add_mono: "a \<le> a' \<Longrightarrow> sat_add a b \<le> sat_add a' b"
  by (simp add: sat_add_def)

lemma sat_add_le: "sat_add a b \<le> a + b"
  by (simp add: sat_add_def)

lemma le_sat_add: "a \<le> u64_max \<Longrightarrow> a \<le> sat_add a b"
  by (simp add: sat_add_def)

end
