(* ===== verification/Topic_Types.thy ===== *)
theory Topic_Types
  imports Prelude
begin

text \<open>
  The domain types of \<open>src/types.rs\<close>: the topic configuration with its defaults and
  durability resolution, input and output records, tombstones, and JSON values.
\<close>

section \<open>JSON values\<close>

text \<open>\<open>serde_json::Value\<close>. A number keeps its literal text.\<close>

datatype json =
    JNull
  | JBool bool
  | JNumber string
  | JString string
  | JArray "json list"
  | JObject "(string \<times> json) list"

section \<open>Topic configuration\<close>

datatype durability = Ephemeral | Memory | Disk | Fsync

datatype topic_type = Log | Queue

datatype discard = Old | Reject

record topic_config =
  cfg_type :: topic_type
  cfg_ttl_ms :: u64
  cfg_cap_records :: u64
  cfg_cap_bytes :: u64
  cfg_discard :: discard
  cfg_durable :: bool
  cfg_durability :: "durability option"
  cfg_priority :: "int option"
  cfg_auto_priority :: bool
  cfg_auto_create :: bool
  cfg_idempotency_window_ms :: u64
  cfg_dedupe_node :: bool
  cfg_lease_ms :: u64
  cfg_claim_jitter_ms :: u64
  cfg_max_deliveries :: u64
  cfg_dead_letter :: "string option"
  cfg_leases_durable :: bool

definition default_config :: topic_config where
  "default_config = \<lparr>
     cfg_type = Log, cfg_ttl_ms = 0, cfg_cap_records = 0, cfg_cap_bytes = 0,
     cfg_discard = Old, cfg_durable = False, cfg_durability = None,
     cfg_priority = None, cfg_auto_priority = True, cfg_auto_create = True,
     cfg_idempotency_window_ms = 120000, cfg_dedupe_node = True,
     cfg_lease_ms = 30000, cfg_claim_jitter_ms = 0, cfg_max_deliveries = 0,
     cfg_dead_letter = None, cfg_leases_durable = False\<rparr>"

definition is_queue :: "topic_config \<Rightarrow> bool" where
  "is_queue c = (cfg_type c = Queue)"

definition durability_class :: "topic_config \<Rightarrow> durability" where
  "durability_class c =
     (case cfg_durability c of
        Some d \<Rightarrow> d
      | None \<Rightarrow> if cfg_durable c then Fsync else Disk)"

definition is_durable :: "topic_config \<Rightarrow> bool" where
  "is_durable c = (durability_class c = Fsync)"

definition uses_persistent_record_store :: "topic_config \<Rightarrow> bool" where
  "uses_persistent_record_store c = (durability_class c \<noteq> Ephemeral)"

definition normalize_durability :: "topic_config \<Rightarrow> topic_config" where
  "normalize_durability c =
     (let class = durability_class c in
      c \<lparr>cfg_durability := Some class, cfg_durable := (class = Fsync)\<rparr>)"

lemma normalize_durability_class [simp]:
  "durability_class (normalize_durability c) = durability_class c"
  by (simp add: normalize_durability_def durability_class_def Let_def)

lemma normalize_durability_idem [simp]:
  "normalize_durability (normalize_durability c) = normalize_durability c"
  by (simp add: normalize_durability_def durability_class_def Let_def)

section \<open>Records\<close>

record record_in =
  ri_data :: json
  ri_tag :: "string option"
  ri_node :: "string option"
  ri_meta :: "json option"

record record_out =
  ro_seq :: seq
  ro_ts :: i64
  ro_node :: "string option"
  ro_tag :: "string option"
  ro_type :: "string option"
  ro_data :: json
  ro_meta :: "json option"

section \<open>Read filters and tombstones\<close>

datatype node_filter = One string | Many "string list"

fun node_filter_matches :: "node_filter \<Rightarrow> string \<Rightarrow> bool" where
  "node_filter_matches (One s) node = (s = node)"
| "node_filter_matches (Many v) node = list_ex (\<lambda>s. s = node) v"

datatype tombstone_reason = Cap | Ttl | Mixed | Recreated | SourceTrim | FromSeqTooOld

record tombstone =
  gap_from :: seq
  gap_to :: seq
  ts_reason :: tombstone_reason
  missed_estimate :: nat
  ts_earliest_seq :: seq
  ts_head_seq :: seq

end
