(* ===== verification/Filters.thy ===== *)
theory Filters
  imports Topic_Types
begin

text \<open>
  The per-record read filter of \<open>engine/filters.rs\<close>: TTL gate, deleted skip, node
  loop-prevention, in this order.
\<close>

datatype read_decision = Deliver | Deleted | NodeFiltered | Expired

definition evaluate ::
  "node_filter option \<Rightarrow> u64 \<Rightarrow> i64 \<Rightarrow> i64 \<Rightarrow> bool \<Rightarrow> string option \<Rightarrow> read_decision" where
  "evaluate node_flt ttl_ms now_ms record_ts is_deleted record_node =
     (if ttl_ms > 0 \<and> i64_sat_sub now_ms record_ts > as_i64 ttl_ms then Expired
      else if is_deleted then Deleted
      else case (node_flt, record_node) of
             (Some f, Some node) \<Rightarrow> if node_filter_matches f node then NodeFiltered else Deliver
           | _ \<Rightarrow> Deliver)"

definition ttl_expired :: "u64 \<Rightarrow> i64 \<Rightarrow> i64 \<Rightarrow> bool" where
  "ttl_expired ttl_ms now_ms record_ts =
     (ttl_ms > 0 \<and> i64_sat_sub now_ms record_ts > as_i64 ttl_ms)"

lemma evaluate_expired_iff:
  "evaluate nf ttl now ts d n = Expired \<longleftrightarrow> ttl_expired ttl now ts"
  by (auto simp: evaluate_def ttl_expired_def split: option.splits)

lemma evaluate_deliver_iff:
  "evaluate nf ttl now ts d n = Deliver \<longleftrightarrow>
     \<not> ttl_expired ttl now ts \<and> \<not> d \<and>
     (\<forall>f node. nf = Some f \<and> n = Some node \<longrightarrow> \<not> node_filter_matches f node)"
  by (auto simp: evaluate_def ttl_expired_def split: option.splits)

lemma ttl_expired_small:
  assumes "ttl < 9223372036854775808" "0 < ttl" "i64_min \<le> now - ts" "now - ts \<le> i64_max"
  shows "ttl_expired ttl now ts \<longleftrightarrow> int ttl < now - ts"
  using assms by (simp add: ttl_expired_def i64_sat_sub_def as_i64_def)

lemma ttl_expired_huge:
  assumes "9223372036854775808 \<le> ttl" "ttl \<le> u64_max" "ts \<le> now"
  shows "ttl_expired ttl now ts"
  using assms by (simp add: ttl_expired_def arith64)

lemma ttl_expired_mono:
  "ttl_expired ttl now ts \<Longrightarrow> now \<le> now' \<Longrightarrow> ttl_expired ttl now' ts"
  by (auto simp: ttl_expired_def i64_sat_sub_def)

end
