(* ===== verification/Eviction.thy ===== *)
theory Eviction
  imports Topic_Types
begin

text \<open>
  The loss floors of a topic, admission against the caps, and tombstones
  (\<open>engine/eviction.rs\<close>).
\<close>

record floors =
  evict_floor :: seq
  expiry_floor :: seq
  delete_floor :: seq
  source_trim_floor :: seq

definition default_floors :: floors where
  "default_floors = \<lparr>evict_floor = 0, expiry_floor = 0, delete_floor = 0, source_trim_floor = 0\<rparr>"

definition floors_earliest_seq :: "floors \<Rightarrow> seq \<Rightarrow> seq \<Rightarrow> seq" where
  "floors_earliest_seq f seq_base head =
     (let floor = max (max (max (evict_floor f) (expiry_floor f)) (delete_floor f))
                      (source_trim_floor f);
          earliest = max (sat_add floor 1) seq_base
      in min earliest (sat_add head 1))"

definition floors_evict_earliest :: "floors \<Rightarrow> seq \<Rightarrow> seq \<Rightarrow> seq" where
  "floors_evict_earliest f seq_base head =
     (let floor = max (max (evict_floor f) (expiry_floor f)) (source_trim_floor f);
          earliest = max (sat_add floor 1) seq_base
      in min earliest (sat_add head 1))"

definition reason_for_gap :: "floors \<Rightarrow> seq \<Rightarrow> tombstone_reason" where
  "reason_for_gap f gap =
     (let cap = (evict_floor f \<ge> gap \<and> evict_floor f > 0);
          ttl = (expiry_floor f \<ge> gap \<and> expiry_floor f > 0);
          src_trim = (source_trim_floor f \<ge> gap \<and> source_trim_floor f > 0)
      in case (cap, ttl) of
           (True, True) \<Rightarrow> Mixed
         | (False, True) \<Rightarrow> Ttl
         | (True, False) \<Rightarrow> Cap
         | (False, False) \<Rightarrow> if src_trim then SourceTrim else Cap)"

datatype admit_decision = Admit | AdmitReject

definition admit ::
  "discard \<Rightarrow> u64 \<Rightarrow> u64 \<Rightarrow> u64 \<Rightarrow> u64 \<Rightarrow> u64 \<Rightarrow> u64 \<Rightarrow> admit_decision" where
  "admit dsc cap_records cap_bytes current_records current_bytes incoming_records incoming_bytes =
     (if dsc = Old then Admit
      else let proj_records = sat_add current_records incoming_records;
               proj_bytes = sat_add current_bytes incoming_bytes
           in if cap_records > 0 \<and> proj_records > cap_records then AdmitReject
              else if cap_bytes > 0 \<and> proj_bytes > cap_bytes then AdmitReject
              else Admit)"

definition build_tombstone :: "seq \<Rightarrow> seq \<Rightarrow> seq \<Rightarrow> tombstone_reason \<Rightarrow> tombstone" where
  "build_tombstone from_seq earliest head reason =
     (let from_gap = sat_add from_seq 1;
          to_gap = earliest - 1
      in \<lparr>gap_from = from_gap, gap_to = to_gap, ts_reason = reason,
          missed_estimate = sat_add (to_gap - from_gap) 1,
          ts_earliest_seq = earliest, ts_head_seq = head\<rparr>)"

section \<open>Floors\<close>

text \<open>The pointwise order on floors: every operation of a topic only raises them.\<close>

definition floors_le :: "floors \<Rightarrow> floors \<Rightarrow> bool" where
  "floors_le f g \<longleftrightarrow> evict_floor f \<le> evict_floor g \<and> expiry_floor f \<le> expiry_floor g \<and>
     delete_floor f \<le> delete_floor g \<and> source_trim_floor f \<le> source_trim_floor g"

lemma floors_le_refl [simp]: "floors_le f f"
  by (simp add: floors_le_def)

lemma floors_le_trans: "floors_le f g \<Longrightarrow> floors_le g h \<Longrightarrow> floors_le f h"
  by (auto simp: floors_le_def)

lemma floors_le_upd [simp]:
  "floors_le f (f\<lparr>evict_floor := max (evict_floor f) n\<rparr>)"
  "floors_le f (f\<lparr>expiry_floor := max (expiry_floor f) n\<rparr>)"
  "floors_le f (f\<lparr>delete_floor := max (delete_floor f) n\<rparr>)"
  "floors_le f (f\<lparr>source_trim_floor := max (source_trim_floor f) n\<rparr>)"
  by (simp_all add: floors_le_def)

lemma floors_earliest_seq_mono:
  "floors_le f g \<Longrightarrow> head \<le> head' \<Longrightarrow> floors_earliest_seq f b head \<le> floors_earliest_seq g b head'"
  unfolding floors_earliest_seq_def floors_le_def Let_def by (intro min.mono max.mono sat_add_mono) auto

lemma floors_evict_earliest_le:
  "floors_evict_earliest f b head \<le> floors_earliest_seq f b head"
proof -
  have "max (max a b) d \<le> max (max (max a b) c) d" for a b c d :: nat
    by (intro max.mono max.cobounded1 order_refl)
  then show ?thesis
    unfolding floors_evict_earliest_def floors_earliest_seq_def Let_def
    by (intro min.mono[OF max.mono[OF sat_add_mono]] order_refl)
qed

lemma floors_earliest_seq_bounds:
  "floors_earliest_seq f b head \<le> sat_add head 1"
  "b \<le> sat_add head 1 \<Longrightarrow> b \<le> floors_earliest_seq f b head"
  by (auto simp: floors_earliest_seq_def Let_def)

lemma evict_earliest_ignores_delete [simp]:
  "floors_evict_earliest (f\<lparr>delete_floor := n\<rparr>) b head = floors_evict_earliest f b head"
  by (simp add: floors_evict_earliest_def)

section \<open>Admission and tombstones\<close>

lemma admit_old [simp]: "admit Old cr cb r b ir ib = Admit"
  by (simp add: admit_def)

lemma admit_reject_iff:
  assumes "r + ir \<le> u64_max" "b + ib \<le> u64_max"
  shows "admit Reject cr cb r b ir ib = Admit \<longleftrightarrow>
    (cr = 0 \<or> r + ir \<le> cr) \<and> (cb = 0 \<or> b + ib \<le> cb)"
  using assms by (auto simp: admit_def Let_def)

lemma build_tombstone_covers:
  assumes "from_seq < u64_max" "from_seq + 1 < earliest" "earliest \<le> u64_max"
    and t: "t = build_tombstone from_seq earliest head reason"
  shows "{gap_from t..gap_to t} = {s. from_seq < s \<and> s < earliest}"
    and "missed_estimate t = card {s. from_seq < s \<and> s < earliest}"
proof -
  have eq: "gap_from t = from_seq + 1" "gap_to t = earliest - 1"
    "missed_estimate t = earliest - 1 - (from_seq + 1) + 1"
    using assms by (auto simp: build_tombstone_def Let_def sat_add_def)
  show set: "{gap_from t..gap_to t} = {s. from_seq < s \<and> s < earliest}"
    using assms eq by auto
  have "card {gap_from t..gap_to t} = missed_estimate t"
    using assms(2) eq by simp
  then show "missed_estimate t = card {s. from_seq < s \<and> s < earliest}"
    by (simp add: set)
qed

end
