(* ===== verification/Byte_Codec.thy ===== *)
theory Byte_Codec
  imports Prelude
begin

text \<open>
  Bytes: little-endian integers of a fixed width, slices, and UTF-8 strings. A string is
  the sequence of its bytes, so \<open>as_bytes\<close> is the identity on representations; a Rust
  \<open>String\<close> holds valid UTF-8, which \<open>valid_str\<close> states where a round trip needs it. A cast
  to a narrower integer keeps the low bytes, which is what \<open>le_bytes\<close> of that width writes.
\<close>

section \<open>Little-endian integers\<close>

fun le_bytes :: "nat \<Rightarrow> nat \<Rightarrow> u8 list" where
  "le_bytes 0 v = []"
| "le_bytes (Suc n) v = word_of_nat (v mod 256) # le_bytes n (v div 256)"

fun of_le :: "u8 list \<Rightarrow> nat" where
  "of_le [] = 0"
| "of_le (b # bs) = unat b + 256 * of_le bs"

lemma length_le_bytes [simp]: "length (le_bytes n v) = n"
  by (induction n arbitrary: v) auto

lemma unat_byte: "unat (word_of_nat (v mod 256) :: u8) = v mod 256"
  by (simp add: unat_of_nat take_bit_eq_mod)

lemma of_le_bytes_mod: "of_le (le_bytes n v) = v mod 256 ^ n"
proof (induction n arbitrary: v)
  case (Suc n)
  have "of_le (le_bytes (Suc n) v) = v mod 256 + 256 * (v div 256 mod 256 ^ n)"
    by (simp add: Suc unat_byte)
  also have "\<dots> = v mod (256 * 256 ^ n)"
    by (simp add: mod_mult2_eq)
  finally show ?case by simp
qed simp

lemma of_le_bytes [simp]: "v < 256 ^ n \<Longrightarrow> of_le (le_bytes n v) = v"
  by (simp add: of_le_bytes_mod)

lemma unat_byte_lt [simp]: "unat (b :: u8) < 256"
  using unsigned_less[where w = b and 'a = nat] by simp

lemma of_le_bound: "of_le bs < 256 ^ length bs"
proof (induction bs)
  case (Cons b bs)
  then have "256 * of_le bs + 256 \<le> 256 * 256 ^ length bs"
    by (metis Suc_leI mult_Suc_right mult_le_mono2 add.commute)
  with unat_byte_lt[of b] show ?case
    unfolding of_le.simps length_Cons power_Suc by linarith
qed simp

lemma le_bytes_of_le [simp]: "le_bytes (length bs) (of_le bs) = bs"
proof (induction bs)
  case (Cons b bs)
  with unat_byte_lt[of b] show ?case by simp
qed simp

section \<open>Slices\<close>

definition sub_slice :: "nat \<Rightarrow> nat \<Rightarrow> 'a list \<Rightarrow> 'a list" where
  "sub_slice lo hi xs = take (hi - lo) (drop lo xs)"

lemma sub_slice_mid: "sub_slice (length pre) (length pre + length x) (pre @ x @ post) = x"
  by (simp add: sub_slice_def)

lemma length_sub_slice [simp]: "hi \<le> length xs \<Longrightarrow> length (sub_slice lo hi xs) = hi - lo"
  by (simp add: sub_slice_def)

section \<open>UTF-8\<close>

fun utf8_valid :: "nat list \<Rightarrow> bool" where
  "utf8_valid [] = True"
| "utf8_valid (b # bs) =
     (if b < 0x80 then utf8_valid bs
      else if 0xC2 \<le> b \<and> b \<le> 0xDF then
        (case bs of c1 # r \<Rightarrow> 0x80 \<le> c1 \<and> c1 \<le> 0xBF \<and> utf8_valid r | _ \<Rightarrow> False)
      else if 0xE0 \<le> b \<and> b \<le> 0xEF then
        (case bs of c1 # c2 # r \<Rightarrow>
           (if b = 0xE0 then 0xA0 else 0x80) \<le> c1 \<and> c1 \<le> (if b = 0xED then 0x9F else 0xBF) \<and>
           0x80 \<le> c2 \<and> c2 \<le> 0xBF \<and> utf8_valid r
         | _ \<Rightarrow> False)
      else if 0xF0 \<le> b \<and> b \<le> 0xF4 then
        (case bs of c1 # c2 # c3 # r \<Rightarrow>
           (if b = 0xF0 then 0x90 else 0x80) \<le> c1 \<and> c1 \<le> (if b = 0xF4 then 0x8F else 0xBF) \<and>
           0x80 \<le> c2 \<and> c2 \<le> 0xBF \<and> 0x80 \<le> c3 \<and> c3 \<le> 0xBF \<and> utf8_valid r
         | _ \<Rightarrow> False)
      else False)"

definition as_bytes :: "string \<Rightarrow> u8 list" where
  "as_bytes s = map (\<lambda>c. word_of_nat (of_char c)) s"

definition from_utf8 :: "u8 list \<Rightarrow> string option" where
  "from_utf8 bs = (if utf8_valid (map unat bs) then Some (map (\<lambda>b. char_of (unat b)) bs) else None)"

definition valid_str :: "string \<Rightarrow> bool" where
  "valid_str s = utf8_valid (map of_char s)"

lemma length_as_bytes [simp]: "length (as_bytes s) = length s"
  by (simp add: as_bytes_def)

lemma of_char_lt: "(of_char c :: nat) < 256"
  using range_nat_of_char by auto

lemma unat_of_char [simp]: "unat (word_of_nat (of_char c) :: u8) = of_char c"
  using of_char_lt[of c] by (simp add: unat_of_nat take_bit_eq_mod)

lemma from_utf8_as_bytes [simp]: "valid_str s \<Longrightarrow> from_utf8 (as_bytes s) = Some s"
  by (simp add: from_utf8_def as_bytes_def valid_str_def comp_def)

lemma from_utf8_valid: "from_utf8 bs = Some s \<Longrightarrow> valid_str s \<and> as_bytes s = bs"
proof -
  have "of_char (char_of (unat b)) = unat b" for b :: u8
    by simp
  then show "from_utf8 bs = Some s \<Longrightarrow> valid_str s \<and> as_bytes s = bs"
    by (auto simp: from_utf8_def valid_str_def as_bytes_def comp_def split: if_splits)
qed

lemma ascii_valid_str: "\<forall>c\<in>set s. of_char c < (128 :: nat) \<Longrightarrow> valid_str s"
proof -
  have "\<forall>b\<in>set bs. b < 128 \<Longrightarrow> utf8_valid bs" for bs
    by (induction bs) auto
  then show "\<forall>c\<in>set s. of_char c < (128 :: nat) \<Longrightarrow> valid_str s"
    by (simp add: valid_str_def)
qed

section \<open>Codecs\<close>

text \<open>
  A reader takes a buffer and a position and returns the decoded item with the position
  after it. A codec is an encoder and a reader that inverts it wherever the encoding
  stands in the buffer. \<open>reads_at buf p rest\<close> says that what is left to read from \<open>p\<close> is
  \<open>rest\<close>.
\<close>

type_synonym 'a reader = "u8 list \<Rightarrow> nat \<Rightarrow> ('a \<times> nat) option"

definition reads_at :: "u8 list \<Rightarrow> nat \<Rightarrow> u8 list \<Rightarrow> bool" where
  "reads_at buf p rest \<longleftrightarrow> p \<le> length buf \<and> drop p buf = rest"

lemma reads_at_0 [simp]: "reads_at buf 0 buf"
  by (simp add: reads_at_def)

lemma reads_at_next: "reads_at buf p (e @ post) \<Longrightarrow> reads_at buf (p + length e) post"
  unfolding reads_at_def
  by (metis add.commute append_eq_conv_conj drop_drop length_append le_add1 length_drop le_diff_conv2 add_le_cancel_left)

lemma reads_at_length: "reads_at buf p rest \<Longrightarrow> p + length rest = length buf"
  by (auto simp: reads_at_def)

lemma reads_at_split: "reads_at buf p (e @ post) \<Longrightarrow> buf = take p buf @ e @ post \<and> length (take p buf) = p"
  by (simp add: reads_at_def) (metis append_take_drop_id)

lemma reads_at_Cons: "reads_at buf p (b # post) \<Longrightarrow> p < length buf \<and> buf ! p = b"
  by (metis append_Cons append_Nil length_Cons nth_append_length reads_at_length reads_at_split less_add_Suc1 add_Suc_right)

fun read_n :: "'a reader \<Rightarrow> nat \<Rightarrow> u8 list \<Rightarrow> nat \<Rightarrow> ('a list \<times> nat) option" where
  "read_n rd 0 buf p = Some ([], p)"
| "read_n rd (Suc n) buf p =
     (case rd buf p of
        None \<Rightarrow> None
      | Some (x, p') \<Rightarrow> map_option (\<lambda>(xs, q). (x # xs, q)) (read_n rd n buf p'))"

locale byte_codec =
  fixes enc :: "'a \<Rightarrow> u8 list"
    and rd :: "'a reader"
    and valid :: "'a \<Rightarrow> bool"
  assumes rd_enc: "valid x \<Longrightarrow> rd (pre @ enc x @ post) (length pre) = Some (x, length pre + length (enc x))"
begin

lemma rd_step: "reads_at buf p (enc x @ post) \<Longrightarrow> valid x \<Longrightarrow> rd buf p = Some (x, p + length (enc x))"
  using rd_enc[of x "take p buf" post] reads_at_split[of buf p "enc x" post] by simp

lemma enc_prefix_free:
  assumes "valid x" "valid y" "enc x @ us = enc y @ vs"
  shows "x = y \<and> us = vs"
  using rd_enc[OF assms(1), of "[]" us] rd_enc[OF assms(2), of "[]" vs] assms(3) by simp

lemma enc_inj: "valid x \<Longrightarrow> valid y \<Longrightarrow> enc x = enc y \<Longrightarrow> x = y"
  using enc_prefix_free[of x y "[]" "[]"] by simp

lemma read_n_step:
  "reads_at buf p (concat (map enc xs) @ post) \<Longrightarrow> \<forall>x\<in>set xs. valid x \<Longrightarrow>
     read_n rd (length xs) buf p = Some (xs, p + length (concat (map enc xs)))"
proof (induction xs arbitrary: p)
  case (Cons x xs)
  then have at: "reads_at buf p (enc x @ concat (map enc xs) @ post)" by simp
  show ?case
    using rd_step[OF at] Cons.IH[OF reads_at_next[OF at]] Cons.prems by simp
qed simp

end

end
