(* ===== verification/Wal_Codec.thy ===== *)
theory Wal_Codec
  imports Byte_Codec "HOL-Library.Monad_Syntax"
begin

unbundle bit_operations_syntax

text \<open>
  The write-ahead log's frame format (\<open>storage/wal.rs\<close>): records, \<open>encode_frame\<close>,
  \<open>decode_one\<close> and the torn-tail safe \<open>WalReader\<close>. The checksum (XXH3-64 of the
  \<open>xxhash_rust\<close> crate) is the parameter \<open>crc\<close>; all that is used of it is that it returns a
  64-bit value.
\<close>

section \<open>Records\<close>

datatype match_sel = MEq string | MGlob string

record router_op =
  rop_name :: string
  rop_source :: string
  rop_dest :: string
  rop_preserve_node :: bool
  rop_preserve_tag :: bool
  rop_create_dest :: bool
  rop_allow_cycle :: bool
  rop_exactly_once :: bool
  rop_filter :: "match_sel option"
  rop_initial_cursor :: u64
  rop_initial_dest_base :: u64

record topic_config_op =
  tco_name :: string
  tco_config :: "u8 list"

text \<open>
  The fields stand in the order of the source's variants: the topic id first, the
  timestamp last for control records.
\<close>

datatype wal_record =
    Append u64 seq u64 "string option" "string option" "u8 list"
  | Delete u64 "seq option" "match_sel option" "seq list" "seq option" u64
  | TopicConfig u64 topic_config_op bool u64
  | RouterCreate router_op u64
  | RouterDelete string u64
  | EvictWatermark u64 seq seq seq u64
  | CheckpointMark seq u64
  | Lease u64 seq u8 string u64 u64 u64 u64
  | HeadWatermark u64 seq u64

datatype lease_event = Claimed | Released | Extended | Acked

fun lease_event_byte :: "lease_event \<Rightarrow> u8" where
  "lease_event_byte Claimed = 0"
| "lease_event_byte Released = 1"
| "lease_event_byte Extended = 2"
| "lease_event_byte Acked = 3"

fun type_tag :: "wal_record \<Rightarrow> u8" where
  "type_tag (Append _ _ _ _ _ _) = 1"
| "type_tag (Delete _ _ _ _ _ _) = 6"
| "type_tag (TopicConfig _ _ False _) = 2"
| "type_tag (TopicConfig _ _ True _) = 3"
| "type_tag (RouterCreate _ _) = 4"
| "type_tag (RouterDelete _ _) = 5"
| "type_tag (EvictWatermark _ _ _ _ _) = 7"
| "type_tag (CheckpointMark _ _) = 8"
| "type_tag (Lease _ _ _ _ _ _ _ _) = 10"
| "type_tag (HeadWatermark _ _ _) = 11"

fun wr_topic_id :: "wal_record \<Rightarrow> u64" where
  "wr_topic_id (Append t _ _ _ _ _) = t"
| "wr_topic_id (Delete t _ _ _ _ _) = t"
| "wr_topic_id (TopicConfig t _ _ _) = t"
| "wr_topic_id (EvictWatermark t _ _ _ _) = t"
| "wr_topic_id (Lease t _ _ _ _ _ _ _) = t"
| "wr_topic_id (HeadWatermark t _ _) = t"
| "wr_topic_id _ = 0"

fun wr_seq :: "wal_record \<Rightarrow> seq" where
  "wr_seq (Append _ s _ _ _ _) = s"
| "wr_seq (Lease _ s _ _ _ _ _ _) = s"
| "wr_seq _ = 0"

record wal_frame =
  wf_record :: wal_record
  wf_durable :: bool

section \<open>Body readers and writers\<close>

definition read_lp_bytes :: "u8 list reader" where
  "read_lp_bytes buf pos =
     (if pos + 4 > length buf then None
      else let n = of_le (sub_slice pos (pos + 4) buf);
               pos = pos + 4
           in if pos + n > length buf then None
              else Some (sub_slice pos (pos + n) buf, pos + n))"

definition read_lp_str :: "string reader" where
  "read_lp_str buf pos =
     do { (b, pos) \<leftarrow> read_lp_bytes buf pos; s \<leftarrow> from_utf8 b; Some (s, pos) }"

definition read_u64 :: "u64 reader" where
  "read_u64 buf pos =
     (if pos + 8 > length buf then None
      else Some (of_le (sub_slice pos (pos + 8) buf), pos + 8))"

definition read_u8 :: "u8 reader" where
  "read_u8 buf pos = (if pos + 1 > length buf then None else Some (buf ! pos, pos + 1))"

definition write_lp_bytes :: "u8 list \<Rightarrow> u8 list" where
  "write_lp_bytes b = le_bytes 4 (length b) @ b"

fun write_match :: "match_sel option \<Rightarrow> u8 list" where
  "write_match None = [0]"
| "write_match (Some (MEq v)) = [1, 0] @ write_lp_bytes (as_bytes v)"
| "write_match (Some (MGlob v)) = [1, 1] @ write_lp_bytes (as_bytes v)"

definition read_match :: "match_sel option reader" where
  "read_match buf pos =
     do { (p, pos) \<leftarrow> read_u8 buf pos;
          if p = 0 then Some (None, pos)
          else if p = 1 then
            do { (op, pos) \<leftarrow> read_u8 buf pos;
                 (v, pos) \<leftarrow> read_lp_str buf pos;
                 if op = 0 then Some (Some (MEq v), pos)
                 else if op = 1 then Some (Some (MGlob v), pos)
                 else None }
          else None }"

section \<open>Encoding\<close>

definition opt_u64 :: "u64 option \<Rightarrow> u8 list" where
  "opt_u64 x = (case x of Some b \<Rightarrow> 1 # le_bytes 8 b | None \<Rightarrow> [0])"

definition bit_if :: "bool \<Rightarrow> u8 \<Rightarrow> u8" where
  "bit_if b m = (if b then m else 0)"

definition router_bools :: "router_op \<Rightarrow> u8" where
  "router_bools op = bit_if (rop_preserve_node op) 1 OR bit_if (rop_preserve_tag op) 2 OR
     bit_if (rop_create_dest op) 4 OR bit_if (rop_allow_cycle op) 8 OR
     bit_if (rop_exactly_once op) 16"

fun frame_data :: "wal_record \<Rightarrow> u8 list" where
  "frame_data (Append _ _ _ _ _ d) = d"
| "frame_data (Delete _ before match seqs bound _) =
     opt_u64 before @ write_match match @ le_bytes 4 (length seqs) @
     concat (map (le_bytes 8) seqs) @ opt_u64 bound"
| "frame_data (TopicConfig _ op _ _) =
     write_lp_bytes (as_bytes (tco_name op)) @ write_lp_bytes (tco_config op)"
| "frame_data (RouterCreate op _) =
     write_lp_bytes (as_bytes (rop_name op)) @ write_lp_bytes (as_bytes (rop_source op)) @
     write_lp_bytes (as_bytes (rop_dest op)) @ [router_bools op] @ write_match (rop_filter op) @
     le_bytes 8 (rop_initial_cursor op) @ le_bytes 8 (rop_initial_dest_base op)"
| "frame_data (RouterDelete name _) = write_lp_bytes (as_bytes name)"
| "frame_data (EvictWatermark _ evict expiry earliest _) =
     le_bytes 8 evict @ le_bytes 8 earliest @ le_bytes 8 expiry"
| "frame_data (CheckpointMark last_checkpoint _) = le_bytes 8 last_checkpoint"
| "frame_data (Lease _ _ event node lease_id deadline deliveries _) =
     [event] @ le_bytes 8 lease_id @ le_bytes 8 deadline @ le_bytes 8 deliveries @
     write_lp_bytes (as_bytes node)"
| "frame_data (HeadWatermark _ head _) = le_bytes 8 head"

fun frame_node :: "wal_record \<Rightarrow> string option" where
  "frame_node (Append _ _ _ n _ _) = n"
| "frame_node _ = None"

fun frame_tag :: "wal_record \<Rightarrow> string option" where
  "frame_tag (Append _ _ _ _ t _) = t"
| "frame_tag _ = None"

fun frame_ts :: "wal_record \<Rightarrow> u64" where
  "frame_ts (Append _ _ ts _ _ _) = ts"
| "frame_ts (Delete _ _ _ _ _ ts) = ts"
| "frame_ts (TopicConfig _ _ _ ts) = ts"
| "frame_ts (RouterCreate _ ts) = ts"
| "frame_ts (RouterDelete _ ts) = ts"
| "frame_ts (EvictWatermark _ _ _ _ ts) = ts"
| "frame_ts (CheckpointMark _ ts) = ts"
| "frame_ts (Lease _ _ _ _ _ _ _ ts) = ts"
| "frame_ts (HeadWatermark _ _ ts) = ts"

definition opt_bytes :: "string option \<Rightarrow> u8 list" where
  "opt_bytes x = (case x of Some s \<Rightarrow> as_bytes s | None \<Rightarrow> [])"

definition frame_flags :: "wal_record \<Rightarrow> bool \<Rightarrow> u8" where
  "frame_flags r durable = bit_if durable 4 OR bit_if (frame_node r \<noteq> None) 2 OR
     bit_if (frame_tag r \<noteq> None) 1"

definition frame_body :: "wal_record \<Rightarrow> bool \<Rightarrow> u8 list" where
  "frame_body r durable =
     (let node = opt_bytes (frame_node r);
          tag = opt_bytes (frame_tag r);
          data = frame_data r
      in [type_tag r, frame_flags r durable] @ le_bytes 8 (wr_topic_id r) @
         le_bytes 8 (wr_seq r) @ le_bytes 8 (frame_ts r) @ le_bytes 2 (length node) @
         le_bytes 2 (length tag) @ le_bytes 4 (length data) @ node @ tag @ data)"

definition encode_frame :: "(u8 list \<Rightarrow> nat) \<Rightarrow> wal_record \<Rightarrow> bool \<Rightarrow> u8 list" where
  "encode_frame crc r durable =
     (let body = frame_body r durable;
          out = body @ le_bytes 8 (crc body)
      in le_bytes 4 (length out) @ out)"

section \<open>Decoding\<close>

datatype decode_step = Frame wal_frame nat | Torn

definition decode_delete :: "u64 \<Rightarrow> u64 \<Rightarrow> u8 list \<Rightarrow> wal_record option" where
  "decode_delete topic_id ts data =
     do { (has_before, pos) \<leftarrow> read_u8 data 0;
          (before, pos) \<leftarrow>
            (if has_before = 1 then do { (v, pos) \<leftarrow> read_u64 data pos; Some (Some v, pos) }
             else Some (None, pos));
          (match, pos) \<leftarrow> read_match data pos;
          if pos + 4 > length data then None
          else do {
            let n = of_le (sub_slice pos (pos + 4) data);
            (seqs, pos) \<leftarrow> read_n read_u64 n data (pos + 4);
            (has_bound, pos) \<leftarrow> read_u8 data pos;
            (bound, pos) \<leftarrow>
              (if has_bound = 1 then do { (v, pos) \<leftarrow> read_u64 data pos; Some (Some v, pos) }
               else if has_bound = 0 then Some (None, pos)
               else None);
            if pos \<noteq> length data then None
            else Some (Delete topic_id before match seqs bound ts) } }"

definition decode_topic_config :: "u64 \<Rightarrow> bool \<Rightarrow> u64 \<Rightarrow> u8 list \<Rightarrow> wal_record option" where
  "decode_topic_config topic_id tombstone ts data =
     do { (name, pos) \<leftarrow> read_lp_str data 0;
          (config, pos) \<leftarrow> read_lp_bytes data pos;
          Some (TopicConfig topic_id \<lparr>tco_name = name, tco_config = config\<rparr> tombstone ts) }"

definition decode_router_create :: "u64 \<Rightarrow> u8 list \<Rightarrow> wal_record option" where
  "decode_router_create ts data =
     do { (name, pos) \<leftarrow> read_lp_str data 0;
          (source, pos) \<leftarrow> read_lp_str data pos;
          (dest, pos) \<leftarrow> read_lp_str data pos;
          (bools, pos) \<leftarrow> read_u8 data pos;
          (flt, pos) \<leftarrow> read_match data pos;
          (initial_cursor, pos) \<leftarrow> read_u64 data pos;
          (initial_dest_base, pos) \<leftarrow> read_u64 data pos;
          if pos = length data then
            Some (RouterCreate \<lparr>rop_name = name, rop_source = source, rop_dest = dest,
              rop_preserve_node = (bools AND 1 \<noteq> 0), rop_preserve_tag = (bools AND 2 \<noteq> 0),
              rop_create_dest = (bools AND 4 \<noteq> 0), rop_allow_cycle = (bools AND 8 \<noteq> 0),
              rop_exactly_once = (bools AND 16 \<noteq> 0), rop_filter = flt,
              rop_initial_cursor = initial_cursor, rop_initial_dest_base = initial_dest_base\<rparr> ts)
          else None }"

definition decode_evict_watermark :: "u64 \<Rightarrow> u64 \<Rightarrow> u8 list \<Rightarrow> wal_record option" where
  "decode_evict_watermark topic_id ts data =
     do { (evict, pos) \<leftarrow> read_u64 data 0;
          (earliest, pos) \<leftarrow> read_u64 data pos;
          (expiry, pos) \<leftarrow> read_u64 data pos;
          if pos = length data then Some (EvictWatermark topic_id evict expiry earliest ts)
          else None }"

definition decode_lease :: "u64 \<Rightarrow> seq \<Rightarrow> u64 \<Rightarrow> u8 list \<Rightarrow> wal_record option" where
  "decode_lease topic_id s ts data =
     do { (event, pos) \<leftarrow> read_u8 data 0;
          (lease_id, pos) \<leftarrow> read_u64 data pos;
          (deadline, pos) \<leftarrow> read_u64 data pos;
          (deliveries, pos) \<leftarrow> read_u64 data pos;
          (node, pos) \<leftarrow> read_lp_str data pos;
          Some (Lease topic_id s event node lease_id deadline deliveries ts) }"

definition decode_record ::
  "u8 \<Rightarrow> u64 \<Rightarrow> seq \<Rightarrow> u64 \<Rightarrow> string option \<Rightarrow> string option \<Rightarrow> u8 list \<Rightarrow> wal_record option" where
  "decode_record tt topic_id s ts node tag data =
     (if tt = 1 then Some (Append topic_id s ts node tag data)
      else if tt = 6 then decode_delete topic_id ts data
      else if tt = 2 \<or> tt = 3 then decode_topic_config topic_id (tt = 3) ts data
      else if tt = 4 then decode_router_create ts data
      else if tt = 5 then do { (name, pos) \<leftarrow> read_lp_str data 0; Some (RouterDelete name ts) }
      else if tt = 7 then decode_evict_watermark topic_id ts data
      else if tt = 9 then decode_topic_config topic_id False ts data
      else if tt = 8 then do { (last_checkpoint, pos) \<leftarrow> read_u64 data 0; Some (CheckpointMark last_checkpoint ts) }
      else if tt = 10 then decode_lease topic_id s ts data
      else if tt = 11 then do { (head, pos) \<leftarrow> read_u64 data 0; Some (HeadWatermark topic_id head ts) }
      else None)"

text \<open>An optional string section: absent without its flag, torn if it is not UTF-8.\<close>

definition opt_section :: "bool \<Rightarrow> u8 list \<Rightarrow> string option option" where
  "opt_section present bs =
     (if present then (case from_utf8 bs of Some s \<Rightarrow> Some (Some s) | None \<Rightarrow> None) else Some None)"

definition parse_frame :: "u8 list \<Rightarrow> wal_frame option" where
  "parse_frame h =
     (let flags = h ! 1;
          node_len = of_le (sub_slice 26 28 h);
          tag_len = of_le (sub_slice 28 30 h);
          data_len = of_le (sub_slice 30 34 h);
          body = drop 34 h
      in if node_len + tag_len + data_len \<noteq> length body then None
         else do {
           node \<leftarrow> opt_section (flags AND 2 \<noteq> 0) (take node_len body);
           tag \<leftarrow> opt_section (flags AND 1 \<noteq> 0) (sub_slice node_len (node_len + tag_len) body);
           r \<leftarrow> decode_record (h ! 0) (of_le (sub_slice 2 10 h)) (of_le (sub_slice 10 18 h))
                 (of_le (sub_slice 18 26 h)) node tag (drop (node_len + tag_len) body);
           Some \<lparr>wf_record = r, wf_durable = (flags AND 4 \<noteq> 0)\<rparr> })"

definition decode_one :: "(u8 list \<Rightarrow> nat) \<Rightarrow> u8 list \<Rightarrow> decode_step" where
  "decode_one crc buf =
     (if length buf < 4 then Torn
      else let frame_len = of_le (sub_slice 0 4 buf) in
        if frame_len < 34 + 8 then Torn
        else let total = 4 + frame_len in
          if length buf < total then Torn
          else let crc_start = total - 8 in
            if of_le (sub_slice crc_start total buf) \<noteq> crc (sub_slice 4 crc_start buf) then Torn
            else case parse_frame (sub_slice 4 crc_start buf) of
                   None \<Rightarrow> Torn
                 | Some frame \<Rightarrow> Frame frame total)"

section \<open>The reader\<close>

record wal_reader =
  rd_buf :: "u8 list"
  rd_pos :: nat
  valid_len :: nat
  rd_done :: bool

definition wal_reader_new :: "u8 list \<Rightarrow> wal_reader" where
  "wal_reader_new buf = \<lparr>rd_buf = buf, rd_pos = 0, valid_len = 0, rd_done = False\<rparr>"

definition wal_reader_next :: "(u8 list \<Rightarrow> nat) \<Rightarrow> wal_reader \<Rightarrow> wal_frame option \<times> wal_reader" where
  "wal_reader_next crc rd =
     (if rd_done rd then (None, rd)
      else case decode_one crc (drop (rd_pos rd) (rd_buf rd)) of
             Frame frame consumed \<Rightarrow>
               (Some frame, rd\<lparr>rd_pos := rd_pos rd + consumed, valid_len := rd_pos rd + consumed\<rparr>)
           | Torn \<Rightarrow> (None, rd\<lparr>rd_done := True\<rparr>))"

lemma decode_one_consumed: "decode_one crc buf = Frame f n \<Longrightarrow> 46 \<le> n \<and> n \<le> length buf"
  by (auto simp: decode_one_def Let_def split: if_splits option.splits)

text \<open>Draining the reader, as recovery does: the frames in order and the valid length.\<close>

function wal_drain :: "(u8 list \<Rightarrow> nat) \<Rightarrow> wal_reader \<Rightarrow> wal_frame list \<times> wal_reader" where
  "wal_drain crc rd =
     (case wal_reader_next crc rd of
        (None, rd') \<Rightarrow> ([], rd')
      | (Some f, rd') \<Rightarrow> (let (fs, rd'') = wal_drain crc rd' in (f # fs, rd'')))"
  by auto
termination
  by (relation "measure (\<lambda>(crc, rd). length (rd_buf rd) - rd_pos rd)")
     (auto simp: wal_reader_next_def dest!: decode_one_consumed split: if_splits decode_step.splits)

declare wal_drain.simps [simp del]

definition read_wal :: "(u8 list \<Rightarrow> nat) \<Rightarrow> u8 list \<Rightarrow> wal_frame list \<times> nat" where
  "read_wal crc buf = (let (fs, rd) = wal_drain crc (wal_reader_new buf) in (fs, valid_len rd))"

section \<open>Well-formed records\<close>

text \<open>
  The values a record may hold so that its frame stores them: 64-bit integers, UTF-8
  strings, and lengths that fit their length fields (16 bits for node and tag, 32 bits for
  the rest; the engine caps node, tag and record size far below these).
\<close>

definition u64_ok :: "nat \<Rightarrow> bool" where
  "u64_ok n \<longleftrightarrow> n < 256 ^ 8"

definition lp_ok :: "u8 list \<Rightarrow> bool" where
  "lp_ok b \<longleftrightarrow> length b < 256 ^ 4"

definition str_ok :: "string \<Rightarrow> bool" where
  "str_ok s \<longleftrightarrow> valid_str s \<and> length s < 256 ^ 4"

definition short_str_ok :: "string option \<Rightarrow> bool" where
  "short_str_ok x \<longleftrightarrow> (case x of None \<Rightarrow> True | Some s \<Rightarrow> valid_str s \<and> length s < 256 ^ 2)"

fun match_ok :: "match_sel option \<Rightarrow> bool" where
  "match_ok None \<longleftrightarrow> True"
| "match_ok (Some (MEq v)) \<longleftrightarrow> str_ok v"
| "match_ok (Some (MGlob v)) \<longleftrightarrow> str_ok v"

definition opt_ok :: "nat option \<Rightarrow> bool" where
  "opt_ok x \<longleftrightarrow> (case x of None \<Rightarrow> True | Some n \<Rightarrow> u64_ok n)"

fun fields_ok :: "wal_record \<Rightarrow> bool" where
  "fields_ok (Append t s ts n g d) \<longleftrightarrow> short_str_ok n \<and> short_str_ok g"
| "fields_ok (Delete t before m seqs bound ts) \<longleftrightarrow>
     opt_ok before \<and> match_ok m \<and> list_all u64_ok seqs \<and> length seqs < 256 ^ 4 \<and> opt_ok bound"
| "fields_ok (TopicConfig t op tomb ts) \<longleftrightarrow> str_ok (tco_name op) \<and> lp_ok (tco_config op)"
| "fields_ok (RouterCreate op ts) \<longleftrightarrow> str_ok (rop_name op) \<and> str_ok (rop_source op) \<and>
     str_ok (rop_dest op) \<and> match_ok (rop_filter op) \<and> u64_ok (rop_initial_cursor op) \<and>
     u64_ok (rop_initial_dest_base op)"
| "fields_ok (RouterDelete n ts) \<longleftrightarrow> str_ok n"
| "fields_ok (EvictWatermark t ev ex ea ts) \<longleftrightarrow> u64_ok ev \<and> u64_ok ex \<and> u64_ok ea"
| "fields_ok (CheckpointMark l ts) \<longleftrightarrow> u64_ok l"
| "fields_ok (Lease t s e n l dl dv ts) \<longleftrightarrow> u64_ok l \<and> u64_ok dl \<and> u64_ok dv \<and> str_ok n"
| "fields_ok (HeadWatermark t h ts) \<longleftrightarrow> u64_ok h"

text \<open>A frame's length field has 32 bits and also counts the header and the checksum.\<close>

definition record_ok :: "wal_record \<Rightarrow> bool" where
  "record_ok r \<longleftrightarrow> fields_ok r \<and> u64_ok (wr_topic_id r) \<and> u64_ok (wr_seq r) \<and> u64_ok (frame_ts r) \<and>
     length (opt_bytes (frame_node r)) + length (opt_bytes (frame_tag r)) + length (frame_data r) + 42 < 256 ^ 4"

definition crc_u64 :: "(u8 list \<Rightarrow> nat) \<Rightarrow> bool" where
  "crc_u64 crc \<longleftrightarrow> (\<forall>bs. crc bs < 256 ^ 8)"

section \<open>The body codecs\<close>

interpretation u64c: byte_codec "le_bytes 8" read_u64 u64_ok
  by unfold_locales (simp add: read_u64_def sub_slice_def u64_ok_def)

interpretation u8c: byte_codec "\<lambda>b. [b]" read_u8 "\<lambda>b. True"
  by unfold_locales (simp add: read_u8_def nth_append)

interpretation lpc: byte_codec write_lp_bytes read_lp_bytes lp_ok
proof
  fix x pre post assume "lp_ok x"
  then have "of_le (le_bytes 4 (length x)) = length x"
    by (simp add: lp_ok_def)
  then show "read_lp_bytes (pre @ write_lp_bytes x @ post) (length pre) =
      Some (x, length pre + length (write_lp_bytes x))"
    by (simp add: read_lp_bytes_def write_lp_bytes_def sub_slice_def Let_def)
qed

interpretation strc: byte_codec "\<lambda>s. write_lp_bytes (as_bytes s)" read_lp_str str_ok
  using lpc.rd_enc by unfold_locales (simp add: read_lp_str_def str_ok_def lp_ok_def)

interpretation matchc: byte_codec write_match read_match match_ok
proof
  fix x pre post assume ok: "match_ok x"
  have tag: "read_u8 (pre @ write_match x @ post) (length pre) = Some (hd (write_match x), length pre + 1)"
    by (cases "x" rule: write_match.cases) (auto simp: read_u8_def nth_append)
  show "read_match (pre @ write_match x @ post) (length pre) = Some (x, length pre + length (write_match x))"
  proof (cases "x" rule: write_match.cases)
    case 1
    then show ?thesis
      using tag by (simp add: read_match_def)
  next
    case (2 v)
    have "read_u8 (pre @ write_match x @ post) (length pre + 1) = Some (0, length pre + 2)"
      by (simp add: 2 read_u8_def nth_append)
    moreover have "read_lp_str (pre @ write_match x @ post) (length pre + 2) =
        Some (v, length pre + length (write_match x))"
      using strc.rd_enc[of v "pre @ [1, 0]" post] ok by (simp add: 2)
    ultimately show ?thesis
      using tag by (simp add: read_match_def 2)
  next
    case (3 v)
    have "read_u8 (pre @ write_match x @ post) (length pre + 1) = Some (1, length pre + 2)"
      by (simp add: 3 read_u8_def nth_append)
    moreover have "read_lp_str (pre @ write_match x @ post) (length pre + 2) =
        Some (v, length pre + length (write_match x))"
      using strc.rd_enc[of v "pre @ [1, 1]" post] ok by (simp add: 3)
    ultimately show ?thesis
      using tag by (simp add: read_match_def 3)
  qed
qed

lemma length_write_lp [simp]: "length (write_lp_bytes b) = 4 + length b"
  by (simp add: write_lp_bytes_def)

lemma read_opt_u64:
  assumes "reads_at buf p (opt_u64 x @ post)" "opt_ok x"
  shows "(x = None \<and> read_u8 buf p = Some (0, p + 1)) \<or>
    (\<exists>v. x = Some v \<and> read_u8 buf p = Some (1, p + 1) \<and> read_u64 buf (p + 1) = Some (v, p + 9))"
proof (cases x)
  case None
  then show ?thesis
    using assms u8c.rd_step[of buf p 0 post] by (simp add: opt_u64_def)
next
  case (Some v)
  have at: "reads_at buf p ([1] @ le_bytes 8 v @ post)"
    using assms(1) by (simp add: opt_u64_def Some)
  show ?thesis
    using u8c.rd_step[OF at] u64c.rd_step[OF reads_at_next[OF at]] assms(2)
    by (simp add: Some opt_ok_def)
qed

lemma length_opt_u64: "length (opt_u64 x) = (case x of None \<Rightarrow> 1 | Some v \<Rightarrow> 9)"
  by (simp add: opt_u64_def split: option.splits)

lemma decode_delete_enc:
  assumes "fields_ok (Delete t before m seqs bound ts)"
  shows "decode_delete t ts (frame_data (Delete t before m seqs bound ts)) = Some (Delete t before m seqs bound ts)"
proof -
  define data where "data = frame_data (Delete t before m seqs bound ts)"
  define p1 where "p1 = length (opt_u64 before)"
  define p2 where "p2 = p1 + length (write_match m)"
  define p3 where "p3 = p2 + 4 + length (concat (map (le_bytes 8) seqs))"
  have ok: "opt_ok before" "match_ok m" "\<forall>s\<in>set seqs. u64_ok s" "length seqs < 256 ^ 4" "opt_ok bound"
    using assms by (simp_all add: list_all_iff)
  have a0: "reads_at data 0 (opt_u64 before @ write_match m @ le_bytes 4 (length seqs) @
      concat (map (le_bytes 8) seqs) @ opt_u64 bound)"
    by (simp add: data_def reads_at_def)
  note a1 = reads_at_next[OF a0, folded p1_def, simplified]
  note a2 = reads_at_next[OF a1, folded p2_def]
  note a3 = reads_at_next[OF a2, simplified]
  note a4 = reads_at_next[OF a3, folded p3_def]
  have len: "p3 + length (opt_u64 bound) = length data"
    using reads_at_length[OF a4] .
  have n: "of_le (sub_slice p2 (p2 + 4) data) = length seqs"
    using reads_at_split[OF a2] ok(4) sub_slice_mid[of "take p2 data" "le_bytes 4 (length seqs)"]
    by (metis length_le_bytes of_le_bytes)
  have m: "read_match data p1 = Some (m, p2)"
    using matchc.rd_step[OF a1] ok by (simp add: p2_def)
  have s: "read_n read_u64 (length seqs) data (p2 + 4) = Some (seqs, p3)"
    using u64c.read_n_step[OF a3] ok by (simp add: p3_def)
  have four: "\<not> p2 + 4 > length data"
    using reads_at_length[OF a2] by simp
  have b: "(x = None \<and> read_u8 data 0 = Some (0, 1)) \<or>
      (\<exists>v. x = Some v \<and> read_u8 data 0 = Some (1, 1) \<and> read_u64 data 1 = Some (v, 9))"
    if "x = before" for x
    using read_opt_u64[OF a0 ok(1)] that by simp
  have e: "(bound = None \<and> read_u8 data p3 = Some (0, p3 + 1)) \<or>
      (\<exists>v. bound = Some v \<and> read_u8 data p3 = Some (1, p3 + 1) \<and> read_u64 data (p3 + 1) = Some (v, p3 + 9))"
    using read_opt_u64[of data p3 bound "[]"] a4 ok(5) by simp
  have p1: "p1 = (case before of None \<Rightarrow> 1 | Some v \<Rightarrow> 9)"
    by (simp add: p1_def length_opt_u64)
  show ?thesis
    unfolding data_def[symmetric] using b[OF refl] e m s n four len p1
    by (auto simp: decode_delete_def length_opt_u64)
qed

lemma decode_topic_config_enc:
  assumes "str_ok (tco_name op)" "lp_ok (tco_config op)"
  shows "decode_topic_config t tomb ts (frame_data (TopicConfig t op tomb' ts')) = Some (TopicConfig t op tomb ts)"
proof -
  define data where "data = frame_data (TopicConfig t op tomb' ts')"
  have a0: "reads_at data 0 (write_lp_bytes (as_bytes (tco_name op)) @ write_lp_bytes (tco_config op) @ [])"
    by (simp add: data_def reads_at_def)
  show ?thesis
    unfolding data_def[symmetric]
    using strc.rd_step[OF a0 assms(1)] lpc.rd_step[OF reads_at_next[OF a0] assms(2)]
    by (simp add: decode_topic_config_def)
qed

lemma router_bools_bits:
  "router_bools op AND 1 \<noteq> 0 \<longleftrightarrow> rop_preserve_node op"
  "router_bools op AND 2 \<noteq> 0 \<longleftrightarrow> rop_preserve_tag op"
  "router_bools op AND 4 \<noteq> 0 \<longleftrightarrow> rop_create_dest op"
  "router_bools op AND 8 \<noteq> 0 \<longleftrightarrow> rop_allow_cycle op"
  "router_bools op AND 16 \<noteq> 0 \<longleftrightarrow> rop_exactly_once op"
  by (cases "rop_preserve_node op"; cases "rop_preserve_tag op"; cases "rop_create_dest op";
      cases "rop_allow_cycle op"; cases "rop_exactly_once op"; simp add: router_bools_def bit_if_def)+

lemma decode_router_create_enc:
  assumes "fields_ok (RouterCreate op ts)"
  shows "decode_router_create ts (frame_data (RouterCreate op ts)) = Some (RouterCreate op ts)"
proof -
  define data where "data = frame_data (RouterCreate op ts)"
  have ok: "str_ok (rop_name op)" "str_ok (rop_source op)" "str_ok (rop_dest op)" "match_ok (rop_filter op)"
    "u64_ok (rop_initial_cursor op)" "u64_ok (rop_initial_dest_base op)"
    using assms by simp_all
  have a0: "reads_at data 0 (write_lp_bytes (as_bytes (rop_name op)) @ write_lp_bytes (as_bytes (rop_source op)) @
     write_lp_bytes (as_bytes (rop_dest op)) @ [router_bools op] @ write_match (rop_filter op) @
     le_bytes 8 (rop_initial_cursor op) @ le_bytes 8 (rop_initial_dest_base op) @ [])"
    by (simp add: data_def reads_at_def)
  note a1 = reads_at_next[OF a0]
  note a2 = reads_at_next[OF a1]
  note a3 = reads_at_next[OF a2]
  note a4 = reads_at_next[OF a3]
  note a5 = reads_at_next[OF a4]
  note a6 = reads_at_next[OF a5]
  show ?thesis
    unfolding data_def[symmetric] decode_router_create_def
    using strc.rd_step[OF a0 ok(1)] strc.rd_step[OF a1 ok(2)] strc.rd_step[OF a2 ok(3)]
      u8c.rd_step[OF a3 TrueI] matchc.rd_step[OF a4 ok(4)] u64c.rd_step[OF a5 ok(5)]
      u64c.rd_step[OF a6 ok(6)] reads_at_length[OF a6]
    by (simp add: router_bools_bits)
qed

lemma decode_evict_watermark_enc:
  assumes "fields_ok (EvictWatermark t ev ex ea ts)"
  shows "decode_evict_watermark t ts (frame_data (EvictWatermark t ev ex ea ts)) = Some (EvictWatermark t ev ex ea ts)"
proof -
  define data where "data = frame_data (EvictWatermark t ev ex ea ts)"
  have a0: "reads_at data 0 (le_bytes 8 ev @ le_bytes 8 ea @ le_bytes 8 ex @ [])"
    by (simp add: data_def reads_at_def)
  note a1 = reads_at_next[OF a0]
  note a2 = reads_at_next[OF a1]
  show ?thesis
    unfolding data_def[symmetric] decode_evict_watermark_def
    using u64c.rd_step[OF a0] u64c.rd_step[OF a1] u64c.rd_step[OF a2] reads_at_length[OF a2] assms
    by simp
qed

lemma decode_lease_enc:
  assumes "fields_ok (Lease t s e n l dl dv ts)"
  shows "decode_lease t s ts (frame_data (Lease t s e n l dl dv ts)) = Some (Lease t s e n l dl dv ts)"
proof -
  define data where "data = frame_data (Lease t s e n l dl dv ts)"
  have a0: "reads_at data 0 ([e] @ le_bytes 8 l @ le_bytes 8 dl @ le_bytes 8 dv @ write_lp_bytes (as_bytes n) @ [])"
    by (simp add: data_def reads_at_def)
  note a1 = reads_at_next[OF a0]
  note a2 = reads_at_next[OF a1]
  note a3 = reads_at_next[OF a2]
  note a4 = reads_at_next[OF a3]
  show ?thesis
    unfolding data_def[symmetric] decode_lease_def
    using u8c.rd_step[OF a0 TrueI] u64c.rd_step[OF a1] u64c.rd_step[OF a2] u64c.rd_step[OF a3]
      strc.rd_step[OF a4] assms
    by simp
qed

lemma decode_record_enc:
  assumes "fields_ok r"
  shows "decode_record (type_tag r) (wr_topic_id r) (wr_seq r) (frame_ts r) (frame_node r) (frame_tag r) (frame_data r) = Some r"
proof (cases r)
  case (TopicConfig t op tomb ts)
  then show ?thesis
    using assms decode_topic_config_enc[of op t tomb ts tomb ts]
    by (cases tomb) (simp_all add: decode_record_def del: frame_data.simps)
next
  case (RouterDelete n ts)
  then show ?thesis
    using assms strc.rd_enc[of n "[]" "[]"] by (simp add: decode_record_def)
next
  case (CheckpointMark l ts)
  then show ?thesis
    using assms u64c.rd_enc[of l "[]" "[]"] by (simp add: decode_record_def)
next
  case (HeadWatermark t h ts)
  then show ?thesis
    using assms u64c.rd_enc[of h "[]" "[]"] by (simp add: decode_record_def)
qed (use assms decode_delete_enc decode_router_create_enc decode_evict_watermark_enc decode_lease_enc in
    \<open>simp_all add: decode_record_def del: frame_data.simps(2-)\<close>)

section \<open>Frames\<close>

lemma frame_flags_bits:
  "frame_flags r d AND 4 \<noteq> 0 \<longleftrightarrow> d"
  "frame_flags r d AND 2 \<noteq> 0 \<longleftrightarrow> frame_node r \<noteq> None"
  "frame_flags r d AND 1 \<noteq> 0 \<longleftrightarrow> frame_tag r \<noteq> None"
  by (cases d; cases "frame_node r = None"; cases "frame_tag r = None";
      simp add: frame_flags_def bit_if_def)+

lemma short_strs_ok: "fields_ok r \<Longrightarrow> short_str_ok (frame_node r) \<and> short_str_ok (frame_tag r)"
  by (cases r) (auto simp: short_str_ok_def)

lemma opt_section_bytes: "short_str_ok x \<Longrightarrow> opt_section (x \<noteq> None) (opt_bytes x) = Some x"
  by (cases x) (auto simp: opt_section_def opt_bytes_def short_str_ok_def)

lemma short_str_length: "short_str_ok x \<Longrightarrow> length (opt_bytes x) < 256 ^ 2"
  by (cases x) (auto simp: opt_bytes_def short_str_ok_def)

lemma length_frame_body:
  "length (frame_body r d) = 34 + length (opt_bytes (frame_node r)) + length (opt_bytes (frame_tag r)) + length (frame_data r)"
  by (simp add: frame_body_def Let_def)

lemma parse_frame_body:
  assumes "record_ok r"
  shows "parse_frame (frame_body r d) = Some \<lparr>wf_record = r, wf_durable = d\<rparr>"
proof -
  let ?h = "frame_body r d" and ?n = "opt_bytes (frame_node r)" and ?t = "opt_bytes (frame_tag r)"
    and ?d = "frame_data r"
  have ok: "fields_ok r" "u64_ok (wr_topic_id r)" "u64_ok (wr_seq r)" "u64_ok (frame_ts r)"
    "length ?d < 256 ^ 4"
    using assms by (auto simp: record_ok_def)
  have strs: "short_str_ok (frame_node r)" "short_str_ok (frame_tag r)"
    using short_strs_ok[OF ok(1)] by auto
  have fields: "?h ! 0 = type_tag r" "?h ! 1 = frame_flags r d"
      "sub_slice 2 10 ?h = le_bytes 8 (wr_topic_id r)" "sub_slice 10 18 ?h = le_bytes 8 (wr_seq r)"
      "sub_slice 18 26 ?h = le_bytes 8 (frame_ts r)" "sub_slice 26 28 ?h = le_bytes 2 (length ?n)"
      "sub_slice 28 30 ?h = le_bytes 2 (length ?t)" "sub_slice 30 34 ?h = le_bytes 4 (length ?d)"
      "drop 34 ?h = ?n @ ?t @ ?d"
    by (simp_all add: frame_body_def Let_def sub_slice_def)
  have nums: "of_le (le_bytes 8 (wr_topic_id r)) = wr_topic_id r" "of_le (le_bytes 8 (wr_seq r)) = wr_seq r"
      "of_le (le_bytes 8 (frame_ts r)) = frame_ts r" "of_le (le_bytes 2 (length ?n)) = length ?n"
      "of_le (le_bytes 2 (length ?t)) = length ?t" "of_le (le_bytes 4 (length ?d)) = length ?d"
    using ok strs[THEN short_str_length] by (simp_all add: u64_ok_def)
  show ?thesis
    unfolding parse_frame_def Let_def fields nums
    using decode_record_enc[OF ok(1)] strs[THEN opt_section_bytes]
    by (simp add: frame_flags_bits sub_slice_def)
qed

lemma decode_encode_frame:
  assumes "record_ok r" "crc_u64 crc"
  shows "decode_one crc (encode_frame crc r d @ rest) =
    Frame \<lparr>wf_record = r, wf_durable = d\<rparr> (length (encode_frame crc r d))"
proof -
  let ?b = "frame_body r d"
  let ?out = "?b @ le_bytes 8 (crc ?b)"
  let ?buf = "le_bytes 4 (length ?out) @ ?out @ rest"
  have enc: "encode_frame crc r d @ rest = ?buf" "length (encode_frame crc r d) = 4 + length ?out"
    by (simp_all add: encode_frame_def Let_def)
  have "length ?out < 256 ^ 4"
    using assms(1) by (simp add: record_ok_def length_frame_body)
  then have len: "of_le (sub_slice 0 4 ?buf) = length ?out"
    by (simp add: sub_slice_def)
  have min: "\<not> length ?out < 34 + 8" "\<not> length ?buf < 4" "\<not> length ?buf < 4 + length ?out"
    by (simp_all add: length_frame_body)
  have "4 + length ?out - 8 = 4 + length ?b" by simp
  moreover have "sub_slice 4 (4 + length ?b) ?buf = ?b" "sub_slice (4 + length ?b) (4 + length ?out) ?buf = le_bytes 8 (crc ?b)"
    by (simp_all add: sub_slice_def)
  moreover have "of_le (le_bytes 8 (crc ?b)) = crc ?b"
    using assms(2) by (simp add: crc_u64_def)
  ultimately show ?thesis
    unfolding enc decode_one_def Let_def len
    using min parse_frame_body[OF assms(1)] by simp
qed

lemma length_encode_frame: "46 \<le> length (encode_frame crc r d)"
  by (simp add: encode_frame_def Let_def length_frame_body)

text \<open>A strict prefix of a frame is torn, and so is preallocated zero space.\<close>

lemma decode_strict_prefix:
  assumes "record_ok r" "k < length (encode_frame crc r d)"
  shows "decode_one crc (take k (encode_frame crc r d)) = Torn"
proof (cases "k < 4")
  case True
  then have "length (take k (encode_frame crc r d)) < 4" by simp
  then show ?thesis
    by (simp only: decode_one_def if_True)
next
  case False
  let ?out = "frame_body r d @ le_bytes 8 (crc (frame_body r d))"
  have enc: "encode_frame crc r d = le_bytes 4 (length ?out) @ ?out"
    by (simp add: encode_frame_def Let_def)
  have "length ?out < 256 ^ 4"
    using assms(1) by (simp add: record_ok_def length_frame_body)
  then have "of_le (sub_slice 0 4 (take k (encode_frame crc r d))) = length ?out"
    using False by (simp add: enc sub_slice_def min_def)
  moreover have "length (take k (encode_frame crc r d)) < 4 + length ?out"
    using assms(2) by (simp add: enc)
  ultimately show ?thesis
    by (simp add: decode_one_def Let_def)
qed

lemma decode_zeros: "decode_one crc (replicate n 0) = Torn"
proof -
  have "of_le (replicate m 0) = 0" for m
    by (induction m) auto
  then show ?thesis
    by (simp add: decode_one_def sub_slice_def min_def)
qed

section \<open>Reading a log\<close>

definition encode_frames :: "(u8 list \<Rightarrow> nat) \<Rightarrow> wal_frame list \<Rightarrow> u8 list" where
  "encode_frames crc fs = concat (map (\<lambda>f. encode_frame crc (wf_record f) (wf_durable f)) fs)"

lemma wal_drain_frames:
  assumes "crc_u64 crc" "\<forall>f\<in>set fs. record_ok (wf_record f)" "decode_one crc tail = Torn"
    "rd_buf rd = pre @ encode_frames crc fs @ tail" "rd_pos rd = length pre" "\<not> rd_done rd"
    "valid_len rd = length pre"
  shows "fst (wal_drain crc rd) = fs \<and> valid_len (snd (wal_drain crc rd)) = length pre + length (encode_frames crc fs)"
  using assms
proof (induction fs arbitrary: pre rd)
  case Nil
  then show ?case
    by (subst (1 2) wal_drain.simps) (simp add: wal_reader_next_def encode_frames_def)
next
  case (Cons f fs)
  let ?e = "encode_frame crc (wf_record f) (wf_durable f)"
  let ?rd = "rd\<lparr>rd_pos := length pre + length ?e, valid_len := length pre + length ?e\<rparr>"
  have "decode_one crc (drop (rd_pos rd) (rd_buf rd)) = Frame f (length ?e)"
    using decode_encode_frame[of "wf_record f" crc "wf_durable f" "encode_frames crc fs @ tail"] Cons.prems
    by (simp add: encode_frames_def)
  then have step: "wal_reader_next crc rd = (Some f, ?rd)"
    using Cons.prems by (simp add: wal_reader_next_def)
  have "fst (wal_drain crc ?rd) = fs \<and>
      valid_len (snd (wal_drain crc ?rd)) = length (pre @ ?e) + length (encode_frames crc fs)"
    using Cons.prems by (intro Cons.IH) (auto simp: encode_frames_def)
  then show ?case
    by (subst (1 2) wal_drain.simps) (auto simp: step encode_frames_def split: prod.splits)
qed

lemma read_wal_frames:
  assumes "crc_u64 crc" "\<forall>f\<in>set fs. record_ok (wf_record f)" "decode_one crc tail = Torn"
  shows "read_wal crc (encode_frames crc fs @ tail) = (fs, length (encode_frames crc fs))"
  using wal_drain_frames[OF assms, of "wal_reader_new (encode_frames crc fs @ tail)" "[]"]
  by (auto simp: read_wal_def wal_reader_new_def split: prod.splits)

text \<open>Cutting a log at any byte leaves a whole number of frames and a torn rest.\<close>

lemma encode_frames_cut:
  assumes "\<forall>f\<in>set fs. record_ok (wf_record f)"
  shows "\<exists>n tail. take k (encode_frames crc fs) = encode_frames crc (take n fs) @ tail \<and>
    decode_one crc tail = Torn \<and> n \<le> length fs \<and>
    (n < length fs \<longrightarrow> k < length (encode_frames crc (take (Suc n) fs)))"
  using assms
proof (induction fs arbitrary: k)
  case Nil
  then show ?case
    using decode_zeros[of crc 0] by (simp add: encode_frames_def)
next
  case (Cons f fs)
  let ?e = "encode_frame crc (wf_record f) (wf_durable f)"
  show ?case
  proof (cases "k < length ?e")
    case True
    then have "take k (encode_frames crc (f # fs)) = encode_frames crc (take 0 (f # fs)) @ take k ?e"
      by (simp add: encode_frames_def)
    moreover have "decode_one crc (take k ?e) = Torn"
      using Cons.prems True by (intro decode_strict_prefix) auto
    ultimately show ?thesis
      using True by (intro exI[of _ 0] exI[of _ "take k ?e"]) (simp add: encode_frames_def)
  next
    case False
    obtain n tail where n: "take (k - length ?e) (encode_frames crc fs) = encode_frames crc (take n fs) @ tail"
      "decode_one crc tail = Torn" "n \<le> length fs"
      "n < length fs \<longrightarrow> k - length ?e < length (encode_frames crc (take (Suc n) fs))"
      using Cons.IH[of "k - length ?e"] Cons.prems by auto
    then show ?thesis
      using False by (intro exI[of _ "Suc n"] exI[of _ tail]) (auto simp: encode_frames_def)
  qed
qed

end
