(* ===== verification/Ordered_Map.thy ===== *)
theory Ordered_Map
  imports Prelude
begin

text \<open>
  The ordered map of the standard library (\<open>BTreeMap\<close>) as the engine uses it: point
  lookup, insert, remove, iteration from a lower bound in key order, and the greatest key
  up to a bound. The interface is a locale; the clients' lemmas (extensionality, and that
  a scan stopped at the first key outside an initial run visits exactly that run) are
  proved once from its laws. The model of the map is an association list with strictly
  ascending keys.
\<close>

section \<open>The interface\<close>

locale ordered_map =
  fixes emp :: "'m"
    and get :: "'m \<Rightarrow> 'k::linorder \<Rightarrow> 'v option"
    and put :: "'k \<Rightarrow> 'v \<Rightarrow> 'm \<Rightarrow> 'm"
    and rem :: "'k \<Rightarrow> 'm \<Rightarrow> 'm"
    and entries :: "'m \<Rightarrow> ('k \<times> 'v) list"
    and from_key :: "'k \<Rightarrow> 'm \<Rightarrow> ('k \<times> 'v) list"
    and last_upto :: "'k \<Rightarrow> 'm \<Rightarrow> ('k \<times> 'v) option"
    and invar :: "'m \<Rightarrow> bool"
  assumes get_emp: "get emp k = None"
    and get_put: "invar m \<Longrightarrow> get (put k v m) k' = (if k' = k then Some v else get m k')"
    and get_rem: "invar m \<Longrightarrow> get (rem k m) k' = (if k' = k then None else get m k')"
    and entries_sorted: "invar m \<Longrightarrow> sorted_wrt (<) (map fst (entries m))"
    and get_entries: "invar m \<Longrightarrow> get m = map_of (entries m)"
    and from_key_entries: "invar m \<Longrightarrow> from_key k m = filter (\<lambda>p. k \<le> fst p) (entries m)"
    and last_upto_None: "invar m \<Longrightarrow> last_upto k m = None \<Longrightarrow> get m j = Some v \<Longrightarrow> k < j"
    and last_upto_Some: "invar m \<Longrightarrow> last_upto k m = Some (i, v) \<Longrightarrow>
      i \<le> k \<and> get m i = Some v \<and> (\<forall>j w. get m j = Some w \<longrightarrow> j \<le> k \<longrightarrow> j \<le> i)"
    and invar_emp: "invar emp"
    and invar_put: "invar m \<Longrightarrow> invar (put k v m)"
    and invar_rem: "invar m \<Longrightarrow> invar (rem k m)"
begin

lemma keys_sorted_distinct:
  "invar m \<Longrightarrow> sorted (map fst (entries m)) \<and> distinct (map fst (entries m))"
  using entries_sorted by (simp add: strict_sorted_iff)

lemma mem_entries: "invar m \<Longrightarrow> (k, v) \<in> set (entries m) \<longleftrightarrow> get m k = Some v"
  using keys_sorted_distinct get_entries by simp

lemma entries_ext:
  assumes "invar m" "invar m'" "\<And>k. get m k = get m' k"
  shows "entries m = entries m'"
proof (rule map_sorted_distinct_set_unique)
  show set: "set (entries m) = set (entries m')"
    using assms mem_entries by auto
  show "inj_on fst (set (entries m) \<union> set (entries m'))"
    using keys_sorted_distinct[OF assms(1)] set by (simp add: distinct_map)
qed (use assms keys_sorted_distinct in auto)

text \<open>
  A scan from \<open>k\<close> that stops at the first key outside \<open>P\<close> visits exactly the entries of
  \<open>P\<close>, provided \<open>P\<close> is an initial segment of the keys from \<open>k\<close> on.
\<close>

lemma scan_initial_segment:
  assumes inv: "invar m"
    and lower: "\<And>j. P j \<Longrightarrow> k \<le> j"
    and down: "\<And>i j. k \<le> i \<Longrightarrow> i < j \<Longrightarrow> P j \<Longrightarrow> P i"
  shows "takeWhile (\<lambda>p. P (fst p)) (from_key k m) = filter (\<lambda>p. P (fst p)) (entries m)"
proof -
  have run: "takeWhile (\<lambda>p. P (fst p)) xs = filter (\<lambda>p. P (fst p)) xs"
    if "sorted_wrt (<) (map fst xs)" "\<forall>p\<in>set xs. k \<le> fst p" for xs :: "('k \<times> 'v) list"
    using that
  proof (induction xs)
    case (Cons p xs)
    then show ?case
      using down by (fastforce simp: filter_empty_conv)
  qed simp
  have "sorted_wrt (<) (map fst (from_key k m))"
    using entries_sorted[OF inv] by (auto simp: from_key_entries[OF inv] sorted_wrt_map intro: sorted_wrt_filter)
  then have "takeWhile (\<lambda>p. P (fst p)) (from_key k m) = filter (\<lambda>p. P (fst p)) (from_key k m)"
    by (rule run) (simp add: from_key_entries[OF inv])
  also have "\<dots> = filter (\<lambda>p. P (fst p)) (entries m)"
    using lower by (auto simp: from_key_entries[OF inv] intro: filter_cong)
  finally show ?thesis .
qed

end

section \<open>Association lists with ascending keys\<close>

fun bt_insert :: "'k::linorder \<Rightarrow> 'v \<Rightarrow> ('k \<times> 'v) list \<Rightarrow> ('k \<times> 'v) list" where
  "bt_insert k v [] = [(k, v)]"
| "bt_insert k v ((j, w) # m) =
     (if k < j then (k, v) # (j, w) # m
      else if k = j then (k, v) # m
      else (j, w) # bt_insert k v m)"

definition bt_remove :: "'k::linorder \<Rightarrow> ('k \<times> 'v) list \<Rightarrow> ('k \<times> 'v) list" where
  "bt_remove k m = filter (\<lambda>p. fst p \<noteq> k) m"

definition bt_range_from :: "'k::linorder \<Rightarrow> ('k \<times> 'v) list \<Rightarrow> ('k \<times> 'v) list" where
  "bt_range_from k m = dropWhile (\<lambda>p. fst p < k) m"

definition bt_last_upto :: "'k::linorder \<Rightarrow> ('k \<times> 'v) list \<Rightarrow> ('k \<times> 'v) option" where
  "bt_last_upto k m = (let r = takeWhile (\<lambda>p. fst p \<le> k) m in if r = [] then None else Some (last r))"

definition bt_invar :: "('k::linorder \<times> 'v) list \<Rightarrow> bool" where
  "bt_invar m \<longleftrightarrow> sorted_wrt (<) (map fst m)"

lemma bt_insert_keys: "fst ` set (bt_insert k v m) = insert k (fst ` set m)"
  by (induction k v m rule: bt_insert.induct) (simp_all add: insert_commute)

lemma bt_insert_invar: "bt_invar m \<Longrightarrow> bt_invar (bt_insert k v m)"
proof (induction m)
  case (Cons p m)
  then show ?case
    using bt_insert_keys[of k v m] by (cases p) (fastforce simp: bt_invar_def)
qed (simp add: bt_invar_def)

lemma map_of_bt_insert: "bt_invar m \<Longrightarrow> map_of (bt_insert k v m) = (map_of m)(k \<mapsto> v)"
  by (induction m) (auto simp: bt_invar_def fun_eq_iff)

lemma bt_remove_invar: "bt_invar m \<Longrightarrow> bt_invar (bt_remove k m)"
  by (auto simp: bt_invar_def bt_remove_def sorted_wrt_map intro: sorted_wrt_filter)

lemma map_of_bt_remove: "map_of (bt_remove k m) = (map_of m)(k := None)"
  by (induction m) (auto simp: bt_remove_def fun_eq_iff)

lemma bt_range_from_filter: "bt_invar m \<Longrightarrow> bt_range_from k m = filter (\<lambda>p. k \<le> fst p) m"
proof (induction m)
  case (Cons p m)
  then show ?case
    by (auto simp: bt_range_from_def bt_invar_def not_less intro!: filter_True[symmetric])
qed (simp add: bt_range_from_def)

lemma bt_takeWhile_upto: "bt_invar m \<Longrightarrow> takeWhile (\<lambda>p. fst p \<le> k) m = filter (\<lambda>p. fst p \<le> k) m"
proof (induction m)
  case (Cons p m)
  then show ?case
    by (auto simp: bt_invar_def not_le filter_empty_conv dest: order_less_trans intro!: filter_False[symmetric])
qed simp

lemma bt_last_upto_None:
  "bt_invar m \<Longrightarrow> bt_last_upto k m = None \<Longrightarrow> map_of m j = Some v \<Longrightarrow> k < j"
  using map_of_SomeD[of m j v]
  by (fastforce simp: bt_last_upto_def Let_def bt_takeWhile_upto filter_empty_conv split: if_splits)

lemma bt_last_upto_Some:
  assumes "bt_invar m" "bt_last_upto k m = Some (i, v)"
  shows "i \<le> k \<and> map_of m i = Some v \<and> (\<forall>j w. map_of m j = Some w \<longrightarrow> j \<le> k \<longrightarrow> j \<le> i)"
proof -
  define r where "r = filter (\<lambda>p. fst p \<le> k) m"
  have r: "r \<noteq> []" "last r = (i, v)"
    using assms by (auto simp: bt_last_upto_def Let_def bt_takeWhile_upto r_def split: if_splits)
  have mem: "(i, v) \<in> set r"
    using r last_in_set by metis
  have srt: "sorted_wrt (<) (map fst r)"
    using assms(1) by (auto simp: bt_invar_def r_def sorted_wrt_map intro: sorted_wrt_filter)
  have top: "fst p \<le> i" if "p \<in> set r" for p
    using that srt r by (cases r rule: rev_cases) (auto simp: sorted_wrt_append)
  have "j \<le> i" if "map_of m j = Some w" "j \<le> k" for j w
    using top[of "(j, w)"] map_of_SomeD[OF that(1)] that(2) by (simp add: r_def)
  moreover have "distinct (map fst m)"
    using assms(1) by (simp add: bt_invar_def strict_sorted_iff)
  then have "i \<le> k" "map_of m i = Some v"
    using mem by (simp_all add: r_def)
  ultimately show ?thesis by blast
qed

lemma bt_remove_last_upto:
  assumes "bt_last_upto k m = Some (i, v)"
  shows "length (bt_remove i m) < length m"
proof -
  have "(i, v) \<in> set m"
    using assms last_in_set[of "takeWhile (\<lambda>p. fst p \<le> k) m"] set_takeWhileD
    by (fastforce simp: bt_last_upto_def Let_def split: if_splits)
  then show ?thesis
    unfolding bt_remove_def by (intro length_filter_less) auto
qed

interpretation bt: ordered_map "[]" map_of bt_insert bt_remove "\<lambda>m. m" bt_range_from
  bt_last_upto bt_invar
proof (unfold_locales, goal_cases)
  case (7 m k j v)
  then show ?case by (rule bt_last_upto_None)
next
  case (8 m k i v)
  then show ?case by (rule bt_last_upto_Some)
qed (simp_all add: map_of_bt_insert map_of_bt_remove bt_insert_invar bt_remove_invar
  bt_range_from_filter, simp_all add: bt_invar_def)

section \<open>Strings\<close>

text \<open>
  A string is its sequence of bytes and is compared bytewise. The strings with a given
  prefix are one run of the strings from the prefix on.
\<close>

lemma prefix_imp_le: "prefix p (s :: 'a::linorder list) \<Longrightarrow> p \<le> s"
proof (induction p arbitrary: s)
  case (Cons a p)
  then show ?case by (cases s) auto
qed simp

lemma prefix_run:
  "p \<le> s \<Longrightarrow> s < t \<Longrightarrow> prefix p (t :: 'a::linorder list) \<Longrightarrow> prefix p s"
proof (induction p arbitrary: s t)
  case (Cons a p)
  then show ?case
    by (cases s; cases t) auto
qed simp

lemma bt_prefix_scan:
  fixes m :: "('a::linorder list \<times> 'v) list"
  assumes "bt_invar m"
  shows "takeWhile (\<lambda>e. prefix p (fst e)) (bt_range_from p m) = filter (\<lambda>e. prefix p (fst e)) m"
  by (rule bt.scan_initial_segment[OF assms]) (auto intro: prefix_imp_le prefix_run)

end
