(* ===== verification/Topic_Index.thy ===== *)
theory Topic_Index
  imports Topic_Types Ordered_Map
begin

text \<open>
  The seq-to-record index of a topic (\<open>engine/topic_state.rs\<close>, \<open>StoredRecord\<close> and
  \<open>TopicIndex\<close>): a deque of slots offset by \<open>base_seq\<close> together with the tag index, a map
  from tag to the ascending list of the live seqs that carry it. The invariant \<open>wf_index\<close>
  says that the tag index is a function of the slots, so that every operation that changes
  slots has to keep both in step.
\<close>

section \<open>Binary search\<close>

text \<open>\<open>slice::binary_search\<close> and \<open>Vec::remove\<close> of the standard library.\<close>

function bsearch :: "nat list \<Rightarrow> nat \<Rightarrow> nat \<Rightarrow> nat \<Rightarrow> nat option" where
  "bsearch v x lo hi =
     (if lo \<ge> hi then None
      else let mid = (lo + hi) div 2 in
           if v ! mid = x then Some mid
           else if v ! mid < x then bsearch v x (Suc mid) hi
           else bsearch v x lo mid)"
  by auto
termination
  by (relation "measure (\<lambda>(v, x, lo, hi). hi - lo)") auto

declare bsearch.simps [simp del]

definition binary_search :: "nat list \<Rightarrow> nat \<Rightarrow> nat option" where
  "binary_search v x = bsearch v x 0 (length v)"

definition vec_remove :: "nat \<Rightarrow> 'a list \<Rightarrow> 'a list" where
  "vec_remove i v = take i v @ drop (Suc i) v"

lemma bsearch_Some: "bsearch v x lo hi = Some i \<Longrightarrow> lo \<le> i \<and> i < hi \<and> v ! i = x"
proof (induction v x lo hi rule: bsearch.induct)
  case (1 v x lo hi)
  then show ?case
    by (subst (asm) (3) bsearch.simps) (fastforce simp: Let_def split: if_splits)
qed

lemma bsearch_None:
  "sorted v \<Longrightarrow> hi \<le> length v \<Longrightarrow> bsearch v x lo hi = None \<Longrightarrow> lo \<le> i \<Longrightarrow> i < hi \<Longrightarrow> v ! i \<noteq> x"
proof (induction v x lo hi rule: bsearch.induct)
  case (1 v x lo hi)
  define mid where "mid = (lo + hi) div 2"
  have mid: "lo \<le> mid" "mid < hi"
    using 1 by (auto simp: mid_def)
  have neq: "v ! mid \<noteq> x"
    using "1.prems" mid by (subst (asm) bsearch.simps) (auto simp: Let_def mid_def)
  show ?case
  proof (cases "v ! mid < x")
    case True
    then have "bsearch v x (Suc mid) hi = None"
      using "1.prems" mid neq by (subst (asm) bsearch.simps) (auto simp: Let_def mid_def)
    moreover have "v ! i \<le> v ! mid" if "i \<le> mid"
      using "1.prems" mid that by (simp add: sorted_nth_mono)
    ultimately show ?thesis
      using "1.IH"(1)[OF _ mid_def] "1.prems" True mid neq by (cases "i \<le> mid") auto
  next
    case False
    then have "bsearch v x lo mid = None"
      using "1.prems" mid neq by (subst (asm) bsearch.simps) (auto simp: Let_def mid_def)
    moreover have "v ! mid \<le> v ! i" if "mid \<le> i"
      using "1.prems" that by (simp add: sorted_nth_mono)
    ultimately show ?thesis
      using "1.IH"(2)[OF _ mid_def] "1.prems" False mid neq by (cases "mid \<le> i") auto
  qed
qed

lemma binary_search_remove:
  assumes "sorted v" "distinct v"
  shows "(case binary_search v x of None \<Rightarrow> v | Some i \<Rightarrow> vec_remove i v) = remove1 x v"
proof (cases "binary_search v x")
  case None
  then have "x \<notin> set v"
    using bsearch_None[OF assms(1), of "length v" x 0] by (fastforce simp: binary_search_def in_set_conv_nth)
  then show ?thesis
    by (simp add: None remove1_idem)
next
  case (Some i)
  then have i: "i < length v" "v ! i = x"
    using bsearch_Some[of v x 0 "length v" i] by (auto simp: binary_search_def)
  then have v: "v = take i v @ x # drop (Suc i) v"
    by (metis id_take_nth_drop)
  then have "x \<notin> set (take i v)"
    using assms(2) by (metis distinct_append disjoint_insert(1) list.simps(15) inf_commute)
  then show ?thesis
    by (subst (2) v) (simp add: Some vec_remove_def remove1_append)
qed

section \<open>Records and the index\<close>

record stored_record =
  sr_ts :: i64
  sr_node :: "string option"
  sr_tag :: "string option"
  sr_data :: json
  sr_meta :: "json option"
  sr_bytes :: u64
  sr_deleted :: bool
  sr_payload_resident :: bool
  sr_hops :: nat

type_synonym tag_map = "(string \<times> seq list) list"

record topic_index =
  base_seq :: seq
  records :: "stored_record list"
  tag_index :: tag_map
  delete_below :: seq

datatype filter_op = Eq | Glob

record tag_filter =
  flt_op :: filter_op
  flt_value :: string

fun filter_matches :: "tag_filter \<Rightarrow> string \<Rightarrow> bool" where
  "filter_matches f tag =
     (case flt_op f of Eq \<Rightarrow> tag = flt_value f | Glob \<Rightarrow> prefix (flt_value f) tag)"

definition index_new :: "seq \<Rightarrow> topic_index" where
  "index_new b = \<lparr>base_seq = b, records = [], tag_index = [], delete_below = 0\<rparr>"

definition ix_get :: "topic_index \<Rightarrow> seq \<Rightarrow> stored_record option" where
  "ix_get ix s =
     (if s < base_seq ix then None
      else let i = s - base_seq ix in
           if i < length (records ix) then Some (records ix ! i) else None)"

definition slot_idx :: "topic_index \<Rightarrow> seq \<Rightarrow> nat option" where
  "slot_idx ix s =
     (if s < base_seq ix then None
      else let i = s - base_seq ix in
           if i < length (records ix) then Some i else None)"

definition is_dead :: "topic_index \<Rightarrow> seq \<Rightarrow> bool" where
  "is_dead ix s =
     (if s < delete_below ix then True
      else case slot_idx ix s of
             Some i \<Rightarrow> sr_deleted (records ix ! i)
           | None \<Rightarrow> s < base_seq ix)"

function range_all_dead :: "topic_index \<Rightarrow> seq \<Rightarrow> seq \<Rightarrow> bool" where
  "range_all_dead ix s e =
     (if s \<le> e then if \<not> is_dead ix s then False else range_all_dead ix (s + 1) e
      else True)"
  by auto
termination
  by (relation "measure (\<lambda>(ix, s, e). Suc e - s)") auto

declare range_all_dead.simps [simp del]

definition matching_live_seqs :: "topic_index \<Rightarrow> tag_filter \<Rightarrow> seq \<Rightarrow> seq list" where
  "matching_live_seqs ix f bound =
     sort (case flt_op f of
        Eq \<Rightarrow> (case map_of (tag_index ix) (flt_value f) of
                 Some seqs \<Rightarrow> filter (\<lambda>s. s < bound) seqs
               | None \<Rightarrow> [])
      | Glob \<Rightarrow> concat (map (\<lambda>(tag, seqs). filter (\<lambda>s. s < bound) seqs)
                  (takeWhile (\<lambda>(tag, seqs). prefix (flt_value f) tag)
                     (bt_range_from (flt_value f) (tag_index ix)))))"

definition tags_push :: "seq \<Rightarrow> string \<Rightarrow> tag_map \<Rightarrow> tag_map" where
  "tags_push s tag m =
     (let v = (case map_of m tag of Some v \<Rightarrow> v | None \<Rightarrow> [])
      in bt_insert tag (v @ [s]) m)"

definition tags_drop :: "string \<Rightarrow> seq \<Rightarrow> tag_map \<Rightarrow> tag_map" where
  "tags_drop tag s m =
     (case map_of m tag of
        None \<Rightarrow> m
      | Some v \<Rightarrow>
          (let v' = (case binary_search v s of Some i \<Rightarrow> vec_remove i v | None \<Rightarrow> v)
           in if v' = [] then bt_remove tag m else bt_insert tag v' m))"

definition index_tag :: "seq \<Rightarrow> string \<Rightarrow> topic_index \<Rightarrow> topic_index" where
  "index_tag s tag ix = ix\<lparr>tag_index := tags_push s tag (tag_index ix)\<rparr>"

definition unindex_tag :: "string \<Rightarrow> seq \<Rightarrow> topic_index \<Rightarrow> topic_index" where
  "unindex_tag tag s ix = ix\<lparr>tag_index := tags_drop tag s (tag_index ix)\<rparr>"

fun drain_loop :: "seq \<Rightarrow> stored_record list \<Rightarrow> topic_index \<Rightarrow> nat \<Rightarrow> topic_index \<times> nat" where
  "drain_loop s [] ix live_popped = (ix, live_popped)"
| "drain_loop s (r # rs) ix live_popped =
     drain_loop (s + 1) rs
       (case sr_tag r of Some tag \<Rightarrow> unindex_tag tag s ix | None \<Rightarrow> ix)
       (if sr_deleted r then live_popped else live_popped + 1)"

definition drain_front :: "nat \<Rightarrow> topic_index \<Rightarrow> topic_index \<times> nat" where
  "drain_front n ix =
     (let n = min n (length (records ix));
          (ix', live_popped) = drain_loop (base_seq ix) (take n (records ix)) ix 0
      in (ix'\<lparr>records := drop n (records ix'), base_seq := base_seq ix' + n\<rparr>, live_popped))"

definition mark_deleted :: "seq \<Rightarrow> topic_index \<Rightarrow> topic_index \<times> nat option" where
  "mark_deleted s ix =
     (case slot_idx ix s of
        None \<Rightarrow> (ix, None)
      | Some i \<Rightarrow>
          let r = records ix ! i in
          if sr_deleted r then (ix, None)
          else let freed = sr_bytes r;
                   ix' = (case sr_tag r of Some tag \<Rightarrow> unindex_tag tag s ix | None \<Rightarrow> ix)
               in (ix'\<lparr>records := (records ix')[i := r\<lparr>sr_tag := None, sr_deleted := True,
                     sr_bytes := 0, sr_data := JNull, sr_meta := None\<rparr>]\<rparr>,
                   Some freed))"

section \<open>Slots\<close>

lemma ix_get_slot: "ix_get ix s = map_option ((!) (records ix)) (slot_idx ix s)"
  by (simp add: ix_get_def slot_idx_def Let_def)

lemma slot_idx_Some:
  "slot_idx ix s = Some i \<longleftrightarrow> base_seq ix \<le> s \<and> i = s - base_seq ix \<and> i < length (records ix)"
  by (auto simp: slot_idx_def Let_def)

lemma slot_idx_None:
  "slot_idx ix s = None \<longleftrightarrow> s < base_seq ix \<or> base_seq ix + length (records ix) \<le> s"
  by (auto simp: slot_idx_def Let_def)

lemma ix_get_Some:
  "ix_get ix s = Some r \<longleftrightarrow>
     base_seq ix \<le> s \<and> s < base_seq ix + length (records ix) \<and> r = records ix ! (s - base_seq ix)"
  by (auto simp: ix_get_def Let_def)

lemma range_all_dead_iff: "range_all_dead ix s e \<longleftrightarrow> (\<forall>t\<in>{s..e}. is_dead ix t)"
proof (induction ix s e rule: range_all_dead.induct)
  case (1 ix s e)
  show ?case
  proof (cases "s \<le> e")
    case True
    then have split: "{s..e} = insert s {s + 1..e}" by auto
    show ?thesis
      using 1[OF True] by (subst range_all_dead.simps) (auto simp: True split)
  next
    case False
    then show ?thesis
      by (subst range_all_dead.simps) simp
  qed
qed

section \<open>The tag index as a function of the slots\<close>

fun postings :: "seq \<Rightarrow> stored_record list \<Rightarrow> string \<Rightarrow> seq list" where
  "postings b [] t = []"
| "postings b (r # rs) t = (if sr_tag r = Some t then [b] else []) @ postings (Suc b) rs t"

lemma postings_append: "postings b (xs @ ys) t = postings b xs t @ postings (b + length xs) ys t"
  by (induction xs arbitrary: b) auto

lemma set_postings:
  "set (postings b rs t) = {s. b \<le> s \<and> s < b + length rs \<and> sr_tag (rs ! (s - b)) = Some t}"
proof (induction rs arbitrary: b)
  case (Cons r rs)
  have "s - b = Suc (s - Suc b)" if "Suc b \<le> s" for s
    using that by simp
  then show ?case
    by (auto simp: Cons nth_Cons' order.order_iff_strict Suc_le_eq)
qed simp

lemma sorted_postings [simp]: "sorted (postings b rs t)"
  and distinct_postings [simp]: "distinct (postings b rs t)"
proof -
  have "sorted_wrt (<) (postings b rs t)"
    by (induction rs arbitrary: b) (auto simp: set_postings)
  then show "sorted (postings b rs t)" "distinct (postings b rs t)"
    by (simp_all add: strict_sorted_iff)
qed

definition posting_entry :: "seq list \<Rightarrow> seq list option" where
  "posting_entry l = (if l = [] then None else Some l)"

definition tags_ok :: "tag_map \<Rightarrow> (string \<Rightarrow> seq list) \<Rightarrow> bool" where
  "tags_ok m P \<longleftrightarrow> bt_invar m \<and> (\<forall>t. map_of m t = posting_entry (P t))"

lemma tags_ok_empty [simp]: "tags_ok [] (\<lambda>t. [])"
  by (simp add: tags_ok_def posting_entry_def bt_invar_def)

lemma tags_ok_unique: "tags_ok m P \<Longrightarrow> tags_ok m' P \<Longrightarrow> m = m'"
  by (rule bt.entries_ext) (auto simp: tags_ok_def)

lemma tags_ok_push:
  "tags_ok m P \<Longrightarrow> tags_ok (tags_push s tag m) (P(tag := P tag @ [s]))"
  by (auto simp: tags_ok_def tags_push_def posting_entry_def Let_def bt_insert_invar
      map_of_bt_insert)

lemma tags_ok_drop:
  assumes "tags_ok m P" "sorted (P tag)" "distinct (P tag)"
  shows "tags_ok (tags_drop tag s m) (P(tag := remove1 s (P tag)))"
proof (cases "P tag = []")
  case True
  then show ?thesis
    using assms(1) by (auto simp: tags_ok_def tags_drop_def posting_entry_def)
next
  case False
  then have "map_of m tag = Some (P tag)"
    using assms(1) by (simp add: tags_ok_def posting_entry_def)
  then show ?thesis
    using assms binary_search_remove[OF assms(2,3), of s]
    by (auto simp: tags_ok_def tags_drop_def posting_entry_def Let_def bt_insert_invar
        bt_remove_invar map_of_bt_insert map_of_bt_remove split: option.splits)
qed

definition slot_ok :: "stored_record \<Rightarrow> bool" where
  "slot_ok r \<longleftrightarrow> (sr_deleted r \<longrightarrow> sr_tag r = None \<and> sr_bytes r = 0)"

definition wf_index :: "topic_index \<Rightarrow> bool" where
  "wf_index ix \<longleftrightarrow> tags_ok (tag_index ix) (postings (base_seq ix) (records ix)) \<and>
     (\<forall>r\<in>set (records ix). slot_ok r)"

lemma wf_index_tags: "wf_index ix \<Longrightarrow> tags_ok (tag_index ix) (postings (base_seq ix) (records ix))"
  by (simp add: wf_index_def)

lemma wf_index_slot: "wf_index ix \<Longrightarrow> r \<in> set (records ix) \<Longrightarrow> slot_ok r"
  by (simp add: wf_index_def)

lemma wf_index_delete_below [simp]: "wf_index (ix\<lparr>delete_below := d\<rparr>) = wf_index ix"
  by (simp add: wf_index_def)

lemma wf_index_new [simp]: "wf_index (index_new b)"
  by (simp add: wf_index_def index_new_def tags_ok_def posting_entry_def bt_invar_def)

text \<open>The well-formed indexes with the same slots are equal.\<close>

lemma wf_index_unique:
  assumes "wf_index ix" "wf_index ix'" "base_seq ix = base_seq ix'" "records ix = records ix'"
    "delete_below ix = delete_below ix'"
  shows "ix = ix'"
  using assms tags_ok_unique[of "tag_index ix" _ "tag_index ix'"]
  by (auto simp: wf_index_def)

lemma tag_index_fields [simp]:
  "base_seq (index_tag s t ix) = base_seq ix" "records (index_tag s t ix) = records ix"
  "delete_below (index_tag s t ix) = delete_below ix"
  "base_seq (unindex_tag t s ix) = base_seq ix" "records (unindex_tag t s ix) = records ix"
  "delete_below (unindex_tag t s ix) = delete_below ix"
  "tag_index (index_tag s t ix) = tags_push s t (tag_index ix)"
  "tag_index (unindex_tag t s ix) = tags_drop t s (tag_index ix)"
  by (simp_all add: index_tag_def unindex_tag_def)

section \<open>Marking a slot deleted\<close>

definition dead_slot :: "stored_record \<Rightarrow> stored_record" where
  "dead_slot r = r\<lparr>sr_tag := None, sr_deleted := True, sr_bytes := 0, sr_data := JNull, sr_meta := None\<rparr>"

lemma dead_slot_simps [simp]:
  "sr_tag (dead_slot r) = None" "sr_deleted (dead_slot r)" "sr_bytes (dead_slot r) = 0"
  "sr_ts (dead_slot r) = sr_ts r" "sr_node (dead_slot r) = sr_node r" "slot_ok (dead_slot r)"
  by (simp_all add: dead_slot_def slot_ok_def)

lemma mark_deleted_fields [simp]:
  "base_seq (fst (mark_deleted s ix)) = base_seq ix"
  "length (records (fst (mark_deleted s ix))) = length (records ix)"
  "delete_below (fst (mark_deleted s ix)) = delete_below ix"
  by (auto simp: mark_deleted_def Let_def split: option.splits)

lemma mark_deleted_live:
  assumes "ix_get ix s = Some r" "\<not> sr_deleted r"
  shows "snd (mark_deleted s ix) = Some (sr_bytes r)"
    and "records (fst (mark_deleted s ix)) = (records ix)[s - base_seq ix := dead_slot r]"
  using assms by (auto simp: mark_deleted_def ix_get_slot slot_idx_Some slot_idx_None Let_def dead_slot_def
      split: option.splits)

lemma mark_deleted_dead:
  assumes "\<And>r. ix_get ix s = Some r \<Longrightarrow> sr_deleted r"
  shows "mark_deleted s ix = (ix, None)"
  using assms by (auto simp: mark_deleted_def ix_get_slot Let_def split: option.splits)

lemma postings_dead:
  assumes "i < length rs"
  shows "postings b (rs[i := dead_slot (rs ! i)]) t =
    (if sr_tag (rs ! i) = Some t then remove1 (b + i) (postings b rs t) else postings b rs t)"
  using assms
proof (induction rs arbitrary: b i)
  case (Cons r rs)
  show ?case
  proof (cases i)
    case 0
    then show ?thesis
      using remove1_idem[of b "postings (Suc b) rs t"] by (simp add: set_postings)
  next
    case (Suc j)
    then show ?thesis
      using Cons.IH[of j "Suc b"] Cons.prems by (auto simp: remove1_append)
  qed
qed simp

lemma mark_deleted_wf [inv_intro]:
  assumes "wf_index ix"
  shows "wf_index (fst (mark_deleted s ix))"
proof (cases "\<exists>r. ix_get ix s = Some r \<and> \<not> sr_deleted r")
  case False
  then show ?thesis
    using assms mark_deleted_dead[of ix s] by auto
next
  case True
  then obtain r where r: "ix_get ix s = Some r" "\<not> sr_deleted r" by blast
  define i where "i = s - base_seq ix"
  have i: "i < length (records ix)" "r = records ix ! i" "base_seq ix + i = s"
    using r by (auto simp: ix_get_Some i_def)
  have tags: "tag_index (fst (mark_deleted s ix)) =
      (case sr_tag r of Some t \<Rightarrow> tags_drop t s (tag_index ix) | None \<Rightarrow> tag_index ix)"
    using r i by (auto simp: mark_deleted_def ix_get_slot slot_idx_Some slot_idx_None Let_def split: option.splits)
  have recs: "records (fst (mark_deleted s ix)) = (records ix)[i := dead_slot (records ix ! i)]"
    using mark_deleted_live[OF r] i by (simp add: i_def)
  have "tags_ok (tag_index (fst (mark_deleted s ix)))
      (postings (base_seq ix) (records (fst (mark_deleted s ix))))"
  proof (cases "sr_tag r")
    case None
    then show ?thesis
      using wf_index_tags[OF assms] i postings_dead[OF i(1)] by (simp add: tags recs tags_ok_def)
  next
    case (Some t)
    have "postings (base_seq ix) (records (fst (mark_deleted s ix))) =
        (postings (base_seq ix) (records ix))(t := remove1 s (postings (base_seq ix) (records ix) t))"
      using Some i postings_dead[OF i(1)] by (auto simp: recs fun_eq_iff)
    then show ?thesis
      using tags_ok_drop[OF wf_index_tags[OF assms], of t s] by (simp add: tags Some)
  qed
  moreover have "\<forall>r\<in>set (records (fst (mark_deleted s ix))). slot_ok r"
    using wf_index_slot[OF assms] set_update_subset_insert[of "records ix" i "dead_slot (records ix ! i)"]
    by (auto simp: recs)
  ultimately show ?thesis
    by (simp add: wf_index_def)
qed

section \<open>Live slots and their bytes\<close>

definition live_slots :: "stored_record list \<Rightarrow> nat" where
  "live_slots rs = length (filter (\<lambda>r. \<not> sr_deleted r) rs)"

definition slot_bytes :: "stored_record list \<Rightarrow> nat" where
  "slot_bytes rs = sum_list (map sr_bytes rs)"

lemma live_slots_simps [simp]:
  "live_slots [] = 0"
  "live_slots (r # rs) = (if sr_deleted r then 0 else 1) + live_slots rs"
  "live_slots (xs @ ys) = live_slots xs + live_slots ys"
  by (simp_all add: live_slots_def)

lemma slot_bytes_simps [simp]:
  "slot_bytes [] = 0"
  "slot_bytes (r # rs) = sr_bytes r + slot_bytes rs"
  "slot_bytes (xs @ ys) = slot_bytes xs + slot_bytes ys"
  by (simp_all add: slot_bytes_def)

lemma live_slots_dead:
  "i < length rs \<Longrightarrow> \<not> sr_deleted (rs ! i) \<Longrightarrow>
     live_slots rs = Suc (live_slots (rs[i := dead_slot (rs ! i)]))"
  by (induction rs arbitrary: i) (auto simp: nth_Cons split: nat.splits)

lemma slot_bytes_dead:
  "i < length rs \<Longrightarrow>
     slot_bytes rs = sr_bytes (rs ! i) + slot_bytes (rs[i := dead_slot (rs ! i)])"
  by (induction rs arbitrary: i) (auto simp: nth_Cons split: nat.splits)

section \<open>Appending, popping and draining\<close>

definition push_back :: "stored_record \<Rightarrow> topic_index \<Rightarrow> topic_index" where
  "push_back r ix =
     (let s = base_seq ix + length (records ix);
          ix' = (case sr_tag r of Some tag \<Rightarrow> index_tag s tag ix | None \<Rightarrow> ix)
      in ix'\<lparr>records := records ix' @ [r]\<rparr>)"

definition pop_back :: "topic_index \<Rightarrow> topic_index" where
  "pop_back ix =
     (let idx = length (records ix) - 1;
          s = base_seq ix + idx;
          ix' = ix\<lparr>records := butlast (records ix)\<rparr>
      in case sr_tag (records ix ! idx) of Some tag \<Rightarrow> unindex_tag tag s ix' | None \<Rightarrow> ix')"

lemma push_back_fields [simp]:
  "base_seq (push_back r ix) = base_seq ix" "records (push_back r ix) = records ix @ [r]"
  "delete_below (push_back r ix) = delete_below ix"
  by (auto simp: push_back_def Let_def split: option.splits)

lemma push_back_wf [inv_intro]:
  assumes "wf_index ix" "slot_ok r"
  shows "wf_index (push_back r ix)"
proof -
  define s where "s = base_seq ix + length (records ix)"
  have "tags_ok (tag_index (push_back r ix)) (postings (base_seq ix) (records ix @ [r]))"
  proof (cases "sr_tag r")
    case None
    then show ?thesis
      using wf_index_tags[OF assms(1)] by (simp add: push_back_def postings_append tags_ok_def)
  next
    case (Some t)
    then have "postings (base_seq ix) (records ix @ [r]) =
        (postings (base_seq ix) (records ix))(t := postings (base_seq ix) (records ix) t @ [s])"
      by (auto simp: fun_eq_iff postings_append s_def)
    then show ?thesis
      using tags_ok_push[OF wf_index_tags[OF assms(1)], of s t]
      by (simp add: push_back_def Some s_def)
  qed
  then show ?thesis
    using assms by (auto simp: wf_index_def)
qed

lemma pop_back_fields [simp]:
  "base_seq (pop_back ix) = base_seq ix" "records (pop_back ix) = butlast (records ix)"
  "delete_below (pop_back ix) = delete_below ix"
  by (auto simp: pop_back_def Let_def split: option.splits)

lemma pop_back_wf [inv_intro]:
  assumes "wf_index ix" "records ix \<noteq> []"
  shows "wf_index (pop_back ix)"
proof -
  obtain rs r where rs: "records ix = rs @ [r]"
    using assms(2) by (metis rev_exhaust)
  define s where "s = base_seq ix + length rs"
  have s: "s \<notin> set (postings (base_seq ix) rs t)" for t
    by (simp add: set_postings s_def)
  have "tags_ok (tag_index (pop_back ix)) (postings (base_seq ix) rs)"
  proof (cases "sr_tag r")
    case None
    then show ?thesis
      using wf_index_tags[OF assms(1)] by (simp add: pop_back_def rs postings_append tags_ok_def)
  next
    case (Some t)
    then have "postings (base_seq ix) rs =
        (postings (base_seq ix) (records ix))(t := remove1 s (postings (base_seq ix) (records ix) t))"
      using s by (auto simp: fun_eq_iff postings_append rs s_def[symmetric] remove1_append)
    then show ?thesis
      using tags_ok_drop[OF wf_index_tags[OF assms(1)], of t s]
      by (simp add: pop_back_def Some rs s_def)
  qed
  then show ?thesis
    using wf_index_slot[OF assms(1)] by (simp add: wf_index_def rs)
qed

lemma drain_loop_fields:
  "base_seq (fst (drain_loop s rs ix n)) = base_seq ix"
  "records (fst (drain_loop s rs ix n)) = records ix"
  "delete_below (fst (drain_loop s rs ix n)) = delete_below ix"
  "snd (drain_loop s rs ix n) = n + live_slots rs"
  by (induction s rs ix n rule: drain_loop.induct) (auto split: option.splits)

lemma tags_ok_drop_head:
  assumes "tags_ok m (postings s (r # rs))"
  shows "tags_ok (case sr_tag r of Some t \<Rightarrow> tags_drop t s m | None \<Rightarrow> m) (postings (Suc s) rs)"
proof (cases "sr_tag r")
  case None
  then show ?thesis
    using assms by (simp add: tags_ok_def)
next
  case (Some t)
  have "postings (Suc s) rs = (postings s (r # rs))(t := remove1 s (postings s (r # rs) t))"
    using Some by (auto simp: fun_eq_iff)
  then show ?thesis
    using tags_ok_drop[OF assms, of t s] sorted_postings[of s "r # rs" t]
      distinct_postings[of s "r # rs" t] Some by (simp del: postings.simps)
qed

lemma drain_loop_tags:
  "tags_ok (tag_index ix) (postings s (rs @ rest)) \<Longrightarrow>
     tags_ok (tag_index (fst (drain_loop s rs ix n))) (postings (s + length rs) rest)"
proof (induction s rs ix n rule: drain_loop.induct)
  case (2 s r rs ix n)
  have "tag_index (case sr_tag r of Some t \<Rightarrow> unindex_tag t s ix | None \<Rightarrow> ix) =
      (case sr_tag r of Some t \<Rightarrow> tags_drop t s (tag_index ix) | None \<Rightarrow> tag_index ix)"
    by (simp split: option.splits)
  moreover have "tags_ok (case sr_tag r of Some t \<Rightarrow> tags_drop t s (tag_index ix) | None \<Rightarrow> tag_index ix)
      (postings (Suc s) (rs @ rest))"
    using "2.prems" by (intro tags_ok_drop_head) (simp del: postings.simps)
  ultimately show ?case
    using "2.IH" by simp
qed simp

lemma drain_front_fields [simp]:
  "records (fst (drain_front n ix)) = drop n (records ix)"
  "base_seq (fst (drain_front n ix)) = base_seq ix + min n (length (records ix))"
  "delete_below (fst (drain_front n ix)) = delete_below ix"
  "snd (drain_front n ix) = live_slots (take n (records ix))"
  using drain_loop_fields[of "base_seq ix" "take (min n (length (records ix))) (records ix)" ix 0]
  by (auto simp: drain_front_def Let_def min_def split: prod.splits)

lemma drain_front_wf [inv_intro]:
  assumes "wf_index ix"
  shows "wf_index (fst (drain_front n ix))"
proof -
  define k where "k = min n (length (records ix))"
  have "tags_ok (tag_index (fst (drain_loop (base_seq ix) (take k (records ix)) ix 0)))
      (postings (base_seq ix + length (take k (records ix))) (drop k (records ix)))"
    by (rule drain_loop_tags) (simp add: wf_index_tags[OF assms])
  moreover have "tag_index (fst (drain_front n ix)) =
      tag_index (fst (drain_loop (base_seq ix) (take k (records ix)) ix 0))"
    by (simp add: drain_front_def Let_def k_def split: prod.splits)
  moreover have "drop k (records ix) = drop n (records ix)"
    by (simp add: k_def min_def)
  ultimately have "tags_ok (tag_index (fst (drain_front n ix)))
      (postings (base_seq (fst (drain_front n ix))) (records (fst (drain_front n ix))))"
    by (simp add: k_def)
  then show ?thesis
    using wf_index_slot[OF assms] by (auto simp: wf_index_def dest: in_set_dropD)
qed

section \<open>Tag selection\<close>

lemma distinct_concat_owned:
  assumes "distinct (map fst es)" "\<forall>(t, v)\<in>set es. distinct v \<and> (\<forall>s\<in>set v. owner s = Some t)"
  shows "distinct (concat (map snd es))"
  using assms by (induction es) fastforce+

lemma matching_live_seqs_spec:
  assumes "wf_index ix"
  shows "matching_live_seqs ix f bound =
    filter (\<lambda>s. s < bound \<and> (\<exists>r t. ix_get ix s = Some r \<and> \<not> sr_deleted r \<and> sr_tag r = Some t \<and> filter_matches f t))
      [base_seq ix..<base_seq ix + length (records ix)]"
proof -
  let ?b = "base_seq ix" and ?rs = "records ix" and ?m = "tag_index ix"
  let ?owner = "\<lambda>s. sr_tag (?rs ! (s - ?b))"
  have ok: "tags_ok ?m (postings ?b ?rs)"
    using assms by (rule wf_index_tags)
  have inv: "bt_invar ?m"
    using ok by (simp add: tags_ok_def)
  define es where "es = filter (\<lambda>e. filter_matches f (fst e)) ?m"
  have mem: "(t, v) \<in> set ?m \<longleftrightarrow> v \<noteq> [] \<and> v = postings ?b ?rs t" for t v
    using ok bt.mem_entries[OF inv, of t v] by (auto simp: tags_ok_def posting_entry_def)
  have scan: "matching_live_seqs ix f bound = sort (filter (\<lambda>s. s < bound) (concat (map snd es)))"
  proof (cases "flt_op f")
    case Eq
    have "filter (\<lambda>e. fst e = k) m = (case map_of m k of Some v \<Rightarrow> [(k, v)] | None \<Rightarrow> [])"
      if "distinct (map fst m)" for k and m :: tag_map
      using that by (induction m) (auto simp: filter_empty_conv map_of_eq_None_iff image_iff split: option.splits)
    then show ?thesis
      using bt.keys_sorted_distinct[OF inv]
      by (simp add: matching_live_seqs_def es_def Eq split: option.splits)
  next
    case Glob
    have "takeWhile (\<lambda>(tag, seqs). prefix (flt_value f) tag) (bt_range_from (flt_value f) ?m) = es"
      using bt_prefix_scan[OF inv, of "flt_value f"] by (simp add: es_def Glob case_prod_unfold)
    then show ?thesis
      by (simp add: matching_live_seqs_def Glob filter_concat case_prod_unfold comp_def)
  qed
  have "distinct (concat (map snd es))"
  proof (rule distinct_concat_owned[where owner = ?owner])
    show "distinct (map fst es)"
      using bt.keys_sorted_distinct[OF inv] by (simp add: es_def distinct_map_filter)
  qed (auto simp: es_def mem set_postings)
  moreover have "set (concat (map snd es)) =
      {s. \<exists>r t. ix_get ix s = Some r \<and> \<not> sr_deleted r \<and> sr_tag r = Some t \<and> filter_matches f t}"
  proof -
    have live: "\<not> sr_deleted (?rs ! i)" if "i < length ?rs" "sr_tag (?rs ! i) = Some t" for i t
      using that wf_index_slot[OF assms, of "?rs ! i"] by (auto simp: slot_ok_def)
    have in_es: "s \<in> set (concat (map snd es)) \<longleftrightarrow> (\<exists>t. filter_matches f t \<and> s \<in> set (postings ?b ?rs t))" for s
      by (force simp: es_def mem simp del: filter_matches.simps)
    show ?thesis
      using live by (auto simp: in_es set_postings ix_get_Some simp del: filter_matches.simps set_concat)
  qed
  ultimately show ?thesis
    unfolding scan by (intro sorted_distinct_set_unique) (auto simp: ix_get_Some intro!: sorted_wrt_filter)
qed

end
