(* ===== verification/Segment_Codec.thy ===== *)
theory Segment_Codec
  imports Byte_Codec
begin

unbundle bit_operations_syntax

text \<open>
  The segment file format (\<open>storage/segment.rs\<close>): \<open>.data\<close> frames with the in-place
  delete-flag byte after the checksum, the fixed-stride \<open>.idx\<close>, and the builder that
  writes both. The checksum (XXH3-64) is the parameter \<open>crc\<close>.
\<close>

section \<open>Data frames\<close>

record segment_record =
  sg_seq :: seq
  sg_ts :: u64
  sg_node :: "string option"
  sg_tag :: "string option"
  sg_data :: "u8 list"

record idx_entry =
  ie_offset :: nat
  ie_len :: nat
  ie_ts :: u64
  ie_flags :: u8

datatype segment_error = Corrupt string | OutOfRange seq seq seq | SegIo string

definition SEG_DEL_SENTINEL :: u8 where
  "SEG_DEL_SENTINEL = 0xD5"

definition SEG_DEL_LIVE :: u8 where
  "SEG_DEL_LIVE = 0"

definition seg_flags :: "segment_record \<Rightarrow> u8" where
  "seg_flags rec = (if sg_node rec \<noteq> None then 2 else 0) OR (if sg_tag rec \<noteq> None then 1 else 0)"

definition str_bytes :: "string option \<Rightarrow> u8 list" where
  "str_bytes x = (case x of Some s \<Rightarrow> as_bytes s | None \<Rightarrow> [])"

definition seg_body :: "segment_record \<Rightarrow> u8 list" where
  "seg_body rec =
     (let node = str_bytes (sg_node rec); tag = str_bytes (sg_tag rec)
      in [seg_flags rec] @ le_bytes 8 (sg_seq rec) @ le_bytes 8 (sg_ts rec) @
         le_bytes 2 (length node) @ le_bytes 2 (length tag) @ le_bytes 4 (length (sg_data rec)) @
         node @ tag @ sg_data rec)"

definition encode_data_frame :: "(u8 list \<Rightarrow> nat) \<Rightarrow> segment_record \<Rightarrow> u8 list" where
  "encode_data_frame crc rec =
     (let body = seg_body rec;
          out = body @ le_bytes 8 (crc body) @ [SEG_DEL_LIVE]
      in le_bytes 4 (length out) @ out)"

definition del_flag_offset_in_frame :: "nat \<Rightarrow> nat" where
  "del_flag_offset_in_frame framed_len = framed_len - 1"

definition parse_body :: "u8 list \<Rightarrow> segment_error + segment_record" where
  "parse_body h =
     (if length h < 25 then Inl (Corrupt ''frame body too short'')
      else let flags = h ! 0;
               node_len = of_le (sub_slice 17 19 h);
               tag_len = of_le (sub_slice 19 21 h);
               data_len = of_le (sub_slice 21 25 h);
               body = drop 25 h
           in if node_len + tag_len + data_len \<noteq> length body
              then Inl (Corrupt ''internal length inconsistency'')
              else
                let node_bytes = take node_len body;
                    tag_bytes = sub_slice node_len (node_len + tag_len) body;
                    data = drop (node_len + tag_len) body
                in if flags AND 2 \<noteq> 0 \<and> from_utf8 node_bytes = None
                   then Inl (Corrupt ''node not utf-8'')
                   else if flags AND 1 \<noteq> 0 \<and> from_utf8 tag_bytes = None
                   then Inl (Corrupt ''tag not utf-8'')
                   else Inr \<lparr>sg_seq = of_le (sub_slice 1 9 h), sg_ts = of_le (sub_slice 9 17 h),
                     sg_node = (if flags AND 2 \<noteq> 0 then from_utf8 node_bytes else None),
                     sg_tag = (if flags AND 1 \<noteq> 0 then from_utf8 tag_bytes else None),
                     sg_data = data\<rparr>)"

definition decode_data_frame_full ::
  "(u8 list \<Rightarrow> nat) \<Rightarrow> u8 list \<Rightarrow> segment_error + (segment_record \<times> bool)" where
  "decode_data_frame_full crc buf =
     (if length buf < 4 then Inl (Corrupt ''shorter than frame_len prefix'')
      else let frame_len = of_le (sub_slice 0 4 buf); total = 4 + frame_len in
        if length buf < total then Inl (Corrupt ''frame_len overruns the slice'')
        else let crc_end = total - 1; crc_start = crc_end - 8 in
          if frame_len \<ge> 25 + 8 + 1 \<and>
             of_le (sub_slice crc_start crc_end buf) = crc (sub_slice 4 crc_start buf)
          then (case parse_body (sub_slice 4 crc_start buf) of
                  Inl e \<Rightarrow> Inl e
                | Inr rec \<Rightarrow> Inr (rec, buf ! crc_end = SEG_DEL_SENTINEL))
          else if frame_len < 25 + 8 + 1 then Inl (Corrupt ''frame_len below the minimum'')
          else Inl (Corrupt ''checksum mismatch''))"

definition decode_data_frame :: "(u8 list \<Rightarrow> nat) \<Rightarrow> u8 list \<Rightarrow> segment_error + segment_record" where
  "decode_data_frame crc buf = map_sum id fst (decode_data_frame_full crc buf)"

definition frame_is_deleted :: "(u8 list \<Rightarrow> nat) \<Rightarrow> u8 list \<Rightarrow> bool" where
  "frame_is_deleted crc buf =
     (case decode_data_frame_full crc buf of Inr (_, d) \<Rightarrow> d | Inl _ \<Rightarrow> False)"

section \<open>The index file\<close>

definition IDX_STRIDE :: nat where
  "IDX_STRIDE = 20"

definition encode_idx_entry :: "idx_entry \<Rightarrow> u8 list" where
  "encode_idx_entry e = le_bytes 4 (ie_offset e) @ le_bytes 4 (ie_len e) @ le_bytes 8 (ie_ts e) @
     [ie_flags e] @ [0, 0, 0]"

definition idx_entry_at :: "u8 list \<Rightarrow> nat \<Rightarrow> idx_entry option" where
  "idx_entry_at idx_buf i =
     (let start = i * IDX_STRIDE; stop = start + IDX_STRIDE
      in if stop > length idx_buf then None
         else let e = sub_slice start stop idx_buf
              in Some \<lparr>ie_offset = of_le (sub_slice 0 4 e), ie_len = of_le (sub_slice 4 8 e),
                   ie_ts = of_le (sub_slice 8 16 e), ie_flags = e ! 16\<rparr>)"

definition idx_len :: "u8 list \<Rightarrow> nat" where
  "idx_len idx_buf = length idx_buf div IDX_STRIDE"

definition idx_lookup :: "u8 list \<Rightarrow> seq \<Rightarrow> seq \<Rightarrow> idx_entry option" where
  "idx_lookup idx_buf start_seq s =
     (if s < start_seq then None else idx_entry_at idx_buf (s - start_seq))"

section \<open>The builder\<close>

record segment_builder =
  sb_start_seq :: seq
  sb_next_seq :: seq
  sb_data :: "u8 list"
  sb_idx :: "u8 list"

definition builder_new :: "seq \<Rightarrow> segment_builder" where
  "builder_new s = \<lparr>sb_start_seq = s, sb_next_seq = s, sb_data = [], sb_idx = []\<rparr>"

definition builder_push :: "(u8 list \<Rightarrow> nat) \<Rightarrow> segment_record \<Rightarrow> segment_builder \<Rightarrow> segment_builder" where
  "builder_push crc rec b =
     (let offset = length (sb_data b);
          frame = encode_data_frame crc rec
      in b\<lparr>sb_data := sb_data b @ frame,
           sb_idx := sb_idx b @ encode_idx_entry \<lparr>ie_offset = offset, ie_len = length frame,
             ie_ts = sg_ts rec, ie_flags = seg_flags rec\<rparr>,
           sb_next_seq := sb_next_seq b + 1\<rparr>)"

definition builder_end_seq :: "segment_builder \<Rightarrow> seq" where
  "builder_end_seq b = sb_next_seq b - 1"

definition record_count :: "segment_builder \<Rightarrow> nat" where
  "record_count b = idx_len (sb_idx b)"

definition builder_finish :: "segment_builder \<Rightarrow> u8 list \<times> u8 list" where
  "builder_finish b = (sb_data b, sb_idx b)"

section \<open>Frame round trip and the delete flag\<close>

definition seg_str_ok :: "string option \<Rightarrow> bool" where
  "seg_str_ok x \<longleftrightarrow> (case x of None \<Rightarrow> True | Some s \<Rightarrow> valid_str s \<and> length s < 256 ^ 2)"

definition seg_record_ok :: "segment_record \<Rightarrow> bool" where
  "seg_record_ok rec \<longleftrightarrow> sg_seq rec < 256 ^ 8 \<and> sg_ts rec < 256 ^ 8 \<and>
     seg_str_ok (sg_node rec) \<and> seg_str_ok (sg_tag rec) \<and>
     length (str_bytes (sg_node rec)) + length (str_bytes (sg_tag rec)) + length (sg_data rec) + 34 < 256 ^ 4"

lemma seg_flags_bits:
  "seg_flags rec AND 2 \<noteq> 0 \<longleftrightarrow> sg_node rec \<noteq> None"
  "seg_flags rec AND 1 \<noteq> 0 \<longleftrightarrow> sg_tag rec \<noteq> None"
  by (cases "sg_node rec = None"; cases "sg_tag rec = None"; simp add: seg_flags_def)+

lemma length_seg_body:
  "length (seg_body rec) = 25 + length (str_bytes (sg_node rec)) + length (str_bytes (sg_tag rec)) + length (sg_data rec)"
  by (simp add: seg_body_def Let_def)

lemma from_utf8_str_bytes: "seg_str_ok x \<Longrightarrow> x \<noteq> None \<Longrightarrow> from_utf8 (str_bytes x) = x"
  by (auto simp: seg_str_ok_def str_bytes_def)

lemma seg_str_length: "seg_str_ok x \<Longrightarrow> length (str_bytes x) < 256 ^ 2"
  by (cases x) (auto simp: seg_str_ok_def str_bytes_def)

lemma parse_seg_body:
  assumes "seg_record_ok rec"
  shows "parse_body (seg_body rec) = Inr rec"
proof -
  let ?h = "seg_body rec" and ?n = "str_bytes (sg_node rec)" and ?t = "str_bytes (sg_tag rec)"
  have ok: "sg_seq rec < 256 ^ 8" "sg_ts rec < 256 ^ 8" "seg_str_ok (sg_node rec)" "seg_str_ok (sg_tag rec)"
    "length (sg_data rec) < 256 ^ 4"
    using assms by (auto simp: seg_record_ok_def)
  have fields: "?h ! 0 = seg_flags rec" "sub_slice 1 9 ?h = le_bytes 8 (sg_seq rec)"
      "sub_slice 9 17 ?h = le_bytes 8 (sg_ts rec)" "sub_slice 17 19 ?h = le_bytes 2 (length ?n)"
      "sub_slice 19 21 ?h = le_bytes 2 (length ?t)" "sub_slice 21 25 ?h = le_bytes 4 (length (sg_data rec))"
      "drop 25 ?h = ?n @ ?t @ sg_data rec"
    by (simp_all add: seg_body_def Let_def sub_slice_def)
  have nums: "of_le (le_bytes 8 (sg_seq rec)) = sg_seq rec" "of_le (le_bytes 8 (sg_ts rec)) = sg_ts rec"
      "of_le (le_bytes 2 (length ?n)) = length ?n" "of_le (le_bytes 2 (length ?t)) = length ?t"
      "of_le (le_bytes 4 (length (sg_data rec))) = length (sg_data rec)"
    using ok(1,2,5) ok(3,4)[THEN seg_str_length] by simp_all
  have "\<not> length ?h < 25"
    by (simp add: length_seg_body)
  then show ?thesis
    unfolding parse_body_def Let_def fields nums
    using from_utf8_str_bytes[OF ok(3)] from_utf8_str_bytes[OF ok(4)]
    by (cases "sg_node rec"; cases "sg_tag rec") (simp_all add: seg_flags_bits sub_slice_def)
qed

definition set_del_flag :: "u8 \<Rightarrow> u8 list \<Rightarrow> u8 list" where
  "set_del_flag v frame = frame[del_flag_offset_in_frame (length frame) := v]"

lemma encode_data_frame_split:
  "encode_data_frame crc rec =
     le_bytes 4 (length (seg_body rec) + 9) @ seg_body rec @ le_bytes 8 (crc (seg_body rec)) @ [SEG_DEL_LIVE]"
  by (simp add: encode_data_frame_def Let_def)

lemma length_encode_data_frame: "length (encode_data_frame crc rec) = length (seg_body rec) + 13"
  by (simp add: encode_data_frame_split)

lemma set_del_flag_split:
  "set_del_flag v (encode_data_frame crc rec) =
     le_bytes 4 (length (seg_body rec) + 9) @ seg_body rec @ le_bytes 8 (crc (seg_body rec)) @ [v]"
  by (simp add: set_del_flag_def del_flag_offset_in_frame_def encode_data_frame_split list_update_append)

lemma decode_flagged_frame:
  assumes "seg_record_ok rec" "\<forall>bs. crc bs < 256 ^ 8"
  shows "decode_data_frame_full crc (set_del_flag v (encode_data_frame crc rec) @ rest) =
    Inr (rec, v = SEG_DEL_SENTINEL)"
proof -
  let ?b = "seg_body rec"
  let ?buf = "le_bytes 4 (length ?b + 9) @ ?b @ le_bytes 8 (crc ?b) @ [v] @ rest"
  have "length ?b + 9 < 256 ^ 4"
    using assms(1) by (simp add: seg_record_ok_def length_seg_body)
  then have len: "of_le (sub_slice 0 4 ?buf) = length ?b + 9"
    by (simp add: sub_slice_def)
  have parts: "sub_slice (4 + length ?b) (12 + length ?b) ?buf = le_bytes 8 (crc ?b)"
    "sub_slice 4 (4 + length ?b) ?buf = ?b" "?buf ! (12 + length ?b) = v"
    by (simp_all add: sub_slice_def nth_append)
  have "of_le (le_bytes 8 (crc ?b)) = crc ?b"
    using assms(2) by simp
  moreover have "\<not> length ?buf < 4" "\<not> length ?buf < 4 + (length ?b + 9)" "25 + 8 + 1 \<le> length ?b + 9"
    by (simp_all add: length_seg_body)
  moreover have "4 + (length ?b + 9) - 1 = 12 + length ?b" "12 + length ?b - 8 = 4 + length ?b"
    by simp_all
  ultimately show ?thesis
    unfolding set_del_flag_split decode_data_frame_full_def Let_def append_assoc len
    using parts parse_seg_body[OF assms(1)] by simp
qed

lemma set_del_flag_live: "set_del_flag SEG_DEL_LIVE (encode_data_frame crc rec) = encode_data_frame crc rec"
  unfolding set_del_flag_split by (simp add: encode_data_frame_split)

lemma decode_data_frame_enc:
  assumes "seg_record_ok rec" "\<forall>bs. crc bs < 256 ^ 8"
  shows "decode_data_frame_full crc (encode_data_frame crc rec @ rest) = Inr (rec, False)"
  using decode_flagged_frame[OF assms, of SEG_DEL_LIVE rest] unfolding set_del_flag_live
  by (simp add: SEG_DEL_LIVE_def SEG_DEL_SENTINEL_def)

section \<open>Segments built by the builder\<close>

lemma length_encode_idx_entry [simp]: "length (encode_idx_entry e) = IDX_STRIDE"
  by (simp add: encode_idx_entry_def IDX_STRIDE_def)

lemma length_idx_concat [simp]: "length (concat (map encode_idx_entry es)) = length es * IDX_STRIDE"
  by (induction es) auto

lemma sub_slice_concat:
  assumes "\<forall>x\<in>set xs. length (f x) = n" "i < length xs"
  shows "sub_slice (i * n) (i * n + n) (concat (map f xs)) = f (xs ! i)"
  using assms
proof (induction xs arbitrary: i)
  case (Cons x xs)
  then show ?case
    by (cases i) (auto simp: sub_slice_def)
qed simp

definition idx_entry_ok :: "idx_entry \<Rightarrow> bool" where
  "idx_entry_ok e \<longleftrightarrow> ie_offset e < 256 ^ 4 \<and> ie_len e < 256 ^ 4 \<and> ie_ts e < 256 ^ 8"

lemma idx_entry_at_enc:
  assumes "i < length es" "idx_entry_ok (es ! i)"
  shows "idx_entry_at (concat (map encode_idx_entry es)) i = Some (es ! i)"
proof -
  have sl: "sub_slice (i * IDX_STRIDE) (i * IDX_STRIDE + IDX_STRIDE) (concat (map encode_idx_entry es)) =
      encode_idx_entry (es ! i)"
    using assms(1) by (intro sub_slice_concat) simp_all
  have "i * IDX_STRIDE + IDX_STRIDE \<le> length es * IDX_STRIDE"
    using mult_le_mono1[of "Suc i" "length es" IDX_STRIDE] assms(1) by simp
  then have "\<not> i * IDX_STRIDE + IDX_STRIDE > length (concat (map encode_idx_entry es))" by simp
  moreover have "sub_slice 0 4 (encode_idx_entry e) = le_bytes 4 (ie_offset e)"
    "sub_slice 4 8 (encode_idx_entry e) = le_bytes 4 (ie_len e)"
    "sub_slice 8 16 (encode_idx_entry e) = le_bytes 8 (ie_ts e)" "encode_idx_entry e ! 16 = ie_flags e" for e
    by (simp_all add: encode_idx_entry_def sub_slice_def nth_append)
  ultimately show ?thesis
    unfolding idx_entry_at_def Let_def sl using assms(2) by (simp add: idx_entry_ok_def)
qed

fun build :: "(u8 list \<Rightarrow> nat) \<Rightarrow> segment_builder \<Rightarrow> segment_record list \<Rightarrow> segment_builder" where
  "build crc b [] = b"
| "build crc b (r # rs) = build crc (builder_push crc r b) rs"

fun idx_entries :: "(u8 list \<Rightarrow> nat) \<Rightarrow> nat \<Rightarrow> segment_record list \<Rightarrow> idx_entry list" where
  "idx_entries crc off [] = []"
| "idx_entries crc off (r # rs) =
     \<lparr>ie_offset = off, ie_len = length (encode_data_frame crc r), ie_ts = sg_ts r, ie_flags = seg_flags r\<rparr> #
     idx_entries crc (off + length (encode_data_frame crc r)) rs"

lemma length_idx_entries [simp]: "length (idx_entries crc off rs) = length rs"
  by (induction rs arbitrary: off) auto

lemma build_fields:
  "sb_start_seq (build crc b rs) = sb_start_seq b"
  "sb_next_seq (build crc b rs) = sb_next_seq b + length rs"
  "sb_data (build crc b rs) = sb_data b @ concat (map (encode_data_frame crc) rs)"
  "sb_idx (build crc b rs) = sb_idx b @ concat (map encode_idx_entry (idx_entries crc (length (sb_data b)) rs))"
  by (induction rs arbitrary: b) (auto simp: builder_push_def Let_def)

lemma idx_entries_nth:
  "i < length rs \<Longrightarrow> idx_entries crc off rs ! i =
     \<lparr>ie_offset = off + length (concat (map (encode_data_frame crc) (take i rs))),
      ie_len = length (encode_data_frame crc (rs ! i)), ie_ts = sg_ts (rs ! i), ie_flags = seg_flags (rs ! i)\<rparr>"
proof (induction rs arbitrary: off i)
  case (Cons r rs)
  then show ?case
    by (cases i) (auto simp: add.assoc)
qed simp

lemma record_count_build: "record_count (build crc (builder_new s) rs) = length rs"
  by (simp add: record_count_def idx_len_def build_fields builder_new_def IDX_STRIDE_def)

text \<open>
  Every record of a built segment is found through the index and its slice of the data
  file is its frame.
\<close>

lemma build_lookup:
  assumes "\<forall>r\<in>set rs. seg_record_ok r" "i < length rs"
    "length (concat (map (encode_data_frame crc) rs)) < 256 ^ 4"
    "builder_finish (build crc (builder_new s) rs) = (data, idx)"
  obtains e where "idx_lookup idx s (s + i) = Some e" "ie_offset e + ie_len e \<le> length data"
    "sub_slice (ie_offset e) (ie_offset e + ie_len e) data = encode_data_frame crc (rs ! i)"
proof -
  let ?enc = "encode_data_frame crc"
  define e where "e = idx_entries crc 0 rs ! i"
  have data: "data = concat (map ?enc rs)" and idx: "idx = concat (map encode_idx_entry (idx_entries crc 0 rs))"
    using assms(4) by (auto simp: builder_finish_def build_fields builder_new_def)
  have "rs = take i rs @ rs ! i # drop (Suc i) rs"
    using assms(2) by (simp add: id_take_nth_drop)
  then have cat: "data = concat (map ?enc (take i rs)) @ ?enc (rs ! i) @ concat (map ?enc (drop (Suc i) rs))"
    unfolding data by (metis concat.simps(2) concat_append list.simps(9) map_append)
  have e: "ie_offset e = length (concat (map ?enc (take i rs)))" "ie_len e = length (?enc (rs ! i))"
      "ie_ts e = sg_ts (rs ! i)"
    using assms(2) by (simp_all add: e_def idx_entries_nth)
  have fits: "ie_offset e + ie_len e \<le> length data"
    by (simp only: cat e length_append)
  then have "idx_entry_ok e"
    using assms(1,2,3) data by (auto simp: idx_entry_ok_def e(3) seg_record_ok_def)
  then have "idx_lookup idx s (s + i) = Some e"
    using assms(2) idx_entry_at_enc[of i "idx_entries crc 0 rs"] by (simp add: idx_lookup_def idx e_def)
  moreover have "sub_slice (ie_offset e) (ie_offset e + ie_len e) data = ?enc (rs ! i)"
    unfolding e cat by (rule sub_slice_mid)
  ultimately show ?thesis
    using fits that by blast
qed

end
