(* ===== verification/Segment_Store.thy ===== *)
theory Segment_Store
  imports Segment_Codec Ordered_Map
begin

text \<open>
  The segment stores (\<open>storage/segstore.rs\<close>): a local directory of segment file pairs
  and the two-tier storage of a topic. A store is the two maps from segment id to file
  contents; the filesystem below it is a parameter, the predicate \<open>fs_fails\<close> that says
  which of its calls return an error. A call that fails leaves the files as the source's
  order of calls leaves them.
\<close>

datatype segment_part = Data | Idx

datatype store_error = NotFound seq | RangeOutOfBounds | StoreIo

datatype fs_call =
    WriteFile segment_part seq
  | SyncDir
  | ReadFile segment_part seq
  | WriteByte seq nat
  | SyncFile seq nat
  | Unlink segment_part seq
  | ReadDir

record seg_store =
  data_files :: "(seq \<times> u8 list) list"
  idx_files :: "(seq \<times> u8 list) list"
  fs_fails :: "fs_call \<Rightarrow> bool"

fun part_files :: "segment_part \<Rightarrow> seg_store \<Rightarrow> (seq \<times> u8 list) list" where
  "part_files Data st = data_files st"
| "part_files Idx st = idx_files st"

fun write_part :: "segment_part \<Rightarrow> seq \<Rightarrow> u8 list \<Rightarrow> seg_store \<Rightarrow> seg_store" where
  "write_part Data sid bs st = st\<lparr>data_files := bt_insert sid bs (data_files st)\<rparr>"
| "write_part Idx sid bs st = st\<lparr>idx_files := bt_insert sid bs (idx_files st)\<rparr>"

fun unlink_part :: "segment_part \<Rightarrow> seq \<Rightarrow> seg_store \<Rightarrow> seg_store" where
  "unlink_part Data sid st = st\<lparr>data_files := bt_remove sid (data_files st)\<rparr>"
| "unlink_part Idx sid st = st\<lparr>idx_files := bt_remove sid (idx_files st)\<rparr>"

definition store_put :: "seq \<Rightarrow> u8 list \<Rightarrow> u8 list \<Rightarrow> seg_store \<Rightarrow> seg_store \<times> store_error option" where
  "store_put sid data idx st =
     (if fs_fails st (WriteFile Data sid) then (st, Some StoreIo)
      else let st = write_part Data sid data st in
        if fs_fails st (WriteFile Idx sid) then (st, Some StoreIo)
        else let st = write_part Idx sid idx st in
          if fs_fails st SyncDir then (st, Some StoreIo) else (st, None))"

definition store_read_range ::
  "seq \<Rightarrow> segment_part \<Rightarrow> nat \<Rightarrow> nat \<Rightarrow> seg_store \<Rightarrow> store_error + u8 list" where
  "store_read_range sid part offset n st =
     (case map_of (part_files part st) sid of
        None \<Rightarrow> Inl (NotFound sid)
      | Some bs \<Rightarrow>
          if fs_fails st (ReadFile part sid) then Inl StoreIo
          else if offset + n > length bs then Inl RangeOutOfBounds
          else Inr (sub_slice offset (offset + n) bs))"

definition store_len :: "seq \<Rightarrow> segment_part \<Rightarrow> seg_store \<Rightarrow> store_error + nat" where
  "store_len sid part st =
     (case map_of (part_files part st) sid of
        None \<Rightarrow> Inl (NotFound sid)
      | Some bs \<Rightarrow> if fs_fails st (ReadFile part sid) then Inl StoreIo else Inr (length bs))"

definition store_read_all :: "seq \<Rightarrow> segment_part \<Rightarrow> seg_store \<Rightarrow> store_error + u8 list" where
  "store_read_all sid part st =
     (case store_len sid part st of
        Inl e \<Rightarrow> Inl e
      | Inr n \<Rightarrow> store_read_range sid part 0 n st)"

definition store_mark_record_deleted ::
  "seq \<Rightarrow> nat \<Rightarrow> seg_store \<Rightarrow> seg_store \<times> store_error option" where
  "store_mark_record_deleted sid data_offset st =
     (case map_of (data_files st) sid of
        None \<Rightarrow> (st, Some (NotFound sid))
      | Some bs \<Rightarrow>
          if data_offset \<ge> length bs then (st, Some RangeOutOfBounds)
          else if fs_fails st (WriteByte sid data_offset) then (st, Some StoreIo)
          else let st = write_part Data sid (bs[data_offset := SEG_DEL_SENTINEL]) st in
            if fs_fails st (SyncFile sid data_offset) then (st, Some StoreIo) else (st, None))"

definition store_exists :: "seq \<Rightarrow> segment_part \<Rightarrow> seg_store \<Rightarrow> bool" where
  "store_exists sid part st = (map_of (part_files part st) sid \<noteq> None)"

definition store_delete :: "seq \<Rightarrow> seg_store \<Rightarrow> seg_store \<times> store_error option" where
  "store_delete sid st =
     (let removed_data = store_exists sid Data st in
      if removed_data \<and> fs_fails st (Unlink Data sid) then (st, Some StoreIo)
      else let st = unlink_part Data sid st;
               removed_idx = store_exists sid Idx st in
        if removed_idx \<and> fs_fails st (Unlink Idx sid) then (st, Some StoreIo)
        else let st = unlink_part Idx sid st in
          if (removed_data \<or> removed_idx) \<and> fs_fails st SyncDir then (st, Some StoreIo)
          else (st, None))"

definition store_list :: "seg_store \<Rightarrow> store_error + seq list" where
  "store_list st = (if fs_fails st ReadDir then Inl StoreIo else Inr (map fst (data_files st)))"

definition store_list_all_ids :: "seg_store \<Rightarrow> store_error + seq list" where
  "store_list_all_ids st =
     (if fs_fails st ReadDir then Inl StoreIo
      else Inr (sort (remdups (map fst (data_files st) @ map fst (idx_files st)))))"

section \<open>Tiers\<close>

datatype tier = Hot | Cold

record topic_tier =
  hot :: seg_store
  cold :: "seg_store option"

definition has_cold :: "topic_tier \<Rightarrow> bool" where
  "has_cold t = (cold t \<noteq> None)"

definition tier_resolve :: "topic_tier \<Rightarrow> seq \<Rightarrow> tier option" where
  "tier_resolve t sid =
     (if store_exists sid Data (hot t) then Some Hot
      else case cold t of
             Some c \<Rightarrow> if store_exists sid Data c then Some Cold else None
           | None \<Rightarrow> None)"

definition store_for :: "topic_tier \<Rightarrow> seq \<Rightarrow> seg_store option" where
  "store_for t sid =
     (case tier_resolve t sid of
        None \<Rightarrow> None
      | Some Hot \<Rightarrow> Some (hot t)
      | Some Cold \<Rightarrow> cold t)"

text \<open>The same update applied to whichever store holds \<open>sid\<close>.\<close>

definition update_store_for :: "seq \<Rightarrow> (seg_store \<Rightarrow> seg_store) \<Rightarrow> topic_tier \<Rightarrow> topic_tier" where
  "update_store_for sid f t =
     (case tier_resolve t sid of
        None \<Rightarrow> t
      | Some Hot \<Rightarrow> t\<lparr>hot := f (hot t)\<rparr>
      | Some Cold \<Rightarrow> t\<lparr>cold := map_option f (cold t)\<rparr>)"

section \<open>Store invariant and file contents\<close>

definition store_ok :: "seg_store \<Rightarrow> bool" where
  "store_ok st \<longleftrightarrow> bt_invar (data_files st) \<and> bt_invar (idx_files st)"

definition store_file :: "segment_part \<Rightarrow> seq \<Rightarrow> seg_store \<Rightarrow> u8 list option" where
  "store_file part sid st = map_of (part_files part st) sid"

lemma write_part_ok [inv_intro]: "store_ok st \<Longrightarrow> store_ok (write_part part sid bs st)"
  by (cases part) (auto simp: store_ok_def bt_insert_invar)

lemma unlink_part_ok [inv_intro]: "store_ok st \<Longrightarrow> store_ok (unlink_part part sid st)"
  by (cases part) (auto simp: store_ok_def bt_remove_invar)

lemma store_file_write:
  "store_ok st \<Longrightarrow> store_file p i (write_part part sid bs st) =
     (if p = part \<and> i = sid then Some bs else store_file p i st)"
  by (cases part; cases p) (auto simp: store_file_def store_ok_def map_of_bt_insert)

lemma store_file_unlink:
  "store_file p i (unlink_part part sid st) = (if p = part \<and> i = sid then None else store_file p i st)"
  by (cases part; cases p) (auto simp: store_file_def map_of_bt_remove)

lemma write_part_fails [simp]: "fs_fails (write_part part sid bs st) = fs_fails st"
  by (cases part) auto

lemma unlink_part_fails [simp]: "fs_fails (unlink_part part sid st) = fs_fails st"
  by (cases part) auto

declare write_part.simps [simp del] unlink_part.simps [simp del]

lemma store_put_ok [inv_intro]: "store_ok st \<Longrightarrow> store_ok (fst (store_put sid d x st))"
  by (simp add: store_put_def Let_def write_part_ok)

lemma store_mark_ok [inv_intro]: "store_ok st \<Longrightarrow> store_ok (fst (store_mark_record_deleted sid off st))"
  by (simp add: store_mark_record_deleted_def Let_def write_part_ok split: option.splits)

lemma store_delete_ok [inv_intro]: "store_ok st \<Longrightarrow> store_ok (fst (store_delete sid st))"
  by (simp add: store_delete_def Let_def unlink_part_ok)

lemma store_put_success:
  assumes "store_ok st" "store_put sid d x st = (st', None)"
  shows "store_file p i st' = (if i = sid then Some (case p of Data \<Rightarrow> d | Idx \<Rightarrow> x) else store_file p i st)"
    and "fs_fails st' = fs_fails st"
  using assms
  by (auto simp: store_put_def Let_def store_file_write write_part_ok split: if_splits segment_part.splits)

lemma store_put_total:
  "\<not> fs_fails st (WriteFile Data sid) \<Longrightarrow> \<not> fs_fails st (WriteFile Idx sid) \<Longrightarrow> \<not> fs_fails st SyncDir \<Longrightarrow>
     snd (store_put sid d x st) = None"
  by (simp add: store_put_def Let_def)

lemma store_read_all_file:
  "store_file part sid st = Some bs \<Longrightarrow> \<not> fs_fails st (ReadFile part sid) \<Longrightarrow>
     store_read_all sid part st = Inr bs"
  by (simp add: store_read_all_def store_len_def store_read_range_def store_file_def sub_slice_def)

lemma store_read_range_file:
  "store_file part sid st = Some bs \<Longrightarrow> \<not> fs_fails st (ReadFile part sid) \<Longrightarrow> off + n \<le> length bs \<Longrightarrow>
     store_read_range sid part off n st = Inr (sub_slice off (off + n) bs)"
  by (simp add: store_read_range_def store_file_def)

lemma store_delete_success:
  assumes "store_delete sid st = (st', None)"
  shows "store_file p i st' = (if i = sid then None else store_file p i st)"
proof -
  have "st' = unlink_part Idx sid (unlink_part Data sid st)"
    using assms by (auto simp: store_delete_def Let_def split: if_splits)
  then show ?thesis
    by (cases p) (auto simp: store_file_unlink)
qed

end
