(* ===== verification/Segment_Writer.thy ===== *)
theory Segment_Writer
  imports Segment_Store Topic_Types
begin

text \<open>
  The per-topic segment writer (\<open>engine/segwriter.rs\<close>): the active segment, sealing,
  the sealed registry, the payload caches, reading a sealed record back, in-place deletes,
  relocation to the cold tier and reclaim. The code outside the repository that it calls
  (the checksum, the JSON serialiser) and the clock are the fields of \<open>env\<close>.
\<close>

section \<open>State\<close>

record env =
  env_crc :: "u8 list \<Rightarrow> nat"
  env_to_vec :: "json \<Rightarrow> u8 list"
  env_from_slice :: "u8 list \<Rightarrow> json option"
  env_now_ms :: i64

record segment_config =
  max_events :: u64
  max_bytes :: u64
  max_age_ms :: u64
  hot_retain_segments :: u64
  hot_retain_bytes :: u64

record sealed_segment =
  ss_start_seq :: seq
  ss_end_seq :: seq
  ss_data_len :: nat
  ss_tier :: tier

record resolved_payload =
  rp_data :: json
  rp_meta :: "json option"

record segment_writer =
  sw_tier :: topic_tier
  sw_cfg :: segment_config
  sw_active :: "segment_builder option"
  sw_active_started_ms :: i64
  sw_sealed :: "sealed_segment list"
  sw_cache :: "(seq \<times> resolved_payload) list"
  sw_cache_cap :: nat
  sw_cold_cache :: "(seq \<times> resolved_payload) list"
  sw_cold_cache_cap :: nat
  sw_cold_reads :: nat
  sw_evict_resident :: bool

definition PAYLOAD_CACHE_CAP :: nat where
  "PAYLOAD_CACHE_CAP = 4096"

definition COLD_CACHE_CAP :: nat where
  "COLD_CACHE_CAP = 1024"

definition writer_new :: "topic_tier \<Rightarrow> segment_config \<Rightarrow> segment_writer" where
  "writer_new t cfg = \<lparr>sw_tier = t, sw_cfg = cfg, sw_active = None, sw_active_started_ms = 0,
     sw_sealed = [], sw_cache = [], sw_cache_cap = PAYLOAD_CACHE_CAP, sw_cold_cache = [],
     sw_cold_cache_cap = COLD_CACHE_CAP, sw_cold_reads = 0, sw_evict_resident = True\<rparr>"

section \<open>Payload blobs\<close>

definition encode_payload :: "env \<Rightarrow> json \<Rightarrow> json option \<Rightarrow> u8 list" where
  "encode_payload env data meta =
     env_to_vec env (JObject ((''d'', data) # (case meta of Some m \<Rightarrow> [(''m'', m)] | None \<Rightarrow> [])))"

definition decode_payload :: "env \<Rightarrow> u8 list \<Rightarrow> json \<times> json option" where
  "decode_payload env blob =
     (case env_from_slice env blob of
        Some (JObject obj) \<Rightarrow>
          ((case map_of obj ''d'' of Some d \<Rightarrow> d | None \<Rightarrow> JNull), map_of obj ''m'')
      | Some v \<Rightarrow> (v, None)
      | None \<Rightarrow> (JNull, None))"

section \<open>Appending and sealing\<close>

text \<open>Pushing at the back of a bounded ring drops from the front beyond the cap.\<close>

definition ring_push :: "nat \<Rightarrow> 'a \<Rightarrow> 'a list \<Rightarrow> 'a list" where
  "ring_push cap x ring = (let r = ring @ [x] in drop (length r - cap) r)"

definition should_seal_before :: "env \<Rightarrow> segment_writer \<Rightarrow> bool" where
  "should_seal_before env w =
     (case sw_active w of
        None \<Rightarrow> False
      | Some active \<Rightarrow>
          let count = record_count active in
          if count = 0 then False
          else if count \<ge> max_events (sw_cfg w) then True
          else if max_bytes (sw_cfg w) > 0 \<and> length (sb_data active) \<ge> max_bytes (sw_cfg w) then True
          else max_age_ms (sw_cfg w) > 0 \<and>
               i64_sat_sub (env_now_ms env) (sw_active_started_ms w) \<ge> as_i64 (max_age_ms (sw_cfg w)))"

fun cache_sealed ::
  "env \<Rightarrow> u8 list \<Rightarrow> u8 list \<Rightarrow> seq \<Rightarrow> seq list \<Rightarrow> nat \<Rightarrow> (seq \<times> resolved_payload) list \<Rightarrow>
   (seq \<times> resolved_payload) list" where
  "cache_sealed env data idx start [] cap cache = cache"
| "cache_sealed env data idx start (s # ss) cap cache =
     cache_sealed env data idx start ss cap
       (if cap = 0 then cache
        else case idx_lookup idx start s of
               None \<Rightarrow> cache
             | Some e \<Rightarrow>
                 let lo = ie_offset e; hi = lo + ie_len e in
                 if hi \<le> length data then
                   (case decode_data_frame (env_crc env) (sub_slice lo hi data) of
                      Inr r \<Rightarrow> (let (d, m) = decode_payload env (sg_data r)
                                in ring_push cap (s, \<lparr>rp_data = d, rp_meta = m\<rparr>) cache)
                    | Inl _ \<Rightarrow> cache)
                 else cache)"

definition seal_active :: "env \<Rightarrow> segment_writer \<Rightarrow> segment_writer \<times> seq list" where
  "seal_active env w =
     (case sw_active w of
        None \<Rightarrow> (w, [])
      | Some builder \<Rightarrow>
          let w = w\<lparr>sw_active := None, sw_active_started_ms := 0\<rparr> in
          if record_count builder = 0 then (w, [])
          else
            let start = sb_start_seq builder;
                stop = builder_end_seq builder;
                (data, idx) = builder_finish builder;
                (w, placed) =
                  (case tier_resolve (sw_tier w) start of
                     Some t \<Rightarrow> (w, Some t)
                   | None \<Rightarrow>
                       (case store_put start data idx (hot (sw_tier w)) of
                          (h, None) \<Rightarrow> (w\<lparr>sw_tier := (sw_tier w)\<lparr>hot := h\<rparr>\<rparr>, Some Hot)
                        | (h, Some _) \<Rightarrow> (w\<lparr>sw_tier := (sw_tier w)\<lparr>hot := h\<rparr>\<rparr>, None)))
            in case placed of
                 None \<Rightarrow> (w, [])
               | Some t \<Rightarrow>
                   (w\<lparr>sw_sealed := sw_sealed w @ [\<lparr>ss_start_seq = start, ss_end_seq = stop,
                        ss_data_len = length data, ss_tier = t\<rparr>],
                      sw_cache := cache_sealed env data idx start [start..<Suc stop]
                        (sw_cache_cap w) (sw_cache w)\<rparr>,
                    [start..<Suc stop]))"

definition append_record ::
  "env \<Rightarrow> seq \<Rightarrow> i64 \<Rightarrow> string option \<Rightarrow> string option \<Rightarrow> json \<Rightarrow> json option \<Rightarrow>
   segment_writer \<Rightarrow> segment_writer \<times> seq list" where
  "append_record env s ts node tag data meta w =
     (let gap = (case sw_active w of
                   Some a \<Rightarrow> record_count a > 0 \<and> sb_next_seq a \<noteq> s
                 | None \<Rightarrow> False);
          (w, sealed) = (if gap \<or> should_seal_before env w then seal_active env w else (w, []));
          w = (case sw_active w of
                 None \<Rightarrow> w\<lparr>sw_active := Some (builder_new s), sw_active_started_ms := ts\<rparr>
               | Some _ \<Rightarrow> w);
          rec = \<lparr>sg_seq = s, sg_ts = nat (max ts 0), sg_node = node, sg_tag = tag,
                 sg_data = encode_payload env data meta\<rparr>
      in (w\<lparr>sw_active := map_option (builder_push (env_crc env) rec) (sw_active w)\<rparr>, sealed))"

definition maybe_seal_idle :: "env \<Rightarrow> segment_writer \<Rightarrow> segment_writer \<times> seq list" where
  "maybe_seal_idle env w =
     (let should = (case sw_active w of
                      Some a \<Rightarrow> record_count a > 0 \<and> max_age_ms (sw_cfg w) > 0 \<and>
                        i64_sat_sub (env_now_ms env) (sw_active_started_ms w) \<ge> as_i64 (max_age_ms (sw_cfg w))
                    | None \<Rightarrow> False)
      in if should then seal_active env w else (w, []))"

definition writer_flush :: "env \<Rightarrow> segment_writer \<Rightarrow> segment_writer \<times> seq list" where
  "writer_flush env w =
     (if (case sw_active w of Some a \<Rightarrow> record_count a > 0 | None \<Rightarrow> False)
      then seal_active env w else (w, []))"

section \<open>Reading sealed payloads\<close>

definition segment_for :: "segment_writer \<Rightarrow> seq \<Rightarrow> sealed_segment option" where
  "segment_for w s =
     (let n = length (takeWhile (\<lambda>g. ss_start_seq g \<le> s) (sw_sealed w)) in
      if n = 0 then None
      else let seg = sw_sealed w ! (n - 1) in
           if ss_start_seq seg \<le> s \<and> s \<le> ss_end_seq seg then Some seg else None)"

record sealed_locator =
  loc_tier :: topic_tier
  loc_seg :: sealed_segment
  loc_seq :: seq

datatype sealed_resolve = Hit resolved_payload | Read sealed_locator | NotSealed

definition read_locator :: "env \<Rightarrow> sealed_locator \<Rightarrow> resolved_payload option" where
  "read_locator env loc =
     (let start = ss_start_seq (loc_seg loc) in
      case store_for (loc_tier loc) start of
        None \<Rightarrow> None
      | Some store \<Rightarrow>
          (case store_read_range start Idx ((loc_seq loc - start) * IDX_STRIDE) IDX_STRIDE store of
             Inl _ \<Rightarrow> None
           | Inr idx_bytes \<Rightarrow>
               (case idx_entry_at idx_bytes 0 of
                  None \<Rightarrow> None
                | Some e \<Rightarrow>
                    (case store_read_range start Data (ie_offset e) (ie_len e) store of
                       Inl _ \<Rightarrow> None
                     | Inr frame \<Rightarrow>
                         (case decode_data_frame_full (env_crc env) frame of
                            Inl _ \<Rightarrow> None
                          | Inr (r, is_deleted) \<Rightarrow>
                              if is_deleted then None
                              else let (d, m) = decode_payload env (sg_data r)
                                   in Some \<lparr>rp_data = d, rp_meta = m\<rparr>)))))"

definition cache_find :: "(seq \<times> resolved_payload) list \<Rightarrow> seq \<Rightarrow> resolved_payload option" where
  "cache_find cache s = map_of (rev cache) s"

definition resolve_sealed_fast :: "segment_writer \<Rightarrow> seq \<Rightarrow> sealed_resolve" where
  "resolve_sealed_fast w s =
     (case cache_find (sw_cache w) s of
        Some p \<Rightarrow> Hit p
      | None \<Rightarrow>
          (case cache_find (sw_cold_cache w) s of
             Some p \<Rightarrow> Hit p
           | None \<Rightarrow>
               (case segment_for w s of
                  Some seg \<Rightarrow> Read \<lparr>loc_tier = sw_tier w, loc_seg = seg, loc_seq = s\<rparr>
                | None \<Rightarrow> NotSealed)))"

definition record_cold_read :: "sealed_locator \<Rightarrow> resolved_payload \<Rightarrow> segment_writer \<Rightarrow> segment_writer" where
  "record_cold_read loc p w =
     (if ss_tier (loc_seg loc) = Cold then
        let w = w\<lparr>sw_cold_reads := sat_add (sw_cold_reads w) 1\<rparr> in
        if sw_cold_cache_cap w > 0 then
          w\<lparr>sw_cold_cache := ring_push (sw_cold_cache_cap w) (loc_seq loc, p) (sw_cold_cache w)\<rparr>
        else w
      else w)"

definition resolve_sealed :: "env \<Rightarrow> seq \<Rightarrow> segment_writer \<Rightarrow> segment_writer \<times> resolved_payload option" where
  "resolve_sealed env s w =
     (case resolve_sealed_fast w s of
        Hit p \<Rightarrow> (w, Some p)
      | Read loc \<Rightarrow>
          (case read_locator env loc of
             None \<Rightarrow> (w, None)
           | Some p \<Rightarrow> (record_cold_read loc p w, Some p))
      | NotSealed \<Rightarrow> (w, None))"

section \<open>Relocation\<close>

fun byte_keep_from :: "nat \<Rightarrow> nat \<Rightarrow> nat \<Rightarrow> sealed_segment list \<Rightarrow> nat" where
  "byte_keep_from bound kept 0 sealed = 0"
| "byte_keep_from bound kept (Suc i) sealed =
     (let next = sat_add kept (ss_data_len (sealed ! i)) in
      if next > bound then Suc i else byte_keep_from bound next i sealed)"

definition relocation_plan :: "segment_writer \<Rightarrow> (seq \<times> nat) list" where
  "relocation_plan w =
     (if \<not> has_cold (sw_tier w) then []
      else let n = length (sw_sealed w);
               keep_from = n - hot_retain_segments (sw_cfg w);
               keep_from = (if hot_retain_bytes (sw_cfg w) > 0
                            then max keep_from (byte_keep_from (hot_retain_bytes (sw_cfg w)) 0 n (sw_sealed w))
                            else keep_from)
           in map (\<lambda>g. (ss_start_seq g, ss_data_len g))
                (filter (\<lambda>g. ss_tier g = Hot) (take keep_from (sw_sealed w))))"

definition copy_segment_to_cold :: "seq \<Rightarrow> topic_tier \<Rightarrow> topic_tier \<times> store_error option" where
  "copy_segment_to_cold sid t =
     (case cold t of
        None \<Rightarrow> (t, None)
      | Some c \<Rightarrow>
          if store_exists sid Data c \<and> store_exists sid Idx c then (t, None)
          else (case store_read_all sid Data (hot t) of
                  Inl e \<Rightarrow> (t, Some e)
                | Inr data \<Rightarrow>
                    (case store_read_all sid Idx (hot t) of
                       Inl e \<Rightarrow> (t, Some e)
                     | Inr idx \<Rightarrow>
                         (let (c', r) = store_put sid data idx c in (t\<lparr>cold := Some c'\<rparr>, r)))))"

fun propagate_flags :: "env \<Rightarrow> seq \<Rightarrow> u8 list \<Rightarrow> u8 list \<Rightarrow> nat list \<Rightarrow> seg_store \<Rightarrow> seg_store" where
  "propagate_flags env sid data idx [] c = c"
| "propagate_flags env sid data idx (i # is) c =
     propagate_flags env sid data idx is
       (case idx_lookup idx sid (sid + i) of
          None \<Rightarrow> c
        | Some e \<Rightarrow>
            let lo = ie_offset e; hi = lo + ie_len e in
            if hi \<le> length data \<and> frame_is_deleted (env_crc env) (sub_slice lo hi data)
            then fst (store_mark_record_deleted sid (ie_offset e + del_flag_offset_in_frame (ie_len e)) c)
            else c)"

definition propagate_hot_delflags_to_cold :: "env \<Rightarrow> seq \<Rightarrow> topic_tier \<Rightarrow> topic_tier" where
  "propagate_hot_delflags_to_cold env sid t =
     (case cold t of
        None \<Rightarrow> t
      | Some c \<Rightarrow>
          if \<not> store_exists sid Data (hot t) then t
          else (case (store_read_all sid Data (hot t), store_read_all sid Idx (hot t)) of
                  (Inr data, Inr idx) \<Rightarrow>
                    t\<lparr>cold := Some (propagate_flags env sid data idx [0..<idx_len idx] c)\<rparr>
                | _ \<Rightarrow> t))"

fun flip_tier :: "seq \<Rightarrow> sealed_segment list \<Rightarrow> sealed_segment list" where
  "flip_tier sid [] = []"
| "flip_tier sid (g # gs) =
     (if ss_start_seq g = sid then g\<lparr>ss_tier := Cold\<rparr> # gs else g # flip_tier sid gs)"

definition confirm_relocated :: "env \<Rightarrow> seq \<Rightarrow> segment_writer \<Rightarrow> segment_writer" where
  "confirm_relocated env sid w =
     (case find (\<lambda>g. ss_start_seq g = sid) (sw_sealed w) of
        None \<Rightarrow> w
      | Some seg \<Rightarrow>
          if ss_tier seg = Cold then w
          else
            let t = propagate_hot_delflags_to_cold env sid (sw_tier w);
                t = t\<lparr>hot := fst (store_delete sid (hot t))\<rparr>
            in w\<lparr>sw_sealed := flip_tier sid (sw_sealed w), sw_tier := t,
                 sw_cache := filter (\<lambda>c. fst c < ss_start_seq seg \<or> fst c > ss_end_seq seg) (sw_cache w)\<rparr>)"

section \<open>Reclaim and in-place deletes\<close>

definition delete_both :: "seq \<Rightarrow> topic_tier \<Rightarrow> topic_tier" where
  "delete_both sid t =
     t\<lparr>hot := fst (store_delete sid (hot t)),
       cold := map_option (\<lambda>c. fst (store_delete sid c)) (cold t)\<rparr>"

fun remove_segment :: "seq \<Rightarrow> sealed_segment list \<Rightarrow> sealed_segment list" where
  "remove_segment sid [] = []"
| "remove_segment sid (g # gs) = (if ss_start_seq g = sid then gs else g # remove_segment sid gs)"

definition drop_segment :: "seq \<Rightarrow> segment_writer \<Rightarrow> segment_writer" where
  "drop_segment sid w =
     (case find (\<lambda>g. ss_start_seq g = sid) (sw_sealed w) of
        None \<Rightarrow> w
      | Some seg \<Rightarrow>
          let keep = filter (\<lambda>c. fst c < ss_start_seq seg \<or> fst c > ss_end_seq seg)
          in w\<lparr>sw_sealed := remove_segment sid (sw_sealed w),
               sw_tier := delete_both sid (sw_tier w),
               sw_cache := keep (sw_cache w), sw_cold_cache := keep (sw_cold_cache w)\<rparr>)"

definition flag_sealed_deleted :: "seq \<Rightarrow> segment_writer \<Rightarrow> segment_writer \<times> bool" where
  "flag_sealed_deleted s w =
     (case segment_for w s of
        None \<Rightarrow> (w, False)
      | Some seg \<Rightarrow>
          let start = ss_start_seq seg in
          (case store_for (sw_tier w) start of
             None \<Rightarrow> (w, False)
           | Some store \<Rightarrow>
               (case store_read_range start Idx ((s - start) * IDX_STRIDE) IDX_STRIDE store of
                  Inl _ \<Rightarrow> (w, False)
                | Inr idx_bytes \<Rightarrow>
                    (case idx_entry_at idx_bytes 0 of
                       None \<Rightarrow> (w, False)
                     | Some e \<Rightarrow>
                         let flag_off = ie_offset e + del_flag_offset_in_frame (ie_len e);
                             (store', r) = store_mark_record_deleted start flag_off store
                         in (w\<lparr>sw_tier := update_store_for start (\<lambda>_. store') (sw_tier w),
                               sw_cache := filter (\<lambda>c. fst c \<noteq> s) (sw_cache w),
                               sw_cold_cache := filter (\<lambda>c. fst c \<noteq> s) (sw_cold_cache w)\<rparr>,
                             r = None)))))"

definition scan_segment_deleted :: "env \<Rightarrow> u8 list \<Rightarrow> u8 list \<Rightarrow> seq \<Rightarrow> seq list" where
  "scan_segment_deleted env data idx start =
     filter (\<lambda>s. case idx_lookup idx start s of
                   None \<Rightarrow> False
                 | Some e \<Rightarrow>
                     let lo = ie_offset e; hi = lo + ie_len e in
                     hi \<le> length data \<and>
                     (case decode_data_frame_full (env_crc env) (sub_slice lo hi data) of
                        Inr (rec, True) \<Rightarrow> sg_seq rec = s
                      | _ \<Rightarrow> False))
       [start..<start + idx_len idx]"

definition tier_ids :: "(seg_store \<Rightarrow> store_error + seq list) \<Rightarrow> topic_tier \<Rightarrow> seq list" where
  "tier_ids lst t =
     (let of_store = (\<lambda>st. case lst st of Inr ids \<Rightarrow> ids | Inl _ \<Rightarrow> [])
      in sort (remdups (of_store (hot t) @ (case cold t of Some c \<Rightarrow> of_store c | None \<Rightarrow> []))))"

definition scan_ondisk_deleted :: "env \<Rightarrow> segment_writer \<Rightarrow> seq list" where
  "scan_ondisk_deleted env w =
     sort (concat (map (\<lambda>start.
       case store_for (sw_tier w) start of
         None \<Rightarrow> []
       | Some store \<Rightarrow>
           (case (store_read_all start Data store, store_read_all start Idx store) of
              (Inr data, Inr idx) \<Rightarrow> scan_segment_deleted env data idx start
            | _ \<Rightarrow> []))
       (tier_ids store_list (sw_tier w))))"

definition reclaim_orphans_below :: "seq \<Rightarrow> segment_writer \<Rightarrow> segment_writer \<times> nat" where
  "reclaim_orphans_below live_floor w =
     (let registered = map ss_start_seq (sw_sealed w);
          orphans = filter (\<lambda>i. i < live_floor \<and> i \<notin> set registered)
                      (tier_ids store_list_all_ids (sw_tier w))
      in (w\<lparr>sw_tier := fold delete_both orphans (sw_tier w)\<rparr>, length orphans))"

section \<open>Test knobs\<close>

definition set_cache_cap :: "nat \<Rightarrow> segment_writer \<Rightarrow> segment_writer" where
  "set_cache_cap cap w =
     w\<lparr>sw_cache_cap := cap, sw_cache := drop (length (sw_cache w) - cap) (sw_cache w)\<rparr>"

definition set_evict_resident :: "bool \<Rightarrow> segment_writer \<Rightarrow> segment_writer" where
  "set_evict_resident on w = w\<lparr>sw_evict_resident := on\<rparr>"

definition set_cold_cache_cap :: "nat \<Rightarrow> segment_writer \<Rightarrow> segment_writer" where
  "set_cold_cache_cap cap w =
     w\<lparr>sw_cold_cache_cap := cap, sw_cold_cache := drop (length (sw_cold_cache w) - cap) (sw_cold_cache w)\<rparr>"

section \<open>Segment files as images of records and delete flags\<close>

definition flagged_frames :: "(u8 list \<Rightarrow> nat) \<Rightarrow> segment_record list \<Rightarrow> u8 list \<Rightarrow> u8 list list" where
  "flagged_frames crc recs flags = map2 (\<lambda>r v. set_del_flag v (encode_data_frame crc r)) recs flags"

definition seg_image ::
  "(u8 list \<Rightarrow> nat) \<Rightarrow> seq \<Rightarrow> segment_record list \<Rightarrow> u8 list \<Rightarrow> seg_store \<Rightarrow> bool" where
  "seg_image crc start recs flags st \<longleftrightarrow>
     length flags = length recs \<and> (\<forall>r\<in>set recs. seg_record_ok r) \<and>
     map sg_seq recs = [start..<start + length recs] \<and>
     length (concat (flagged_frames crc recs flags)) < 256 ^ 4 \<and>
     store_file Data start st = Some (concat (flagged_frames crc recs flags)) \<and>
     store_file Idx start st = Some (concat (map encode_idx_entry (idx_entries crc 0 recs)))"

definition crc_ok :: "env \<Rightarrow> bool" where
  "crc_ok env \<longleftrightarrow> (\<forall>bs. env_crc env bs < 256 ^ 8)"

lemma length_set_del_flag [simp]: "length (set_del_flag v frame) = length frame"
  by (simp add: set_del_flag_def)

lemma length_flagged_frames [simp]: "length flags = length recs \<Longrightarrow> length (flagged_frames crc recs flags) = length recs"
  by (simp add: flagged_frames_def)

lemma flagged_prefix_length:
  "length flags = length recs \<Longrightarrow>
     length (concat (take i (flagged_frames crc recs flags))) = length (concat (map (encode_data_frame crc) (take i recs)))"
proof (induction recs flags arbitrary: i rule: list_induct2')
  case (4 r rs v vs)
  then show ?case
    by (cases i) (auto simp: flagged_frames_def)
qed (auto simp: flagged_frames_def)

lemma concat_split_nth:
  assumes "i < length fs"
  shows "concat fs = concat (take i fs) @ fs ! i @ concat (drop (Suc i) fs)"
  by (subst id_take_nth_drop[OF assms]) simp

definition frame_entry :: "(u8 list \<Rightarrow> nat) \<Rightarrow> segment_record list \<Rightarrow> nat \<Rightarrow> idx_entry" where
  "frame_entry crc recs i = idx_entries crc 0 recs ! i"

lemma image_entry:
  assumes "seg_image crc start recs flags st" "i < length recs"
  defines "e \<equiv> frame_entry crc recs i"
  defines "data \<equiv> concat (flagged_frames crc recs flags)"
  shows "idx_entry_ok e" "ie_offset e + ie_len e \<le> length data" "ie_len e = length (encode_data_frame crc (recs ! i))"
    "ie_offset e = length (concat (take i (flagged_frames crc recs flags)))"
    "sub_slice (ie_offset e) (ie_offset e + ie_len e) data = set_del_flag (flags ! i) (encode_data_frame crc (recs ! i))"
proof -
  have im: "length flags = length recs" "\<forall>r\<in>set recs. seg_record_ok r" "length data < 256 ^ 4"
    using assms(1) by (auto simp: seg_image_def data_def)
  let ?fs = "flagged_frames crc recs flags"
  have nth: "?fs ! i = set_del_flag (flags ! i) (encode_data_frame crc (recs ! i))"
    using assms(2) im(1) by (simp add: flagged_frames_def)
  show len: "ie_len e = length (encode_data_frame crc (recs ! i))"
    and off: "ie_offset e = length (concat (take i ?fs))"
    using assms(2) flagged_prefix_length[OF im(1)] by (simp_all add: e_def frame_entry_def idx_entries_nth)
  have cat: "data = concat (take i ?fs) @ ?fs ! i @ concat (drop (Suc i) ?fs)"
    unfolding data_def using assms(2) im(1) by (intro concat_split_nth) simp
  show fits: "ie_offset e + ie_len e \<le> length data"
    unfolding len off by (subst cat) (simp add: nth)
  have "sg_ts (recs ! i) < 256 ^ 8" "ie_ts e = sg_ts (recs ! i)"
    using assms(2) im(2) by (auto simp: seg_record_ok_def e_def frame_entry_def idx_entries_nth)
  then show "idx_entry_ok e"
    using fits im(3) by (simp add: idx_entry_ok_def)
  show "sub_slice (ie_offset e) (ie_offset e + ie_len e) data = set_del_flag (flags ! i) (encode_data_frame crc (recs ! i))"
    using sub_slice_mid[of "concat (take i ?fs)" "?fs ! i" "concat (drop (Suc i) ?fs)"]
    unfolding off len cat[symmetric] by (simp add: nth)
qed

lemma image_idx:
  assumes "seg_image crc start recs flags st" "i < length recs"
  defines "idx \<equiv> concat (map encode_idx_entry (idx_entries crc 0 recs))"
  shows "idx_lookup idx start (start + i) = Some (frame_entry crc recs i)"
    and "i * IDX_STRIDE + IDX_STRIDE \<le> length idx"
    and "idx_entry_at (sub_slice (i * IDX_STRIDE) (i * IDX_STRIDE + IDX_STRIDE) idx) 0 = Some (frame_entry crc recs i)"
proof -
  have ok: "idx_entry_ok (idx_entries crc 0 recs ! i)"
    using image_entry(1)[OF assms(1,2)] by (simp add: frame_entry_def)
  show "idx_lookup idx start (start + i) = Some (frame_entry crc recs i)"
    using assms(2) idx_entry_at_enc[of i "idx_entries crc 0 recs"] ok
    by (simp add: idx_lookup_def idx_def frame_entry_def)
  show "i * IDX_STRIDE + IDX_STRIDE \<le> length idx"
    using mult_le_mono1[of "Suc i" "length recs" IDX_STRIDE] assms(2) by (simp add: idx_def)
  have "sub_slice (i * IDX_STRIDE) (i * IDX_STRIDE + IDX_STRIDE) idx = encode_idx_entry (frame_entry crc recs i)"
    unfolding idx_def frame_entry_def using assms(2) by (intro sub_slice_concat) auto
  then show "idx_entry_at (sub_slice (i * IDX_STRIDE) (i * IDX_STRIDE + IDX_STRIDE) idx) 0 = Some (frame_entry crc recs i)"
    using idx_entry_at_enc[of 0 "[frame_entry crc recs i]"] ok by (simp add: frame_entry_def)
qed

lemma image_decode:
  assumes "seg_image crc start recs flags st" "i < length recs" "\<forall>bs. crc bs < 256 ^ 8"
  defines "e \<equiv> frame_entry crc recs i"
  shows "decode_data_frame_full crc (sub_slice (ie_offset e) (ie_offset e + ie_len e) (concat (flagged_frames crc recs flags))) =
    Inr (recs ! i, flags ! i = SEG_DEL_SENTINEL)"
proof -
  have "seg_record_ok (recs ! i)"
    using assms(1,2) by (auto simp: seg_image_def)
  then show ?thesis
    using decode_flagged_frame[OF _ assms(3), of "recs ! i" "flags ! i" "[]"] image_entry(5)[OF assms(1,2)]
    by (simp add: e_def)
qed

section \<open>Reading, flipping and scanning an image\<close>

definition payload_of :: "env \<Rightarrow> segment_record \<Rightarrow> resolved_payload" where
  "payload_of env r = (let (d, m) = decode_payload env (sg_data r) in \<lparr>rp_data = d, rp_meta = m\<rparr>)"

lemma read_locator_image:
  assumes "crc_ok env" "store_for (loc_tier loc) start = Some st" "seg_image (env_crc env) start recs flags st"
    "ss_start_seq (loc_seg loc) = start" "loc_seq loc = start + i" "i < length recs"
    "\<not> fs_fails st (ReadFile Idx start)" "\<not> fs_fails st (ReadFile Data start)"
  shows "read_locator env loc =
    (if flags ! i = SEG_DEL_SENTINEL then None else Some (payload_of env (recs ! i)))"
proof -
  let ?crc = "env_crc env" and ?e = "frame_entry (env_crc env) recs i"
  have crc: "\<forall>bs. ?crc bs < 256 ^ 8"
    using assms(1) by (simp add: crc_ok_def)
  have files: "store_file Idx start st = Some (concat (map encode_idx_entry (idx_entries ?crc 0 recs)))"
    "store_file Data start st = Some (concat (flagged_frames ?crc recs flags))"
    using assms(3) by (simp_all add: seg_image_def)
  have "store_read_range start Idx (i * IDX_STRIDE) IDX_STRIDE st = Inr (sub_slice (i * IDX_STRIDE)
      (i * IDX_STRIDE + IDX_STRIDE) (concat (map encode_idx_entry (idx_entries ?crc 0 recs))))"
    using store_read_range_file[OF files(1) assms(7)] image_idx(2)[OF assms(3,6)] by blast
  moreover have "store_read_range start Data (ie_offset ?e) (ie_len ?e) st =
      Inr (sub_slice (ie_offset ?e) (ie_offset ?e + ie_len ?e) (concat (flagged_frames ?crc recs flags)))"
    using store_read_range_file[OF files(2) assms(8)] image_entry(2)[OF assms(3,6)] by blast
  ultimately show ?thesis
    using assms(2,4,5) image_idx(3)[OF assms(3,6)] image_decode[OF assms(3,6) crc]
    by (simp add: read_locator_def payload_of_def split: prod.splits)
qed

lemma flip_flagged_frames:
  assumes "length flags = length recs" "i < length recs"
  shows "(concat (flagged_frames crc recs flags))
      [length (concat (take i (flagged_frames crc recs flags))) +
         del_flag_offset_in_frame (length (encode_data_frame crc (recs ! i))) := v] =
    concat (flagged_frames crc recs (flags[i := v]))"
proof -
  let ?fs = "flagged_frames crc recs flags" and ?f = "encode_data_frame crc (recs ! i)"
  have nth: "?fs ! i = set_del_flag (flags ! i) ?f" and len: "length ?fs = length recs"
    using assms by (simp_all add: flagged_frames_def)
  have upd: "flagged_frames crc recs (flags[i := v]) = ?fs[i := set_del_flag v ?f]"
    using assms unfolding flagged_frames_def
    by (intro nth_equalityI) (auto simp: nth_list_update)
  have "(?fs ! i)[del_flag_offset_in_frame (length ?f) := v] = set_del_flag v ?f"
    by (simp add: nth set_del_flag_def)
  moreover have "del_flag_offset_in_frame (length ?f) < length (?fs ! i)"
    by (simp add: nth del_flag_offset_in_frame_def length_encode_data_frame)
  ultimately have "(concat ?fs)[length (concat (take i ?fs)) + del_flag_offset_in_frame (length ?f) := v] =
      concat (take i ?fs) @ set_del_flag v ?f @ concat (drop (Suc i) ?fs)"
    by (subst concat_split_nth[of i ?fs]) (simp_all add: len assms list_update_append)
  also have "\<dots> = concat (?fs[i := set_del_flag v ?f])"
    using assms(2) len by (simp add: upd_conv_take_nth_drop)
  finally show ?thesis
    by (simp add: upd)
qed

lemma mark_image:
  assumes "store_ok st" "seg_image crc start recs flags st" "i < length recs"
    "\<not> fs_fails st (WriteByte start off)"
  defines "e \<equiv> frame_entry crc recs i"
  assumes "off = ie_offset e + del_flag_offset_in_frame (ie_len e)"
  shows "seg_image crc start recs (flags[i := SEG_DEL_SENTINEL]) (fst (store_mark_record_deleted start off st))"
    and "\<not> fs_fails st (SyncFile start off) \<Longrightarrow> snd (store_mark_record_deleted start off st) = None"
    and "fs_fails (fst (store_mark_record_deleted start off st)) = fs_fails st"
proof -
  let ?data = "concat (flagged_frames crc recs flags)"
  have len: "length flags = length recs" and dfile: "map_of (data_files st) start = Some ?data"
    using assms(2) by (auto simp: seg_image_def store_file_def)
  note e = image_entry[OF assms(2,3), folded e_def]
  have off: "off < length ?data"
    using e(2,3) assms(6) by (simp add: del_flag_offset_in_frame_def length_encode_data_frame)
  have flip: "?data[off := SEG_DEL_SENTINEL] = concat (flagged_frames crc recs (flags[i := SEG_DEL_SENTINEL]))"
    unfolding assms(6) e(3,4) using len assms(3) by (rule flip_flagged_frames)
  define st' where "st' = write_part Data start (concat (flagged_frames crc recs (flags[i := SEG_DEL_SENTINEL]))) st"
  have mark: "store_mark_record_deleted start off st =
      (if fs_fails st (SyncFile start off) then (st', Some StoreIo) else (st', None))"
    using dfile off assms(4) by (simp add: store_mark_record_deleted_def flip st'_def Let_def)
  then have fst: "fst (store_mark_record_deleted start off st) = st'" by simp
  have "length (concat (flagged_frames crc recs (flags[i := SEG_DEL_SENTINEL]))) = length ?data"
    by (metis flip length_list_update)
  then show "seg_image crc start recs (flags[i := SEG_DEL_SENTINEL]) (fst (store_mark_record_deleted start off st))"
    using assms(1,2) unfolding fst by (simp add: seg_image_def st'_def store_file_write)
  show "\<not> fs_fails st (SyncFile start off) \<Longrightarrow> snd (store_mark_record_deleted start off st) = None"
    by (simp add: mark)
  show "fs_fails (fst (store_mark_record_deleted start off st)) = fs_fails st"
    unfolding fst by (simp add: st'_def)
qed

lemma image_idx_len:
  "seg_image crc start recs flags st \<Longrightarrow> idx_len (concat (map encode_idx_entry (idx_entries crc 0 recs))) = length recs"
  by (simp add: idx_len_def IDX_STRIDE_def)

lemma scan_image:
  assumes "crc_ok env" "seg_image (env_crc env) start recs flags st"
  shows "scan_segment_deleted env (concat (flagged_frames (env_crc env) recs flags))
      (concat (map encode_idx_entry (idx_entries (env_crc env) 0 recs))) start =
    filter (\<lambda>s. flags ! (s - start) = SEG_DEL_SENTINEL) [start..<start + length recs]"
  unfolding scan_segment_deleted_def image_idx_len[OF assms(2)]
proof (rule filter_cong[OF refl])
  fix s assume "s \<in> set [start..<start + length recs]"
  then obtain i where i: "s = start + i" "i < length recs"
    by (auto dest: le_Suc_ex)
  have crc: "\<forall>bs. env_crc env bs < 256 ^ 8"
    using assms(1) by (simp add: crc_ok_def)
  have "map sg_seq recs ! i = start + i"
    using assms(2) i(2) by (simp add: seg_image_def)
  then have "sg_seq (recs ! i) = s"
    using i by simp
  then show "(case idx_lookup (concat (map encode_idx_entry (idx_entries (env_crc env) 0 recs))) start s of
      None \<Rightarrow> False
    | Some e \<Rightarrow> let lo = ie_offset e; hi = lo + ie_len e in
        hi \<le> length (concat (flagged_frames (env_crc env) recs flags)) \<and>
        (case decode_data_frame_full (env_crc env) (sub_slice lo hi (concat (flagged_frames (env_crc env) recs flags))) of
           Inr (rec, True) \<Rightarrow> sg_seq rec = s | _ \<Rightarrow> False)) = (flags ! (s - start) = SEG_DEL_SENTINEL)"
    using image_idx(1)[OF assms(2) i(2)] image_entry(2)[OF assms(2) i(2)] image_decode[OF assms(2) i(2) crc] i
    by (cases "flags ! i = SEG_DEL_SENTINEL") (simp_all add: Let_def)
qed

lemma put_image:
  assumes "store_ok st" "store_put start data idx st = (st', None)"
    "builder_finish (build crc (builder_new start) recs) = (data, idx)"
    "\<forall>r\<in>set recs. seg_record_ok r" "map sg_seq recs = [start..<start + length recs]" "length data < 256 ^ 4"
  shows "seg_image crc start recs (replicate (length recs) SEG_DEL_LIVE) st'"
proof -
  have frames: "flagged_frames crc recs (replicate (length recs) SEG_DEL_LIVE) = map (encode_data_frame crc) recs"
    by (induction recs) (simp_all add: flagged_frames_def set_del_flag_live)
  have "data = concat (map (encode_data_frame crc) recs)"
    "idx = concat (map encode_idx_entry (idx_entries crc 0 recs))"
    using assms(3) by (auto simp: builder_finish_def build_fields builder_new_def)
  then show ?thesis
    using assms store_put_success(1)[OF assms(1,2)] by (simp add: seg_image_def frames)
qed

section \<open>Sealing\<close>

text \<open>
  The payload of every record of the active segment can be read back from the store once
  the segment is sealed there.
\<close>

lemma seal_active_image:
  assumes "store_ok (hot (sw_tier w))" "sw_active w = Some (build (env_crc env) (builder_new start) recs)"
    "recs \<noteq> []" "\<forall>r\<in>set recs. seg_record_ok r" "map sg_seq recs = [start..<start + length recs]"
    "length (concat (map (encode_data_frame (env_crc env)) recs)) < 256 ^ 4"
    "tier_resolve (sw_tier w) start = None" "seal_active env w = (w', sealed)"
  shows "(sealed = [] \<and> sw_sealed w' = sw_sealed w \<and> sw_cache w' = sw_cache w) \<or>
    (sealed = [start..<start + length recs] \<and>
     store_for (sw_tier w') start = Some (hot (sw_tier w')) \<and>
     fs_fails (hot (sw_tier w')) = fs_fails (hot (sw_tier w)) \<and>
     seg_image (env_crc env) start recs (replicate (length recs) SEG_DEL_LIVE) (hot (sw_tier w')) \<and>
     (\<exists>g. sw_sealed w' = sw_sealed w @ [g] \<and> ss_start_seq g = start \<and>
          ss_end_seq g = start + length recs - 1 \<and> ss_tier g = Hot))"
proof -
  let ?b = "build (env_crc env) (builder_new start) recs"
  obtain data idx where fin: "builder_finish ?b = (data, idx)"
    by fastforce
  obtain h r where put: "store_put start data idx (hot (sw_tier w)) = (h, r)"
    by fastforce
  have b: "sb_start_seq ?b = start" "builder_end_seq ?b = start + length recs - 1" "record_count ?b \<noteq> 0"
    using assms(3) record_count_build[of "env_crc env" start recs]
    by (simp_all add: build_fields builder_new_def builder_end_seq_def)
  have data: "length data < 256 ^ 4"
    using fin assms(6) by (auto simp: builder_finish_def build_fields builder_new_def)
  show ?thesis
  proof (cases r)
    case (Some e)
    then show ?thesis
      using assms(2,7,8) b(3) fin put b(1) by (auto simp: seal_active_def Let_def)
  next
    case None
    have im: "seg_image (env_crc env) start recs (replicate (length recs) SEG_DEL_LIVE) h"
      using put_image[OF assms(1) put[unfolded None] fin assms(4,5) data] .
    then have "store_for ((sw_tier w)\<lparr>hot := h\<rparr>) start = Some h"
      by (auto simp: store_for_def tier_resolve_def store_exists_def seg_image_def store_file_def)
    moreover have "Suc (start + length recs - 1) = start + length recs"
      using assms(3) by (cases recs) auto
    ultimately show ?thesis
      using assms(2,7,8) b fin put im None store_put_success(2)[OF assms(1) put[unfolded None]]
      by (auto simp: seal_active_def Let_def simp del: upt_Suc)
  qed
qed

lemma seal_active_tiers:
  "cold (sw_tier (fst (seal_active env w))) = cold (sw_tier w)"
  "store_ok (hot (sw_tier w)) \<Longrightarrow> store_ok (hot (sw_tier (fst (seal_active env w))))"
  using store_put_ok[of "hot (sw_tier w)"]
  by (auto simp: seal_active_def Let_def split: option.splits prod.splits) (metis fst_conv)+

lemma seal_active_succeeds:
  assumes "sw_active w = Some (build (env_crc env) (builder_new start) recs)" "recs \<noteq> []"
    "tier_resolve (sw_tier w) start = None" "\<forall>c. \<not> fs_fails (hot (sw_tier w)) c"
  shows "snd (seal_active env w) \<noteq> []"
proof -
  let ?b = "build (env_crc env) (builder_new start) recs"
  obtain data idx where fin: "builder_finish ?b = (data, idx)"
    by fastforce
  have le: "start \<le> start + length recs - Suc 0"
    using assms(2) by (cases recs) auto
  have put: "\<exists>h. store_put start data idx (hot (sw_tier w)) = (h, None)"
    using assms(4) by (simp add: store_put_def Let_def)
  have b: "sb_start_seq ?b = start" "builder_end_seq ?b = start + length recs - 1" "record_count ?b \<noteq> 0"
    using assms(2) record_count_build[of "env_crc env" start recs]
    by (simp_all add: build_fields builder_new_def builder_end_seq_def)
  show ?thesis
    using assms(1,3) b fin put le by (auto simp: seal_active_def Let_def)
qed

lemma json_payload_roundtrip:
  assumes "env_from_slice env (encode_payload env d m) = Some (JObject ((''d'', d) # (case m of Some x \<Rightarrow> [(''m'', x)] | None \<Rightarrow> [])))"
  shows "decode_payload env (encode_payload env d m) = (d, m)"
  using assms by (simp add: decode_payload_def split: option.splits)

section \<open>The sealed registry\<close>

definition registry_ok :: "sealed_segment list \<Rightarrow> bool" where
  "registry_ok gs \<longleftrightarrow> sorted_wrt (\<lambda>a b. ss_end_seq a < ss_start_seq b) gs \<and>
     (\<forall>g\<in>set gs. ss_start_seq g \<le> ss_end_seq g)"

definition tier_ok :: "topic_tier \<Rightarrow> bool" where
  "tier_ok t \<longleftrightarrow> store_ok (hot t) \<and> (\<forall>c. cold t = Some c \<longrightarrow> store_ok c)"

lemma takeWhile_last_match:
  assumes "registry_ok gs" "g \<in> set gs" "ss_start_seq g \<le> s" "s \<le> ss_end_seq g"
  shows "takeWhile (\<lambda>g. ss_start_seq g \<le> s) gs \<noteq> [] \<and>
    gs ! (length (takeWhile (\<lambda>g. ss_start_seq g \<le> s) gs) - 1) = g"
  using assms
proof (induction gs)
  case (Cons a gs)
  have ok: "registry_ok gs" and a: "\<forall>b\<in>set gs. ss_end_seq a < ss_start_seq b" "ss_start_seq a \<le> ss_end_seq a"
    using Cons.prems(1) by (auto simp: registry_ok_def)
  show ?case
  proof (cases "g = a")
    case True
    then have "takeWhile (\<lambda>g. ss_start_seq g \<le> s) gs = []"
      using a Cons.prems by (cases gs) (auto intro: takeWhile_eq_Nil_iff[THEN iffD2])
    then show ?thesis
      using True Cons.prems by simp
  next
    case False
    then have g: "g \<in> set gs" "ss_start_seq a \<le> s"
      using Cons.prems a by auto
    obtain x xs where tw: "takeWhile (\<lambda>g. ss_start_seq g \<le> s) gs = x # xs"
      using Cons.IH[OF ok g(1) Cons.prems(3,4)] by (cases "takeWhile (\<lambda>g. ss_start_seq g \<le> s) gs") auto
    then show ?thesis
      using Cons.IH[OF ok g(1) Cons.prems(3,4)] g(2) by simp
  qed
qed simp

lemma segment_for_member:
  assumes "registry_ok (sw_sealed w)" "g \<in> set (sw_sealed w)" "ss_start_seq g \<le> s" "s \<le> ss_end_seq g"
  shows "segment_for w s = Some g"
  using takeWhile_last_match[OF assms] assms(3,4) by (simp add: segment_for_def Let_def)

lemma segment_for_Some:
  assumes "segment_for w s = Some g"
  shows "g \<in> set (sw_sealed w)" "ss_start_seq g \<le> s" "s \<le> ss_end_seq g"
proof -
  let ?n = "length (takeWhile (\<lambda>g. ss_start_seq g \<le> s) (sw_sealed w))"
  have "?n - 1 < length (sw_sealed w)" if "?n \<noteq> 0"
    using that length_takeWhile_le[of "\<lambda>g. ss_start_seq g \<le> s" "sw_sealed w"] by linarith
  then show "g \<in> set (sw_sealed w)" "ss_start_seq g \<le> s" "s \<le> ss_end_seq g"
    using assms by (auto simp: segment_for_def Let_def split: if_splits)
qed

section \<open>The writer's invariant\<close>

text \<open>
  \<open>writer_wf env w n\<close>: the registry is sorted and disjoint, the active segment is a run of
  records built from its start, and everything fed so far is below \<open>n\<close>.
\<close>

definition active_ok :: "env \<Rightarrow> segment_writer \<Rightarrow> seq \<Rightarrow> bool" where
  "active_ok env w n \<longleftrightarrow>
     (case sw_active w of
        None \<Rightarrow> \<forall>g\<in>set (sw_sealed w). ss_end_seq g < n
      | Some b \<Rightarrow> (\<forall>g\<in>set (sw_sealed w). ss_end_seq g < sb_start_seq b) \<and>
          (\<exists>recs. recs \<noteq> [] \<and> b = build (env_crc env) (builder_new (sb_start_seq b)) recs \<and>
             map sg_seq recs = [sb_start_seq b..<sb_start_seq b + length recs] \<and>
             sb_start_seq b + length recs \<le> n))"

definition writer_wf :: "env \<Rightarrow> segment_writer \<Rightarrow> seq \<Rightarrow> bool" where
  "writer_wf env w n \<longleftrightarrow> registry_ok (sw_sealed w) \<and> tier_ok (sw_tier w) \<and> active_ok env w n"

lemma writer_wf_new: "tier_ok t \<Longrightarrow> writer_wf env (writer_new t cfg) n"
  by (simp add: writer_wf_def writer_new_def registry_ok_def active_ok_def)

lemma build_snoc: "build crc b (rs @ [r]) = builder_push crc r (build crc b rs)"
  by (induction rs arbitrary: b) auto

lemma seal_active_cases:
  assumes "sw_active w = Some b" "record_count b > 0"
  obtains (failed) h where "seal_active env w = (w\<lparr>sw_active := None, sw_active_started_ms := 0,
        sw_tier := (sw_tier w)\<lparr>hot := h\<rparr>\<rparr>, [])" "tier_ok (sw_tier w) \<Longrightarrow> store_ok h"
  | (sealed) h c t n where "seal_active env w = (w\<lparr>sw_active := None, sw_active_started_ms := 0,
        sw_tier := (sw_tier w)\<lparr>hot := h\<rparr>,
        sw_sealed := sw_sealed w @ [\<lparr>ss_start_seq = sb_start_seq b, ss_end_seq = builder_end_seq b,
          ss_data_len = n, ss_tier = t\<rparr>], sw_cache := c\<rparr>, [sb_start_seq b..<Suc (builder_end_seq b)])"
        "tier_ok (sw_tier w) \<Longrightarrow> store_ok h"
proof -
  obtain data idx where fin: "builder_finish b = (data, idx)" by fastforce
  show thesis
  proof (cases "tier_resolve (sw_tier w) (sb_start_seq b)")
    case (Some t)
    have "w\<lparr>sw_active := None, sw_active_started_ms := 0, sw_tier := (sw_tier w)\<lparr>hot := hot (sw_tier w)\<rparr>\<rparr> =
        w\<lparr>sw_active := None, sw_active_started_ms := 0\<rparr>"
      by simp
    then show ?thesis
      using assms Some fin
      by (intro sealed[where h = "hot (sw_tier w)" and t = t and n = "length data" and
            c = "cache_sealed env data idx (sb_start_seq b) [sb_start_seq b..<Suc (builder_end_seq b)]
              (sw_cache_cap w) (sw_cache w)"])
         (auto simp: seal_active_def tier_ok_def Let_def simp del: upt_Suc)
  next
    case None
    obtain h r where put: "store_put (sb_start_seq b) data idx (hot (sw_tier w)) = (h, r)" by fastforce
    have ok: "tier_ok (sw_tier w) \<Longrightarrow> store_ok h"
      using store_put_ok[of "hot (sw_tier w)" "sb_start_seq b" data idx] put by (simp add: tier_ok_def)
    show ?thesis
    proof (cases r)
      case None
      then show ?thesis
        using assms \<open>tier_resolve _ _ = None\<close> fin put ok
        by (intro sealed[where h = h and t = Hot and n = "length data" and
              c = "cache_sealed env data idx (sb_start_seq b) [sb_start_seq b..<Suc (builder_end_seq b)]
                (sw_cache_cap w) (sw_cache w)"])
           (auto simp: seal_active_def Let_def simp del: upt_Suc)
    next
      case (Some e)
      then show ?thesis
        using assms \<open>tier_resolve _ _ = None\<close> fin put ok by (intro failed[where h = h]) (auto simp: seal_active_def Let_def)
    qed
  qed
qed

lemma active_ok_count:
  assumes "active_ok env w n" "sw_active w = Some b"
  shows "record_count b > 0" "sb_start_seq b \<le> builder_end_seq b" "builder_end_seq b < n"
    "sb_next_seq b = Suc (builder_end_seq b)"
proof -
  obtain recs where r: "recs \<noteq> []" "b = build (env_crc env) (builder_new (sb_start_seq b)) recs"
    "sb_start_seq b + length recs \<le> n"
    using assms by (auto simp: active_ok_def)
  have nxt: "sb_next_seq b = sb_start_seq b + length recs"
    by (subst r(2)) (simp add: build_fields builder_new_def)
  obtain k where "length recs = Suc k"
    using r(1) by (cases recs) auto
  then show "sb_start_seq b \<le> builder_end_seq b" "builder_end_seq b < n"
      "sb_next_seq b = Suc (builder_end_seq b)"
    using r(3) by (simp_all add: builder_end_seq_def nxt)
  show "record_count b > 0"
    using r(1) by (subst r(2)) (simp add: record_count_build)
qed

lemma seal_active_wf [inv_intro]:
  assumes "writer_wf env w n"
  shows "writer_wf env (fst (seal_active env w)) n" "sw_active (fst (seal_active env w)) = None"
    "\<forall>s\<in>set (snd (seal_active env w)). s < n"
proof -
  show "writer_wf env (fst (seal_active env w)) n" "sw_active (fst (seal_active env w)) = None"
    "\<forall>s\<in>set (snd (seal_active env w)). s < n"
  proof (atomize(full), cases "sw_active w")
    case None
    then show "writer_wf env (fst (seal_active env w)) n \<and> sw_active (fst (seal_active env w)) = None \<and>
        (\<forall>s\<in>set (snd (seal_active env w)). s < n)"
      using assms by (simp add: seal_active_def)
  next
    case (Some b)
    have act: "active_ok env w n" and reg: "registry_ok (sw_sealed w)" and tr: "tier_ok (sw_tier w)"
      using assms by (auto simp: writer_wf_def)
    note b = active_ok_count[OF act Some]
    have below: "\<forall>g\<in>set (sw_sealed w). ss_end_seq g < sb_start_seq b"
      using act Some by (simp add: active_ok_def)
    show "writer_wf env (fst (seal_active env w)) n \<and> sw_active (fst (seal_active env w)) = None \<and>
        (\<forall>s\<in>set (snd (seal_active env w)). s < n)"
      using Some b(1)
    proof (cases rule: seal_active_cases[where env = env])
      case (failed h)
      then show ?thesis
        using reg tr below b(2,3) by (fastforce simp: writer_wf_def tier_ok_def active_ok_def)
    next
      case (sealed h c t k)
      have "registry_ok (sw_sealed w @ [\<lparr>ss_start_seq = sb_start_seq b, ss_end_seq = builder_end_seq b,
          ss_data_len = k, ss_tier = t\<rparr>])"
        using reg below b(2) by (auto simp: registry_ok_def sorted_wrt_append)
      then show ?thesis
        using sealed tr below b(2,3) by (fastforce simp: writer_wf_def tier_ok_def active_ok_def)
    qed
  qed
qed

lemma append_record_wf [inv_intro]:
  assumes "writer_wf env w n" "n \<le> s"
  shows "writer_wf env (fst (append_record env s ts node tag d m w)) (Suc s)"
    and "\<forall>x\<in>set (snd (append_record env s ts node tag d m w)). x < n"
proof -
  define gap where "gap \<longleftrightarrow> (case sw_active w of Some a \<Rightarrow> record_count a > 0 \<and> sb_next_seq a \<noteq> s | None \<Rightarrow> False)"
  define p where "p = (if gap \<or> should_seal_before env w then seal_active env w else (w, []))"
  define w1 where "w1 = fst p"
  define w2 where "w2 = (case sw_active w1 of
      None \<Rightarrow> w1\<lparr>sw_active := Some (builder_new s), sw_active_started_ms := ts\<rparr> | Some _ \<Rightarrow> w1)"
  define rec where "rec = \<lparr>sg_seq = s, sg_ts = nat (max ts 0), sg_node = node, sg_tag = tag, sg_data = encode_payload env d m\<rparr>"
  have wf1: "writer_wf env w1 n"
    using assms(1) seal_active_wf(1) by (simp add: w1_def p_def)
  have nxt: "sb_next_seq b = s" if "sw_active w1 = Some b" for b
  proof -
    have "\<not> (gap \<or> should_seal_before env w)" "sw_active w = Some b"
      using that seal_active_wf(2)[OF assms(1)] by (auto simp: w1_def p_def split: if_splits)
    then show ?thesis
      using active_ok_count(1)[of env w n b] assms(1) by (auto simp: gap_def writer_wf_def)
  qed
  have app: "append_record env s ts node tag d m w =
      (w2\<lparr>sw_active := map_option (builder_push (env_crc env) rec) (sw_active w2)\<rparr>, snd p)"
    unfolding append_record_def Let_def case_prod_beta gap_def[symmetric] p_def[symmetric]
      w1_def[symmetric] w2_def[symmetric] rec_def[symmetric] by (rule refl)
  then have fst: "fst (append_record env s ts node tag d m w) =
      w2\<lparr>sw_active := map_option (builder_push (env_crc env) rec) (sw_active w2)\<rparr>"
    by simp
  show "\<forall>x\<in>set (snd (append_record env s ts node tag d m w)). x < n"
    using seal_active_wf(3)[OF assms(1)] by (simp add: app p_def)
  show "writer_wf env (fst (append_record env s ts node tag d m w)) (Suc s)"
  proof (cases "sw_active w1")
    case None
    then have "builder_push (env_crc env) rec (builder_new s) = build (env_crc env) (builder_new s) [rec]"
      "sb_start_seq (builder_push (env_crc env) rec (builder_new s)) = s" "sg_seq rec = s"
      by (simp_all add: builder_push_def builder_new_def rec_def Let_def)
    moreover have "w2\<lparr>sw_active := map_option (builder_push (env_crc env) rec) (sw_active w2)\<rparr> =
        w1\<lparr>sw_active := Some (builder_push (env_crc env) rec (builder_new s)), sw_active_started_ms := ts\<rparr>"
      by (simp add: w2_def None)
    moreover have "\<forall>g\<in>set (sw_sealed w1). ss_end_seq g < s"
      using wf1 assms(2) None by (auto simp: writer_wf_def active_ok_def)
    ultimately show ?thesis
      using wf1 unfolding fst by (auto simp: writer_wf_def active_ok_def intro!: exI[of _ "[rec]"])
  next
    case (Some b)
    then obtain recs where r: "recs \<noteq> []" "b = build (env_crc env) (builder_new (sb_start_seq b)) recs"
        "map sg_seq recs = [sb_start_seq b..<sb_start_seq b + length recs]"
        "\<forall>g\<in>set (sw_sealed w1). ss_end_seq g < sb_start_seq b"
      using wf1 by (auto simp: writer_wf_def active_ok_def)
    have s: "sb_start_seq b + length recs = s"
      using nxt[OF Some] by (subst (asm) r(2)) (simp add: build_fields builder_new_def)
    have start: "sb_start_seq (build (env_crc env) (builder_new (sb_start_seq b)) (recs @ [rec])) = sb_start_seq b"
      by (simp add: build_fields builder_new_def)
    have "builder_push (env_crc env) rec b = build (env_crc env) (builder_new (sb_start_seq b)) (recs @ [rec])"
      using r(2) by (simp add: build_snoc)
    moreover have "map sg_seq (recs @ [rec]) = [sb_start_seq b..<sb_start_seq b + length (recs @ [rec])]"
      using r(3) s by (simp add: rec_def)
    ultimately have "active_ok env (w2\<lparr>sw_active := map_option (builder_push (env_crc env) rec) (sw_active w2)\<rparr>) (Suc s)"
      using r(1,4) s Some by (auto simp: active_ok_def w2_def start intro!: exI[of _ "recs @ [rec]"])
    then show ?thesis
      using wf1 Some unfolding fst by (simp add: writer_wf_def w2_def)
  qed
qed

section \<open>In-place deletes\<close>

lemma update_store_for_holds:
  assumes "store_for t sid = Some st" "store_exists sid Data st'"
  shows "store_for (update_store_for sid (\<lambda>_. st') t) sid = Some st'"
  using assms
  by (auto simp: store_for_def update_store_for_def tier_resolve_def split: option.splits if_splits tier.splits)

lemma image_exists: "seg_image crc start recs flags st \<Longrightarrow> store_exists start Data st"
  by (auto simp: seg_image_def store_exists_def store_file_def)

lemma flag_sealed_deleted_image:
  assumes "segment_for w (start + i) = Some g" "ss_start_seq g = start"
    "store_for (sw_tier w) start = Some st" "store_ok st" "seg_image crc start recs flags st" "i < length recs"
    "\<forall>c. \<not> fs_fails st c"
  obtains w' st' where "flag_sealed_deleted (start + i) w = (w', True)" "store_for (sw_tier w') start = Some st'"
    "seg_image crc start recs (flags[i := SEG_DEL_SENTINEL]) st'" "\<forall>c. \<not> fs_fails st' c"
    "sw_sealed w' = sw_sealed w" "start + i \<notin> fst ` set (sw_cache w')" "start + i \<notin> fst ` set (sw_cold_cache w')"
    "sw_tier w' = update_store_for start (\<lambda>_. st') (sw_tier w)" "store_ok st'"
proof -
  let ?e = "frame_entry crc recs i"
  let ?off = "ie_offset ?e + del_flag_offset_in_frame (ie_len ?e)"
  obtain st' r where mark: "store_mark_record_deleted start ?off st = (st', r)" by fastforce
  have m: "seg_image crc start recs (flags[i := SEG_DEL_SENTINEL]) st'" "r = None" "\<forall>c. \<not> fs_fails st' c"
    using mark_image[OF assms(4,5,6) _ refl] assms(7) mark by simp_all
  have "store_ok st'"
    using store_mark_ok[OF assms(4), of start ?off] mark by simp
  have rd: "store_read_range start Idx (i * IDX_STRIDE) IDX_STRIDE st =
      Inr (sub_slice (i * IDX_STRIDE) (i * IDX_STRIDE + IDX_STRIDE) (concat (map encode_idx_entry (idx_entries crc 0 recs))))"
    using assms(5,7) image_idx(2)[OF assms(5,6)] by (intro store_read_range_file) (auto simp: seg_image_def)
  define w' where "w' = w\<lparr>sw_tier := update_store_for start (\<lambda>_. st') (sw_tier w),
      sw_cache := filter (\<lambda>c. fst c \<noteq> start + i) (sw_cache w),
      sw_cold_cache := filter (\<lambda>c. fst c \<noteq> start + i) (sw_cold_cache w)\<rparr>"
  have "flag_sealed_deleted (start + i) w = (w', True)"
    using assms(1,2,3) image_idx(3)[OF assms(5,6)] rd mark m(2)
    by (simp add: flag_sealed_deleted_def Let_def w'_def)
  moreover have "store_for (sw_tier w') start = Some st'"
    using update_store_for_holds[OF assms(3) image_exists[OF m(1)]] by (simp add: w'_def)
  ultimately show ?thesis
    by (rule that) (use m \<open>store_ok st'\<close> in \<open>auto simp: w'_def\<close>)
qed

text \<open>A sequence of deletes that all hit one segment in the hot tier; the cold tier is left alone.\<close>

lemma hot_deletes_image:
  assumes "\<forall>i<length recs. segment_for w (start + i) = Some g" "ss_start_seq g = start"
    "store_ok (hot (sw_tier w))" "seg_image crc start recs flags (hot (sw_tier w))" "\<forall>c. \<not> fs_fails (hot (sw_tier w)) c"
    "set ds \<subseteq> {..<length recs}"
  defines "w' \<equiv> fold (\<lambda>i w. fst (flag_sealed_deleted (start + i) w)) ds w"
  shows "seg_image crc start recs (fold (\<lambda>i fl. fl[i := SEG_DEL_SENTINEL]) ds flags) (hot (sw_tier w')) \<and>
    cold (sw_tier w') = cold (sw_tier w) \<and> sw_sealed w' = sw_sealed w \<and> (\<forall>c. \<not> fs_fails (hot (sw_tier w')) c)"
  using assms(1,3-6) unfolding w'_def
proof (induction ds arbitrary: w flags)
  case (Cons i ds)
  have i: "i < length recs" and seg: "segment_for w (start + i) = Some g"
    using Cons.prems(1,5) by simp_all
  have hot: "tier_resolve (sw_tier w) start = Some Hot" "store_for (sw_tier w) start = Some (hot (sw_tier w))"
    using image_exists[OF Cons.prems(3)] by (simp_all add: tier_resolve_def store_for_def)
  obtain w1 st1 where w1: "flag_sealed_deleted (start + i) w = (w1, True)"
    "seg_image crc start recs (flags[i := SEG_DEL_SENTINEL]) st1" "\<forall>c. \<not> fs_fails st1 c" "sw_sealed w1 = sw_sealed w"
    "sw_tier w1 = update_store_for start (\<lambda>_. st1) (sw_tier w)" "store_ok st1"
    using flag_sealed_deleted_image[OF seg assms(2) hot(2) Cons.prems(2,3) i Cons.prems(4)] by metis
  then have t1: "sw_tier w1 = (sw_tier w)\<lparr>hot := st1\<rparr>"
    using hot(1) by (simp add: update_store_for_def)
  have "segment_for w1 s = segment_for w s" for s
    by (simp add: segment_for_def w1(4))
  then show ?case
    using Cons.IH[of w1 "flags[i := SEG_DEL_SENTINEL]"] Cons.prems w1(1-4,6) t1 by simp
qed simp

lemma flags_after_deletes:
  "j < length fl \<Longrightarrow> fold (\<lambda>i fl. fl[i := SEG_DEL_SENTINEL]) ds fl ! j = (if j \<in> set ds then SEG_DEL_SENTINEL else fl ! j)"
  by (induction ds arbitrary: fl) (auto simp: nth_list_update)

section \<open>Relocation keeps payloads and deletions\<close>

definition merge_flags :: "u8 list \<Rightarrow> nat list \<Rightarrow> u8 list \<Rightarrow> u8 list" where
  "merge_flags fh is fc = fold (\<lambda>i fl. if fh ! i = SEG_DEL_SENTINEL then fl[i := SEG_DEL_SENTINEL] else fl) is fc"

lemma length_merge_flags [simp]: "length (merge_flags fh is fc) = length fc"
  by (induction "is" arbitrary: fc) (auto simp: merge_flags_def)

lemma merge_flags_nth:
  "j < length fc \<Longrightarrow> merge_flags fh is fc ! j =
     (if j \<in> set is \<and> fh ! j = SEG_DEL_SENTINEL then SEG_DEL_SENTINEL else fc ! j)"
proof (induction "is" arbitrary: fc)
  case (Cons i "is")
  then show ?case
    by (cases "i = j") (auto simp: merge_flags_def)
qed (simp add: merge_flags_def)

lemma propagate_flags_image:
  assumes "crc_ok env" "seg_image (env_crc env) sid recs fh h" "store_ok c" "seg_image (env_crc env) sid recs fc c"
    "\<forall>x. \<not> fs_fails c x" "set is \<subseteq> {..<length recs}"
  defines "data \<equiv> concat (flagged_frames (env_crc env) recs fh)"
  defines "idx \<equiv> concat (map encode_idx_entry (idx_entries (env_crc env) 0 recs))"
  shows "seg_image (env_crc env) sid recs (merge_flags fh is fc) (propagate_flags env sid data idx is c) \<and>
    (\<forall>x. \<not> fs_fails (propagate_flags env sid data idx is c) x)"
  using assms(3-6)
proof (induction "is" arbitrary: c fc)
  case Nil
  then show ?case by (simp add: merge_flags_def)
next
  case (Cons i "is")
  let ?crc = "env_crc env" and ?e = "frame_entry (env_crc env) recs i"
  have i: "i < length recs"
    using Cons.prems(4) by simp
  have crc: "\<forall>bs. ?crc bs < 256 ^ 8"
    using assms(1) by (simp add: crc_ok_def)
  define c' where "c' = (if fh ! i = SEG_DEL_SENTINEL
    then fst (store_mark_record_deleted sid (ie_offset ?e + del_flag_offset_in_frame (ie_len ?e)) c) else c)"
  define fc' where "fc' = (if fh ! i = SEG_DEL_SENTINEL then fc[i := SEG_DEL_SENTINEL] else fc)"
  have "idx_lookup idx sid (sid + i) = Some ?e"
    unfolding idx_def by (rule image_idx(1)[OF assms(2) i])
  moreover have "ie_offset ?e + ie_len ?e \<le> length data"
    unfolding data_def by (rule image_entry(2)[OF assms(2) i])
  moreover have "frame_is_deleted ?crc (sub_slice (ie_offset ?e) (ie_offset ?e + ie_len ?e) data) = (fh ! i = SEG_DEL_SENTINEL)"
    using image_decode[OF assms(2) i crc] by (simp add: frame_is_deleted_def data_def)
  ultimately have step: "propagate_flags env sid data idx (i # is) c = propagate_flags env sid data idx is c'"
    by (simp add: c'_def Let_def)
  have "store_ok c'" "seg_image ?crc sid recs fc' c'" "\<forall>x. \<not> fs_fails c' x"
    using Cons.prems mark_image[OF Cons.prems(1,2) i _ refl] by (simp_all add: c'_def fc'_def store_mark_ok)
  then have "seg_image ?crc sid recs (merge_flags fh is fc') (propagate_flags env sid data idx is c') \<and>
      (\<forall>x. \<not> fs_fails (propagate_flags env sid data idx is c') x)"
    using Cons.prems(4) by (intro Cons.IH) simp_all
  moreover have "merge_flags fh (i # is) fc = merge_flags fh is fc'"
    by (simp add: merge_flags_def fc'_def)
  ultimately show ?case
    unfolding step by simp
qed

lemma confirm_relocated_image:
  assumes "crc_ok env" "find (\<lambda>g. ss_start_seq g = sid) (sw_sealed w) = Some g" "ss_tier g = Hot"
    "cold (sw_tier w) = Some c" "store_ok c" "seg_image (env_crc env) sid recs fh (hot (sw_tier w))"
    "seg_image (env_crc env) sid recs fc c" "\<forall>x. \<not> fs_fails (hot (sw_tier w)) x" "\<forall>x. \<not> fs_fails c x"
  obtains c' where "cold (sw_tier (confirm_relocated env sid w)) = Some c'"
    "store_for (sw_tier (confirm_relocated env sid w)) sid = Some c'"
    "seg_image (env_crc env) sid recs (merge_flags fh [0..<length recs] fc) c'"
    "sw_sealed (confirm_relocated env sid w) = flip_tier sid (sw_sealed w)" "\<forall>x. \<not> fs_fails c' x"
    "\<not> store_exists sid Data (hot (sw_tier (confirm_relocated env sid w)))"
proof -
  let ?h = "hot (sw_tier w)"
  define data where "data = concat (flagged_frames (env_crc env) recs fh)"
  define idx where "idx = concat (map encode_idx_entry (idx_entries (env_crc env) 0 recs))"
  have parts: "store_file Data sid ?h = Some data" "store_file Idx sid ?h = Some idx"
    using assms(6) by (simp_all add: seg_image_def data_def idx_def)
  have reads: "store_read_all sid Data ?h = Inr data" "store_read_all sid Idx ?h = Inr idx"
    using parts assms(8) by (simp_all add: store_read_all_file)
  define c' where "c' = propagate_flags env sid data idx [0..<length recs] c"
  have im: "seg_image (env_crc env) sid recs (merge_flags fh [0..<length recs] fc) c'" and quiet: "\<forall>x. \<not> fs_fails c' x"
    using propagate_flags_image[OF assms(1,6,5,7,9), of "[0..<length recs]"] by (auto simp: c'_def data_def idx_def atLeast0LessThan)
  have n: "idx_len idx = length recs"
    unfolding idx_def by (rule image_idx_len[OF assms(6)])
  have propagated: "propagate_hot_delflags_to_cold env sid (sw_tier w) = (sw_tier w)\<lparr>cold := Some c'\<rparr>"
    using assms(4) image_exists[OF assms(6)] reads by (simp add: propagate_hot_delflags_to_cold_def n c'_def)
  obtain h' where del: "store_delete sid ?h = (h', None)"
    using assms(8) by (simp add: store_delete_def Let_def)
  then have gone: "\<not> store_exists sid Data h'"
    using store_delete_success[OF del, of Data sid] by (simp add: store_exists_def store_file_def)
  have w': "sw_tier (confirm_relocated env sid w) = (sw_tier w)\<lparr>cold := Some c', hot := h'\<rparr>"
    "sw_sealed (confirm_relocated env sid w) = flip_tier sid (sw_sealed w)"
    using assms(2,3) del by (simp_all add: confirm_relocated_def Let_def propagated)
  show ?thesis
    using im quiet w' gone image_exists[OF im]
    by (intro that[of c']) (simp_all add: store_for_def tier_resolve_def)
qed

text \<open>The copy made before the flip is an image of the same records and flags.\<close>

lemma copy_segment_image:
  assumes "cold t = Some c" "store_ok c" "\<not> store_exists sid Data c" "seg_image crc sid recs fh (hot t)"
    "\<forall>x. \<not> fs_fails (hot t) x" "\<forall>x. \<not> fs_fails c x"
  obtains c' where "copy_segment_to_cold sid t = (t\<lparr>cold := Some c'\<rparr>, None)" "seg_image crc sid recs fh c'"
    "store_ok c'" "\<forall>x. \<not> fs_fails c' x"
proof -
  obtain data idx where files: "store_file Data sid (hot t) = Some data" "store_file Idx sid (hot t) = Some idx"
    using assms(4) by (auto simp: seg_image_def)
  then have reads: "store_read_all sid Data (hot t) = Inr data" "store_read_all sid Idx (hot t) = Inr idx"
    using assms(5) by (simp_all add: store_read_all_file)
  obtain c' where put: "store_put sid data idx c = (c', None)"
    using assms(6) store_put_total[of c sid data idx] by (cases "store_put sid data idx c") auto
  have "seg_image crc sid recs fh c'"
    using assms(4) files store_put_success(1)[OF assms(2) put] by (simp add: seg_image_def)
  moreover have "store_ok c'"
    using store_put_ok[OF assms(2), of sid data idx] put by simp
  ultimately show ?thesis
    using assms(1,3,6) reads put store_put_success(2)[OF assms(2) put]
    by (intro that[of c']) (simp_all add: copy_segment_to_cold_def)
qed

end
