(* ===== verification/Heap.thy ===== *)
theory Heap
  imports Prelude "HOL-Library.Multiset" "HOL-Library.Product_Lexorder"
begin

text \<open>
  The min-heap of the standard library (\<open>BinaryHeap<Reverse<_>>\<close>): an interface with its
  laws over the multiset of elements, and the model, a sorted list.
\<close>

locale min_heap =
  fixes hpush :: "'a::linorder \<Rightarrow> 'h \<Rightarrow> 'h"
    and hpop :: "'h \<Rightarrow> ('a \<times> 'h) option"
    and elems :: "'h \<Rightarrow> 'a multiset"
    and hinv :: "'h \<Rightarrow> bool"
  assumes push_elems: "hinv h \<Longrightarrow> elems (hpush x h) = add_mset x (elems h)"
    and push_inv: "hinv h \<Longrightarrow> hinv (hpush x h)"
    and pop_None: "hinv h \<Longrightarrow> hpop h = None \<longleftrightarrow> elems h = {#}"
    and pop_Some: "hinv h \<Longrightarrow> hpop h = Some (x, h') \<Longrightarrow>
      elems h = add_mset x (elems h') \<and> (\<forall>y\<in>#elems h'. x \<le> y) \<and> hinv h'"
begin

lemma pop_subset: "hinv h \<Longrightarrow> hpop h = Some (x, h') \<Longrightarrow> set_mset (elems h) = insert x (set_mset (elems h'))"
  using pop_Some by simp

lemma pop_size: "hinv h \<Longrightarrow> hpop h = Some (x, h') \<Longrightarrow> size (elems h') < size (elems h)"
  using pop_Some by fastforce

lemma pop_min: "hinv h \<Longrightarrow> hpop h = Some (x, h') \<Longrightarrow> y \<in># elems h \<Longrightarrow> x \<le> y"
  using pop_Some by fastforce

end

definition heap_push :: "'a::linorder \<Rightarrow> 'a list \<Rightarrow> 'a list" where
  "heap_push x h = insort x h"

fun heap_pop :: "'a::linorder list \<Rightarrow> ('a \<times> 'a list) option" where
  "heap_pop [] = None"
| "heap_pop (x # h) = Some (x, h)"

interpretation lh: min_heap heap_push heap_pop mset sorted
proof
  fix h :: "'a list" and x h'
  show "sorted h \<Longrightarrow> heap_pop h = Some (x, h') \<Longrightarrow>
      mset h = add_mset x (mset h') \<and> (\<forall>y\<in>#mset h'. x \<le> y) \<and> sorted h'"
    by (cases h) auto
  show "sorted h \<Longrightarrow> heap_pop h = None \<longleftrightarrow> mset h = {#}"
    by (cases h) auto
qed (simp_all add: heap_push_def sorted_insort)

lemma set_heap_push [simp]: "set (heap_push x h) = insert x (set h)"
  by (simp add: heap_push_def set_insort_key)

lemma sorted_heap_push [simp]: "sorted h \<Longrightarrow> sorted (heap_push x h)"
  by (rule lh.push_inv)

end
