(* ===== verification/Queue_Projection.thy ===== *)
theory Queue_Projection
  imports Heap Topic_Index
begin

text \<open>
  The lease projection of a queue topic (\<open>engine/queue.rs\<close>, \<open>QueueProjection\<close>): active
  leases, delivery counts, the reclaim freelist, delayed nacks and the claim cursor. The
  hash maps are association lists with distinct keys.
\<close>

section \<open>State\<close>

record lease =
  ls_node :: string
  ls_lease_id :: u64
  ls_deadline_ms :: i64
  ls_by_work_conn :: "u64 option"

record queue_projection =
  leases :: "(seq \<times> lease) list"
  deliveries :: "(seq \<times> u64) list"
  reclaim :: "seq list"
  delayed :: "(i64 \<times> seq) list"
  claim_cursor :: seq
  dead_lettered :: u64
  next_lease_id :: u64
  in_reclaim :: "seq set"

definition projection_new :: "seq \<Rightarrow> queue_projection" where
  "projection_new b = \<lparr>leases = [], deliveries = [], reclaim = [], delayed = [],
     claim_cursor = b, dead_lettered = 0, next_lease_id = 1, in_reclaim = {}\<rparr>"

section \<open>Operations\<close>

definition alloc_lease_id :: "queue_projection \<Rightarrow> u64 \<times> queue_projection" where
  "alloc_lease_id q = (next_lease_id q, q\<lparr>next_lease_id := next_lease_id q + 1\<rparr>)"

definition push_reclaim :: "seq \<Rightarrow> queue_projection \<Rightarrow> queue_projection" where
  "push_reclaim s q =
     (if s \<in> in_reclaim q then q
      else q\<lparr>in_reclaim := insert s (in_reclaim q), reclaim := heap_push s (reclaim q)\<rparr>)"

definition pop_reclaim :: "queue_projection \<Rightarrow> (seq \<times> queue_projection) option" where
  "pop_reclaim q =
     (case heap_pop (reclaim q) of
        None \<Rightarrow> None
      | Some (s, h) \<Rightarrow> Some (s, q\<lparr>reclaim := h, in_reclaim := in_reclaim q - {s}\<rparr>))"

definition push_delayed :: "i64 \<Rightarrow> seq \<Rightarrow> queue_projection \<Rightarrow> queue_projection" where
  "push_delayed ready_at s q = q\<lparr>delayed := heap_push (ready_at, s) (delayed q)\<rparr>"

definition lease_of :: "queue_projection \<Rightarrow> seq \<Rightarrow> lease option" where
  "lease_of q s = map_of (leases q) s"

definition remove_lease :: "seq \<Rightarrow> queue_projection \<Rightarrow> queue_projection" where
  "remove_lease s q = q\<lparr>leases := AList.delete s (leases q)\<rparr>"

function sweep_delayed :: "i64 \<Rightarrow> queue_projection \<Rightarrow> queue_projection" where
  "sweep_delayed now q =
     (case delayed q of
        [] \<Rightarrow> q
      | (ready_at, s) # rest \<Rightarrow>
          if ready_at > now then q
          else let q = q\<lparr>delayed := rest\<rparr>
               in sweep_delayed now (if lease_of q s = None then push_reclaim s q else q))"
  by auto
termination
  by (relation "measure (\<lambda>(now, q). length (delayed q))") (auto simp: push_reclaim_def)

declare sweep_delayed.simps [simp del]

definition sweep_expired :: "i64 \<Rightarrow> queue_projection \<Rightarrow> queue_projection" where
  "sweep_expired now q =
     (let q = sweep_delayed now q;
          expired = map fst (filter (\<lambda>(_, l). now > ls_deadline_ms l) (leases q))
      in fold (\<lambda>s q. push_reclaim s (remove_lease s q)) expired q)"

definition in_flight :: "i64 \<Rightarrow> queue_projection \<Rightarrow> nat" where
  "in_flight now q = length (filter (\<lambda>(_, l). now \<le> ls_deadline_ms l) (leases q))"

definition apply_lease_event ::
  "nat \<Rightarrow> seq \<Rightarrow> string \<Rightarrow> u64 \<Rightarrow> i64 \<Rightarrow> u64 \<Rightarrow> queue_projection \<Rightarrow> queue_projection" where
  "apply_lease_event event s node lease_id deadline n q =
     (let q = (if lease_id \<ge> next_lease_id q then q\<lparr>next_lease_id := lease_id + 1\<rparr> else q);
          current = (case lease_of q s of Some l \<Rightarrow> ls_lease_id l = lease_id | None \<Rightarrow> False)
      in if event = 0 then
           let q = q\<lparr>deliveries := AList.update s n (deliveries q),
                     leases := AList.update s \<lparr>ls_node = node, ls_lease_id = lease_id,
                       ls_deadline_ms = deadline, ls_by_work_conn = None\<rparr> (leases q)\<rparr>
           in if s \<ge> claim_cursor q then q\<lparr>claim_cursor := s + 1\<rparr> else q
         else if event = 1 then
           if current then push_reclaim s (remove_lease s q) else q
         else if event = 2 then
           (case lease_of q s of
              Some l \<Rightarrow> if ls_lease_id l = lease_id
                        then q\<lparr>leases := AList.update s (l\<lparr>ls_deadline_ms := deadline\<rparr>) (leases q)\<rparr>
                        else q
            | None \<Rightarrow> q)
         else if event = 3 \<and> current then
           (remove_lease s q)\<lparr>deliveries := AList.delete s (deliveries q)\<rparr>
         else q)"

text \<open>
  \<open>next_claimable\<close>: the freelist first, then fresh seqs from the claim cursor; dead and
  leased seqs are skipped.
\<close>

definition is_live :: "topic_index \<Rightarrow> seq \<Rightarrow> bool" where
  "is_live ix s = (case ix_get ix s of Some r \<Rightarrow> \<not> sr_deleted r | None \<Rightarrow> False)"

function next_reclaimed :: "topic_index \<Rightarrow> queue_projection \<Rightarrow> seq option \<times> queue_projection" where
  "next_reclaimed ix q =
     (case pop_reclaim q of
        None \<Rightarrow> (None, q)
      | Some (s, q') \<Rightarrow>
          if lease_of q' s \<noteq> None then next_reclaimed ix q'
          else if is_live ix s then (Some s, q')
          else next_reclaimed ix q')"
  by auto
termination
  by (relation "measure (\<lambda>(ix, q). length (reclaim q))")
     (auto simp: pop_reclaim_def split: option.splits elim!: heap_pop.elims)

declare next_reclaimed.simps [simp del]

function next_fresh :: "topic_index \<Rightarrow> seq \<Rightarrow> queue_projection \<Rightarrow> seq option \<times> queue_projection" where
  "next_fresh ix head q =
     (if claim_cursor q \<le> head then
        let s = claim_cursor q;
            q = q\<lparr>claim_cursor := s + 1\<rparr>
        in if lease_of q s \<noteq> None then next_fresh ix head q
           else if is_live ix s then (Some s, q)
           else next_fresh ix head q
      else (None, q))"
  by auto
termination
  by (relation "measure (\<lambda>(ix, head, q). Suc head - claim_cursor q)") auto

declare next_fresh.simps [simp del]

definition next_claimable :: "topic_index \<Rightarrow> seq \<Rightarrow> queue_projection \<Rightarrow> seq option \<times> queue_projection" where
  "next_claimable ix head q =
     (case next_reclaimed ix q of
        (Some s, q') \<Rightarrow> (Some s, q')
      | (None, q') \<Rightarrow> next_fresh ix head q')"

section \<open>Claim bookkeeping\<close>

record claimer =
  cl_node :: string
  cl_max :: nat
  cl_work_conn :: "u64 option"

definition add_lease :: "seq \<Rightarrow> lease \<Rightarrow> queue_projection \<Rightarrow> queue_projection" where
  "add_lease s l q = q\<lparr>leases := AList.update s l (leases q)\<rparr>"

definition lease_token_ok :: "u64 option list \<Rightarrow> nat \<Rightarrow> u64 \<Rightarrow> bool" where
  "lease_token_ok lease_ids i held =
     (if i < length lease_ids
      then (case lease_ids ! i of Some want \<Rightarrow> want = held | None \<Rightarrow> True)
      else True)"

section \<open>Invariant and tracked jobs\<close>

definition wf_queue :: "queue_projection \<Rightarrow> bool" where
  "wf_queue q \<longleftrightarrow> distinct (map fst (leases q)) \<and> distinct (map fst (deliveries q)) \<and>
     sorted (reclaim q) \<and> distinct (reclaim q) \<and> in_reclaim q = set (reclaim q) \<and> sorted (delayed q) \<and>
     (\<forall>s l. lease_of q s = Some l \<longrightarrow> ls_lease_id l < next_lease_id q) \<and>
     (\<forall>s s' l l'. lease_of q s = Some l \<longrightarrow> lease_of q s' = Some l' \<longrightarrow>
        ls_lease_id l = ls_lease_id l' \<longrightarrow> s = s')"

text \<open>
  The jobs the projection can still hand out or is waiting for: leased, on the freelist,
  delayed, or not yet reached by the claim cursor. A live job outside this set would never
  be delivered again.
\<close>

definition tracked :: "queue_projection \<Rightarrow> seq set" where
  "tracked q = {s. lease_of q s \<noteq> None} \<union> set (reclaim q) \<union> snd ` set (delayed q) \<union> {claim_cursor q..}"

lemma wf_projection_new [simp]: "wf_queue (projection_new b)"
  by (simp add: wf_queue_def projection_new_def lease_of_def)

lemma tracked_new: "tracked (projection_new b) = {b..}"
  by (auto simp: tracked_def projection_new_def lease_of_def)

lemma lease_of_frame [simp]:
  "lease_of (push_reclaim t q) s = lease_of q s" "lease_of (push_delayed r t q) s = lease_of q s"
  "lease_of (q\<lparr>delayed := d\<rparr>) s = lease_of q s" "lease_of (q\<lparr>claim_cursor := c\<rparr>) s = lease_of q s"
  "lease_of (q\<lparr>deliveries := dv\<rparr>) s = lease_of q s" "lease_of (q\<lparr>next_lease_id := k\<rparr>) s = lease_of q s"
  "lease_of (q\<lparr>dead_lettered := k\<rparr>) s = lease_of q s" "lease_of (q\<lparr>reclaim := h, in_reclaim := ir\<rparr>) s = lease_of q s"
  by (simp_all add: lease_of_def push_reclaim_def push_delayed_def)

lemma lease_of_remove [simp]: "lease_of (remove_lease t q) s = (if s = t then None else lease_of q s)"
  by (simp add: lease_of_def remove_lease_def delete_conv)

lemma lease_of_add [simp]: "lease_of (add_lease t l q) s = (if s = t then Some l else lease_of q s)"
  by (simp add: lease_of_def add_lease_def update_conv)

lemma remove_lease_fields [simp]:
  "reclaim (remove_lease t q) = reclaim q" "delayed (remove_lease t q) = delayed q"
  "claim_cursor (remove_lease t q) = claim_cursor q" "in_reclaim (remove_lease t q) = in_reclaim q"
  "next_lease_id (remove_lease t q) = next_lease_id q" "deliveries (remove_lease t q) = deliveries q"
  "dead_lettered (remove_lease t q) = dead_lettered q"
  by (simp_all add: remove_lease_def)

lemma push_reclaim_fields [simp]:
  "leases (push_reclaim t q) = leases q" "delayed (push_reclaim t q) = delayed q"
  "claim_cursor (push_reclaim t q) = claim_cursor q" "next_lease_id (push_reclaim t q) = next_lease_id q"
  "deliveries (push_reclaim t q) = deliveries q" "dead_lettered (push_reclaim t q) = dead_lettered q"
  by (simp_all add: push_reclaim_def)

lemma set_push_reclaim: "wf_queue q \<Longrightarrow> set (reclaim (push_reclaim t q)) = insert t (set (reclaim q))"
  by (auto simp: push_reclaim_def wf_queue_def)

lemma push_reclaim_wf [inv_intro]: "wf_queue q \<Longrightarrow> wf_queue (push_reclaim t q)"
  by (auto simp: wf_queue_def push_reclaim_def heap_push_def sorted_insort distinct_insort set_insort_key lease_of_def)

lemma push_delayed_wf [inv_intro]: "wf_queue q \<Longrightarrow> wf_queue (push_delayed r t q)"
  by (auto simp: wf_queue_def push_delayed_def lease_of_def)

lemma remove_lease_wf [inv_intro]:
  assumes "wf_queue q"
  shows "wf_queue (remove_lease t q)"
proof -
  have "distinct (map fst (leases (remove_lease t q)))"
    using assms by (simp add: wf_queue_def remove_lease_def distinct_delete)
  then show ?thesis
    using assms unfolding wf_queue_def by (simp del: not_None_eq)
qed

lemma delayed_upd_wf: "wf_queue q \<Longrightarrow> delayed q = d # rest \<Longrightarrow> wf_queue (q\<lparr>delayed := rest\<rparr>)"
  by (auto simp: wf_queue_def lease_of_def)

lemma tracked_push_reclaim [simp]: "wf_queue q \<Longrightarrow> tracked (push_reclaim t q) = insert t (tracked q)"
  by (auto simp: tracked_def set_push_reclaim)

lemma tracked_push_delayed [simp]: "tracked (push_delayed r t q) = insert t (tracked q)"
  by (force simp: tracked_def push_delayed_def lease_of_def)

lemma tracked_remove_lease: "tracked q \<subseteq> insert t (tracked (remove_lease t q))" "tracked (remove_lease t q) \<subseteq> tracked q"
  by (auto simp: tracked_def)

lemma tracked_add_lease: "tracked (add_lease t l q) = insert t (tracked q)"
  by (auto simp: tracked_def lease_of_def add_lease_def update_conv split: if_splits)

section \<open>Sweeping\<close>

lemma sweep_delayed_spec:
  "wf_queue q \<Longrightarrow> wf_queue (sweep_delayed now q) \<and> tracked (sweep_delayed now q) = tracked q \<and>
     leases (sweep_delayed now q) = leases q \<and> deliveries (sweep_delayed now q) = deliveries q \<and>
     claim_cursor (sweep_delayed now q) = claim_cursor q \<and> next_lease_id (sweep_delayed now q) = next_lease_id q \<and>
     dead_lettered (sweep_delayed now q) = dead_lettered q \<and>
     (\<forall>(r, s)\<in>set (delayed (sweep_delayed now q)). now < r)"
proof (induction "delayed q" arbitrary: q)
  case Nil
  then show ?case
    by (subst (1 2 3 4 5 6 7 8) sweep_delayed.simps) simp
next
  case (Cons d rest)
  obtain r s where d: "d = (r, s)" by fastforce
  note q = Cons.hyps(2)[symmetric]
  show ?case
  proof (cases "r > now")
    case True
    have "\<forall>(r', s')\<in>set (delayed q). r \<le> r'"
      using Cons.prems q d by (auto simp: wf_queue_def less_eq_prod_def)
    moreover have "sweep_delayed now q = q"
      using True q d by (subst sweep_delayed.simps) simp
    ultimately show ?thesis
      using Cons.prems True by fastforce
  next
    case False
    define q1 where "q1 = q\<lparr>delayed := rest\<rparr>"
    define q2 where "q2 = (if lease_of q1 s = None then push_reclaim s q1 else q1)"
    have step: "sweep_delayed now q = sweep_delayed now q2"
      using q d False by (subst sweep_delayed.simps) (simp add: q2_def q1_def Let_def)
    have wf1: "wf_queue q1"
      unfolding q1_def using Cons.prems q by (rule delayed_upd_wf)
    then have wf2: "wf_queue q2"
      by (simp add: q2_def push_reclaim_wf)
    have "tracked q = insert s (tracked q1)"
      using q d by (auto simp: tracked_def q1_def)
    then have tr: "tracked q2 = tracked q"
      using wf1 by (auto simp: q2_def) (auto simp: tracked_def)
    have fields: "leases q2 = leases q" "deliveries q2 = deliveries q" "claim_cursor q2 = claim_cursor q"
        "next_lease_id q2 = next_lease_id q" "dead_lettered q2 = dead_lettered q" "rest = delayed q2"
      by (simp_all add: q2_def q1_def)
    show ?thesis
      using Cons.hyps(1)[OF fields(6) wf2] unfolding step by (simp add: tr fields)
  qed
qed

lemma sweep_leases_spec:
  "wf_queue q \<Longrightarrow> set ss \<subseteq> fst ` set (leases q) \<Longrightarrow> distinct ss \<Longrightarrow>
   (let q' = fold (\<lambda>s q. push_reclaim s (remove_lease s q)) ss q in
     wf_queue q' \<and> tracked q' = tracked q \<and> delayed q' = delayed q \<and> deliveries q' = deliveries q \<and>
     claim_cursor q' = claim_cursor q \<and> next_lease_id q' = next_lease_id q \<and> dead_lettered q' = dead_lettered q \<and>
     (\<forall>s. lease_of q' s = (if s \<in> set ss then None else lease_of q s)))"
proof (induction ss arbitrary: q)
  case (Cons s ss)
  define q1 where "q1 = push_reclaim s (remove_lease s q)"
  have wf: "wf_queue (remove_lease s q)" "wf_queue q1"
    using Cons.prems(1) by (simp_all add: q1_def remove_lease_wf push_reclaim_wf)
  have "lease_of q s \<noteq> None"
    using Cons.prems(2) by (simp add: lease_of_def map_of_eq_None_iff)
  then have "s \<in> tracked q"
    by (simp add: tracked_def)
  then have tr: "tracked q1 = tracked q"
    using wf(1) tracked_remove_lease(1)[of q s] tracked_remove_lease(2)[of s q] by (auto simp: q1_def)
  have "fst ` set (leases q1) = fst ` set (leases q) - {s}"
    using delete_keys[of s "leases q"] by (simp add: q1_def remove_lease_def) (metis list.set_map set_removeAll)
  then have "set ss \<subseteq> fst ` set (leases q1)"
    using Cons.prems(2,3) by auto
  then have "let q' = fold (\<lambda>s q. push_reclaim s (remove_lease s q)) ss q1 in
     wf_queue q' \<and> tracked q' = tracked q1 \<and> delayed q' = delayed q1 \<and> deliveries q' = deliveries q1 \<and>
     claim_cursor q' = claim_cursor q1 \<and> next_lease_id q' = next_lease_id q1 \<and> dead_lettered q' = dead_lettered q1 \<and>
     (\<forall>s. lease_of q' s = (if s \<in> set ss then None else lease_of q1 s))"
    using Cons.prems wf by (intro Cons.IH) simp_all
  then show ?case
    by (simp add: Let_def tr[symmetric] q1_def[symmetric]) (simp add: q1_def)
qed simp

text \<open>After a sweep no lease is expired and no pending delay has elapsed; nothing is lost.\<close>

lemma sweep_expired_spec:
  assumes "wf_queue q" and q'_def: "q' = sweep_expired now q"
  shows "wf_queue q'" "tracked q' = tracked q" "claim_cursor q' = claim_cursor q"
    "deliveries q' = deliveries q" "next_lease_id q' = next_lease_id q" "dead_lettered q' = dead_lettered q"
    "lease_of q' s = (case lease_of q s of Some l \<Rightarrow> if now > ls_deadline_ms l then None else Some l | None \<Rightarrow> None)"
    "\<forall>(r, s)\<in>set (delayed q'). now < r"
proof -
  define q1 where "q1 = sweep_delayed now q"
  note q1 = sweep_delayed_spec[OF assms(1), of now, folded q1_def]
  define ss where "ss = map fst (filter (\<lambda>(_, l). now > ls_deadline_ms l) (leases q1))"
  have wf1: "wf_queue q1" using q1 by blast
  then have dist: "distinct (map fst (leases q1))"
    by (simp add: wf_queue_def)
  have ss: "distinct ss" "set ss \<subseteq> fst ` set (leases q1)"
    using dist by (auto simp: ss_def distinct_map_filter)
  have q': "q' = fold (\<lambda>s q. push_reclaim s (remove_lease s q)) ss q1"
    by (simp add: q'_def sweep_expired_def q1_def ss_def Let_def)
  note sw = sweep_leases_spec[OF wf1 ss(2,1), unfolded Let_def q'[symmetric]]
  show "wf_queue q'" "tracked q' = tracked q" "claim_cursor q' = claim_cursor q"
    "deliveries q' = deliveries q" "next_lease_id q' = next_lease_id q" "dead_lettered q' = dead_lettered q"
    using sw q1 by auto
  show "\<forall>(r, s)\<in>set (delayed q'). now < r"
    using sw q1 by simp
  have "s \<in> set ss \<longleftrightarrow> (\<exists>l. lease_of q1 s = Some l \<and> now > ls_deadline_ms l)"
    using dist by (force simp: ss_def lease_of_def)
  moreover have "lease_of q1 s = lease_of q s"
    using q1 by (simp add: lease_of_def)
  ultimately show "lease_of q' s = (case lease_of q s of Some l \<Rightarrow> if now > ls_deadline_ms l then None else Some l | None \<Rightarrow> None)"
    using sw q1 by (auto split: option.splits)
qed

section \<open>Claiming\<close>

lemma pop_reclaim_Some:
  assumes "wf_queue q" "pop_reclaim q = Some (s, q')"
  shows "wf_queue q'" "set (reclaim q) = insert s (set (reclaim q'))" "s \<notin> set (reclaim q')"
    "leases q' = leases q" "delayed q' = delayed q" "claim_cursor q' = claim_cursor q"
    "deliveries q' = deliveries q" "next_lease_id q' = next_lease_id q" "dead_lettered q' = dead_lettered q"
    "length (reclaim q') < length (reclaim q)"
  using assms by (auto simp: pop_reclaim_def wf_queue_def lease_of_def elim!: heap_pop.elims split: option.splits)

lemma pop_reclaim_None: "pop_reclaim q = None \<longleftrightarrow> reclaim q = []"
  by (cases "reclaim q") (simp_all add: pop_reclaim_def)

lemma next_reclaimed_spec:
  assumes "wf_queue q" "next_reclaimed ix q = (r, q')"
  shows "wf_queue q' \<and> leases q' = leases q \<and> delayed q' = delayed q \<and> claim_cursor q' = claim_cursor q \<and>
    deliveries q' = deliveries q \<and> next_lease_id q' = next_lease_id q \<and> dead_lettered q' = dead_lettered q \<and>
    set (reclaim q') \<subseteq> set (reclaim q) \<and>
    (\<forall>s\<in>set (reclaim q). is_live ix s \<longrightarrow> s \<in> set (reclaim q') \<or> r = Some s \<or> lease_of q s \<noteq> None) \<and>
    (case r of None \<Rightarrow> reclaim q' = []
     | Some s \<Rightarrow> s \<in> set (reclaim q) \<and> s \<notin> set (reclaim q') \<and> is_live ix s \<and> lease_of q s = None)"
  using assms
proof (induction "length (reclaim q)" arbitrary: q rule: less_induct)
  case less
  show ?case
  proof (cases "pop_reclaim q")
    case None
    then have "next_reclaimed ix q = (None, q)"
      by (subst next_reclaimed.simps) simp
    then show ?thesis
      using less.prems None by (simp add: pop_reclaim_None)
  next
    case (Some p)
    obtain s q1 where p: "pop_reclaim q = Some (s, q1)"
      using Some by (cases p) auto
    note pop = pop_reclaim_Some[OF less.prems(1) p]
    have lo: "lease_of q1 t = lease_of q t" for t
      by (simp add: lease_of_def pop)
    show ?thesis
    proof (cases "lease_of q1 s = None \<and> is_live ix s")
      case True
      then show ?thesis
        using less.prems(2) p pop lo by (subst (asm) next_reclaimed.simps) auto
    next
      case False
      then have "next_reclaimed ix q1 = (r, q')"
        using less.prems(2) p by (subst (asm) next_reclaimed.simps) (auto split: if_splits)
      from less.hyps[OF pop(10) pop(1) this] show ?thesis
        using pop False lo by (auto split: option.splits)
    qed
  qed
qed

lemma next_fresh_spec:
  assumes "wf_queue q" "next_fresh ix head q = (r, q')"
  shows "wf_queue q' \<and> leases q' = leases q \<and> delayed q' = delayed q \<and> reclaim q' = reclaim q \<and>
    deliveries q' = deliveries q \<and> next_lease_id q' = next_lease_id q \<and> dead_lettered q' = dead_lettered q \<and>
    claim_cursor q \<le> claim_cursor q' \<and> claim_cursor q' \<le> max (claim_cursor q) (head + 1) \<and>
    (\<forall>s. claim_cursor q \<le> s \<and> s < claim_cursor q' \<and> is_live ix s \<longrightarrow> r = Some s \<or> lease_of q s \<noteq> None) \<and>
    (case r of None \<Rightarrow> head < claim_cursor q'
     | Some s \<Rightarrow> claim_cursor q \<le> s \<and> s < claim_cursor q' \<and> s \<le> head \<and> is_live ix s \<and> lease_of q s = None)"
  using assms
proof (induction "Suc head - claim_cursor q" arbitrary: q rule: less_induct)
  case less
  show ?case
  proof (cases "claim_cursor q \<le> head")
    case False
    then show ?thesis
      using less.prems by (subst (asm) next_fresh.simps) auto
  next
    case True
    define s where "s = claim_cursor q"
    define q1 where "q1 = q\<lparr>claim_cursor := s + 1\<rparr>"
    have wf1: "wf_queue q1"
      using less.prems(1) by (simp add: q1_def wf_queue_def)
    have q1: "leases q1 = leases q" "delayed q1 = delayed q" "reclaim q1 = reclaim q" "deliveries q1 = deliveries q"
        "next_lease_id q1 = next_lease_id q" "dead_lettered q1 = dead_lettered q" "claim_cursor q1 = s + 1"
        "\<And>t. lease_of q1 t = lease_of q t"
      by (simp_all add: q1_def)
    show ?thesis
    proof (cases "lease_of q1 s = None \<and> is_live ix s")
      case hit: True
      then have "r = Some s" "q' = q1"
        using less.prems(2) True by (auto simp: next_fresh.simps[of ix head q] Let_def s_def q1_def)
      then show ?thesis
        using hit True wf1 q1 s_def by (auto simp: less_Suc_eq)
    next
      case miss: False
      then have "next_fresh ix head q1 = (r, q')"
        using less.prems(2) True by (auto simp: next_fresh.simps[of ix head q] Let_def s_def q1_def split: if_splits)
      moreover have "Suc head - claim_cursor q1 < Suc head - claim_cursor q"
        using True by (simp add: q1 s_def)
      ultimately have ih: "wf_queue q' \<and> leases q' = leases q1 \<and> delayed q' = delayed q1 \<and> reclaim q' = reclaim q1 \<and>
          deliveries q' = deliveries q1 \<and> next_lease_id q' = next_lease_id q1 \<and> dead_lettered q' = dead_lettered q1 \<and>
          claim_cursor q1 \<le> claim_cursor q' \<and> claim_cursor q' \<le> max (claim_cursor q1) (head + 1) \<and>
          (\<forall>s. claim_cursor q1 \<le> s \<and> s < claim_cursor q' \<and> is_live ix s \<longrightarrow> r = Some s \<or> lease_of q1 s \<noteq> None) \<and>
          (case r of None \<Rightarrow> head < claim_cursor q'
           | Some s \<Rightarrow> claim_cursor q1 \<le> s \<and> s < claim_cursor q' \<and> s \<le> head \<and> is_live ix s \<and> lease_of q1 s = None)"
        using less.hyps wf1 by blast
      have "r = Some t \<or> lease_of q t \<noteq> None" if "claim_cursor q \<le> t" "t < claim_cursor q'" "is_live ix t" for t
        using ih that miss q1(7,8) s_def by (cases "t = s") auto
      then show ?thesis
        using ih True q1 s_def by (auto split: option.splits)
    qed
  qed
qed

text \<open>What the next claimable job is, and that looking for it strands no other live job.\<close>

lemma next_claimable_Some:
  assumes "wf_queue q" "next_claimable ix head q = (Some s, q')" "\<forall>t\<in>set (reclaim q). is_live ix t \<longrightarrow> t \<le> head"
  shows "wf_queue q'" "is_live ix s" "lease_of q s = None" "s \<le> head" "s \<in> tracked q"
    "leases q' = leases q" "delayed q' = delayed q" "deliveries q' = deliveries q" "next_lease_id q' = next_lease_id q"
    "dead_lettered q' = dead_lettered q" "claim_cursor q \<le> claim_cursor q'"
    "claim_cursor q' \<le> max (claim_cursor q) (head + 1)" "set (reclaim q') \<subseteq> set (reclaim q)"
    "\<forall>t\<in>tracked q. is_live ix t \<longrightarrow> t = s \<or> t \<in> tracked q'" "s \<notin> set (reclaim q')"
proof -
  obtain r1 q1 where r: "next_reclaimed ix q = (r1, q1)" by fastforce
  note n1 = next_reclaimed_spec[OF assms(1) r]
  have key: "wf_queue q' \<and> is_live ix s \<and> lease_of q s = None \<and> s \<in> tracked q \<and>
    leases q' = leases q \<and> delayed q' = delayed q \<and> deliveries q' = deliveries q \<and> next_lease_id q' = next_lease_id q \<and>
    dead_lettered q' = dead_lettered q \<and> claim_cursor q \<le> claim_cursor q' \<and>
    claim_cursor q' \<le> max (claim_cursor q) (head + 1) \<and> set (reclaim q') \<subseteq> set (reclaim q) \<and>
    (\<forall>t\<in>tracked q. is_live ix t \<longrightarrow> t = s \<or> t \<in> tracked q') \<and> s \<notin> set (reclaim q') \<and> s \<le> head"
  proof (cases r1)
    case (Some s1)
    then have "s1 = s" "q1 = q'"
      using assms(2) r by (simp_all add: next_claimable_def)
    then show ?thesis
      using n1 Some assms(3) by (auto simp: tracked_def lease_of_def)
  next
    case None
    then have f: "next_fresh ix head q1 = (Some s, q')"
      using assms(2) r by (simp add: next_claimable_def)
    have wf1: "wf_queue q1" using n1 by blast
    have empty: "reclaim q1 = []" using n1 None by simp
    show ?thesis
      using n1 next_fresh_spec[OF wf1 f] None empty
      by (auto simp: tracked_def lease_of_def)
  qed
  then show "wf_queue q'" "is_live ix s" "lease_of q s = None" "s \<le> head" "s \<in> tracked q"
    "leases q' = leases q" "delayed q' = delayed q" "deliveries q' = deliveries q" "next_lease_id q' = next_lease_id q"
    "dead_lettered q' = dead_lettered q" "claim_cursor q \<le> claim_cursor q'"
    "claim_cursor q' \<le> max (claim_cursor q) (head + 1)" "set (reclaim q') \<subseteq> set (reclaim q)"
    "\<forall>t\<in>tracked q. is_live ix t \<longrightarrow> t = s \<or> t \<in> tracked q'" "s \<notin> set (reclaim q')"
    by blast+
qed

lemma next_claimable_None:
  assumes "wf_queue q" "next_claimable ix head q = (None, q')"
  shows "wf_queue q'" "leases q' = leases q" "delayed q' = delayed q" "deliveries q' = deliveries q"
    "next_lease_id q' = next_lease_id q" "dead_lettered q' = dead_lettered q" "claim_cursor q \<le> claim_cursor q'"
    "claim_cursor q' \<le> max (claim_cursor q) (head + 1)" "set (reclaim q') \<subseteq> set (reclaim q)"
    "\<forall>t\<in>tracked q. is_live ix t \<longrightarrow> t \<in> tracked q'"
    "\<forall>t\<in>tracked q. is_live ix t \<and> t \<le> head \<longrightarrow> lease_of q t \<noteq> None \<or> t \<in> snd ` set (delayed q)"
proof -
  obtain r1 q1 where r: "next_reclaimed ix q = (r1, q1)" by fastforce
  note n1 = next_reclaimed_spec[OF assms(1) r]
  have "r1 = None" "next_fresh ix head q1 = (None, q')"
    using assms(2) r by (auto simp: next_claimable_def split: option.splits)
  moreover have "wf_queue q1" using n1 by blast
  ultimately have f: "reclaim q1 = []" "wf_queue q' \<and> leases q' = leases q1 \<and> delayed q' = delayed q1 \<and> reclaim q' = reclaim q1 \<and>
    deliveries q' = deliveries q1 \<and> next_lease_id q' = next_lease_id q1 \<and> dead_lettered q' = dead_lettered q1 \<and>
    claim_cursor q1 \<le> claim_cursor q' \<and> claim_cursor q' \<le> max (claim_cursor q1) (head + 1) \<and>
    (\<forall>s. claim_cursor q1 \<le> s \<and> s < claim_cursor q' \<and> is_live ix s \<longrightarrow> lease_of q1 s \<noteq> None) \<and> head < claim_cursor q'"
    using next_fresh_spec[of q1 ix head None q'] n1 by simp_all
  have lo: "lease_of q1 t = lease_of q t" "lease_of q' t = lease_of q t" for t
    using n1 f(2) by (simp_all add: lease_of_def)
  show "wf_queue q'" "leases q' = leases q" "delayed q' = delayed q" "deliveries q' = deliveries q"
    "next_lease_id q' = next_lease_id q" "dead_lettered q' = dead_lettered q" "claim_cursor q \<le> claim_cursor q'"
    "claim_cursor q' \<le> max (claim_cursor q) (head + 1)" "set (reclaim q') \<subseteq> set (reclaim q)"
    using n1 f by auto
  show stays: "\<forall>t\<in>tracked q. is_live ix t \<and> t \<le> head \<longrightarrow> lease_of q t \<noteq> None \<or> t \<in> snd ` set (delayed q)"
    using n1 f lo \<open>r1 = None\<close> unfolding tracked_def by (auto dest: less_le_trans)
  show "\<forall>t\<in>tracked q. is_live ix t \<longrightarrow> t \<in> tracked q'"
    using n1 f lo \<open>r1 = None\<close> unfolding tracked_def by (auto simp: not_le)
qed

section \<open>Replay of the leases log\<close>

lemma apply_lease_event_wf [inv_intro]:
  assumes "wf_queue q" "\<forall>s' l. lease_of q s' = Some l \<longrightarrow> ls_lease_id l = lid \<longrightarrow> s' = s"
  shows "wf_queue (apply_lease_event ev s node lid dl n q)"
proof -
  define q1 where "q1 = (if lid \<ge> next_lease_id q then q\<lparr>next_lease_id := lid + 1\<rparr> else q)"
  have lo: "lease_of q1 t = lease_of q t" for t
    by (simp add: q1_def)
  have wf1: "wf_queue q1" "lid < next_lease_id q1"
    using assms(1) by (auto simp: q1_def wf_queue_def lease_of_def) (fastforce)+
  have claimed: "wf_queue (q1\<lparr>deliveries := AList.update s n (deliveries q1), leases := AList.update s l (leases q1)\<rparr>)"
    if "ls_lease_id l = lid" for l
    using wf1 assms(2) that lo
    by (auto simp: wf_queue_def lease_of_def update_conv distinct_update)
  have extended: "wf_queue (q1\<lparr>leases := AList.update s l (leases q1)\<rparr>)" if "ls_lease_id l = lid" for l
    using wf1 assms(2) that lo
    by (auto simp: wf_queue_def lease_of_def update_conv distinct_update)
  have cursor: "wf_queue r \<Longrightarrow> wf_queue (r\<lparr>claim_cursor := c\<rparr>)" for r c
    by (simp add: wf_queue_def)
  have acked: "wf_queue ((remove_lease s q1)\<lparr>deliveries := AList.delete s (deliveries q1)\<rparr>)"
    using remove_lease_wf[OF wf1(1), of s] by (auto simp: wf_queue_def distinct_delete lease_of_def)
  show ?thesis
    unfolding apply_lease_event_def q1_def[symmetric] Let_def
    using wf1 claimed extended acked cursor by (auto simp: remove_lease_wf push_reclaim_wf split: option.splits)
qed

text \<open>A stale event, one whose lease id is not the current one, changes no lease.\<close>

lemma stale_lease_event:
  assumes "ev \<noteq> 0" "\<forall>l. lease_of q s = Some l \<longrightarrow> ls_lease_id l \<noteq> lid"
  shows "leases (apply_lease_event ev s node lid dl n q) = leases q"
    and "reclaim (apply_lease_event ev s node lid dl n q) = reclaim q"
    and "deliveries (apply_lease_event ev s node lid dl n q) = deliveries q"
  using assms by (auto simp: apply_lease_event_def Let_def lease_of_def split: option.splits)

end
