(* ===== verification/Topic_State.thy ===== *)
theory Topic_State
  imports Eviction Topic_Index Segment_Writer Queue_Projection
begin

text \<open>
  The state of one topic and its operations (\<open>engine/topic_state.rs\<close>, \<open>TopicState\<close>):
  staging, publishing and rolling back appends, materialising published records into the
  segment writer, retention, reclaim, deletes and the recovery operations. An operation
  takes the topic's state and returns the state after it; the locks of the source make
  each of these steps atomic. The publish gate, which orders the steps of concurrent
  writers, is the subject of its own theory.
\<close>

section \<open>State\<close>

record dedupe_entry =
  de_seqs :: "seq list"
  de_head_seq :: seq
  de_created_ms :: i64

record materialize_seam =
  seam_next :: seq
  seam_pending :: "(seq \<times> seq) list"

record topic_state =
  t_name :: string
  t_topic_id :: u64
  t_config :: topic_config
  t_index :: topic_index
  t_floors :: floors
  t_dedupe :: "(string \<times> dedupe_entry) list"
  t_head_seq :: seq
  t_reserved_head :: seq
  t_seq_base :: seq
  t_epoch :: u64
  t_bytes_retained :: u64
  t_live_count :: u64
  t_last_write_ms :: i64
  t_last_read_ms :: i64
  t_last_consumed_ms :: i64
  t_sched_dirty :: bool
  t_queue :: "queue_projection option"
  t_segwriter :: "segment_writer option"
  t_seam :: materialize_seam

record staged_append =
  sa_start :: seq
  sa_count :: nat
  sa_added_bytes :: u64
  sa_pre_len :: nat

record retention_advance =
  ra_floor_advanced :: bool
  ra_durable_advance :: bool
  ra_evict_floor :: seq
  ra_expiry_floor :: seq
  ra_bytes_reclaimed :: u64

record delete_stats =
  ds_deleted :: nat
  ds_bytes_freed :: u64

definition TS_NEVER :: i64 where
  "TS_NEVER = i64_min"

definition topic_new :: "string \<Rightarrow> u64 \<Rightarrow> topic_config \<Rightarrow> seq \<Rightarrow> u64 \<Rightarrow> topic_state" where
  "topic_new name tid cfg base ep = \<lparr>
     t_name = name, t_topic_id = tid, t_config = cfg, t_index = index_new base,
     t_floors = default_floors, t_dedupe = [], t_head_seq = base - 1, t_reserved_head = base - 1,
     t_seq_base = base, t_epoch = ep, t_bytes_retained = 0, t_live_count = 0,
     t_last_write_ms = TS_NEVER, t_last_read_ms = TS_NEVER, t_last_consumed_ms = TS_NEVER,
     t_sched_dirty = False,
     t_queue = (if is_queue cfg then Some (projection_new base) else None),
     t_segwriter = None, t_seam = \<lparr>seam_next = base, seam_pending = []\<rparr>\<rparr>"

definition deleted_hole :: stored_record where
  "deleted_hole = \<lparr>sr_ts = 0, sr_node = None, sr_tag = None, sr_data = JNull, sr_meta = None,
     sr_bytes = 0, sr_deleted = True, sr_payload_resident = True, sr_hops = 0\<rparr>"

section \<open>Heads and floors\<close>

definition publish_head_seq :: "seq \<Rightarrow> topic_state \<Rightarrow> topic_state" where
  "publish_head_seq new_head t = t\<lparr>t_head_seq := new_head\<rparr>"

definition set_reserved_head :: "seq \<Rightarrow> topic_state \<Rightarrow> topic_state" where
  "set_reserved_head reserved t = t\<lparr>t_reserved_head := max (t_reserved_head t) reserved\<rparr>"

definition pad_holes :: "seq \<Rightarrow> topic_index \<Rightarrow> topic_index" where
  "pad_holes reserved ix =
     ix\<lparr>records := records ix @
       replicate (Suc reserved - (base_seq ix + length (records ix))) deleted_hole\<rparr>"

definition restore_head_watermark :: "seq \<Rightarrow> topic_state \<Rightarrow> topic_state" where
  "restore_head_watermark reserved t =
     (let t = set_reserved_head reserved t in
      if reserved \<le> t_head_seq t then t
      else publish_head_seq reserved (t\<lparr>t_index := pad_holes reserved (t_index t)\<rparr>))"

definition next_seq :: "topic_state \<Rightarrow> seq" where
  "next_seq t = sat_add (t_head_seq t) 1"

definition earliest_seq :: "topic_state \<Rightarrow> seq" where
  "earliest_seq t =
     (let head = t_head_seq t;
          floor_earliest = floors_earliest_seq (t_floors t) (t_seq_base t) head
      in min (max floor_earliest (base_seq (t_index t))) (sat_add head 1))"

definition evict_earliest_seq :: "topic_state \<Rightarrow> seq" where
  "evict_earliest_seq t = floors_evict_earliest (t_floors t) (t_seq_base t) (t_head_seq t)"

definition involuntary_floor :: "topic_state \<Rightarrow> seq" where
  "involuntary_floor t = max (evict_floor (t_floors t)) (expiry_floor (t_floors t))"

section \<open>Segment materialisation\<close>

fun feed_writer ::
  "env \<Rightarrow> (seq \<times> stored_record) list \<Rightarrow> segment_writer \<Rightarrow> segment_writer \<times> seq list" where
  "feed_writer env [] w = (w, [])"
| "feed_writer env ((s, r) # ps) w =
     (let (w, sealed) = append_record env s (sr_ts r) (sr_node r) (sr_tag r) (sr_data r) (sr_meta r) w;
          (w, more) = feed_writer env ps w
      in (w, sealed @ more))"

definition attach_segwriter :: "env \<Rightarrow> segment_writer \<Rightarrow> topic_state \<Rightarrow> topic_state" where
  "attach_segwriter env w t =
     (let ix = t_index t;
          base = base_seq ix;
          len = length (records ix);
          w = fst (feed_writer env (zip [base..<base + len] (records ix)) w)
      in t\<lparr>t_segwriter := Some w, t_seam := (t_seam t)\<lparr>seam_next := base + len\<rparr>\<rparr>)"

definition free_payload :: "seq \<Rightarrow> topic_index \<Rightarrow> topic_index" where
  "free_payload s ix =
     (case slot_idx ix s of
        None \<Rightarrow> ix
      | Some i \<Rightarrow>
          let r = records ix ! i in
          if \<not> sr_deleted r \<and> sr_payload_resident r
          then ix\<lparr>records := (records ix)[i := r\<lparr>sr_payload_resident := False, sr_data := JNull, sr_meta := None\<rparr>]\<rparr>
          else ix)"

definition materialize_segment :: "env \<Rightarrow> seq \<Rightarrow> seq \<Rightarrow> topic_state \<Rightarrow> topic_state" where
  "materialize_segment env start stop t =
     (case t_segwriter t of
        None \<Rightarrow> t
      | Some w \<Rightarrow>
          let pending = concat (map (\<lambda>s. case ix_get (t_index t) s of Some r \<Rightarrow> [(s, r)] | None \<Rightarrow> [])
                                  [start..<Suc stop]);
              (w', sealed) = feed_writer env pending w;
              t = t\<lparr>t_segwriter := Some w'\<rparr>
          in if sw_evict_resident w \<and> sealed \<noteq> []
             then t\<lparr>t_index := fold free_payload sealed (t_index t)\<rparr>
             else t)"

function drain_seam :: "materialize_seam \<Rightarrow> (seq \<times> seq) list \<Rightarrow> materialize_seam \<times> (seq \<times> seq) list" where
  "drain_seam seam to_feed =
     (case bt_last_upto (seam_next seam) (seam_pending seam) of
        None \<Rightarrow> (seam, to_feed)
      | Some (pstart, pend) \<Rightarrow>
          if pstart > seam_next seam then (seam, to_feed)
          else let rest = bt_remove pstart (seam_pending seam) in
            if pend < seam_next seam then drain_seam (seam\<lparr>seam_pending := rest\<rparr>) to_feed
            else drain_seam (seam\<lparr>seam_pending := rest, seam_next := pend + 1\<rparr>)
                   (to_feed @ [(seam_next seam, pend)]))"
  by auto
termination
  by (relation "measure (\<lambda>(seam, fs). length (seam_pending seam))") (auto simp: bt_remove_last_upto)

declare drain_seam.simps [simp del]

definition seam_admit :: "seq \<Rightarrow> seq \<Rightarrow> materialize_seam \<Rightarrow> materialize_seam \<times> (seq \<times> seq) list" where
  "seam_admit start stop seam =
     (if stop < seam_next seam then (seam, [])
      else
        let eff_start = max start (seam_next seam);
            (seam, to_feed) =
              (if eff_start = seam_next seam
               then (seam\<lparr>seam_next := stop + 1\<rparr>, [(eff_start, stop)])
               else (seam\<lparr>seam_pending := bt_insert start
                        (case map_of (seam_pending seam) start of Some e \<Rightarrow> max e stop | None \<Rightarrow> stop)
                        (seam_pending seam)\<rparr>, []))
        in drain_seam seam to_feed)"

definition materialize_published :: "env \<Rightarrow> seq \<Rightarrow> seq \<Rightarrow> topic_state \<Rightarrow> topic_state" where
  "materialize_published env start stop t =
     (if t_segwriter t = None then t
      else let (seam, to_feed) = seam_admit start stop (t_seam t)
           in fold (\<lambda>(s, e). materialize_segment env s e) to_feed (t\<lparr>t_seam := seam\<rparr>))"

section \<open>Staging, publishing, rolling back\<close>

definition empty_stage :: staged_append where
  "empty_stage = \<lparr>sa_start = 0, sa_count = 0, sa_added_bytes = 0, sa_pre_len = 0\<rparr>"

definition staged_seqs :: "staged_append \<Rightarrow> seq list" where
  "staged_seqs sa = [sa_start sa..<sa_start sa + sa_count sa]"

definition publish_head :: "staged_append \<Rightarrow> seq" where
  "publish_head sa = (if sa_count sa = 0 then 0 else sa_start sa + sa_count sa - 1)"

fun stage_loop :: "seq \<Rightarrow> stored_record list \<Rightarrow> nat \<Rightarrow> topic_index \<Rightarrow> topic_index \<times> nat" where
  "stage_loop s [] added ix = (ix, added)"
| "stage_loop s (r # rs) added ix =
     (let added = sat_add added (sr_bytes r);
          ix = (case sr_tag r of Some tag \<Rightarrow> index_tag s tag ix | None \<Rightarrow> ix)
      in stage_loop (s + 1) rs added (ix\<lparr>records := records ix @ [r]\<rparr>))"

definition stage_append :: "stored_record list \<Rightarrow> topic_state \<Rightarrow> topic_state \<times> staged_append" where
  "stage_append rs t =
     (if rs = [] then (t, empty_stage)
      else let ix = t_index t;
               pre_len = length (records ix);
               start = base_seq ix + length (records ix);
               (ix, added) = stage_loop start rs 0 ix
           in (t\<lparr>t_index := ix\<rparr>,
               \<lparr>sa_start = start, sa_count = length rs, sa_added_bytes = added, sa_pre_len = pre_len\<rparr>))"

definition publish_staged_no_seal ::
  "staged_append \<Rightarrow> i64 \<Rightarrow> topic_state \<Rightarrow> topic_state \<times> (seq \<times> seq) option" where
  "publish_staged_no_seal sa now t =
     (if sa_count sa = 0 then (t, None)
      else let new_head = sa_start sa + sa_count sa - 1;
               t = publish_head_seq new_head t
           in (t\<lparr>t_bytes_retained := t_bytes_retained t + sa_added_bytes sa,
                 t_live_count := t_live_count t + sa_count sa,
                 t_last_write_ms := now\<rparr>,
               Some (sa_start sa, new_head)))"

definition publish_staged :: "env \<Rightarrow> staged_append \<Rightarrow> i64 \<Rightarrow> topic_state \<Rightarrow> topic_state" where
  "publish_staged env sa now t =
     (case publish_staged_no_seal sa now t of
        (t, Some (start, stop)) \<Rightarrow> materialize_published env start stop t
      | (t, None) \<Rightarrow> t)"

definition append_records :: "env \<Rightarrow> stored_record list \<Rightarrow> i64 \<Rightarrow> topic_state \<Rightarrow> topic_state \<times> seq list" where
  "append_records env rs now t =
     (let (t, sa) = stage_append rs t in
      if sa_count sa = 0 then (t, [])
      else (publish_staged env sa now t, staged_seqs sa))"

function rollback_loop :: "nat \<Rightarrow> topic_index \<Rightarrow> topic_index" where
  "rollback_loop pre_len ix =
     (if length (records ix) > pre_len then rollback_loop pre_len (pop_back ix) else ix)"
  by auto
termination
  by (relation "measure (\<lambda>(n, ix). length (records ix))") auto

declare rollback_loop.simps [simp del]

definition rollback_staged :: "staged_append \<Rightarrow> topic_state \<Rightarrow> topic_state" where
  "rollback_staged sa t =
     (if sa_count sa = 0 then t
      else t\<lparr>t_index := rollback_loop (sa_pre_len sa) (t_index t)\<rparr>)"

definition rollback_staged_by_seqs :: "staged_append \<Rightarrow> topic_state \<Rightarrow> topic_state" where
  "rollback_staged_by_seqs sa t =
     (if sa_count sa = 0 then t
      else t\<lparr>t_index := fold (\<lambda>i ix. fst (mark_deleted (sa_start sa + i) ix)) [0..<sa_count sa] (t_index t)\<rparr>)"

definition note_source_trim :: "env \<Rightarrow> topic_state \<Rightarrow> topic_state" where
  "note_source_trim env t =
     (let (t, sa) = stage_append [deleted_hole] t in
      if sa_count sa = 0 then t
      else let hole = sa_start sa;
               t = publish_head_seq hole t;
               t = t\<lparr>t_floors := (t_floors t)\<lparr>source_trim_floor := max (source_trim_floor (t_floors t)) hole\<rparr>\<rparr>
           in materialize_published env hole hole t)"

section \<open>Payload resolution\<close>

definition slot_payload :: "stored_record \<Rightarrow> resolved_payload" where
  "slot_payload r = \<lparr>rp_data = sr_data r, rp_meta = sr_meta r\<rparr>"

definition resolve_payload :: "env \<Rightarrow> seq \<Rightarrow> stored_record \<Rightarrow> topic_state \<Rightarrow> topic_state \<times> resolved_payload" where
  "resolve_payload env s r t =
     (if sr_payload_resident r then (t, slot_payload r)
      else case t_segwriter t of
             None \<Rightarrow> (t, slot_payload r)
           | Some w \<Rightarrow>
               (case resolve_sealed_fast w s of
                  Hit p \<Rightarrow> (t, p)
                | Read loc \<Rightarrow>
                    (case read_locator env loc of
                       Some p \<Rightarrow> (t\<lparr>t_segwriter := Some (record_cold_read loc p w)\<rparr>, p)
                     | None \<Rightarrow> (t, slot_payload r))
                | NotSealed \<Rightarrow> (t, slot_payload r)))"

definition forward_lookup ::
  "env \<Rightarrow> seq \<Rightarrow> topic_state \<Rightarrow> topic_state \<times> (stored_record \<times> bool) option" where
  "forward_lookup env s t =
     (case ix_get (t_index t) s of
        None \<Rightarrow> (t, None)
      | Some r \<Rightarrow>
          if sr_deleted r then (t, Some (r, False))
          else if \<not> sr_payload_resident r then
            (let (t, p) = resolve_payload env s r t
             in (t, Some (r\<lparr>sr_data := rp_data p, sr_meta := rp_meta p\<rparr>, True)))
          else (t, Some (r, True)))"

section \<open>Reclaim\<close>

definition subtract_live_count :: "nat \<Rightarrow> topic_state \<Rightarrow> topic_state" where
  "subtract_live_count n t = t\<lparr>t_live_count := t_live_count t - n\<rparr>"

definition subtract_bytes_retained :: "nat \<Rightarrow> topic_state \<Rightarrow> topic_state" where
  "subtract_bytes_retained n t = t\<lparr>t_bytes_retained := t_bytes_retained t - n\<rparr>"

definition front_drop :: "seq \<Rightarrow> topic_index \<Rightarrow> nat" where
  "front_drop earliest ix =
     (let n = (if earliest > base_seq ix then min (earliest - base_seq ix) (length (records ix)) else 0)
      in n + length (takeWhile sr_deleted (drop n (records ix))))"

definition reclaim_front :: "seq \<Rightarrow> topic_state \<Rightarrow> topic_state \<times> nat" where
  "reclaim_front head t =
     (let earliest = floors_earliest_seq (t_floors t) (t_seq_base t) head;
          drop_n = front_drop earliest (t_index t)
      in if drop_n = 0 then (t, 0)
         else let freed = fold (\<lambda>r acc. sat_add acc (sr_bytes r)) (take drop_n (records (t_index t))) 0;
                  (ix, live_popped) = drain_front drop_n (t_index t);
                  t = subtract_bytes_retained freed (t\<lparr>t_index := ix\<rparr>);
                  t = subtract_live_count live_popped t
              in (t, freed))"

definition reclaim_segments :: "topic_state \<Rightarrow> topic_state" where
  "reclaim_segments t =
     (case t_segwriter t of
        None \<Rightarrow> t
      | Some w \<Rightarrow>
          let earliest = earliest_seq t;
              to_drop = map ss_start_seq (filter (\<lambda>g. ss_end_seq g < earliest \<or>
                          range_all_dead (t_index t) (ss_start_seq g) (ss_end_seq g)) (sw_sealed w))
          in t\<lparr>t_segwriter := Some (fold drop_segment to_drop w)\<rparr>)"

definition flag_sealed_deletes :: "seq list \<Rightarrow> topic_state \<Rightarrow> topic_state" where
  "flag_sealed_deletes seqs t =
     (case t_segwriter t of
        None \<Rightarrow> t
      | Some w \<Rightarrow> t\<lparr>t_segwriter := Some (fold (\<lambda>s w. fst (flag_sealed_deleted s w)) seqs w)\<rparr>)"

section \<open>Retention\<close>

definition no_advance :: retention_advance where
  "no_advance = \<lparr>ra_floor_advanced = False, ra_durable_advance = False, ra_evict_floor = 0,
     ra_expiry_floor = 0, ra_bytes_reclaimed = 0\<rparr>"

text \<open>The TTL scan stops at the first record that has not expired.\<close>

fun ttl_scan :: "i64 \<Rightarrow> i64 \<Rightarrow> seq \<Rightarrow> stored_record list \<Rightarrow> seq \<Rightarrow> seq" where
  "ttl_scan now ttl s [] expired_upto = expired_upto"
| "ttl_scan now ttl s (r # rs) expired_upto =
     (if i64_sat_sub now (sr_ts r) > ttl then ttl_scan now ttl (s + 1) rs s else expired_upto)"

text \<open>The byte-cap scan walks the records above the floor until enough bytes are covered.\<close>

fun bytes_scan :: "seq \<Rightarrow> seq \<Rightarrow> stored_record list \<Rightarrow> nat \<Rightarrow> seq \<Rightarrow> seq" where
  "bytes_scan current_floor s [] over evict_to = evict_to"
| "bytes_scan current_floor s (r # rs) over evict_to =
     (if s \<le> current_floor then bytes_scan current_floor (s + 1) rs over evict_to
      else if over = 0 then evict_to
      else let over = over - sr_bytes r in
           if over = 0 then s else bytes_scan current_floor (s + 1) rs over s)"

definition plan_retention :: "i64 \<Rightarrow> topic_state \<Rightarrow> retention_advance" where
  "plan_retention now t =
     (let ttl_ms = cfg_ttl_ms (t_config t);
          cap_records = cfg_cap_records (t_config t);
          cap_bytes = cfg_cap_bytes (t_config t);
          head = t_head_seq t;
          ix = t_index t;
          evict0 = evict_floor (t_floors t);
          expiry0 = expiry_floor (t_floors t);
          expiry = (if ttl_ms > 0
                    then let expired_upto = ttl_scan now (as_i64 ttl_ms) (base_seq ix) (records ix) expiry0
                         in if expired_upto > expiry0 then expired_upto else expiry0
                    else expiry0);
          ttl_advanced = expiry > expiry0;
          evict1 = (if cap_records > 0 \<and> head > cap_records \<and> head - cap_records > evict0
                    then head - cap_records else evict0);
          cap_advanced = evict1 > evict0;
          evict2 = (if cap_bytes > 0 \<and> t_bytes_retained t > cap_bytes
                    then let evict_to = bytes_scan (max evict1 expiry) (base_seq ix) (records ix)
                                      (t_bytes_retained t - cap_bytes) evict1
                         in if evict_to > evict1 then evict_to else evict1
                    else evict1);
          bytes_advanced = evict2 > evict1
      in \<lparr>ra_floor_advanced = (ttl_advanced \<or> cap_advanced \<or> bytes_advanced),
          ra_durable_advance = (ttl_advanced \<or> bytes_advanced),
          ra_evict_floor = evict2, ra_expiry_floor = expiry, ra_bytes_reclaimed = 0\<rparr>)"

definition commit_floors :: "retention_advance \<Rightarrow> topic_state \<Rightarrow> topic_state" where
  "commit_floors plan t =
     t\<lparr>t_floors := (t_floors t)\<lparr>evict_floor := max (evict_floor (t_floors t)) (ra_evict_floor plan),
        expiry_floor := max (expiry_floor (t_floors t)) (ra_expiry_floor plan)\<rparr>\<rparr>"

text \<open>
  \<open>harden\<close> makes the planned floors durable before they are committed; it is only called
  when a TTL expiry or a byte-cap eviction advanced them, and its failure commits nothing.
\<close>

definition enforce_retention_hardened ::
  "i64 \<Rightarrow> (retention_advance \<Rightarrow> 'e option) \<Rightarrow> topic_state \<Rightarrow> 'e + (topic_state \<times> retention_advance)" where
  "enforce_retention_hardened now harden t =
     (let head = t_head_seq t in
      if head = 0 then Inr (t, no_advance)
      else if cfg_ttl_ms (t_config t) = 0 \<and> cfg_cap_records (t_config t) = 0 \<and> cfg_cap_bytes (t_config t) = 0
      then Inr (t, no_advance)
      else
        let plan = plan_retention now t in
        case (if ra_floor_advanced plan \<and> ra_durable_advance plan then harden plan else None) of
          Some e \<Rightarrow> Inl e
        | None \<Rightarrow>
            let t = (if ra_floor_advanced plan then reclaim_segments (commit_floors plan t) else t);
                (t, freed) = reclaim_front head t
            in Inr (t, plan\<lparr>ra_bytes_reclaimed := freed\<rparr>))"

definition enforce_retention :: "i64 \<Rightarrow> topic_state \<Rightarrow> topic_state \<times> retention_advance" where
  "enforce_retention now t =
     (case enforce_retention_hardened now (\<lambda>_. None :: unit option) t of
        Inr r \<Rightarrow> r
      | Inl _ \<Rightarrow> (t, no_advance))"

section \<open>Deletes\<close>

fun mark_all :: "seq list \<Rightarrow> topic_index \<Rightarrow> nat \<Rightarrow> nat \<Rightarrow> seq list \<Rightarrow> topic_index \<times> nat \<times> nat \<times> seq list" where
  "mark_all [] ix freed n done_seqs = (ix, freed, n, done_seqs)"
| "mark_all (s # ss) ix freed n done_seqs =
     (case mark_deleted s ix of
        (ix, Some f) \<Rightarrow> mark_all ss ix (sat_add freed f) (n + 1) (done_seqs @ [s])
      | (ix, None) \<Rightarrow> mark_all ss ix freed n done_seqs)"

definition live_range :: "seq \<Rightarrow> seq \<Rightarrow> topic_index \<Rightarrow> seq list" where
  "live_range lo bound ix = filter (is_live ix) [lo..<bound]"

definition apply_delete_stats ::
  "seq option \<Rightarrow> tag_filter option \<Rightarrow> seq option \<Rightarrow> i64 \<Rightarrow> topic_state \<Rightarrow> topic_state \<times> delete_stats" where
  "apply_delete_stats before match_sel bound_head now t =
     (let (t, retention) = enforce_retention now t;
          head = t_head_seq t;
          earliest = earliest_seq t;
          pit = (case bound_head of Some b \<Rightarrow> b | None \<Rightarrow> sat_add head 1);
          bound = (case before of Some b \<Rightarrow> min b pit | None \<Rightarrow> pit);
          ix = t_index t;
          victims = (case match_sel of
                       Some f \<Rightarrow> matching_live_seqs ix f bound
                     | None \<Rightarrow> live_range (max earliest (base_seq ix)) bound ix);
          (ix, freed, n, deleted_seqs) = mark_all victims ix 0 0 [];
          ix = (case (match_sel, before) of
                  (None, Some b) \<Rightarrow> if min b pit > delete_below ix then ix\<lparr>delete_below := min b pit\<rparr> else ix
                | _ \<Rightarrow> ix);
          t = subtract_live_count n (subtract_bytes_retained freed (t\<lparr>t_index := ix\<rparr>));
          t = (if delete_below ix > 0
               then t\<lparr>t_floors := (t_floors t)\<lparr>delete_floor := max (delete_floor (t_floors t)) (delete_below ix - 1)\<rparr>\<rparr>
               else t);
          (t, front_freed) = reclaim_front head t;
          t = flag_sealed_deletes deleted_seqs (reclaim_segments t)
      in (t, \<lparr>ds_deleted = n,
              ds_bytes_freed = sat_add (sat_add (ra_bytes_reclaimed retention) freed) front_freed\<rparr>))"

definition apply_delete ::
  "seq option \<Rightarrow> tag_filter option \<Rightarrow> seq option \<Rightarrow> i64 \<Rightarrow> topic_state \<Rightarrow> topic_state \<times> nat" where
  "apply_delete before match_sel bound_head now t =
     (let (t, st) = apply_delete_stats before match_sel bound_head now t in (t, ds_deleted st))"

definition delete_seqs_stats :: "seq list \<Rightarrow> topic_state \<Rightarrow> topic_state \<times> delete_stats" where
  "delete_seqs_stats seqs t =
     (let head = t_head_seq t;
          (ix, freed, n, deleted_seqs) = mark_all seqs (t_index t) 0 0 [];
          t = subtract_live_count n (subtract_bytes_retained freed (t\<lparr>t_index := ix\<rparr>));
          (t, front_freed) = reclaim_front head t;
          t = flag_sealed_deletes deleted_seqs (reclaim_segments t)
      in (t, \<lparr>ds_deleted = n, ds_bytes_freed = sat_add freed front_freed\<rparr>))"

section \<open>Recovery\<close>

definition apply_ondisk_segment_deletes_on_recovery :: "env \<Rightarrow> topic_state \<Rightarrow> topic_state" where
  "apply_ondisk_segment_deletes_on_recovery env t =
     (case t_segwriter t of
        None \<Rightarrow> t
      | Some w \<Rightarrow>
          let flagged = scan_ondisk_deleted env w in
          if flagged = [] then t
          else let head = t_head_seq t;
                   (ix, freed, n, _) = mark_all flagged (t_index t) 0 0 [];
                   t = subtract_live_count n (subtract_bytes_retained freed (t\<lparr>t_index := ix\<rparr>))
               in fst (reclaim_front head t))"

definition reclaim_segments_on_recovery :: "env \<Rightarrow> topic_state \<Rightarrow> topic_state \<times> nat" where
  "reclaim_segments_on_recovery env t =
     (let t = reclaim_segments (apply_ondisk_segment_deletes_on_recovery env t) in
      case t_segwriter t of
        None \<Rightarrow> (t, 0)
      | Some w \<Rightarrow>
          let (w, n) = reclaim_orphans_below (base_seq (t_index t)) w
          in (t\<lparr>t_segwriter := Some w\<rparr>, n))"

end
