(* ===== verification/Topic_Invariants.thy ===== *)
theory Topic_Invariants
  imports Topic_State
begin

text \<open>
  The invariant of a topic and its preservation by every operation of \<open>Topic_State\<close>, with
  the functional lemmas the properties rest on. The published slots are those up to the
  head; the slots after it are staged and invisible to readers.
\<close>

section \<open>The invariant\<close>

definition published :: "seq \<Rightarrow> topic_index \<Rightarrow> stored_record list" where
  "published head ix = take (Suc head - base_seq ix) (records ix)"

definition staged :: "seq \<Rightarrow> topic_index \<Rightarrow> stored_record list" where
  "staged head ix = drop (Suc head - base_seq ix) (records ix)"

lemma published_staged: "records ix = published head ix @ staged head ix"
  by (simp add: published_def staged_def)

definition wf_topic :: "topic_state \<Rightarrow> bool" where
  "wf_topic t \<longleftrightarrow> wf_index (t_index t) \<and>
     Suc (t_head_seq t) \<le> base_seq (t_index t) + length (records (t_index t)) \<and>
     t_live_count t = live_slots (published (t_head_seq t) (t_index t)) \<and>
     t_bytes_retained t = slot_bytes (published (t_head_seq t) (t_index t)) \<and>
     t_bytes_retained t \<le> u64_max \<and>
     delete_below (t_index t) - 1 \<le> delete_floor (t_floors t)"

lemma wf_topicD:
  assumes "wf_topic t"
  shows "wf_index (t_index t)" "Suc (t_head_seq t) \<le> base_seq (t_index t) + length (records (t_index t))"
    "t_live_count t = live_slots (published (t_head_seq t) (t_index t))"
    "t_bytes_retained t = slot_bytes (published (t_head_seq t) (t_index t))" "t_bytes_retained t \<le> u64_max"
    "delete_below (t_index t) - 1 \<le> delete_floor (t_floors t)"
  using assms by (auto simp: wf_topic_def)

lemma wf_topic_new: "1 \<le> base \<Longrightarrow> wf_topic (topic_new name tid cfg base ep)"
  by (simp add: wf_topic_def topic_new_def published_def) (simp add: index_new_def)

section \<open>Equality up to where payloads live\<close>

text \<open>
  Materialisation moves payloads out of the slots and changes nothing else. Two indexes
  are similar if they differ at most in payload residency.
\<close>

definition erase :: "stored_record \<Rightarrow> stored_record" where
  "erase r = r\<lparr>sr_data := JNull, sr_meta := None, sr_payload_resident := True\<rparr>"

definition index_sim :: "topic_index \<Rightarrow> topic_index \<Rightarrow> bool" where
  "index_sim ix ix' \<longleftrightarrow> base_seq ix = base_seq ix' \<and> map erase (records ix) = map erase (records ix') \<and>
     tag_index ix = tag_index ix' \<and> delete_below ix = delete_below ix'"

lemma index_sim_refl [simp]: "index_sim ix ix"
  by (simp add: index_sim_def)

lemma index_sim_trans: "index_sim a b \<Longrightarrow> index_sim b c \<Longrightarrow> index_sim a c"
  by (simp add: index_sim_def)

lemma erase_eq_fields:
  "erase r = erase r' \<Longrightarrow> sr_tag r = sr_tag r' \<and> sr_bytes r = sr_bytes r' \<and> sr_deleted r = sr_deleted r' \<and>
     sr_ts r = sr_ts r' \<and> sr_node r = sr_node r' \<and> sr_hops r = sr_hops r'"
  by (cases r; cases r') (simp add: erase_def)

lemma map_erase_fields:
  assumes "map erase rs = map erase rs'"
  shows "map sr_tag rs = map sr_tag rs'" "map sr_bytes rs = map sr_bytes rs'" "map sr_deleted rs = map sr_deleted rs'"
    "map sr_ts rs = map sr_ts rs'" "length rs = length rs'"
proof -
  show len: "length rs = length rs'"
    using assms by (metis length_map)
  have "erase (rs ! i) = erase (rs' ! i)" if "i < length rs" for i
    using assms that len by (metis nth_map)
  note same = this[THEN erase_eq_fields]
  show "map sr_tag rs = map sr_tag rs'" "map sr_bytes rs = map sr_bytes rs'" "map sr_deleted rs = map sr_deleted rs'"
    "map sr_ts rs = map sr_ts rs'"
    using len same by (auto intro!: nth_equalityI)
qed

lemma postings_map: "map sr_tag rs = map sr_tag rs' \<Longrightarrow> postings b rs = postings b rs'"
proof
  fix t assume "map sr_tag rs = map sr_tag rs'"
  then show "postings b rs t = postings b rs' t"
    by (induction rs rs' arbitrary: b rule: list_induct2') auto
qed

lemma live_slots_map: "map sr_deleted rs = map sr_deleted rs' \<Longrightarrow> live_slots rs = live_slots rs'"
  by (induction rs rs' rule: list_induct2') auto

lemma wf_index_sim:
  assumes "index_sim ix ix'"
  shows "wf_index ix \<longleftrightarrow> wf_index ix'"
proof -
  have eq: "map erase (records ix) = map erase (records ix')"
    using assms by (simp add: index_sim_def)
  have "list_all slot_ok rs = list_all slot_ok (map erase rs)" for rs
    by (induction rs) (auto simp: slot_ok_def erase_def)
  then have "list_all slot_ok (records ix) = list_all slot_ok (records ix')"
    using eq by metis
  then show ?thesis
    using assms postings_map[OF map_erase_fields(1)[OF eq]] by (simp add: wf_index_def index_sim_def list_all_iff)
qed

lemma published_sim:
  assumes "index_sim ix ix'"
  shows "map erase (published h ix) = map erase (published h ix')"
    and "live_slots (published h ix) = live_slots (published h ix')"
    and "slot_bytes (published h ix) = slot_bytes (published h ix')"
proof -
  show eq: "map erase (published h ix) = map erase (published h ix')"
    using assms by (simp add: index_sim_def published_def take_map[symmetric])
  show "live_slots (published h ix) = live_slots (published h ix')"
    by (rule live_slots_map[OF map_erase_fields(3)[OF eq]])
  show "slot_bytes (published h ix) = slot_bytes (published h ix')"
    by (simp add: slot_bytes_def map_erase_fields(2)[OF eq])
qed

lemma is_live_sim: "index_sim ix ix' \<Longrightarrow> is_live ix s = is_live ix' s"
proof -
  assume "index_sim ix ix'"
  then have b: "base_seq ix = base_seq ix'" and eq: "map erase (records ix) = map erase (records ix')"
    by (simp_all add: index_sim_def)
  note d = map_erase_fields(3)[OF eq] and l = map_erase_fields(5)[OF eq]
  have "sr_deleted (records ix ! i) = sr_deleted (records ix' ! i)" if "i < length (records ix)" for i
    using d l that by (metis nth_map)
  then show ?thesis
    by (auto simp: is_live_def ix_get_def Let_def b l)
qed

definition topic_sim :: "topic_state \<Rightarrow> topic_state \<Rightarrow> bool" where
  "topic_sim t t' \<longleftrightarrow> index_sim (t_index t) (t_index t') \<and> t_head_seq t = t_head_seq t' \<and>
     t_live_count t = t_live_count t' \<and> t_bytes_retained t = t_bytes_retained t' \<and>
     t_floors t = t_floors t' \<and> t_seq_base t = t_seq_base t' \<and> t_config t = t_config t' \<and> t_queue t = t_queue t' \<and>
     t_reserved_head t = t_reserved_head t' \<and> t_name t = t_name t' \<and> t_topic_id t = t_topic_id t' \<and>
     t_last_write_ms t = t_last_write_ms t' \<and> t_dedupe t = t_dedupe t'"

lemma topic_sim_refl [simp]: "topic_sim t t"
  by (simp add: topic_sim_def)

lemma topic_sim_trans: "topic_sim a b \<Longrightarrow> topic_sim b c \<Longrightarrow> topic_sim a c"
  by (auto simp: topic_sim_def intro: index_sim_trans)

lemma wf_topic_sim: "topic_sim t t' \<Longrightarrow> wf_topic t \<longleftrightarrow> wf_topic t'"
proof -
  assume sim: "topic_sim t t'"
  then have ix: "index_sim (t_index t) (t_index t')" by (simp add: topic_sim_def)
  then have "map erase (records (t_index t)) = map erase (records (t_index t'))"
    by (simp add: index_sim_def)
  then have "length (records (t_index t)) = length (records (t_index t'))" "base_seq (t_index t) = base_seq (t_index t')"
    using map_erase_fields(5) ix by (blast, simp add: index_sim_def)
  then show ?thesis
    using sim published_sim(2,3)[OF ix] wf_index_sim[OF ix] by (simp add: wf_topic_def topic_sim_def index_sim_def)
qed

lemma topic_sim_earliest:
  "topic_sim t t' \<Longrightarrow> earliest_seq t = earliest_seq t'" "topic_sim t t' \<Longrightarrow> evict_earliest_seq t = evict_earliest_seq t'"
  by (simp_all add: topic_sim_def earliest_seq_def evict_earliest_seq_def index_sim_def Let_def)

lemma free_payload_sim: "index_sim ix (free_payload s ix)"
proof (cases "slot_idx ix s")
  case (Some i)
  then have i: "i < length (records ix)"
    by (simp add: slot_idx_Some)
  have "map erase (records ix) = map erase ((records ix)[i := (records ix ! i)\<lparr>sr_payload_resident := False, sr_data := JNull, sr_meta := None\<rparr>])"
    using i by (intro nth_equalityI) (auto simp: nth_list_update erase_def)
  then show ?thesis
    using Some by (simp add: free_payload_def index_sim_def Let_def)
qed (simp add: free_payload_def)

lemma fold_free_payload_sim: "index_sim ix (fold free_payload ss ix)"
  by (induction ss arbitrary: ix) (auto intro: index_sim_trans[OF free_payload_sim])

lemma materialize_segment_sim: "topic_sim t (materialize_segment env a b t)"
  by (simp add: materialize_segment_def topic_sim_def fold_free_payload_sim Let_def split: option.splits prod.splits)

lemma materialize_published_sim: "topic_sim t (materialize_published env a b t)"
proof -
  have fold: "topic_sim t (fold (\<lambda>(s, e). materialize_segment env s e) fs t)" for fs t
    by (induction fs arbitrary: t) (auto intro: topic_sim_trans[OF materialize_segment_sim])
  have "topic_sim t (t\<lparr>t_seam := seam\<rparr>)" for seam
    by (simp add: topic_sim_def)
  then show ?thesis
    using fold by (auto simp: materialize_published_def split: prod.splits intro: topic_sim_trans)
qed

lemma resolve_payload_sim: "topic_sim t (fst (resolve_payload env s r t))"
  by (auto simp: resolve_payload_def topic_sim_def split: option.splits sealed_resolve.splits)

lemma reclaim_segments_sim: "topic_sim t (reclaim_segments t)"
  by (simp add: reclaim_segments_def topic_sim_def Let_def split: option.splits)

lemma flag_sealed_deletes_sim: "topic_sim t (flag_sealed_deletes ss t)"
  by (simp add: flag_sealed_deletes_def topic_sim_def split: option.splits)

section \<open>Staging and rolling back\<close>

lemma stage_loop_push:
  "s = base_seq ix + length (records ix) \<Longrightarrow>
     fst (stage_loop s rs n ix) = fold push_back rs ix"
proof (induction s rs n ix rule: stage_loop.induct)
  case (2 s r rs n ix)
  define ix' where "ix' = (case sr_tag r of Some tag \<Rightarrow> index_tag s tag ix | None \<Rightarrow> ix)"
  have push: "push_back r ix = ix'\<lparr>records := records ix' @ [r]\<rparr>"
    unfolding ix'_def 2(2) by (simp add: push_back_def Let_def)
  have "base_seq (push_back r ix) = base_seq ix" "records (push_back r ix) = records ix @ [r]"
    by simp_all
  then have "fst (stage_loop (s + 1) rs (sat_add n (sr_bytes r)) (push_back r ix)) = fold push_back rs (push_back r ix)"
    using 2 push by (auto simp: Let_def ix'_def)
  then show ?case
    by (simp add: Let_def ix'_def[symmetric] push)
qed simp

lemma fold_push_back_fields [simp]:
  "base_seq (fold push_back rs ix) = base_seq ix" "records (fold push_back rs ix) = records ix @ rs"
  "delete_below (fold push_back rs ix) = delete_below ix"
  by (induction rs arbitrary: ix) auto

lemma fold_push_back_wf: "wf_index ix \<Longrightarrow> \<forall>r\<in>set rs. slot_ok r \<Longrightarrow> wf_index (fold push_back rs ix)"
  by (induction rs arbitrary: ix) (auto intro: push_back_wf)

lemma stage_loop_bytes:
  "n + slot_bytes rs \<le> u64_max \<Longrightarrow> snd (stage_loop s rs n ix) = n + slot_bytes rs"
proof (induction s rs n ix rule: stage_loop.induct)
  case (2 s r rs n ix)
  then show ?case by (simp add: Let_def sat_add_def add.assoc)
qed simp

lemma stage_append_index: "t_index (fst (stage_append rs t)) = fold push_back rs (t_index t)"
  using stage_loop_push[of "base_seq (t_index t) + length (records (t_index t))" "t_index t" rs 0]
  by (auto simp: stage_append_def Let_def split: prod.splits)

lemma stage_append_frame:
  "t_head_seq (fst (stage_append rs t)) = t_head_seq t" "t_floors (fst (stage_append rs t)) = t_floors t"
  "t_live_count (fst (stage_append rs t)) = t_live_count t" "t_bytes_retained (fst (stage_append rs t)) = t_bytes_retained t"
  "t_seq_base (fst (stage_append rs t)) = t_seq_base t" "t_config (fst (stage_append rs t)) = t_config t"
  "t_queue (fst (stage_append rs t)) = t_queue t"
  by (simp_all add: stage_append_def Let_def split: prod.splits)

lemma stage_append_result:
  assumes "rs \<noteq> []" "slot_bytes rs \<le> u64_max"
  shows "snd (stage_append rs t) = \<lparr>sa_start = base_seq (t_index t) + length (records (t_index t)),
    sa_count = length rs, sa_added_bytes = slot_bytes rs, sa_pre_len = length (records (t_index t))\<rparr>"
  using assms stage_loop_bytes[of 0 rs "base_seq (t_index t) + length (records (t_index t))" "t_index t"]
  by (auto simp: stage_append_def Let_def split: prod.splits)

lemma published_append:
  "Suc h \<le> base_seq ix + length (records ix) \<Longrightarrow> published h (fold push_back rs ix) = published h ix"
  by (simp add: published_def)

lemma stage_append_wf [inv_intro]:
  assumes "wf_topic t" "\<forall>r\<in>set rs. slot_ok r"
  shows "wf_topic (fst (stage_append rs t))"
  using assms by (auto simp: wf_topic_def stage_append_index stage_append_frame published_append fold_push_back_wf)

lemma rollback_loop_spec:
  assumes "wf_index ix" "n \<le> length (records ix)"
  shows "wf_index (rollback_loop n ix) \<and> records (rollback_loop n ix) = take n (records ix) \<and>
    base_seq (rollback_loop n ix) = base_seq ix \<and> delete_below (rollback_loop n ix) = delete_below ix"
  using assms
proof (induction n ix rule: rollback_loop.induct)
  case (1 n ix)
  show ?case
  proof (cases "length (records ix) > n")
    case True
    then have step: "rollback_loop n ix = rollback_loop n (pop_back ix)"
      by (subst rollback_loop.simps) simp
    have "wf_index (pop_back ix)" "n \<le> length (records (pop_back ix))"
      using 1(2) True by (auto intro: pop_back_wf)
    then show ?thesis
      using 1(1)[OF True] True by (simp add: step butlast_conv_take)
  next
    case False
    then show ?thesis
      using 1(2,3) by (subst (1 2 3 4) rollback_loop.simps) simp
  qed
qed

text \<open>Rolling back right after staging restores the index exactly, tag index included.\<close>

lemma rollback_stage_identity:
  assumes "wf_topic t" "\<forall>r\<in>set rs. slot_ok r"
  shows "rollback_staged (snd (stage_append rs t)) (fst (stage_append rs t)) = t"
proof (cases "rs = []")
  case True
  then show ?thesis
    by (simp add: stage_append_def rollback_staged_def empty_stage_def)
next
  case False
  let ?ix = "fold push_back rs (t_index t)"
  have wf: "wf_index (t_index t)"
    using assms(1) by (rule wf_topicD)
  have "wf_index ?ix"
    using wf assms(2) by (rule fold_push_back_wf)
  then have rb: "wf_index (rollback_loop (length (records (t_index t))) ?ix)"
      "records (rollback_loop (length (records (t_index t))) ?ix) = records (t_index t)"
      "base_seq (rollback_loop (length (records (t_index t))) ?ix) = base_seq (t_index t)"
      "delete_below (rollback_loop (length (records (t_index t))) ?ix) = delete_below (t_index t)"
    using rollback_loop_spec[of ?ix "length (records (t_index t))"] by simp_all
  then have "rollback_loop (length (records (t_index t))) ?ix = t_index t"
    using wf by (intro wf_index_unique)
  moreover have "sa_count (snd (stage_append rs t)) = length rs"
      "sa_pre_len (snd (stage_append rs t)) = length (records (t_index t))"
    using False by (simp_all add: stage_append_def Let_def split: prod.splits)
  moreover have "fst (stage_append rs t) = t\<lparr>t_index := ?ix\<rparr>"
    using stage_append_index[of rs t] False by (auto simp: stage_append_def Let_def split: prod.splits)
  ultimately show ?thesis
    using False by (simp add: rollback_staged_def)
qed

section \<open>Marking sets of slots deleted\<close>

lemma fold_mark_wf: "wf_index ix \<Longrightarrow> wf_index (fold (\<lambda>s ix. fst (mark_deleted s ix)) ss ix)"
  by (induction ss arbitrary: ix) (auto intro: mark_deleted_wf)

definition kill :: "seq set \<Rightarrow> seq \<Rightarrow> stored_record list \<Rightarrow> stored_record list" where
  "kill S b rs = map (\<lambda>(s, r). if s \<in> S \<and> \<not> sr_deleted r then dead_slot r else r) (zip [b..<b + length rs] rs)"

lemma length_kill [simp]: "length (kill S b rs) = length rs"
  by (simp add: kill_def)

lemma nth_kill:
  "i < length rs \<Longrightarrow> kill S b rs ! i = (if b + i \<in> S \<and> \<not> sr_deleted (rs ! i) then dead_slot (rs ! i) else rs ! i)"
  by (simp add: kill_def)

lemma kill_empty [simp]: "kill {} b rs = rs"
  by (rule nth_equalityI) (simp_all add: nth_kill)

lemma kill_insert: "kill S b (kill {s} b rs) = kill (insert s S) b rs"
  by (rule nth_equalityI) (auto simp: nth_kill)

lemma kill_outside: "\<forall>i<length rs. b + i \<notin> S \<Longrightarrow> kill S b rs = rs"
  by (rule nth_equalityI) (auto simp: nth_kill)

lemma kill_take: "take n (kill S b rs) = kill S b (take n rs)"
  by (rule nth_equalityI) (auto simp: nth_kill)

lemma kill_drop: "drop n (kill S b rs) = kill S (b + n) (drop n rs)"
  by (rule nth_equalityI) (auto simp: nth_kill add.assoc)

lemma mark_deleted_kill: "records (fst (mark_deleted s ix)) = kill {s} (base_seq ix) (records ix)"
proof (cases "is_live ix s")
  case True
  then obtain r where r: "ix_get ix s = Some r" "\<not> sr_deleted r"
    by (auto simp: is_live_def split: option.splits)
  then show ?thesis
    using mark_deleted_live(2)[OF r] by (auto simp: nth_kill ix_get_Some nth_list_update intro!: nth_equalityI)
next
  case False
  then have dead: "\<And>r. ix_get ix s = Some r \<Longrightarrow> sr_deleted r"
    by (auto simp: is_live_def)
  have "kill {s} (base_seq ix) (records ix) = records ix"
    using dead by (intro nth_equalityI) (auto simp: nth_kill ix_get_Some)
  then show ?thesis
    using mark_deleted_dead[OF dead] by simp
qed

lemma fold_mark_fields:
  "base_seq (fold (\<lambda>s ix. fst (mark_deleted s ix)) ss ix) = base_seq ix"
  "delete_below (fold (\<lambda>s ix. fst (mark_deleted s ix)) ss ix) = delete_below ix"
  "records (fold (\<lambda>s ix. fst (mark_deleted s ix)) ss ix) = kill (set ss) (base_seq ix) (records ix)"
  by (induction ss arbitrary: ix) (auto simp: mark_deleted_kill kill_insert)

text \<open>Live slots in a set are lost exactly once, with their bytes.\<close>

lemma kill_counts:
  "live_slots rs = live_slots (kill S b rs) + length (filter (\<lambda>i. b + i \<in> S \<and> \<not> sr_deleted (rs ! i)) [0..<length rs])"
proof (induction rs rule: rev_induct)
  case (snoc r rs)
  have "kill S b (rs @ [r]) = kill S b rs @ [if b + length rs \<in> S \<and> \<not> sr_deleted r then dead_slot r else r]"
    by (simp add: kill_def)
  moreover have "filter (\<lambda>i. b + i \<in> S \<and> \<not> sr_deleted ((rs @ [r]) ! i)) [0..<length rs] =
      filter (\<lambda>i. b + i \<in> S \<and> \<not> sr_deleted (rs ! i)) [0..<length rs]"
    by (rule filter_cong) (auto simp: nth_append)
  ultimately show ?case
    using snoc by auto
qed (simp add: kill_def)

lemma rollback_staged_by_seqs_wf [inv_intro]:
  assumes "wf_topic t" "t_head_seq t < sa_start sa"
  shows "wf_topic (rollback_staged_by_seqs sa t)"
    and "published (t_head_seq t) (t_index (rollback_staged_by_seqs sa t)) = published (t_head_seq t) (t_index t)"
proof -
  let ?ss = "map (\<lambda>i. sa_start sa + i) [0..<sa_count sa]"
  have fold: "fold (\<lambda>i ix. fst (mark_deleted (sa_start sa + i) ix)) [0..<sa_count sa] ix =
      fold (\<lambda>s ix. fst (mark_deleted s ix)) ?ss ix" for ix
    by (simp add: fold_map comp_def)
  let ?ix = "fold (\<lambda>s ix. fst (mark_deleted s ix)) ?ss (t_index t)"
  have pub: "published (t_head_seq t) ?ix = published (t_head_seq t) (t_index t)"
    unfolding published_def fold_mark_fields kill_take using assms(2) by (intro kill_outside) auto
  show "published (t_head_seq t) (t_index (rollback_staged_by_seqs sa t)) = published (t_head_seq t) (t_index t)"
    using pub by (simp add: rollback_staged_by_seqs_def fold)
  show "wf_topic (rollback_staged_by_seqs sa t)"
    using assms(1) pub fold_mark_wf[of "t_index t" ?ss] fold_mark_fields[of ?ss "t_index t"]
    by (simp add: rollback_staged_by_seqs_def fold wf_topic_def)
qed

section \<open>Publishing\<close>

text \<open>
  A staged batch is ready to publish when it still sits after the head, its slots are live,
  and everything between the head and it is a hole left by a rolled-back batch.
\<close>

definition staged_ok :: "staged_append \<Rightarrow> seq \<Rightarrow> topic_index \<Rightarrow> bool" where
  "staged_ok sa h ix \<longleftrightarrow> h < sa_start sa \<and> base_seq ix \<le> sa_start sa \<and>
     sa_start sa + sa_count sa \<le> base_seq ix + length (records ix) \<and>
     list_all (\<lambda>r. \<not> sr_deleted r) (take (sa_count sa) (drop (sa_start sa - base_seq ix) (records ix))) \<and>
     slot_bytes (take (sa_count sa) (drop (sa_start sa - base_seq ix) (records ix))) = sa_added_bytes sa"

definition gap_dead :: "seq \<Rightarrow> seq \<Rightarrow> topic_index \<Rightarrow> bool" where
  "gap_dead h start ix \<longleftrightarrow> list_all sr_deleted
     (take (start - base_seq ix - (Suc h - base_seq ix)) (drop (Suc h - base_seq ix) (records ix)))"

lemma live_slots_all_dead: "list_all sr_deleted rs \<Longrightarrow> live_slots rs = 0"
  by (induction rs) auto

lemma live_slots_all_live: "list_all (\<lambda>r. \<not> sr_deleted r) rs \<Longrightarrow> live_slots rs = length rs"
  by (induction rs) auto

lemma slot_bytes_all_dead: "list_all sr_deleted rs \<Longrightarrow> \<forall>r\<in>set rs. slot_ok r \<Longrightarrow> slot_bytes rs = 0"
  by (induction rs) (auto simp: slot_ok_def)

lemma published_upto:
  assumes "h < start" "base_seq ix \<le> start"
  shows "take (start + n - base_seq ix) (records ix) = published h ix @
    take (start - base_seq ix - (Suc h - base_seq ix)) (drop (Suc h - base_seq ix) (records ix)) @
    take n (drop (start - base_seq ix) (records ix))"
proof -
  have le: "Suc h - base_seq ix \<le> start - base_seq ix"
    using assms(1) by simp
  have "start + n - base_seq ix = (start - base_seq ix) + n"
    using assms(2) by simp
  then have "take (start + n - base_seq ix) (records ix) = take (start - base_seq ix) (records ix) @
      take n (drop (start - base_seq ix) (records ix))"
    by (simp add: take_add)
  moreover have "take (start - base_seq ix) (records ix) = published h ix @
      take (start - base_seq ix - (Suc h - base_seq ix)) (drop (Suc h - base_seq ix) (records ix))"
    unfolding published_def take_add[symmetric] le_add_diff_inverse[OF le] ..
  ultimately show ?thesis by simp
qed

lemma set_take_drop: "x \<in> set (take n (drop m xs)) \<Longrightarrow> x \<in> set xs"
  by (metis in_set_dropD in_set_takeD)

lemma publish_staged_no_seal_wf [inv_intro]:
  assumes wf: "wf_topic t" and ok: "staged_ok sa (t_head_seq t) (t_index t)"
    and gap: "gap_dead (t_head_seq t) (sa_start sa) (t_index t)"
    and room: "t_bytes_retained t + sa_added_bytes sa \<le> u64_max"
  shows "wf_topic (fst (publish_staged_no_seal sa now t))"
proof (cases "sa_count sa = 0")
  case False
  let ?ix = "t_index t" and ?h = "t_head_seq t" and ?n = "sa_count sa"
  note st = ok[unfolded staged_ok_def]
  have suc: "Suc (sa_start sa + ?n - 1) = sa_start sa + ?n"
    using False by simp
  have pub: "published (sa_start sa + ?n - 1) ?ix = published ?h ?ix @
    take (sa_start sa - base_seq ?ix - (Suc ?h - base_seq ?ix)) (drop (Suc ?h - base_seq ?ix) (records ?ix)) @
    take ?n (drop (sa_start sa - base_seq ?ix) (records ?ix))" (is "_ = _ @ ?gap @ ?new")
    using st by (subst published_def, subst suc, intro published_upto) auto
  have dead: "list_all sr_deleted ?gap"
    using gap by (simp add: gap_dead_def)
  have okslots: "\<forall>r\<in>set ?gap. slot_ok r"
    using wf_topicD(1)[OF wf] by (auto simp: wf_index_def dest: set_take_drop)
  have "length ?new = ?n"
    using st by auto
  then have "live_slots ?new = ?n"
    using st live_slots_all_live by metis
  then show ?thesis
    using wf st room live_slots_all_dead[OF dead] slot_bytes_all_dead[OF dead okslots] False
    by (simp add: publish_staged_no_seal_def publish_head_seq_def Let_def wf_topic_def pub[unfolded One_nat_def])
qed (use assms in \<open>simp add: publish_staged_no_seal_def\<close>)

lemma publish_staged_sim:
  "topic_sim (fst (publish_staged_no_seal sa now t)) (publish_staged env sa now t)"
  by (auto simp: publish_staged_def materialize_published_sim split: prod.splits option.splits)

lemma publish_staged_wf [inv_intro]:
  assumes "wf_topic t" "staged_ok sa (t_head_seq t) (t_index t)" "gap_dead (t_head_seq t) (sa_start sa) (t_index t)"
    "t_bytes_retained t + sa_added_bytes sa \<le> u64_max"
  shows "wf_topic (publish_staged env sa now t)"
  using publish_staged_no_seal_wf[OF assms] wf_topic_sim[OF publish_staged_sim] by blast

lemma stage_append_ok:
  assumes "wf_topic t" "rs \<noteq> []" "\<forall>r\<in>set rs. \<not> sr_deleted r" "slot_bytes rs \<le> u64_max"
  shows "staged_ok (snd (stage_append rs t)) (t_head_seq t) (t_index (fst (stage_append rs t)))"
  using wf_topicD(2)[OF assms(1)] assms(3)
  by (simp add: stage_append_result[OF assms(2,4)] staged_ok_def stage_append_index list_all_iff)

text \<open>With nothing else in flight the tail is right after the head.\<close>

definition quiet :: "topic_state \<Rightarrow> bool" where
  "quiet t \<longleftrightarrow> Suc (t_head_seq t) = base_seq (t_index t) + length (records (t_index t))"

lemma append_records_spec:
  assumes wf: "wf_topic t" and quiet: "quiet t" and ne: "rs \<noteq> []"
    and live: "\<forall>r\<in>set rs. \<not> sr_deleted r"
    and room: "t_bytes_retained t + slot_bytes rs \<le> u64_max"
    and out_def: "out = append_records env rs now t"
  shows "snd out = [Suc (t_head_seq t)..<Suc (t_head_seq t) + length rs]"
    and "wf_topic (fst out)" and "quiet (fst out)"
    and "t_head_seq (fst out) = t_head_seq t + length rs"
    and "map erase (records (t_index (fst out))) = map erase (records (t_index t) @ rs)"
    and "base_seq (t_index (fst out)) = base_seq (t_index t)"
    and "t_floors (fst out) = t_floors t"
proof -
  let ?t = "fst (stage_append rs t)" and ?sa = "snd (stage_append rs t)"
  let ?p = "fst (publish_staged_no_seal ?sa now ?t)"
  have sa: "?sa = \<lparr>sa_start = Suc (t_head_seq t), sa_count = length rs, sa_added_bytes = slot_bytes rs,
      sa_pre_len = length (records (t_index t))\<rparr>"
    using stage_append_result[OF ne, of t] room quiet by (simp add: quiet_def)
  have out: "out = (publish_staged env ?sa now ?t, staged_seqs ?sa)"
    using ne by (simp add: out_def append_records_def split_beta sa)
  have "slot_ok r" if "r \<in> set rs" for r
    using live that by (simp add: slot_ok_def)
  then have "wf_topic ?t"
    using wf by (intro stage_append_wf) auto
  moreover have "staged_ok ?sa (t_head_seq ?t) (t_index ?t)"
    using stage_append_ok[OF wf ne live] room by (simp add: stage_append_frame)
  moreover have "gap_dead (t_head_seq ?t) (sa_start ?sa) (t_index ?t)"
    by (simp add: gap_dead_def sa stage_append_frame)
  ultimately show "wf_topic (fst out)"
    using room unfolding out fst_conv by (intro publish_staged_wf) (simp_all add: stage_append_frame sa)
  have sim: "topic_sim ?p (fst out)"
    using publish_staged_sim by (simp add: out)
  have p: "t_head_seq ?p = t_head_seq t + length rs" "t_index ?p = fold push_back rs (t_index t)" "t_floors ?p = t_floors t"
    using ne by (simp_all add: publish_staged_no_seal_def Let_def publish_head_seq_def sa stage_append_index stage_append_frame)
  show head: "t_head_seq (fst out) = t_head_seq t + length rs" and "t_floors (fst out) = t_floors t"
      and base: "base_seq (t_index (fst out)) = base_seq (t_index t)"
    using sim p by (simp_all add: topic_sim_def index_sim_def)
  show recs: "map erase (records (t_index (fst out))) = map erase (records (t_index t) @ rs)"
    using sim p by (simp add: topic_sim_def index_sim_def)
  then have "length (records (t_index (fst out))) = length (records (t_index t)) + length rs"
    using map_erase_fields(5)[OF recs] by simp
  then show "quiet (fst out)"
    using quiet head base by (simp add: quiet_def)
  show "snd out = [Suc (t_head_seq t)..<Suc (t_head_seq t) + length rs]"
    by (simp add: out staged_seqs_def sa)
qed

section \<open>Reclaiming the front\<close>

lemma fold_sat_bytes: "n + slot_bytes rs \<le> u64_max \<Longrightarrow> fold (\<lambda>r acc. sat_add acc (sr_bytes r)) rs n = n + slot_bytes rs"
  by (induction rs arbitrary: n) (auto simp: sat_add_def add.assoc)

lemma front_drop_le: "front_drop e ix \<le> length (records ix)"
  using length_takeWhile_le[of sr_deleted "drop (min (e - base_seq ix) (length (records ix))) (records ix)"]
    length_takeWhile_le[of sr_deleted "records ix"]
  by (auto simp: front_drop_def Let_def)

lemma front_drop_ge: "min (e - base_seq ix) (length (records ix)) \<le> front_drop e ix"
  by (auto simp: front_drop_def Let_def)

lemma front_drop_dead:
  assumes "e - base_seq ix \<le> k" "k \<le> length (records ix)"
  shows "list_all sr_deleted (take (front_drop e ix - k) (drop k (records ix)))"
proof -
  define n where "n = min (e - base_seq ix) (length (records ix))"
  define w where "w = takeWhile sr_deleted (drop n (records ix))"
  have fd: "front_drop e ix = n + length w"
    by (auto simp: front_drop_def n_def w_def Let_def)
  have n: "n \<le> k"
    using assms by (simp add: n_def)
  have w: "w = take (length w) (drop n (records ix))"
    unfolding w_def by (rule takeWhile_eq_take)
  have "take (front_drop e ix - k) (drop k (records ix)) = drop (k - n) w"
    by (subst w) (use n in \<open>simp add: drop_take fd add.commute\<close>)
  moreover have "list_all sr_deleted w"
    unfolding w_def list_all_iff by (auto dest: set_takeWhileD)
  ultimately show ?thesis
    by (auto simp: list_all_iff dest: in_set_dropD)
qed

lemma front_drop_live_next:
  "front_drop e ix < length (records ix) \<Longrightarrow> \<not> sr_deleted (records ix ! front_drop e ix)"
proof -
  define n where "n = min (e - base_seq ix) (length (records ix))"
  define m where "m = length (takeWhile sr_deleted (drop n (records ix)))"
  assume lt: "front_drop e ix < length (records ix)"
  have fd: "front_drop e ix = n + m"
    by (auto simp: front_drop_def n_def m_def Let_def)
  then have "m < length (drop n (records ix))"
    using lt by simp
  then have "\<not> sr_deleted (drop n (records ix) ! m)"
    unfolding m_def by (rule nth_length_takeWhile)
  then show ?thesis
    using lt fd by simp
qed

lemma drain_front_0 [simp]: "drain_front 0 ix = (ix, 0)"
  by (simp add: drain_front_def)

lemma reclaim_front_wf [inv_intro]:
  assumes wf: "wf_topic t"
  shows "wf_topic (fst (reclaim_front (t_head_seq t) t))"
    and "snd (reclaim_front (t_head_seq t) t) + t_bytes_retained (fst (reclaim_front (t_head_seq t) t)) = t_bytes_retained t"
proof -
  let ?h = "t_head_seq t" and ?ix = "t_index t"
  define e where "e = floors_earliest_seq (t_floors t) (t_seq_base t) ?h"
  define n where "n = front_drop e ?ix"
  define k where "k = Suc ?h - base_seq ?ix"
  have e: "e \<le> Suc ?h"
    using floors_earliest_seq_bounds(1)[of "t_floors t" "t_seq_base t" ?h]
    by (simp add: e_def sat_add_def split: if_splits)
  have k: "k \<le> length (records ?ix)"
    using wf_topicD(2)[OF wf] by (simp add: k_def)
  have n: "n \<le> length (records ?ix)"
    by (simp add: n_def front_drop_le)
  have dead: "list_all sr_deleted (take (n - k) (drop k (records ?ix)))"
    unfolding n_def using e k by (intro front_drop_dead) (simp_all add: k_def)
  have okslots: "\<forall>r\<in>set (take (n - k) (drop k (records ?ix))). slot_ok r"
    using wf_topicD(1)[OF wf] by (auto simp: wf_index_def dest: set_take_drop)
  have split: "take n (records ?ix) @ take (k - n) (drop n (records ?ix)) =
      take k (records ?ix) @ take (n - k) (drop k (records ?ix))"
    unfolding take_add[symmetric] by (cases "n \<le> k") auto
  have live: "live_slots (take n (records ?ix)) + live_slots (take (k - n) (drop n (records ?ix))) = t_live_count t"
    using arg_cong[OF split, of live_slots] live_slots_all_dead[OF dead] wf_topicD(3)[OF wf]
    by (simp add: published_def k_def)
  have bytes: "slot_bytes (take n (records ?ix)) + slot_bytes (take (k - n) (drop n (records ?ix))) = t_bytes_retained t"
    using arg_cong[OF split, of slot_bytes] slot_bytes_all_dead[OF dead okslots] wf_topicD(4)[OF wf]
    by (simp add: published_def k_def)
  have freed: "fold (\<lambda>r acc. sat_add acc (sr_bytes r)) (take n (records ?ix)) 0 = slot_bytes (take n (records ?ix))"
    using bytes wf_topicD(5)[OF wf] by (subst fold_sat_bytes) auto
  let ?t' = "fst (reclaim_front ?h t)"
  have fields: "t_index ?t' = fst (drain_front n ?ix)" "t_head_seq ?t' = ?h" "t_floors ?t' = t_floors t"
      "t_live_count ?t' = t_live_count t - live_slots (take n (records ?ix))"
      "t_bytes_retained ?t' = t_bytes_retained t - slot_bytes (take n (records ?ix))"
      "snd (reclaim_front ?h t) = slot_bytes (take n (records ?ix))"
    by (simp_all add: reclaim_front_def Let_def e_def[symmetric] n_def[symmetric] freed subtract_live_count_def
        subtract_bytes_retained_def split_beta)
  show "snd (reclaim_front ?h t) + t_bytes_retained ?t' = t_bytes_retained t"
    using fields bytes by simp
  have "published ?h (t_index ?t') = take (k - n) (drop n (records ?ix))"
    using n by (simp add: fields published_def k_def diff_diff_add)
  moreover have "Suc ?h \<le> base_seq (t_index ?t') + length (records (t_index ?t'))"
    using wf_topicD(2)[OF wf] n by (simp add: fields)
  ultimately show "wf_topic ?t'"
    using wf_topicD(5,6)[OF wf] drain_front_wf[OF wf_topicD(1)[OF wf], of n]
    by (simp add: wf_topic_def fields live[symmetric] bytes[symmetric])
qed

section \<open>The abstract view: the readable log\<close>

text \<open>
  What a reader can be given: the live slots from the earliest readable sequence to the head,
  in order, up to where their payloads live.
\<close>

definition visible :: "topic_state \<Rightarrow> seq \<Rightarrow> bool" where
  "visible t s \<longleftrightarrow> earliest_seq t \<le> s \<and> s \<le> t_head_seq t \<and> is_live (t_index t) s"

definition slot_at :: "topic_state \<Rightarrow> seq \<Rightarrow> stored_record" where
  "slot_at t s = erase (records (t_index t) ! (s - base_seq (t_index t)))"

definition view :: "topic_state \<Rightarrow> (seq \<times> stored_record) list" where
  "view t = map (\<lambda>s. (s, slot_at t s)) (filter (visible t) [0..<Suc (t_head_seq t)])"

lemma view_filter:
  assumes "t_head_seq t' = t_head_seq t"
    and "\<And>s. visible t' s \<longleftrightarrow> visible t s \<and> P (s, slot_at t s)"
    and "\<And>s. visible t' s \<Longrightarrow> slot_at t' s = slot_at t s"
  shows "view t' = filter P (view t)"
proof -
  have "filter P (view t) = map (\<lambda>s. (s, slot_at t s)) (filter (\<lambda>s. visible t s \<and> P (s, slot_at t s)) [0..<Suc (t_head_seq t)])"
    by (simp add: view_def filter_map comp_def filter_filter conj_commute del: upt_Suc)
  also have "\<dots> = map (\<lambda>s. (s, slot_at t s)) (filter (visible t') [0..<Suc (t_head_seq t)])"
    using assms(2) by (intro arg_cong[where f="map _"] filter_cong) auto
  also have "\<dots> = view t'"
    unfolding view_def assms(1) using assms(3) by (intro map_cong) (auto simp del: upt_Suc)
  finally show ?thesis ..
qed

lemma view_same:
  assumes "t_head_seq t' = t_head_seq t" "\<And>s. visible t' s \<longleftrightarrow> visible t s" "\<And>s. visible t' s \<Longrightarrow> slot_at t' s = slot_at t s"
  shows "view t' = view t"
  using view_filter[of t' t "\<lambda>_. True"] assms by simp

lemma is_live_iff:
  "is_live ix s \<longleftrightarrow> base_seq ix \<le> s \<and> s - base_seq ix < length (records ix) \<and> \<not> sr_deleted (records ix ! (s - base_seq ix))"
  by (auto simp: is_live_def ix_get_def Let_def)

lemma view_sim: "topic_sim t t' \<Longrightarrow> view t' = view t"
proof (rule view_same)
  assume sim: "topic_sim t t'"
  then have ix: "index_sim (t_index t) (t_index t')" by (simp add: topic_sim_def)
  show "t_head_seq t' = t_head_seq t"
    using sim by (simp add: topic_sim_def)
  show "visible t' s \<longleftrightarrow> visible t s" for s
    using topic_sim_earliest(1)[OF sim] is_live_sim[OF ix] sim by (simp add: visible_def topic_sim_def)
  have eq: "map erase (records (t_index t)) = map erase (records (t_index t'))" "base_seq (t_index t) = base_seq (t_index t')"
    using ix by (simp_all add: index_sim_def)
  note len = map_erase_fields(5)[OF eq(1)]
  show "slot_at t' s = slot_at t s" if "visible t' s" for s
  proof -
    have "s - base_seq (t_index t) < length (records (t_index t))"
      using that eq(2) len by (simp add: visible_def is_live_iff)
    then show ?thesis
      using eq len by (simp add: slot_at_def) (metis nth_map)
  qed
qed

definition floor_earliest :: "topic_state \<Rightarrow> seq" where
  "floor_earliest t = floors_earliest_seq (t_floors t) (t_seq_base t) (t_head_seq t)"

lemma visible_floor:
  assumes "t_head_seq t < u64_max"
  shows "visible t s \<longleftrightarrow> floor_earliest t \<le> s \<and> s \<le> t_head_seq t \<and> is_live (t_index t) s"
  using assms by (auto simp: visible_def earliest_seq_def floor_earliest_def Let_def is_live_iff sat_add_def)

lemma reclaim_front_fields:
  assumes "t' = fst (reclaim_front (t_head_seq t) t)" "n = front_drop (floor_earliest t) (t_index t)"
  shows "t_index t' = fst (drain_front n (t_index t))" "t_head_seq t' = t_head_seq t" "t_floors t' = t_floors t"
    "t_seq_base t' = t_seq_base t" "t_config t' = t_config t" "t_queue t' = t_queue t" "floor_earliest t' = floor_earliest t"
  by (simp_all add: assms floor_earliest_def reclaim_front_def Let_def subtract_live_count_def
        subtract_bytes_retained_def split_beta)

lemma reclaim_front_base:
  assumes "wf_topic t" and t': "t' = fst (reclaim_front (t_head_seq t) t)"
  shows "floor_earliest t \<le> base_seq (t_index t')"
proof -
  have "floor_earliest t \<le> Suc (t_head_seq t)"
    using floors_earliest_seq_bounds(1)[of "t_floors t" "t_seq_base t" "t_head_seq t"]
    by (simp add: floor_earliest_def sat_add_def split: if_splits)
  then show ?thesis
    using front_drop_ge[of "floor_earliest t" "t_index t"] wf_topicD(2)[OF assms(1)]
    by (simp add: reclaim_front_fields[OF t' refl])
qed

lemma front_drop_not_live:
  assumes "e \<le> s" "s < base_seq ix + front_drop e ix"
  shows "\<not> is_live ix s"
proof
  assume live: "is_live ix s"
  then have b: "base_seq ix \<le> s" and len: "s - base_seq ix < length (records ix)"
    by (auto simp: is_live_iff)
  have "list_all sr_deleted (take (front_drop e ix - (s - base_seq ix)) (drop (s - base_seq ix) (records ix)))"
    using assms len by (intro front_drop_dead) auto
  moreover have "0 < front_drop e ix - (s - base_seq ix)"
    using assms b by auto
  ultimately have "sr_deleted (records ix ! (s - base_seq ix))"
    using len by (cases "front_drop e ix - (s - base_seq ix)") (auto simp: Cons_nth_drop_Suc[symmetric])
  then show False
    using live by (simp add: is_live_iff)
qed

lemma reclaim_front_view:
  assumes "t_head_seq t < u64_max" and t': "t' = fst (reclaim_front (t_head_seq t) t)"
  shows "view t' = view t"
proof (rule view_same)
  define n where "n = front_drop (floor_earliest t) (t_index t)"
  note f = reclaim_front_fields[OF t' n_def]
  let ?rs = "records (t_index t)" and ?b = "base_seq (t_index t)"
  have n: "n \<le> length ?rs"
    by (simp add: n_def front_drop_le)
  show "t_head_seq t' = t_head_seq t" by (rule f)
  have live: "is_live (t_index t') s \<longleftrightarrow> ?b + n \<le> s \<and> is_live (t_index t) s" for s
    using n by (auto simp: is_live_iff f)
  have dead: "\<not> is_live (t_index t) s" if "floor_earliest t \<le> s" "s < ?b + n" for s
    using front_drop_not_live that by (simp add: n_def)
  show "visible t' s \<longleftrightarrow> visible t s" for s
    using assms(1) f(2,7) dead[of s] live[of s] by (auto simp: visible_floor not_le)
  show "slot_at t' s = slot_at t s" if "visible t' s" for s
    using that n live[of s] by (auto simp: visible_def slot_at_def f nth_drop)
qed

section \<open>Retention\<close>

definition bytes_above :: "seq \<Rightarrow> seq \<Rightarrow> stored_record list \<Rightarrow> nat" where
  "bytes_above x s rs = slot_bytes (drop (Suc x - s) rs)"

lemma bytes_scan_ge: "ev \<le> bytes_scan f s rs over ev \<or> s \<le> bytes_scan f s rs over ev"
proof (induction f s rs over ev rule: bytes_scan.induct)
  case (2 f s r rs over ev)
  then show ?case
    by (auto simp: Let_def split: if_splits)
qed simp

lemma bytes_scan_tail:
  assumes "f < s" "0 < over" "ev < s"
  shows "bytes_above (max f (bytes_scan f s rs over ev)) s rs \<le> slot_bytes rs - over"
  using assms
proof (induction rs arbitrary: s over ev)
  case (Cons r rs)
  show ?case
  proof (cases "over \<le> sr_bytes r")
    case True
    then show ?thesis
      using Cons(2-4) by (simp add: bytes_above_def Let_def)
  next
    case False
    let ?res = "bytes_scan f (Suc s) rs (over - sr_bytes r) s"
    have "bytes_above (max f ?res) (Suc s) rs \<le> slot_bytes rs - (over - sr_bytes r)"
      using Cons(2-4) False by (intro Cons(1)) auto
    moreover have "s \<le> ?res"
      using bytes_scan_ge[of s f "Suc s" rs "over - sr_bytes r"] by linarith
    moreover have "bytes_above x s (r # rs) = bytes_above x (Suc s) rs" if "s \<le> x" for x
      using that by (simp add: bytes_above_def Suc_diff_le)
    moreover have "slot_bytes rs - (over - sr_bytes r) = slot_bytes (r # rs) - over"
      using False by simp
    ultimately show ?thesis
      using Cons(2-4) False by (simp add: Let_def max.coboundedI2 del: slot_bytes_simps)
  qed
qed (simp add: bytes_above_def)

lemma bytes_scan_spec:
  assumes "0 < over" "ev \<le> f"
  shows "bytes_above (max f (bytes_scan f s rs over ev)) s rs \<le> bytes_above f s rs - over"
proof (induction rs arbitrary: s)
  case (Cons r rs)
  show ?case
  proof (cases "s \<le> f")
    case True
    have step: "bytes_above x s (r # rs) = bytes_above x (Suc s) rs" if "s \<le> x" for x
      using that by (simp add: bytes_above_def Suc_diff_le)
    show ?thesis
      using Cons[of "Suc s"] True by (simp add: step max.coboundedI1)
  next
    case False
    then show ?thesis
      using bytes_scan_tail[of f s over ev "r # rs"] assms by (simp add: bytes_above_def)
  qed
qed (simp add: bytes_above_def)

lemma slot_bytes_take_drop_le: "slot_bytes (drop m rs) \<le> slot_bytes rs"
  by (metis append_take_drop_id le_add2 slot_bytes_simps(3))

lemma bytes_above_take:
  assumes "bytes_above x s rs \<le> bytes_above f s rs - over" "over \<le> slot_bytes (take k rs)"
  shows "bytes_above x s (take k rs) \<le> slot_bytes (take k rs) - over"
proof (cases "Suc x - s \<le> k")
  case True
  have "drop (Suc x - s) rs = drop (Suc x - s) (take k rs) @ drop k rs"
    using True drop_append[of "Suc x - s" "take k rs" "drop k rs"] by (cases "k \<le> length rs") auto
  then have "slot_bytes (drop (Suc x - s) rs) = bytes_above x s (take k rs) + slot_bytes (drop k rs)"
    by (simp add: bytes_above_def)
  moreover have "slot_bytes (drop (Suc f - s) rs) \<le> slot_bytes (take k rs) + slot_bytes (drop k rs)"
    using slot_bytes_take_drop_le[of "Suc f - s" rs] slot_bytes_simps(3)[of "take k rs" "drop k rs"] by simp
  ultimately show ?thesis
    using assms by (simp add: bytes_above_def)
next
  case False
  then show ?thesis by (simp add: bytes_above_def)
qed

text \<open>The plan never lowers a floor, and says whether it raised one.\<close>

definition ttl_floor :: "i64 \<Rightarrow> topic_state \<Rightarrow> seq" where
  "ttl_floor now t = (if cfg_ttl_ms (t_config t) > 0
     then max (ttl_scan now (as_i64 (cfg_ttl_ms (t_config t))) (base_seq (t_index t)) (records (t_index t)) (expiry_floor (t_floors t)))
       (expiry_floor (t_floors t))
     else expiry_floor (t_floors t))"

definition count_floor :: "topic_state \<Rightarrow> seq" where
  "count_floor t = (if cfg_cap_records (t_config t) > 0
     then max (t_head_seq t - cfg_cap_records (t_config t)) (evict_floor (t_floors t)) else evict_floor (t_floors t))"

definition byte_floor :: "i64 \<Rightarrow> topic_state \<Rightarrow> seq" where
  "byte_floor now t = (if cfg_cap_bytes (t_config t) > 0 \<and> t_bytes_retained t > cfg_cap_bytes (t_config t)
     then max (bytes_scan (max (count_floor t) (ttl_floor now t)) (base_seq (t_index t)) (records (t_index t))
                (t_bytes_retained t - cfg_cap_bytes (t_config t)) (count_floor t)) (count_floor t)
     else count_floor t)"

lemma plan_retention_alt:
  "plan_retention now t =
     \<lparr>ra_floor_advanced = (ttl_floor now t > expiry_floor (t_floors t) \<or> count_floor t > evict_floor (t_floors t) \<or>
        byte_floor now t > count_floor t),
      ra_durable_advance = (ttl_floor now t > expiry_floor (t_floors t) \<or> byte_floor now t > count_floor t),
      ra_evict_floor = byte_floor now t, ra_expiry_floor = ttl_floor now t, ra_bytes_reclaimed = 0\<rparr>"
proof -
  have gt: "(if (a::nat) > b then a else b) = max a b" for a b by auto
  have count: "(if cfg_cap_records (t_config t) > 0 \<and> t_head_seq t > cfg_cap_records (t_config t) \<and>
        t_head_seq t - cfg_cap_records (t_config t) > evict_floor (t_floors t)
      then t_head_seq t - cfg_cap_records (t_config t) else evict_floor (t_floors t)) = count_floor t"
    by (auto simp: count_floor_def)
  show ?thesis
    unfolding plan_retention_def Let_def gt ttl_floor_def[symmetric] count byte_floor_def[symmetric] ..
qed

lemma floors_planned_mono:
  "expiry_floor (t_floors t) \<le> ttl_floor now t" "evict_floor (t_floors t) \<le> count_floor t" "count_floor t \<le> byte_floor now t"
  by (simp_all add: ttl_floor_def count_floor_def byte_floor_def)

lemma plan_retention_mono:
  "evict_floor (t_floors t) \<le> ra_evict_floor (plan_retention now t)"
  "expiry_floor (t_floors t) \<le> ra_expiry_floor (plan_retention now t)"
  using floors_planned_mono[of t] le_trans[OF floors_planned_mono(2,3)] by (simp_all add: plan_retention_alt)

lemma plan_retention_idle:
  "\<not> ra_floor_advanced (plan_retention now t) \<Longrightarrow>
     ra_evict_floor (plan_retention now t) = evict_floor (t_floors t) \<and>
     ra_expiry_floor (plan_retention now t) = expiry_floor (t_floors t)"
  using floors_planned_mono(2)[of t] floors_planned_mono(1,3)[of t now] by (simp add: plan_retention_alt)

lemma commit_floors_fields:
  "t_floors (commit_floors (plan_retention now t) t) =
     (t_floors t)\<lparr>evict_floor := ra_evict_floor (plan_retention now t), expiry_floor := ra_expiry_floor (plan_retention now t)\<rparr>"
  "t_index (commit_floors p t) = t_index t" "t_head_seq (commit_floors p t) = t_head_seq t"
  "t_seq_base (commit_floors p t) = t_seq_base t" "t_config (commit_floors p t) = t_config t"
  "t_bytes_retained (commit_floors p t) = t_bytes_retained t" "t_live_count (commit_floors p t) = t_live_count t"
  "t_queue (commit_floors p t) = t_queue t"
  by (simp_all add: commit_floors_def plan_retention_mono max_def)

lemma commit_floors_idle:
  "\<not> ra_floor_advanced (plan_retention now t) \<Longrightarrow> commit_floors (plan_retention now t) t = t"
  using plan_retention_idle[of now t] by (simp add: commit_floors_def)

lemma commit_floors_wf: "wf_topic (commit_floors p t) \<longleftrightarrow> wf_topic t"
  by (simp add: wf_topic_def commit_floors_def)

definition retention_active :: "topic_state \<Rightarrow> bool" where
  "retention_active t \<longleftrightarrow> t_head_seq t \<noteq> 0 \<and>
     (cfg_ttl_ms (t_config t) \<noteq> 0 \<or> cfg_cap_records (t_config t) \<noteq> 0 \<or> cfg_cap_bytes (t_config t) \<noteq> 0)"

lemma enforce_inactive: "\<not> retention_active t \<Longrightarrow> enforce_retention_hardened now harden t = Inr (t, no_advance)"
  by (auto simp: enforce_retention_hardened_def retention_active_def Let_def)

text \<open>
  An enforcement that succeeds is the committed plan followed by a reclaim of the front, up
  to the segment files it drops.
\<close>

lemma enforce_active:
  assumes "retention_active t" and out: "enforce_retention_hardened now harden t = Inr (t', adv)"
  obtains t2 where "topic_sim (commit_floors (plan_retention now t) t) t2"
    and "t' = fst (reclaim_front (t_head_seq t2) t2)"
    and "ra_bytes_reclaimed adv = snd (reclaim_front (t_head_seq t2) t2)"
proof -
  let ?c = "commit_floors (plan_retention now t) t"
  define t2 where "t2 = (if ra_floor_advanced (plan_retention now t) then reclaim_segments ?c else t)"
  have sim: "topic_sim ?c t2"
    using reclaim_segments_sim[of ?c] commit_floors_idle[of now t] by (simp add: t2_def)
  then have head: "t_head_seq t2 = t_head_seq t"
    by (simp add: topic_sim_def commit_floors_fields)
  have "\<not> (t_head_seq t = 0)" "\<not> (cfg_ttl_ms (t_config t) = 0 \<and> cfg_cap_records (t_config t) = 0 \<and> cfg_cap_bytes (t_config t) = 0)"
    using assms(1) by (auto simp: retention_active_def)
  then have "t' = fst (reclaim_front (t_head_seq t2) t2)" "ra_bytes_reclaimed adv = snd (reclaim_front (t_head_seq t2) t2)"
    using out unfolding head
    by (auto simp: enforce_retention_hardened_def Let_def t2_def split_beta split: option.splits if_splits)
  then show ?thesis
    using that sim by blast
qed

lemma enforce_Inl_iff:
  "enforce_retention_hardened now harden t = Inl e \<longleftrightarrow>
     retention_active t \<and> ra_floor_advanced (plan_retention now t) \<and> ra_durable_advance (plan_retention now t) \<and>
     harden (plan_retention now t) = Some e"
  by (auto simp: enforce_retention_hardened_def retention_active_def Let_def split_beta split: option.splits if_splits)

lemma enforce_retention_fields:
  assumes wf: "wf_topic t" and out: "enforce_retention_hardened now harden t = Inr (t', adv)"
  shows "wf_topic t'" "t_head_seq t' = t_head_seq t" "t_config t' = t_config t" "t_seq_base t' = t_seq_base t"
    "floors_le (t_floors t) (t_floors t')" "t_queue t' = t_queue t"
    "delete_floor (t_floors t') = delete_floor (t_floors t)"
    "ra_bytes_reclaimed adv + t_bytes_retained t' = t_bytes_retained t"
    "retention_active t \<Longrightarrow> evict_floor (t_floors t') = ra_evict_floor (plan_retention now t) \<and>
       expiry_floor (t_floors t') = ra_expiry_floor (plan_retention now t)"
    "retention_active t \<Longrightarrow> floor_earliest t' \<le> base_seq (t_index t')"
proof -
  have "wf_topic t' \<and> t_head_seq t' = t_head_seq t \<and> t_config t' = t_config t \<and> t_seq_base t' = t_seq_base t \<and>
    floors_le (t_floors t) (t_floors t') \<and> t_queue t' = t_queue t \<and> delete_floor (t_floors t') = delete_floor (t_floors t) \<and>
    ra_bytes_reclaimed adv + t_bytes_retained t' = t_bytes_retained t \<and>
    (retention_active t \<longrightarrow> (evict_floor (t_floors t') = ra_evict_floor (plan_retention now t) \<and>
       expiry_floor (t_floors t') = ra_expiry_floor (plan_retention now t)) \<and> floor_earliest t' \<le> base_seq (t_index t'))"
  proof (cases "retention_active t")
    case True
    let ?c = "commit_floors (plan_retention now t) t"
    obtain t2 where sim: "topic_sim ?c t2" and t': "t' = fst (reclaim_front (t_head_seq t2) t2)"
      and adv: "ra_bytes_reclaimed adv = snd (reclaim_front (t_head_seq t2) t2)"
      using True out by (rule enforce_active)
    have wf2: "wf_topic t2"
      using wf_topic_sim[OF sim] wf by (simp add: commit_floors_wf)
    note f = reclaim_front_fields[OF t' refl]
    have same: "t_head_seq t2 = t_head_seq t" "t_config t2 = t_config t" "t_seq_base t2 = t_seq_base t"
        "t_queue t2 = t_queue t" "t_floors t2 = t_floors ?c" "t_bytes_retained t2 = t_bytes_retained t"
      using sim by (simp_all add: topic_sim_def commit_floors_fields)
    have "floors_le (t_floors t) (t_floors ?c)"
      using plan_retention_mono by (simp add: floors_le_def commit_floors_fields)
    then show ?thesis
      using reclaim_front_wf[OF wf2] reclaim_front_base[OF wf2 t'] f same adv t'
      by (simp add: commit_floors_fields)
  next
    case False
    then show ?thesis
      using out wf by (auto simp: enforce_inactive no_advance_def)
  qed
  then show "wf_topic t'" "t_head_seq t' = t_head_seq t" "t_config t' = t_config t" "t_seq_base t' = t_seq_base t"
    "floors_le (t_floors t) (t_floors t')" "t_queue t' = t_queue t"
    "delete_floor (t_floors t') = delete_floor (t_floors t)"
    "ra_bytes_reclaimed adv + t_bytes_retained t' = t_bytes_retained t"
    "retention_active t \<Longrightarrow> evict_floor (t_floors t') = ra_evict_floor (plan_retention now t) \<and>
       expiry_floor (t_floors t') = ra_expiry_floor (plan_retention now t)"
    "retention_active t \<Longrightarrow> floor_earliest t' \<le> base_seq (t_index t')"
    by auto
qed

text \<open>Retention removes from the readable log exactly what falls under the new floors.\<close>

lemma enforce_retention_view:
  assumes wf: "wf_topic t" and h: "t_head_seq t < u64_max" and out: "enforce_retention_hardened now harden t = Inr (t', adv)"
  shows "view t' = filter (\<lambda>(s, r). floor_earliest t' \<le> s) (view t)"
proof (cases "retention_active t")
  case True
  let ?c = "commit_floors (plan_retention now t) t"
  obtain t2 where sim: "topic_sim ?c t2" and t': "t' = fst (reclaim_front (t_head_seq t2) t2)"
    using True out by (rule enforce_active)
  have h2: "t_head_seq t2 < u64_max"
    using sim h by (simp add: topic_sim_def commit_floors_fields)
  have e: "floor_earliest t' = floor_earliest ?c"
    using reclaim_front_fields(7)[OF t' refl] sim by (simp add: topic_sim_def floor_earliest_def)
  have le: "floor_earliest t \<le> floor_earliest ?c"
    using plan_retention_mono unfolding floor_earliest_def commit_floors_fields
    by (intro floors_earliest_seq_mono) (simp_all add: floors_le_def)
  have "view t' = view ?c"
    using reclaim_front_view[OF h2 t'] view_sim[OF sim] by simp
  also have "\<dots> = filter (\<lambda>(s, r). floor_earliest t' \<le> s) (view t)"
    using h le by (intro view_filter) (auto simp: commit_floors_fields visible_floor e slot_at_def)
  finally show ?thesis .
next
  case False
  have "view t = filter (\<lambda>(s, r). floor_earliest t \<le> s) (view t)"
    using h by (intro view_filter) (auto simp: visible_floor)
  then show ?thesis
    using False out by (simp add: enforce_inactive)
qed

text \<open>After an enforcement the caps hold.\<close>

lemma retained_after_enforce:
  assumes wf: "wf_topic t" and h: "t_head_seq t < u64_max" and act: "retention_active t"
    and out: "enforce_retention_hardened now harden t = Inr (t', adv)"
  defines "F \<equiv> max (byte_floor now t) (ttl_floor now t)"
  shows "t_live_count t' \<le> t_head_seq t - F"
    and "t_bytes_retained t' \<le> bytes_above F (base_seq (t_index t)) (published (t_head_seq t) (t_index t))"
proof -
  let ?b = "base_seq (t_index t)" and ?h = "t_head_seq t"
  note ef = enforce_retention_fields[OF wf out]
  obtain t2 where sim: "topic_sim (commit_floors (plan_retention now t) t) t2" and t': "t' = fst (reclaim_front (t_head_seq t2) t2)"
    using act out by (rule enforce_active)
  have ix2: "base_seq (t_index t2) = ?b" "map erase (records (t_index t2)) = map erase (records (t_index t))"
    using sim by (simp_all add: topic_sim_def index_sim_def commit_floors_fields)
  define n where "n = front_drop (floor_earliest t2) (t_index t2)"
  have n: "n \<le> length (records (t_index t2))"
    by (simp add: n_def front_drop_le)
  have ix': "base_seq (t_index t') = ?b + n" "records (t_index t') = drop n (records (t_index t2))"
    using n by (simp_all add: reclaim_front_fields[OF t' n_def] ix2)
  have "min (Suc F) (Suc ?h) \<le> floor_earliest t'"
    using ef(2,4) ef(9)[OF act] h
    by (auto simp: floor_earliest_def floors_earliest_seq_def Let_def sat_add_def F_def plan_retention_alt
        min_def max_def)
  then have base: "min (Suc F) (Suc ?h) \<le> ?b + n"
    using ef(10)[OF act] ix' by simp
  have "length (published ?h (t_index t')) \<le> ?h - F"
    using base by (simp add: published_def ix') 
  moreover have "live_slots rs \<le> length rs" for rs
    by (simp add: live_slots_def)
  ultimately show "t_live_count t' \<le> ?h - F"
    using wf_topicD(3)[OF ef(1)] ef(2) by (metis le_trans)
  have "slot_bytes (published ?h (t_index t')) = slot_bytes (take (Suc ?h - (?b + n)) (drop n (records (t_index t))))"
  proof -
    have "map erase (published ?h (t_index t')) = map erase (take (Suc ?h - (?b + n)) (drop n (records (t_index t))))"
      using ix2(2) by (simp add: published_def ix' take_map[symmetric] drop_map[symmetric])
    from map_erase_fields(2)[OF this] show ?thesis
      by (simp add: slot_bytes_def)
  qed
  also have "\<dots> = slot_bytes (drop n (published ?h (t_index t)))"
    by (simp add: published_def drop_take diff_diff_add add.commute)
  also have "\<dots> \<le> bytes_above F ?b (published ?h (t_index t))"
  proof (cases "F \<le> ?h")
    case True
    then have "Suc F - ?b \<le> n"
      using base by simp
    then show ?thesis
      using slot_bytes_take_drop_le[of "n - (Suc F - ?b)" "drop (Suc F - ?b) (published ?h (t_index t))"]
      by (simp add: bytes_above_def)
  next
    case False
    then have "Suc ?h - ?b \<le> n"
      using base by simp
    then show ?thesis
      by (simp add: published_def)
  qed
  finally show "t_bytes_retained t' \<le> bytes_above F ?b (published ?h (t_index t))"
    using wf_topicD(4)[OF ef(1)] ef(2) by simp
qed

lemma retention_caps:
  assumes wf: "wf_topic t" and h: "0 < t_head_seq t" "t_head_seq t < u64_max"
    and out: "enforce_retention_hardened now harden t = Inr (t', adv)"
  shows "0 < cfg_cap_records (t_config t) \<Longrightarrow> t_live_count t' \<le> cfg_cap_records (t_config t)"
    and "0 < cfg_cap_bytes (t_config t) \<Longrightarrow> t_bytes_retained t' \<le> cfg_cap_bytes (t_config t)"
proof -
  let ?b = "base_seq (t_index t)" and ?h = "t_head_seq t" and ?pub = "published (t_head_seq t) (t_index t)"
  let ?F = "max (byte_floor now t) (ttl_floor now t)"
  { assume cap: "0 < cfg_cap_records (t_config t)"
    then have "?h - cfg_cap_records (t_config t) \<le> ?F"
      using floors_planned_mono(3)[of t now] by (simp add: count_floor_def le_max_iff_disj)
    then have "?h - ?F \<le> cfg_cap_records (t_config t)" by linarith
    then show "t_live_count t' \<le> cfg_cap_records (t_config t)"
      using retained_after_enforce(1)[OF wf h(2) _ out] h(1) cap by (fastforce simp: retention_active_def) }
  { assume cap: "0 < cfg_cap_bytes (t_config t)"
    have ret: "t_bytes_retained t' \<le> bytes_above ?F ?b ?pub"
      using retained_after_enforce(2)[OF wf h(2) _ out] h(1) cap by (simp add: retention_active_def)
    show "t_bytes_retained t' \<le> cfg_cap_bytes (t_config t)"
    proof (cases "t_bytes_retained t \<le> cfg_cap_bytes (t_config t)")
      case True
      then show ?thesis
        using enforce_retention_fields(8)[OF wf out] by simp
    next
      case False
      let ?over = "t_bytes_retained t - cfg_cap_bytes (t_config t)" and ?f = "max (count_floor t) (ttl_floor now t)"
      let ?res = "bytes_scan ?f ?b (records (t_index t)) ?over (count_floor t)"
      have F: "?F = max ?f ?res"
        using False cap by (simp add: byte_floor_def max.assoc max.commute max.left_commute)
      have "bytes_above (max ?f ?res) ?b (records (t_index t)) \<le> bytes_above ?f ?b (records (t_index t)) - ?over"
        using False by (intro bytes_scan_spec) auto
      then have "bytes_above ?F ?b ?pub \<le> slot_bytes ?pub - ?over"
        unfolding F published_def using wf_topicD(4)[OF wf] by (intro bytes_above_take) (auto simp: published_def)
      then show ?thesis
        using ret wf_topicD(4)[OF wf] False by simp
    qed }
qed

end
