(* ===== verification/Topic_Deletes.thy ===== *)
theory Topic_Deletes
  imports Topic_Invariants
begin

text \<open>
  Voluntary deletes: marking a set of slots, the delete endpoint's \<open>apply_delete\<close> with its
  point-in-time bound, and the per-sequence delete the queues use. Each is shown to keep the
  invariant and to remove from the readable log exactly the selected records.
\<close>

section \<open>Marking a list of sequences\<close>

lemma mark_deleted_published:
  assumes "s \<le> h"
  shows "live_slots (published h ix) = live_slots (published h (fst (mark_deleted s ix))) + (if is_live ix s then 1 else 0)"
    and "slot_bytes (published h ix) = slot_bytes (published h (fst (mark_deleted s ix))) +
      (case snd (mark_deleted s ix) of Some f \<Rightarrow> f | None \<Rightarrow> 0)"
    and "snd (mark_deleted s ix) = None \<longleftrightarrow> \<not> is_live ix s"
proof -
  have "live_slots (published h ix) = live_slots (published h (fst (mark_deleted s ix))) + (if is_live ix s then 1 else 0) \<and>
    slot_bytes (published h ix) = slot_bytes (published h (fst (mark_deleted s ix))) +
      (case snd (mark_deleted s ix) of Some f \<Rightarrow> f | None \<Rightarrow> 0) \<and> (snd (mark_deleted s ix) = None \<longleftrightarrow> \<not> is_live ix s)"
  proof (cases "is_live ix s")
    case True
    let ?i = "s - base_seq ix"
    have i: "base_seq ix \<le> s" "?i < length (records ix)" "\<not> sr_deleted (records ix ! ?i)"
      using True by (auto simp: is_live_iff)
    then have get: "ix_get ix s = Some (records ix ! ?i)"
      by (auto simp: ix_get_def Let_def)
    have lt: "?i < length (published h ix)" "published h ix ! ?i = records ix ! ?i"
      using i assms by (auto simp: published_def)
    have "published h (fst (mark_deleted s ix)) = (published h ix)[?i := dead_slot (published h ix ! ?i)]"
      unfolding lt(2) by (simp add: published_def mark_deleted_live(2)[OF get i(3)] take_update_swap)
    then show ?thesis
      using True live_slots_dead[OF lt(1)] slot_bytes_dead[OF lt(1)] i(3) lt(2) mark_deleted_live(1)[OF get i(3)] by simp
  next
    case False
    then have "mark_deleted s ix = (ix, None)"
      by (intro mark_deleted_dead) (auto simp: is_live_def)
    then show ?thesis
      using False by simp
  qed
  then show "live_slots (published h ix) = live_slots (published h (fst (mark_deleted s ix))) + (if is_live ix s then 1 else 0)"
    "slot_bytes (published h ix) = slot_bytes (published h (fst (mark_deleted s ix))) +
      (case snd (mark_deleted s ix) of Some f \<Rightarrow> f | None \<Rightarrow> 0)" "snd (mark_deleted s ix) = None \<longleftrightarrow> \<not> is_live ix s"
    by blast+
qed

lemma is_live_mark: "is_live (fst (mark_deleted s ix)) s' \<longleftrightarrow> is_live ix s' \<and> s' \<noteq> s"
  by (auto simp: is_live_iff mark_deleted_kill nth_kill split: if_splits)

lemma mark_all_spec:
  assumes "\<forall>s\<in>set ss. s \<le> h" "freed + slot_bytes (published h ix) \<le> u64_max"
    and "mark_all ss ix freed n ds = (ix', freed', n', ds')"
  shows "ix' = fold (\<lambda>s ix. fst (mark_deleted s ix)) ss ix"
    and "freed' + slot_bytes (published h ix') = freed + slot_bytes (published h ix)"
    and "n' + live_slots (published h ix') = n + live_slots (published h ix)"
    and "distinct ss \<Longrightarrow> ds' = ds @ filter (is_live ix) ss"
    and "distinct ss \<Longrightarrow> n' = n + length (filter (is_live ix) ss)"
proof -
  have "ix' = fold (\<lambda>s ix. fst (mark_deleted s ix)) ss ix \<and>
    freed' + slot_bytes (published h ix') = freed + slot_bytes (published h ix) \<and>
    n' + live_slots (published h ix') = n + live_slots (published h ix) \<and>
    (distinct ss \<longrightarrow> ds' = ds @ filter (is_live ix) ss \<and> n' = n + length (filter (is_live ix) ss))"
    using assms
  proof (induction ss arbitrary: ix freed n ds)
    case (Cons s ss)
    have s: "s \<le> h" and ss: "\<forall>s\<in>set ss. s \<le> h"
      using Cons(2) by auto
    obtain ix1 o1 where m: "mark_deleted s ix = (ix1, o1)" by fastforce
    note pub = mark_deleted_published[OF s, of ix, unfolded m fst_conv snd_conv]
    have flt: "filter (is_live ix1) ss = filter (is_live ix) ss" if "s \<notin> set ss"
      using is_live_mark[of s ix] that by (intro filter_cong) (auto simp: m)
    show ?case
    proof (cases o1)
      case None
      then show ?thesis
        using Cons(1)[OF ss, of freed ix1 n ds] Cons(3,4) pub m flt by auto
    next
      case (Some f)
      then have live: "is_live ix s" using pub(3) by simp
      have le: "freed + f + slot_bytes (published h ix1) \<le> u64_max"
        using pub(2) Some Cons(3) by simp
      then have sat: "sat_add freed f = freed + f"
        by (simp add: sat_add_def)
      show ?thesis
        using Cons(1)[OF ss, of "freed + f" ix1 "n + 1" "ds @ [s]"] le Cons(4) pub m flt Some live sat by auto
    qed
  qed simp
  then show "ix' = fold (\<lambda>s ix. fst (mark_deleted s ix)) ss ix"
    "freed' + slot_bytes (published h ix') = freed + slot_bytes (published h ix)"
    "n' + live_slots (published h ix') = n + live_slots (published h ix)"
    "distinct ss \<Longrightarrow> ds' = ds @ filter (is_live ix) ss" "distinct ss \<Longrightarrow> n' = n + length (filter (is_live ix) ss)"
    by blast+
qed

lemma is_live_fold_mark:
  "is_live (fold (\<lambda>s ix. fst (mark_deleted s ix)) ss ix) s \<longleftrightarrow> is_live ix s \<and> s \<notin> set ss"
  by (auto simp: is_live_iff fold_mark_fields nth_kill split: if_splits)

lemma slot_fold_mark:
  "is_live ix s \<Longrightarrow> s \<notin> set ss \<Longrightarrow>
     records (fold (\<lambda>s ix. fst (mark_deleted s ix)) ss ix) ! (s - base_seq ix) = records ix ! (s - base_seq ix)"
  by (auto simp: is_live_iff fold_mark_fields nth_kill)

text \<open>The counters after a mark, as both delete paths update them.\<close>

definition settle_marks :: "topic_index \<Rightarrow> nat \<Rightarrow> nat \<Rightarrow> topic_state \<Rightarrow> topic_state" where
  "settle_marks ix freed n t = subtract_live_count n (subtract_bytes_retained freed (t\<lparr>t_index := ix\<rparr>))"

lemma settle_marks_fields [simp]:
  "t_index (settle_marks ix freed n t) = ix" "t_head_seq (settle_marks ix freed n t) = t_head_seq t"
  "t_floors (settle_marks ix freed n t) = t_floors t" "t_seq_base (settle_marks ix freed n t) = t_seq_base t"
  "t_config (settle_marks ix freed n t) = t_config t" "t_queue (settle_marks ix freed n t) = t_queue t"
  "t_live_count (settle_marks ix freed n t) = t_live_count t - n"
  "t_bytes_retained (settle_marks ix freed n t) = t_bytes_retained t - freed"
  by (simp_all add: settle_marks_def subtract_live_count_def subtract_bytes_retained_def)

lemma settle_marks_spec:
  assumes wf: "wf_topic t" and h: "t_head_seq t < u64_max" and le: "\<forall>s\<in>set ss. s \<le> t_head_seq t"
    and m: "mark_all ss (t_index t) 0 0 [] = (ix, freed, n, ds)"
  shows "wf_topic (settle_marks ix freed n t)"
    and "freed + t_bytes_retained (settle_marks ix freed n t) = t_bytes_retained t"
    and "view (settle_marks ix freed n t) = filter (\<lambda>(s, r). s \<notin> set ss) (view t)"
    and "base_seq ix = base_seq (t_index t)" "delete_below ix = delete_below (t_index t)"
    and "\<And>s. is_live ix s \<longleftrightarrow> is_live (t_index t) s \<and> s \<notin> set ss"
proof -
  have room: "0 + slot_bytes (published (t_head_seq t) (t_index t)) \<le> u64_max"
    using wf_topicD(4,5)[OF wf] by simp
  note sp = mark_all_spec[OF le room m]
  show base: "base_seq ix = base_seq (t_index t)" and below: "delete_below ix = delete_below (t_index t)"
    by (simp_all add: sp(1) fold_mark_fields)
  have len: "length (records ix) = length (records (t_index t))"
    by (simp add: sp(1) fold_mark_fields)
  show live: "is_live ix s \<longleftrightarrow> is_live (t_index t) s \<and> s \<notin> set ss" for s
    by (simp add: sp(1) is_live_fold_mark)
  show "wf_topic (settle_marks ix freed n t)"
    using wf sp(2,3) base below len fold_mark_wf[of "t_index t" ss] by (auto simp: wf_topic_def sp(1)[symmetric])
  show "freed + t_bytes_retained (settle_marks ix freed n t) = t_bytes_retained t"
    using sp(2) wf_topicD(4)[OF wf] by simp
  show "view (settle_marks ix freed n t) = filter (\<lambda>(s, r). s \<notin> set ss) (view t)"
    using h live slot_fold_mark[of "t_index t" _ ss, folded sp(1)]
    by (intro view_filter) (auto simp: visible_floor floor_earliest_def slot_at_def base)
qed

section \<open>The common tail of both delete paths\<close>

definition finish_delete :: "seq list \<Rightarrow> topic_state \<Rightarrow> topic_state \<times> nat" where
  "finish_delete ds t = (let (t, front_freed) = reclaim_front (t_head_seq t) t
     in (flag_sealed_deletes ds (reclaim_segments t), front_freed))"

lemma finish_delete_sim:
  "topic_sim (fst (reclaim_front (t_head_seq t) t)) (fst (finish_delete ds t))"
  "snd (finish_delete ds t) = snd (reclaim_front (t_head_seq t) t)"
  by (simp_all add: finish_delete_def split_beta topic_sim_trans[OF reclaim_segments_sim flag_sealed_deletes_sim])

lemma finish_delete_spec:
  assumes "wf_topic t" "t_head_seq t < u64_max"
  shows "wf_topic (fst (finish_delete ds t))" "view (fst (finish_delete ds t)) = view t"
    "snd (finish_delete ds t) + t_bytes_retained (fst (finish_delete ds t)) = t_bytes_retained t"
    "t_head_seq (fst (finish_delete ds t)) = t_head_seq t" "t_floors (fst (finish_delete ds t)) = t_floors t"
    "t_config (fst (finish_delete ds t)) = t_config t" "t_seq_base (fst (finish_delete ds t)) = t_seq_base t"
    "t_queue (fst (finish_delete ds t)) = t_queue t"
proof -
  note sim = finish_delete_sim[where t=t and ds=ds]
  note f = reclaim_front_fields[of _ t, OF refl refl]
  show "wf_topic (fst (finish_delete ds t))"
    using reclaim_front_wf(1)[OF assms(1)] wf_topic_sim[OF sim(1)] by simp
  show "view (fst (finish_delete ds t)) = view t"
    using view_sim[OF sim(1)] reclaim_front_view[OF assms(2) refl] by simp
  show "snd (finish_delete ds t) + t_bytes_retained (fst (finish_delete ds t)) = t_bytes_retained t"
    using reclaim_front_wf(2)[OF assms(1)] sim by (simp add: topic_sim_def)
  show "t_head_seq (fst (finish_delete ds t)) = t_head_seq t" "t_floors (fst (finish_delete ds t)) = t_floors t"
    "t_config (fst (finish_delete ds t)) = t_config t" "t_seq_base (fst (finish_delete ds t)) = t_seq_base t"
    "t_queue (fst (finish_delete ds t)) = t_queue t"
    using sim(1) f by (simp_all add: topic_sim_def)
qed

lemma delete_seqs_stats_alt:
  "delete_seqs_stats seqs t =
     (let (ix, freed, n, ds) = mark_all seqs (t_index t) 0 0 [];
          (t', front_freed) = finish_delete ds (settle_marks ix freed n t)
      in (t', \<lparr>ds_deleted = n, ds_bytes_freed = sat_add freed front_freed\<rparr>))"
  by (simp add: delete_seqs_stats_def finish_delete_def settle_marks_def Let_def split_beta subtract_live_count_def
      subtract_bytes_retained_def)

text \<open>Deleting by sequence removes exactly those sequences and reports what it freed.\<close>

lemma delete_seqs_spec:
  assumes wf: "wf_topic t" and h: "t_head_seq t < u64_max" and le: "\<forall>s\<in>set ss. s \<le> t_head_seq t"
    and out: "delete_seqs_stats ss t = (t', st)"
  shows "wf_topic t'" "view t' = filter (\<lambda>(s, r). s \<notin> set ss) (view t)"
    "ds_bytes_freed st + t_bytes_retained t' = t_bytes_retained t"
    "distinct ss \<Longrightarrow> ds_deleted st = length (filter (is_live (t_index t)) ss)"
    "t_head_seq t' = t_head_seq t" "t_floors t' = t_floors t" "t_queue t' = t_queue t" "t_config t' = t_config t"
    "t_seq_base t' = t_seq_base t"
proof -
  obtain ix freed n ds where m: "mark_all ss (t_index t) 0 0 [] = (ix, freed, n, ds)"
    by (metis prod_cases4)
  note s = settle_marks_spec[OF wf h le m]
  have h': "t_head_seq (settle_marks ix freed n t) < u64_max" using h by simp
  note f = finish_delete_spec[OF s(1) h', of ds]
  have t': "t' = fst (finish_delete ds (settle_marks ix freed n t))"
      and st: "st = \<lparr>ds_deleted = n, ds_bytes_freed = sat_add freed (snd (finish_delete ds (settle_marks ix freed n t)))\<rparr>"
    using out by (simp_all add: delete_seqs_stats_alt m split_beta)
  show "wf_topic t'" "view t' = filter (\<lambda>(s, r). s \<notin> set ss) (view t)" "t_head_seq t' = t_head_seq t"
      "t_floors t' = t_floors t" "t_queue t' = t_queue t" "t_config t' = t_config t" "t_seq_base t' = t_seq_base t"
    using f s by (simp_all add: t')
  have "freed + snd (finish_delete ds (settle_marks ix freed n t)) + t_bytes_retained t' = t_bytes_retained t"
    using f(3) s(2) by (simp add: t' add.assoc)
  then show "ds_bytes_freed st + t_bytes_retained t' = t_bytes_retained t"
    using wf_topicD(5)[OF wf] by (simp add: st sat_add_def)
  show "ds_deleted st = length (filter (is_live (t_index t)) ss)" if "distinct ss"
    using mark_all_spec(5)[OF le _ m that] wf_topicD(4,5)[OF wf] by (simp add: st)
qed

section \<open>The delete endpoint\<close>

definition selected :: "tag_filter option \<Rightarrow> seq \<Rightarrow> seq \<times> stored_record \<Rightarrow> bool" where
  "selected match_sel bound = (\<lambda>(s, r). s < bound \<and>
     (case match_sel of None \<Rightarrow> True
      | Some f \<Rightarrow> (case sr_tag r of Some tag \<Rightarrow> filter_matches f tag | None \<Rightarrow> False)))"

definition victims :: "tag_filter option \<Rightarrow> seq \<Rightarrow> topic_state \<Rightarrow> seq list" where
  "victims match_sel bound t = (case match_sel of
     Some f \<Rightarrow> matching_live_seqs (t_index t) f bound
   | None \<Rightarrow> live_range (max (earliest_seq t) (base_seq (t_index t))) bound (t_index t))"

lemma victims_spec:
  assumes wf: "wf_topic t" and h: "t_head_seq t < u64_max" and bound: "bound \<le> Suc (t_head_seq t)"
  shows "\<forall>s\<in>set (victims match_sel bound t). s \<le> t_head_seq t \<and> s < bound \<and> is_live (t_index t) s"
    and "distinct (victims match_sel bound t)"
    and "visible t s \<Longrightarrow> s \<in> set (victims match_sel bound t) \<longleftrightarrow> selected match_sel bound (s, slot_at t s)"
proof -
  have m: "s \<in> set (matching_live_seqs (t_index t) f bound) \<longleftrightarrow>
      s < bound \<and> is_live (t_index t) s \<and> (\<exists>tag. sr_tag (records (t_index t) ! (s - base_seq (t_index t))) = Some tag \<and> filter_matches f tag)" for f s
    unfolding matching_live_seqs_spec[OF wf_topicD(1)[OF wf]]
    by (auto simp: is_live_iff ix_get_def Let_def)
  show "\<forall>s\<in>set (victims match_sel bound t). s \<le> t_head_seq t \<and> s < bound \<and> is_live (t_index t) s"
    using bound m by (auto simp: victims_def live_range_def split: option.splits)
  show "distinct (victims match_sel bound t)"
    by (auto simp: victims_def live_range_def matching_live_seqs_spec[OF wf_topicD(1)[OF wf]] split: option.splits)
  show "s \<in> set (victims match_sel bound t) \<longleftrightarrow> selected match_sel bound (s, slot_at t s)" if "visible t s"
    using that m[of s]
    by (auto simp: victims_def selected_def live_range_def visible_def is_live_iff slot_at_def erase_def split: option.splits)
qed

definition pit_bound :: "seq option \<Rightarrow> topic_state \<Rightarrow> seq" where
  "pit_bound bound_head t = (case bound_head of Some b \<Rightarrow> b | None \<Rightarrow> sat_add (t_head_seq t) 1)"

definition delete_bound :: "seq option \<Rightarrow> seq option \<Rightarrow> topic_state \<Rightarrow> seq" where
  "delete_bound before bound_head t =
     (case before of Some b \<Rightarrow> min b (pit_bound bound_head t) | None \<Rightarrow> pit_bound bound_head t)"

text \<open>The prefix form of the delete raises the index watermark and the delete floor with it.\<close>

definition raise_below :: "seq \<Rightarrow> topic_state \<Rightarrow> topic_state" where
  "raise_below b t =
     (let t = t\<lparr>t_index := (t_index t)\<lparr>delete_below := max b (delete_below (t_index t))\<rparr>\<rparr>
      in t\<lparr>t_floors := (t_floors t)\<lparr>delete_floor := max (delete_floor (t_floors t)) (delete_below (t_index t) - 1)\<rparr>\<rparr>)"

lemma floors_earliest_le:
  assumes "h < u64_max" "s \<le> h"
  shows "floors_earliest_seq f b h \<le> s \<longleftrightarrow> b \<le> s \<and> evict_floor f < s \<and> expiry_floor f < s \<and> delete_floor f < s \<and> source_trim_floor f < s"
  using assms by (auto simp: floors_earliest_seq_def Let_def sat_add_def min_le_iff_disj)

lemma raise_below_spec:
  assumes wf: "wf_topic t" and h: "t_head_seq t < u64_max" and gone: "\<forall>s<b. \<not> visible t s"
  shows "wf_topic (raise_below b t)" "view (raise_below b t) = view t"
    "t_head_seq (raise_below b t) = t_head_seq t" "floors_le (t_floors t) (t_floors (raise_below b t))"
    "t_bytes_retained (raise_below b t) = t_bytes_retained t" "t_config (raise_below b t) = t_config t"
    "t_queue (raise_below b t) = t_queue t" "t_seq_base (raise_below b t) = t_seq_base t"
    "evict_floor (t_floors (raise_below b t)) = evict_floor (t_floors t)"
    "expiry_floor (t_floors (raise_below b t)) = expiry_floor (t_floors t)"
proof -
  let ?t = "raise_below b t"
  have f: "base_seq (t_index ?t) = base_seq (t_index t)" "records (t_index ?t) = records (t_index t)" "tag_index (t_index ?t) = tag_index (t_index t)"
      "t_seq_base ?t = t_seq_base t"
    by (simp_all add: raise_below_def Let_def)
  have "wf_index (t_index ?t)"
    using wf_topicD(1)[OF wf] f by (simp add: wf_index_def)
  moreover have "published h (t_index ?t) = published h (t_index t)" for h
    by (simp add: published_def f)
  ultimately show "wf_topic ?t"
    using wf f by (simp add: wf_topic_def) (simp add: raise_below_def Let_def)
  show head: "t_head_seq ?t = t_head_seq t" and le: "floors_le (t_floors t) (t_floors ?t)" and "t_bytes_retained ?t = t_bytes_retained t"
      and "t_config ?t = t_config t" "t_queue ?t = t_queue t" "t_seq_base ?t = t_seq_base t"
      "evict_floor (t_floors ?t) = evict_floor (t_floors t)" "expiry_floor (t_floors ?t) = expiry_floor (t_floors t)"
    by (simp_all add: raise_below_def Let_def floors_le_def)
  have live: "is_live (t_index ?t) s = is_live (t_index t) s" for s
    by (simp add: is_live_iff f)
  have up: "floor_earliest t \<le> floor_earliest ?t"
    using le by (simp add: floor_earliest_def f head floors_earliest_seq_mono)
  have down: "floor_earliest ?t \<le> s" if v: "visible t s" for s
  proof -
    have s: "b \<le> s" "floor_earliest t \<le> s" "s \<le> t_head_seq t"
      using gone v by (auto simp: visible_floor[OF h] not_less[symmetric])
    note iff = floors_earliest_le[OF h s(3)]
    have old: "t_seq_base t \<le> s" "evict_floor (t_floors t) < s" "expiry_floor (t_floors t) < s" "delete_floor (t_floors t) < s"
        "source_trim_floor (t_floors t) < s"
      using s(2) iff by (simp_all add: floor_earliest_def)
    have "delete_below (t_index t) - 1 < s"
      using old(4) wf_topicD(6)[OF wf] by simp
    then show ?thesis
      using old s(1) iff unfolding floor_earliest_def f head by (auto simp: raise_below_def Let_def)
  qed
  have "visible ?t s \<longleftrightarrow> visible t s" for s
    using down[of s] up h by (auto simp: visible_floor head live)
  then show "view ?t = view t"
    by (intro view_same) (simp_all add: head slot_at_def f)
qed

definition prefix_bound :: "seq option \<Rightarrow> tag_filter option \<Rightarrow> seq option \<Rightarrow> topic_state \<Rightarrow> seq" where
  "prefix_bound before match_sel bound_head t =
     (case (match_sel, before) of (None, Some b) \<Rightarrow> min b (pit_bound bound_head t) | _ \<Rightarrow> 0)"

lemma apply_delete_stats_alt:
  "apply_delete_stats before match_sel bound_head now t =
     (let (t, retention) = enforce_retention now t;
          (ix, freed, n, ds) = mark_all (victims match_sel (delete_bound before bound_head t) t) (t_index t) 0 0 [];
          (t', front_freed) = finish_delete ds (raise_below (prefix_bound before match_sel bound_head t) (settle_marks ix freed n t))
      in (t', \<lparr>ds_deleted = n, ds_bytes_freed = sat_add (sat_add (ra_bytes_reclaimed retention) freed) front_freed\<rparr>))"
proof -
  obtain t1 ret where ret: "enforce_retention now t = (t1, ret)" by fastforce
  obtain ix freed n ds where m: "mark_all (victims match_sel (delete_bound before bound_head t1) t1) (t_index t1) 0 0 [] = (ix, freed, n, ds)"
    by (metis prod_cases4)
  define b where "b = prefix_bound before match_sel bound_head t1"
  define ix' where "ix' = (case (match_sel, before) of
      (None, Some b) \<Rightarrow> if min b (pit_bound bound_head t1) > delete_below ix then ix\<lparr>delete_below := min b (pit_bound bound_head t1)\<rparr> else ix
    | _ \<Rightarrow> ix)"
  have ix': "ix' = ix\<lparr>delete_below := max b (delete_below ix)\<rparr>"
    by (auto simp: ix'_def b_def prefix_bound_def split: option.splits)
  define u where "u = subtract_live_count n (subtract_bytes_retained freed (t1\<lparr>t_index := ix'\<rparr>))"
  have u: "(if 0 < delete_below ix' then u\<lparr>t_floors := (t_floors u)\<lparr>delete_floor := max (delete_floor (t_floors u)) (delete_below ix' - 1)\<rparr>\<rparr> else u) =
      raise_below b (settle_marks ix freed n t1)"
    by (simp add: u_def raise_below_def Let_def ix' settle_marks_def subtract_live_count_def subtract_bytes_retained_def)
  have head: "t_head_seq (raise_below b (settle_marks ix freed n t1)) = t_head_seq t1"
    by (simp add: raise_below_def Let_def)
  have vic: "(case match_sel of
        Some f \<Rightarrow> matching_live_seqs (t_index t1) f (delete_bound before bound_head t1)
      | None \<Rightarrow> live_range (max (earliest_seq t1) (base_seq (t_index t1))) (delete_bound before bound_head t1) (t_index t1)) =
      victims match_sel (delete_bound before bound_head t1) t1"
    by (simp add: victims_def)
  show ?thesis
    unfolding apply_delete_stats_def ret Let_def prod.case pit_bound_def[symmetric] delete_bound_def[symmetric] vic m
      ix'_def[unfolded prod.case, symmetric] u_def[symmetric] u b_def[symmetric] finish_delete_def head
    by (simp add: split_beta)
qed

lemma enforce_retention_Inr:
  "enforce_retention_hardened now (\<lambda>_. None :: unit option) t = Inr (enforce_retention now t)"
  by (cases "enforce_retention_hardened now (\<lambda>_. None :: unit option) t") (auto simp: enforce_retention_def enforce_Inl_iff)

lemma enforce_retention_hardenedD:
  "enforce_retention now t = (t', adv) \<Longrightarrow> enforce_retention_hardened now (\<lambda>_. None :: unit option) t = Inr (t', adv)"
  by (simp add: enforce_retention_Inr)

lemma apply_delete_spec:
  assumes wf: "wf_topic t" and h: "t_head_seq t < u64_max" and pit: "pit_bound bound_head t \<le> Suc (t_head_seq t)"
    and ret: "enforce_retention now t = (t1, ra)"
    and out: "apply_delete_stats before match_sel bound_head now t = (t', st)"
  shows "wf_topic t'" "view t' = filter (\<lambda>x. \<not> selected match_sel (delete_bound before bound_head t) x) (view t1)"
    "t_head_seq t' = t_head_seq t" "floors_le (t_floors t1) (t_floors t')"
    "ds_bytes_freed st + t_bytes_retained t' = t_bytes_retained t"
    "ds_deleted st = length (victims match_sel (delete_bound before bound_head t) t1)"
    "evict_floor (t_floors t') = evict_floor (t_floors t1)" "expiry_floor (t_floors t') = expiry_floor (t_floors t1)"
    "t_queue t' = t_queue t" "t_config t' = t_config t" "t_seq_base t' = t_seq_base t"
proof -
  note ef = enforce_retention_fields[OF wf enforce_retention_hardenedD[OF ret]]
  have pb: "pit_bound bound_head t1 = pit_bound bound_head t"
    by (simp add: pit_bound_def ef(2) split: option.splits)
  have db: "delete_bound before bound_head t1 = delete_bound before bound_head t"
    by (simp add: delete_bound_def pb split: option.splits)
  let ?bound = "delete_bound before bound_head t"
  have bound: "?bound \<le> Suc (t_head_seq t1)"
    using pit ef(2) by (auto simp: delete_bound_def split: option.splits)
  have h1: "t_head_seq t1 < u64_max" using h ef(2) by simp
  note v = victims_spec[OF ef(1) h1 bound, where match_sel=match_sel]
  obtain ix freed n ds where m: "mark_all (victims match_sel ?bound t1) (t_index t1) 0 0 [] = (ix, freed, n, ds)"
    by (metis prod_cases4)
  have le: "\<forall>s\<in>set (victims match_sel ?bound t1). s \<le> t_head_seq t1"
    using v(1) by blast
  note s = settle_marks_spec[OF ef(1) h1 le m]
  let ?s = "settle_marks ix freed n t1" and ?b = "prefix_bound before match_sel bound_head t1"
  have hs: "t_head_seq ?s < u64_max" using h1 by simp
  have gone: "\<forall>q<?b. \<not> visible ?s q"
  proof (intro allI impI notI)
    fix q assume q: "q < ?b" and vis: "visible ?s q"
    then have none: "match_sel = None" "q < ?bound"
      by (auto simp: prefix_bound_def delete_bound_def pb split: option.splits)
    have "visible t1 q"
      using vis s(6)[of q] hs h1 by (simp add: visible_floor floor_earliest_def)
    then have "q \<in> set (victims match_sel ?bound t1)"
      using v(3)[of q] none by (simp add: selected_def)
    then show False
      using vis s(6)[of q] by (simp add: visible_def)
  qed
  note r = raise_below_spec[OF s(1) hs gone]
  have hr: "t_head_seq (raise_below ?b ?s) < u64_max" using r(3) hs by simp
  note f = finish_delete_spec[OF r(1) hr, of ds]
  have t': "t' = fst (finish_delete ds (raise_below ?b ?s))"
    and st: "st = \<lparr>ds_deleted = n, ds_bytes_freed = sat_add (sat_add (ra_bytes_reclaimed ra) freed) (snd (finish_delete ds (raise_below ?b ?s)))\<rparr>"
    using out by (simp_all add: apply_delete_stats_alt ret db m split_beta)
  show "wf_topic t'" "t_head_seq t' = t_head_seq t" "floors_le (t_floors t1) (t_floors t')"
      "evict_floor (t_floors t') = evict_floor (t_floors t1)" "expiry_floor (t_floors t') = expiry_floor (t_floors t1)"
      "t_queue t' = t_queue t" "t_config t' = t_config t" "t_seq_base t' = t_seq_base t"
    using f r ef by (simp_all add: t')
  have "view t' = filter (\<lambda>(s, r). s \<notin> set (victims match_sel ?bound t1)) (view t1)"
    using f(2) r(2) s(3) by (simp add: t')
  also have "\<dots> = filter (\<lambda>x. \<not> selected match_sel ?bound x) (view t1)"
    using v(3) by (intro filter_cong) (auto simp: view_def simp del: upt_Suc)
  finally show "view t' = filter (\<lambda>x. \<not> selected match_sel ?bound x) (view t1)" .
  have "ra_bytes_reclaimed ra + freed + snd (finish_delete ds (raise_below ?b ?s)) + t_bytes_retained t' = t_bytes_retained t"
    using f(3) r(5) s(2) ef(8) by (simp add: t')
  then show "ds_bytes_freed st + t_bytes_retained t' = t_bytes_retained t"
    using wf_topicD(5)[OF wf] by (simp add: st sat_add_def)
  have "n = length (filter (is_live (t_index t1)) (victims match_sel ?bound t1))"
    using mark_all_spec(5)[OF le _ m v(2)] wf_topicD(4,5)[OF ef(1)] by simp
  also have "filter (is_live (t_index t1)) (victims match_sel ?bound t1) = victims match_sel ?bound t1"
    using v(1) by (simp add: filter_id_conv)
  finally show "ds_deleted st = length (victims match_sel ?bound t1)"
    by (simp add: st)
qed

lemma apply_delete_source_trim:
  assumes wf: "wf_topic t" and h: "t_head_seq t < u64_max" and pit: "pit_bound bound_head t \<le> Suc (t_head_seq t)"
    and ret: "enforce_retention now t = (t1, ra)"
    and out: "apply_delete_stats before match_sel bound_head now t = (t', st)"
  shows "source_trim_floor (t_floors t') = source_trim_floor (t_floors t1)"
proof -
  obtain ix freed n ds where m: "mark_all (victims match_sel (delete_bound before bound_head t1) t1) (t_index t1) 0 0 [] = (ix, freed, n, ds)"
    by (metis prod_cases4)
  let ?r = "raise_below (prefix_bound before match_sel bound_head t1) (settle_marks ix freed n t1)"
  have "t' = fst (finish_delete ds ?r)"
    using out by (simp add: apply_delete_stats_alt ret m split_beta)
  moreover have "t_floors (fst (finish_delete ds ?r)) = t_floors ?r"
    using finish_delete_sim(1)[where t="?r" and ds=ds] reclaim_front_fields(3)[OF refl refl, of ?r] by (simp add: topic_sim_def)
  ultimately show ?thesis
    by (simp add: raise_below_def Let_def)
qed

section \<open>Appending, seen from the readable log\<close>

definition floors_settled :: "topic_state \<Rightarrow> bool" where
  "floors_settled t \<longleftrightarrow> evict_floor (t_floors t) \<le> t_head_seq t \<and> expiry_floor (t_floors t) \<le> t_head_seq t \<and>
     delete_floor (t_floors t) \<le> t_head_seq t \<and> source_trim_floor (t_floors t) \<le> t_head_seq t \<and>
     t_seq_base t \<le> Suc (t_head_seq t)"

lemma append_records_view:
  assumes wf: "wf_topic t" and quiet: "quiet t" and ne: "rs \<noteq> []" and live: "\<forall>r\<in>set rs. \<not> sr_deleted r"
    and room: "t_bytes_retained t + slot_bytes rs \<le> u64_max"
    and h: "t_head_seq t + length rs < u64_max" and fl: "floors_settled t"
    and out: "out = append_records env rs now t"
  shows "view (fst out) = view t @ zip (snd out) (map erase rs)"
proof -
  note sp = append_records_spec[OF wf quiet ne live room out]
  let ?t = "fst out" and ?h = "t_head_seq t"
  let ?e = "base_seq (t_index t) + length (records (t_index t))"
  have e: "?e = Suc ?h"
    using quiet by (simp add: quiet_def)
  have base: "t_seq_base ?t = t_seq_base t"
  proof -
    have "t_seq_base ?t = t_seq_base (fst (publish_staged_no_seal (snd (stage_append rs t)) now (fst (stage_append rs t))))"
      if "sa_count (snd (stage_append rs t)) \<noteq> 0"
      using publish_staged_sim[of "snd (stage_append rs t)" now "fst (stage_append rs t)" env] that
      by (simp add: out append_records_def split_beta topic_sim_def)
    then show ?thesis
      by (cases "sa_count (snd (stage_append rs t)) = 0")
        (simp_all add: out append_records_def split_beta publish_staged_no_seal_def Let_def publish_head_seq_def stage_append_frame)
  qed
  have len: "length (records (t_index ?t)) = length (records (t_index t)) + length rs"
    using map_erase_fields(5)[OF sp(5)] by simp
  have er: "erase (records (t_index ?t) ! i) = erase ((records (t_index t) @ rs) ! i)" if "i < length (records (t_index ?t))" for i
    using sp(5) that len by (metis length_append nth_map)
  have del: "sr_deleted (records (t_index ?t) ! i) = sr_deleted ((records (t_index t) @ rs) ! i)" if "i < length (records (t_index ?t))" for i
    using er[OF that] by (rule erase_eq_fields[THEN conjunct2, THEN conjunct2, THEN conjunct1])
  have old: "visible ?t s \<longleftrightarrow> visible t s" "slot_at ?t s = slot_at t s \<or> \<not> visible t s" if "s \<le> ?h" for s
  proof -
    have lt: "s - base_seq (t_index t) < length (records (t_index t)) \<or> s < base_seq (t_index t)"
      using that e by auto
    have "is_live (t_index ?t) s \<longleftrightarrow> is_live (t_index t) s"
      using lt len del[of "s - base_seq (t_index t)"] that e by (auto simp: is_live_iff sp(6) nth_append)
    moreover have "floor_earliest ?t \<le> s \<longleftrightarrow> floor_earliest t \<le> s"
      using floors_earliest_le[of "t_head_seq ?t" s] floors_earliest_le[of ?h s] that h
      by (simp add: floor_earliest_def sp(4,7) base)
    ultimately show "visible ?t s \<longleftrightarrow> visible t s"
      using h that by (simp add: visible_floor sp(4))
    show "slot_at ?t s = slot_at t s \<or> \<not> visible t s"
      using er[of "s - base_seq (t_index t)"] len by (auto simp: visible_def is_live_iff slot_at_def sp(6) nth_append)
  qed
  have new: "visible ?t (Suc ?h + i)" "slot_at ?t (Suc ?h + i) = erase (rs ! i)" if i: "i < length rs" for i
  proof -
    have idx: "Suc (?h + i) - base_seq (t_index t) = length (records (t_index t)) + i" and ge: "base_seq (t_index t) \<le> Suc (?h + i)"
      using e by simp_all
    have "is_live (t_index ?t) (Suc ?h + i)"
      using i len ge live del[of "length (records (t_index t)) + i"] by (simp add: is_live_iff sp(6) idx)
    moreover have "floor_earliest ?t \<le> Suc ?h + i"
      using floors_earliest_le[of "t_head_seq ?t" "Suc ?h + i"] fl h i
      by (simp add: floor_earliest_def sp(4,7) base floors_settled_def)
    ultimately show "visible ?t (Suc ?h + i)"
      using h i by (simp add: visible_floor sp(4))
    show "slot_at ?t (Suc ?h + i) = erase (rs ! i)"
      using er[of "length (records (t_index t)) + i"] i len by (simp add: slot_at_def sp(6) idx)
  qed
  have split: "[0..<Suc (t_head_seq ?t)] = [0..<Suc ?h] @ [Suc ?h..<Suc ?h + length rs]"
    using upt_add_eq_append[of 0 "Suc ?h" "length rs"] by (simp add: sp(4) del: upt_Suc)
  have "map (\<lambda>s. (s, slot_at ?t s)) (filter (visible ?t) [0..<Suc ?h]) = view t"
  proof -
    have "slot_at ?t s = slot_at t s" if "s \<in> set (filter (visible t) [0..<Suc ?h])" for s
      using old(2)[of s] that by (auto simp del: upt_Suc)
    moreover have "filter (visible ?t) [0..<Suc ?h] = filter (visible t) [0..<Suc ?h]"
      using old(1) by (intro filter_cong) (auto simp del: upt_Suc)
    ultimately show ?thesis
      unfolding view_def by (intro map_cong) (auto simp del: upt_Suc)
  qed
  moreover have "filter (visible ?t) [Suc ?h..<Suc ?h + length rs] = [Suc ?h..<Suc ?h + length rs]"
    using new(1) by (intro filter_True) (auto simp: le_iff_add)
  moreover have "map (\<lambda>s. (s, slot_at ?t s)) [Suc ?h..<Suc ?h + length rs] = zip [Suc ?h..<Suc ?h + length rs] (map erase rs)"
    using new(2) by (intro nth_equalityI) (auto simp del: upt_Suc)
  ultimately show ?thesis
    unfolding view_def[of ?t] split sp(1) by (simp del: upt_Suc)
qed

end
