(* ===== verification/Diff.thy ===== *)
theory Diff
  imports Topic_Deletes Filters
begin

text \<open>
  Reading a topic from a cursor (\<open>Engine::diff\<close> in \<open>engine/mod.rs\<close>): the clamped limits, the
  tombstone for an involuntary gap, the walk over the index under the record limit and the byte
  budget, and the resolution of sealed payloads. Proved: a batch is exactly the deliverable
  records between the old and the new cursor, every batch makes progress, and repeating the
  read until it is caught up delivers every deliverable record once, in order.
\<close>

record diff_request =
  dq_from_seq :: seq
  dq_limit :: nat
  dq_node :: "node_filter option"
  dq_include_tags :: bool
  dq_include_meta :: bool
  dq_max_batch_bytes :: nat

record diff_response =
  dr_records :: "record_out list"
  dr_next_from_seq :: seq
  dr_head_seq :: seq
  dr_earliest_seq :: seq
  dr_caught_up :: bool
  dr_tombstone :: "tombstone option"
  dr_lag :: nat
  dr_scanned :: nat
  dr_cold_segments_read :: nat

definition DEFAULT_LIMIT :: nat where
  "DEFAULT_LIMIT = 256"

definition MAX_LIMIT :: nat where
  "MAX_LIMIT = 1000"

definition DEFAULT_MAX_BATCH_BYTES :: nat where
  "DEFAULT_MAX_BATCH_BYTES = 1048576"

definition MAX_BATCH_BYTES :: nat where
  "MAX_BATCH_BYTES = 8388608"

definition clamp_limit :: "nat \<Rightarrow> nat" where
  "clamp_limit n = (if n = 0 then DEFAULT_LIMIT else min n MAX_LIMIT)"

definition clamp_batch_bytes :: "nat \<Rightarrow> nat" where
  "clamp_batch_bytes n = (if n = 0 then DEFAULT_MAX_BATCH_BYTES else min n MAX_BATCH_BYTES)"

section \<open>The walk\<close>

text \<open>What the walk reads, and what it accumulates.\<close>

record walk_ctx =
  wc_index :: topic_index
  wc_head :: seq
  wc_limit :: nat
  wc_budget :: nat
  wc_now :: i64
  wc_ttl :: u64
  wc_node :: "node_filter option"
  wc_tags :: bool
  wc_meta :: bool

record walk =
  wk_records :: "record_out list"
  wk_pending :: "(nat \<times> seq) list"
  wk_scanned :: nat
  wk_next :: seq
  wk_bytes :: nat

definition wire_record :: "walk_ctx \<Rightarrow> seq \<Rightarrow> stored_record \<Rightarrow> record_out" where
  "wire_record c s r =
     \<lparr>ro_seq = s, ro_ts = sr_ts r, ro_node = sr_node r, ro_tag = (if wc_tags c then sr_tag r else None),
      ro_type = None,
      ro_data = (if sr_payload_resident r then sr_data r else JNull),
      ro_meta = (if sr_payload_resident r \<and> wc_meta c then sr_meta r else None)\<rparr>"

definition decide :: "walk_ctx \<Rightarrow> stored_record \<Rightarrow> read_decision" where
  "decide c r = evaluate (wc_node c) (wc_ttl c) (wc_now c) (sr_ts r) (sr_deleted r) (sr_node r)"

definition deliver_one :: "walk_ctx \<Rightarrow> seq \<Rightarrow> stored_record \<Rightarrow> walk \<Rightarrow> walk" where
  "deliver_one c s r w =
     w\<lparr>wk_bytes := sat_add (wk_bytes w) (sr_bytes r), wk_scanned := wk_scanned w + 1,
       wk_pending := (if sr_payload_resident r then wk_pending w
                      else wk_pending w @ [(length (wk_records w), s)]),
       wk_records := wk_records w @ [wire_record c s r], wk_next := s\<rparr>"

function diff_walk :: "walk_ctx \<Rightarrow> seq \<Rightarrow> walk \<Rightarrow> walk" where
  "diff_walk c s w =
     (if s \<le> wc_head c \<and> length (wk_records w) < wc_limit c then
        case ix_get (wc_index c) s of
          None \<Rightarrow> diff_walk c (s + 1) (w\<lparr>wk_next := s\<rparr>)
        | Some r \<Rightarrow>
            if decide c r = Deliver then
              if wk_records w \<noteq> [] \<and> sat_add (wk_bytes w) (sr_bytes r) > wc_budget c then w
              else diff_walk c (s + 1) (deliver_one c s r w)
            else diff_walk c (s + 1) (w\<lparr>wk_scanned := wk_scanned w + 1, wk_next := s\<rparr>)
      else w)"
  by auto
termination
  by (relation "measure (\<lambda>(c, s, w). Suc (wc_head c) - s)") auto

declare diff_walk.simps [simp del]

section \<open>Sealed payloads and the response\<close>

definition resolve_sealed_off_lock ::
  "env \<Rightarrow> seq \<Rightarrow> nat \<Rightarrow> topic_state \<Rightarrow> topic_state \<times> resolved_payload \<times> nat" where
  "resolve_sealed_off_lock env s cold_reads t =
     (let none = \<lparr>rp_data = JNull, rp_meta = None\<rparr> in
      case t_segwriter t of
        None \<Rightarrow> (t, none, cold_reads)
      | Some w \<Rightarrow>
          (case resolve_sealed_fast w s of
             Hit p \<Rightarrow> (t, p, cold_reads)
           | Read loc \<Rightarrow>
               (let cold_reads = (if ss_tier (loc_seg loc) = Cold then cold_reads + 1 else cold_reads) in
                case read_locator env loc of
                  Some p \<Rightarrow> (t\<lparr>t_segwriter := Some (record_cold_read loc p w)\<rparr>, p, cold_reads)
                | None \<Rightarrow> (t, none, cold_reads))
           | NotSealed \<Rightarrow> (t, none, cold_reads)))"

fun resolve_pending ::
  "env \<Rightarrow> bool \<Rightarrow> (nat \<times> seq) list \<Rightarrow> record_out list \<Rightarrow> nat \<Rightarrow> topic_state \<Rightarrow>
     topic_state \<times> record_out list \<times> nat" where
  "resolve_pending env meta [] recs ncold t = (t, recs, ncold)"
| "resolve_pending env meta ((i, s) # ps) recs ncold t =
     (let (t, p, ncold) = resolve_sealed_off_lock env s ncold t;
          recs = recs[i := (recs ! i)\<lparr>ro_data := rp_data p, ro_meta := (if meta then rp_meta p else None)\<rparr>]
      in resolve_pending env meta ps recs ncold t)"

definition diff_start :: "seq \<Rightarrow> topic_state \<Rightarrow> seq \<times> tombstone option" where
  "diff_start from_seq t =
     (let head = t_head_seq t;
          earliest = earliest_seq t;
          evict_earliest = evict_earliest_seq t
      in if from_seq > head then
           (earliest - 1,
            Some \<lparr>gap_from = t_seq_base t, gap_to = head, ts_reason = Recreated,
                  missed_estimate = sat_add (head - t_seq_base t) 1,
                  ts_earliest_seq = earliest, ts_head_seq = head\<rparr>)
         else if sat_add from_seq 1 < evict_earliest then
           (max (earliest - 1) from_seq,
            Some (build_tombstone from_seq evict_earliest head
                    (reason_for_gap (t_floors t) (sat_add from_seq 1))))
         else (from_seq, None))"

definition walk_context :: "i64 \<Rightarrow> diff_request \<Rightarrow> topic_state \<Rightarrow> walk_ctx" where
  "walk_context now req t =
     \<lparr>wc_index = t_index t, wc_head = t_head_seq t, wc_limit = clamp_limit (dq_limit req),
      wc_budget = clamp_batch_bytes (dq_max_batch_bytes req), wc_now = now,
      wc_ttl = cfg_ttl_ms (t_config t),
      wc_node = (if cfg_dedupe_node (t_config t) then dq_node req else None),
      wc_tags = dq_include_tags req, wc_meta = dq_include_meta req\<rparr>"

definition walk_from :: "seq \<Rightarrow> walk" where
  "walk_from cursor = \<lparr>wk_records = [], wk_pending = [], wk_scanned = 0, wk_next = cursor, wk_bytes = 0\<rparr>"

text \<open>The read itself, after routers were caught up and retention was enforced.\<close>

definition diff_read :: "env \<Rightarrow> i64 \<Rightarrow> diff_request \<Rightarrow> topic_state \<Rightarrow> topic_state \<times> diff_response" where
  "diff_read env now req t =
     (let t = t\<lparr>t_last_read_ms := now, t_last_consumed_ms := now\<rparr>;
          head = t_head_seq t;
          earliest = earliest_seq t;
          (cursor, tomb) = diff_start (dq_from_seq req) t;
          w = diff_walk (walk_context now req t) (sat_add cursor 1) (walk_from cursor);
          (t, recs, ncold) = resolve_pending env (dq_include_meta req) (wk_pending w) (wk_records w) 0 t
      in (t, \<lparr>dr_records = recs, dr_next_from_seq = wk_next w, dr_head_seq = head, dr_earliest_seq = earliest,
              dr_caught_up = (wk_next w = head), dr_tombstone = tomb, dr_lag = head - wk_next w,
              dr_scanned = wk_scanned w, dr_cold_segments_read = ncold\<rparr>))"

section \<open>What a walk delivers\<close>

definition deliverable :: "walk_ctx \<Rightarrow> seq \<Rightarrow> bool" where
  "deliverable c s \<longleftrightarrow> (case ix_get (wc_index c) s of Some r \<Rightarrow> decide c r = Deliver | None \<Rightarrow> False)"

lemma wire_record_seq [simp]: "ro_seq (wire_record c s r) = s"
  by (simp add: wire_record_def)

lemma deliver_one_simps [simp]:
  "wk_records (deliver_one c s r w) = wk_records w @ [wire_record c s r]" "wk_next (deliver_one c s r w) = s"
  "wk_bytes (deliver_one c s r w) = sat_add (wk_bytes w) (sr_bytes r)"
  by (simp_all add: deliver_one_def)

lemma diff_walk_next:
  "Suc (wk_next w) = s \<Longrightarrow> wk_next w \<le> wk_next (diff_walk c s w) \<and> wk_next (diff_walk c s w) \<le> max (wc_head c) (wk_next w)"
proof (induction c s w rule: diff_walk.induct)
  case (1 c s w)
  show ?case
  proof (cases "s \<le> wc_head c \<and> length (wk_records w) < wc_limit c")
    case True
    then show ?thesis
      using 1(1,2,3)[OF True] 1(4) by (subst (1 2) diff_walk.simps) (fastforce split: option.splits)
  next
    case False
    then show ?thesis
      by (subst (1 2) diff_walk.simps) auto
  qed
qed

text \<open>A loop rule for the walk: one case per way round the loop.\<close>

lemma diff_walk_step:
  assumes "s \<le> wc_head c" "length (wk_records w) < wc_limit c"
  shows "\<not> deliverable c s \<Longrightarrow> \<exists>n. diff_walk c s w = diff_walk c (Suc s) (w\<lparr>wk_scanned := n, wk_next := s\<rparr>)"
    and "deliverable c s \<Longrightarrow> \<exists>r. ix_get (wc_index c) s = Some r \<and> decide c r = Deliver \<and>
      diff_walk c s w = (if wk_records w \<noteq> [] \<and> sat_add (wk_bytes w) (sr_bytes r) > wc_budget c then w
        else diff_walk c (Suc s) (deliver_one c s r w))"
proof -
  show "\<exists>n. diff_walk c s w = diff_walk c (Suc s) (w\<lparr>wk_scanned := n, wk_next := s\<rparr>)" if no: "\<not> deliverable c s"
  proof (cases "ix_get (wc_index c) s")
    case None
    then have "diff_walk c s w = diff_walk c (Suc s) (w\<lparr>wk_next := s\<rparr>)"
      using assms by (subst diff_walk.simps) simp
    moreover have "w\<lparr>wk_next := s\<rparr> = w\<lparr>wk_scanned := wk_scanned w, wk_next := s\<rparr>"
      by simp
    ultimately show ?thesis by metis
  next
    case (Some r)
    then show ?thesis
      using assms no by (subst diff_walk.simps) (auto simp: deliverable_def)
  qed
  show "\<exists>r. ix_get (wc_index c) s = Some r \<and> decide c r = Deliver \<and>
      diff_walk c s w = (if wk_records w \<noteq> [] \<and> sat_add (wk_bytes w) (sr_bytes r) > wc_budget c then w
        else diff_walk c (Suc s) (deliver_one c s r w))" if "deliverable c s"
    using that assms by (subst diff_walk.simps) (auto simp: deliverable_def split: option.splits)
qed

lemma diff_walk_done: "\<not> (s \<le> wc_head c \<and> length (wk_records w) < wc_limit c) \<Longrightarrow> diff_walk c s w = w"
  by (subst diff_walk.simps) (simp add: if_not_P)

lemma diff_walk_rule [consumes 1, case_names stop over deliver skip]:
  assumes start: "Suc (wk_next w) = s"
    and stop: "\<And>s w. Suc (wk_next w) = s \<Longrightarrow> \<not> (s \<le> wc_head c \<and> length (wk_records w) < wc_limit c) \<Longrightarrow> P s w w"
    and over: "\<And>s w r. Suc (wk_next w) = s \<Longrightarrow> s \<le> wc_head c \<Longrightarrow> length (wk_records w) < wc_limit c \<Longrightarrow>
      ix_get (wc_index c) s = Some r \<Longrightarrow> deliverable c s \<Longrightarrow>
      wk_records w \<noteq> [] \<Longrightarrow> sat_add (wk_bytes w) (sr_bytes r) > wc_budget c \<Longrightarrow> P s w w"
    and deliver: "\<And>s w r w'. Suc (wk_next w) = s \<Longrightarrow> s \<le> wc_head c \<Longrightarrow> length (wk_records w) < wc_limit c \<Longrightarrow>
      ix_get (wc_index c) s = Some r \<Longrightarrow> deliverable c s \<Longrightarrow>
      wk_records w = [] \<or> sat_add (wk_bytes w) (sr_bytes r) \<le> wc_budget c \<Longrightarrow>
      s \<le> wk_next w' \<Longrightarrow> P (Suc s) (deliver_one c s r w) w' \<Longrightarrow> P s w w'"
    and skip: "\<And>s w n w'. Suc (wk_next w) = s \<Longrightarrow> s \<le> wc_head c \<Longrightarrow> length (wk_records w) < wc_limit c \<Longrightarrow>
      \<not> deliverable c s \<Longrightarrow> s \<le> wk_next w' \<Longrightarrow> P (Suc s) (w\<lparr>wk_scanned := n, wk_next := s\<rparr>) w' \<Longrightarrow> P s w w'"
  shows "P s w (diff_walk c s w)"
  using start
proof (induction "Suc (wc_head c) - s" arbitrary: s w rule: less_induct)
  case less
  show ?case
  proof (cases "s \<le> wc_head c \<and> length (wk_records w) < wc_limit c")
    case go: True
    have dec: "Suc (wc_head c) - Suc s < Suc (wc_head c) - s"
      using go by linarith
    show ?thesis
    proof (cases "deliverable c s")
      case True
      obtain r where r: "ix_get (wc_index c) s = Some r" "decide c r = Deliver"
        and eq: "diff_walk c s w = (if wk_records w \<noteq> [] \<and> sat_add (wk_bytes w) (sr_bytes r) > wc_budget c then w
          else diff_walk c (Suc s) (deliver_one c s r w))"
        using diff_walk_step(2)[of s c w] go True by auto
      show ?thesis
      proof (cases "wk_records w \<noteq> [] \<and> sat_add (wk_bytes w) (sr_bytes r) > wc_budget c")
        case True
        then show ?thesis
          using eq over[OF less(2) _ _ r(1)] go \<open>deliverable c s\<close> by auto
      next
        case False
        have "P (Suc s) (deliver_one c s r w) (diff_walk c (Suc s) (deliver_one c s r w))"
          by (rule less(1)[OF dec]) simp
        moreover have "s \<le> wk_next (diff_walk c (Suc s) (deliver_one c s r w))"
          using diff_walk_next[of "deliver_one c s r w" "Suc s" c] by simp
        ultimately show ?thesis
          using eq False deliver[OF less(2) _ _ r(1) True] go by auto
      qed
    next
      case False
      obtain n where eq: "diff_walk c s w = diff_walk c (Suc s) (w\<lparr>wk_scanned := n, wk_next := s\<rparr>)"
        using diff_walk_step(1)[of s c w] go False by auto
      have "P (Suc s) (w\<lparr>wk_scanned := n, wk_next := s\<rparr>) (diff_walk c (Suc s) (w\<lparr>wk_scanned := n, wk_next := s\<rparr>))"
        by (rule less(1)[OF dec]) simp
      moreover have "s \<le> wk_next (diff_walk c (Suc s) (w\<lparr>wk_scanned := n, wk_next := s\<rparr>))"
        using diff_walk_next[of "w\<lparr>wk_scanned := n, wk_next := s\<rparr>" "Suc s" c] by simp
      ultimately show ?thesis
        using eq skip[OF less(2) _ _ False] go by auto
    qed
  next
    case False
    then show ?thesis
      using diff_walk_done[OF False] stop[OF less(2) False] by simp
  qed
qed

lemma upt_step: "s \<le> n \<Longrightarrow> [s..<Suc n] = s # [Suc s..<Suc n]"
  by (simp add: upt_conv_Cons del: upt_Suc)

lemma diff_walk_seqs:
  assumes "Suc (wk_next w) = s"
  shows "map ro_seq (wk_records (diff_walk c s w)) = map ro_seq (wk_records w) @ filter (deliverable c) [s..<Suc (wk_next (diff_walk c s w))]"
  using assms by (induction rule: diff_walk_rule) (auto simp add: upt_step simp del: upt_Suc)

lemma diff_walk_limit:
  assumes "Suc (wk_next w) = s"
  shows "length (wk_records w) \<le> wc_limit c \<longrightarrow> length (wk_records (diff_walk c s w)) \<le> wc_limit c"
  using assms by (induction rule: diff_walk_rule) auto

lemma diff_walk_stop:
  assumes "Suc (wk_next w) = s"
  shows "wk_next (diff_walk c s w) < wc_head c \<longrightarrow>
     wc_limit c \<le> length (wk_records (diff_walk c s w)) \<or>
     (wk_records (diff_walk c s w) \<noteq> [] \<and> deliverable c (Suc (wk_next (diff_walk c s w))))"
  using assms by (induction rule: diff_walk_rule) auto

lemma diff_walk_budget:
  assumes "Suc (wk_next w) = s"
  shows "length (wk_records w) \<le> 1 \<and> (wk_records w = [] \<longrightarrow> wk_bytes w = 0) \<or> wk_bytes w \<le> wc_budget c \<longrightarrow>
     length (wk_records (diff_walk c s w)) \<le> 1 \<or> wk_bytes (diff_walk c s w) \<le> wc_budget c"
  using assms by (induction rule: diff_walk_rule) auto

text \<open>The bytes counted are those of the records delivered.\<close>

definition seq_bytes :: "topic_index \<Rightarrow> seq \<Rightarrow> nat" where
  "seq_bytes ix s = (case ix_get ix s of Some r \<Rightarrow> sr_bytes r | None \<Rightarrow> 0)"

lemma diff_walk_bytes:
  assumes "Suc (wk_next w) = s"
  shows "wk_bytes w \<le> u64_max \<longrightarrow> wk_bytes (diff_walk c s w) =
     min (wk_bytes w + sum_list (map (seq_bytes (wc_index c)) (filter (deliverable c) [s..<Suc (wk_next (diff_walk c s w))]))) u64_max"
  using assms
proof (induction rule: diff_walk_rule)
  case (deliver s w r w')
  then show ?case
    by (auto simp: upt_step seq_bytes_def sat_add_def simp del: upt_Suc)
qed (auto simp: upt_step simp del: upt_Suc)

section \<open>The response\<close>

text \<open>The filter a reader applies to a live slot.\<close>

definition passes :: "i64 \<Rightarrow> diff_request \<Rightarrow> topic_state \<Rightarrow> seq \<Rightarrow> bool" where
  "passes now req t s \<longleftrightarrow> (let r = records (t_index t) ! (s - base_seq (t_index t)) in
     \<not> ttl_expired (cfg_ttl_ms (t_config t)) now (sr_ts r) \<and>
     \<not> (cfg_dedupe_node (t_config t) \<and>
        (case (dq_node req, sr_node r) of (Some f, Some node) \<Rightarrow> node_filter_matches f node | _ \<Rightarrow> False)))"

lemma deliverable_iff:
  "deliverable (walk_context now req t) s \<longleftrightarrow> is_live (t_index t) s \<and> passes now req t s"
  by (auto simp: deliverable_def walk_context_def decide_def evaluate_deliver_iff is_live_iff passes_def ix_get_def Let_def
      split: option.splits)

lemma resolve_sealed_sim: "topic_sim t (fst (resolve_sealed_off_lock env s n t))" "t_index (fst (resolve_sealed_off_lock env s n t)) = t_index t"
  by (auto simp: resolve_sealed_off_lock_def topic_sim_def Let_def split: option.splits sealed_resolve.splits)

lemma resolve_pending_seqs: "map ro_seq (fst (snd (resolve_pending env m ps recs n t))) = map ro_seq recs"
proof (induction ps arbitrary: recs n t)
  case (Cons p ps)
  have "map ro_seq (recs[i := (recs ! i)\<lparr>ro_data := d, ro_meta := e\<rparr>]) = map ro_seq recs" for i d e
    by (cases "i < length recs") (auto intro!: nth_equalityI simp: nth_list_update)
  then show ?case
    using Cons by (cases p) (simp add: Let_def split_beta)
qed simp

lemma resolve_pending_sim: "topic_sim t (fst (resolve_pending env m ps recs n t)) \<and> t_index (fst (resolve_pending env m ps recs n t)) = t_index t"
proof (induction ps arbitrary: recs n t)
  case (Cons p ps)
  obtain i s where p: "p = (i, s)" by fastforce
  show ?case
    using Cons[where t = "fst (resolve_sealed_off_lock env s n t)"] resolve_sealed_sim[where t=t and env=env and s=s and n=n]
    by (auto simp: p Let_def split_beta intro: topic_sim_trans)
qed simp

abbreviation touched :: "i64 \<Rightarrow> topic_state \<Rightarrow> topic_state" where
  "touched now t \<equiv> t\<lparr>t_last_read_ms := now, t_last_consumed_ms := now\<rparr>"

lemma touched_simps [simp]:
  "walk_context now req (touched now t) = walk_context now req t" "diff_start f (touched now t) = diff_start f t"
  "earliest_seq (touched now t) = earliest_seq t" "topic_sim t (touched now t)"
  by (simp_all add: walk_context_def diff_start_def earliest_seq_def evict_earliest_seq_def topic_sim_def Let_def)

definition diff_cursor :: "diff_request \<Rightarrow> topic_state \<Rightarrow> seq" where
  "diff_cursor req t = fst (diff_start (dq_from_seq req) t)"

lemma diff_read_unfold:
  fixes env now req t
  defines "w \<equiv> diff_walk (walk_context now req t) (sat_add (diff_cursor req t) 1) (walk_from (diff_cursor req t))"
  shows "map ro_seq (dr_records (snd (diff_read env now req t))) = map ro_seq (wk_records w)"
    and "dr_next_from_seq (snd (diff_read env now req t)) = wk_next w"
    and "dr_caught_up (snd (diff_read env now req t)) \<longleftrightarrow> wk_next w = t_head_seq t"
    and "dr_tombstone (snd (diff_read env now req t)) = snd (diff_start (dq_from_seq req) t)"
    and "dr_head_seq (snd (diff_read env now req t)) = t_head_seq t"
    and "topic_sim t (fst (diff_read env now req t))"
    and "t_index (fst (diff_read env now req t)) = t_index t"
  using resolve_pending_seqs resolve_pending_sim[of "touched now t" env "dq_include_meta req"]
    topic_sim_trans[of t "touched now t"]
  by (simp_all add: diff_read_def Let_def split_beta w_def diff_cursor_def)

lemma diff_cursor_le:
  "diff_cursor req t \<le> t_head_seq t"
  "dq_from_seq req \<le> t_head_seq t \<Longrightarrow> dq_from_seq req \<le> diff_cursor req t"
  by (auto simp: diff_cursor_def diff_start_def Let_def earliest_seq_def sat_add_def)

lemma evict_earliest_le: "evict_earliest_seq t \<le> earliest_seq t"
proof -
  have "evict_earliest_seq t \<le> sat_add (t_head_seq t) 1"
    by (simp add: evict_earliest_seq_def floors_evict_earliest_def Let_def)
  then show ?thesis
    using floors_evict_earliest_le[of "t_floors t" "t_seq_base t" "t_head_seq t"]
    by (simp add: earliest_seq_def Let_def evict_earliest_seq_def le_max_iff_disj)
qed

text \<open>No readable record is lost when the cursor jumps over a gap.\<close>

lemma visible_after_cursor:
  assumes "visible t s" "dq_from_seq req < s \<or> t_head_seq t < dq_from_seq req"
  shows "diff_cursor req t < s \<or> s = 0"
  using assms by (auto simp: visible_def diff_cursor_def diff_start_def Let_def)

lemma diff_read_spec:
  fixes env now req t
  assumes h: "t_head_seq t < u64_max"
  defines "out \<equiv> snd (diff_read env now req t)" and "c \<equiv> diff_cursor req t"
  shows "map ro_seq (dr_records out) =
      filter (\<lambda>s. is_live (t_index t) s \<and> passes now req t s) [Suc c..<Suc (dr_next_from_seq out)]"
    and "c \<le> dr_next_from_seq out" "dr_next_from_seq out \<le> t_head_seq t"
    and "dr_next_from_seq out < t_head_seq t \<Longrightarrow> dr_records out \<noteq> []"
    and "length (dr_records out) \<le> clamp_limit (dq_limit req)"
proof -
  let ?ctx = "walk_context now req t" and ?w = "walk_from c"
  have c: "c \<le> t_head_seq t"
    by (simp add: c_def diff_cursor_le)
  then have sat: "sat_add c 1 = Suc c"
    using h by (simp add: sat_add_def)
  have start: "Suc (wk_next ?w) = Suc c" and empty: "wk_records ?w = []"
    by (simp_all add: walk_from_def)
  note u = diff_read_unfold[where env=env and now=now and req=req and t=t, folded c_def out_def, unfolded sat]
  have ctx: "wc_head ?ctx = t_head_seq t" "wc_limit ?ctx = clamp_limit (dq_limit req)"
    by (simp_all add: walk_context_def)
  show "map ro_seq (dr_records out) = filter (\<lambda>s. is_live (t_index t) s \<and> passes now req t s) [Suc c..<Suc (dr_next_from_seq out)]"
    using diff_walk_seqs[OF start, of ?ctx] by (simp add: u empty deliverable_iff[abs_def] del: upt_Suc)
  show "c \<le> dr_next_from_seq out" "dr_next_from_seq out \<le> t_head_seq t"
    using diff_walk_next[OF start, of ?ctx] c by (simp_all add: u ctx walk_from_def)
  have len: "length (dr_records out) = length (wk_records (diff_walk ?ctx (Suc c) ?w))"
    using arg_cong[OF u(1), of length] by simp
  show "length (dr_records out) \<le> clamp_limit (dq_limit req)"
    using diff_walk_limit[OF start, of ?ctx] by (simp add: len ctx empty)
  have "0 < clamp_limit (dq_limit req)"
    by (simp add: clamp_limit_def DEFAULT_LIMIT_def MAX_LIMIT_def)
  then show "dr_records out \<noteq> []" if "dr_next_from_seq out < t_head_seq t"
    using diff_walk_stop[OF start, of ?ctx] that len by (auto simp: u ctx)
qed

lemma diff_read_bytes:
  fixes env now req t
  assumes h: "t_head_seq t < u64_max"
  shows "length (dr_records (snd (diff_read env now req t))) \<le> 1 \<or>
    sum_list (map (seq_bytes (t_index t)) (map ro_seq (dr_records (snd (diff_read env now req t))))) \<le> clamp_batch_bytes (dq_max_batch_bytes req)"
proof -
  let ?c = "diff_cursor req t"
  define w where "w = diff_walk (walk_context now req t) (Suc ?c) (walk_from ?c)"
  have sat: "sat_add ?c (Suc 0) = Suc ?c"
    using h diff_cursor_le(1)[of req t] by (simp add: sat_add_def)
  have start: "Suc (wk_next (walk_from ?c)) = Suc ?c"
    by (simp add: walk_from_def)
  have seqs: "map ro_seq (dr_records (snd (diff_read env now req t))) = map ro_seq (wk_records w)"
    by (simp add: diff_read_unfold(1) w_def sat)
  then have len: "length (dr_records (snd (diff_read env now req t))) = length (wk_records w)"
    by (metis length_map)
  have "wk_bytes w = min (sum_list (map (seq_bytes (t_index t)) (map ro_seq (wk_records w)))) u64_max"
    using diff_walk_bytes[OF start, of "walk_context now req t"] diff_walk_seqs[OF start, of "walk_context now req t"]
    by (simp add: w_def walk_from_def walk_context_def del: upt_Suc)
  moreover have "length (wk_records w) \<le> 1 \<or> wk_bytes w \<le> clamp_batch_bytes (dq_max_batch_bytes req)"
    using diff_walk_budget[OF start, of "walk_context now req t"] by (auto simp: w_def walk_context_def walk_from_def)
  moreover have "clamp_batch_bytes (dq_max_batch_bytes req) < u64_max"
    by (simp add: clamp_batch_bytes_def DEFAULT_MAX_BATCH_BYTES_def MAX_BATCH_BYTES_def u64_max_def min_less_iff_disj)
  ultimately show ?thesis
    unfolding seqs len by auto
qed

section \<open>Reading to the head\<close>

text \<open>
  A consumer that follows \<open>next_from_seq\<close> until \<open>caught_up\<close>. Every read that does not catch up
  delivers something, so the head's distance bounds the number of reads.
\<close>

fun read_all :: "env \<Rightarrow> i64 \<Rightarrow> diff_request \<Rightarrow> nat \<Rightarrow> topic_state \<Rightarrow> seq list option" where
  "read_all env now req 0 t = None"
| "read_all env now req (Suc fuel) t =
     (let (t', out) = diff_read env now req t;
          got = map ro_seq (dr_records out)
      in if dr_caught_up out then Some got
         else map_option (\<lambda>more. got @ more) (read_all env now (req\<lparr>dq_from_seq := dr_next_from_seq out\<rparr>) fuel t'))"

lemma diff_start_sim: "topic_sim t t' \<Longrightarrow> diff_start f t' = diff_start f t"
  using topic_sim_earliest[of t t'] by (simp add: diff_start_def Let_def topic_sim_def)

lemma passes_index: "t_index t' = t_index t \<Longrightarrow> t_config t' = t_config t \<Longrightarrow> passes now req t' s = passes now req t s"
  by (simp add: passes_def)

lemma passes_from_seq [simp]: "passes now (req\<lparr>dq_from_seq := f\<rparr>) t s = passes now req t s"
  by (simp add: passes_def)

lemma diff_cursor_resume:
  assumes "diff_cursor req t \<le> n" "n \<le> t_head_seq t" "t_head_seq t < u64_max" "evict_earliest_seq t \<le> Suc (diff_cursor req t)"
  shows "diff_cursor (req\<lparr>dq_from_seq := n\<rparr>) t = n"
  using assms by (auto simp: diff_cursor_def diff_start_def Let_def sat_add_def)

lemma cursor_above_gap: "evict_earliest_seq t \<le> Suc (diff_cursor req t)"
  using evict_earliest_le[of t] by (auto simp: diff_cursor_def diff_start_def Let_def sat_add_def)

lemma upt_split: "a \<le> b \<Longrightarrow> b \<le> c \<Longrightarrow> [Suc a..<Suc b] @ [Suc b..<Suc c] = [Suc a..<Suc c]"
  by (metis le_Suc_eq Suc_le_mono le_iff_add upt_add_eq_append)

lemma read_all_spec:
  assumes "t_head_seq t < u64_max" "t_head_seq t - diff_cursor req t < fuel"
  shows "read_all env now req fuel t =
    Some (filter (\<lambda>s. is_live (t_index t) s \<and> passes now req t s) [Suc (diff_cursor req t)..<Suc (t_head_seq t)])"
  using assms
proof (induction fuel arbitrary: req t)
  case (Suc fuel)
  define out where "out = snd (diff_read env now req t)"
  define t' where "t' = fst (diff_read env now req t)"
  let ?c = "diff_cursor req t" and ?n = "dr_next_from_seq out" and ?P = "\<lambda>s. is_live (t_index t) s \<and> passes now req t s"
  note sp = diff_read_spec[OF Suc(2), where env=env and now=now and req=req, folded out_def]
  note u = diff_read_unfold[where env=env and now=now and req=req and t=t, folded out_def t'_def]
  have sim: "topic_sim t t'" and ix: "t_index t' = t_index t"
    using u by blast+
  then have t': "t_head_seq t' = t_head_seq t" "t_config t' = t_config t"
    by (simp_all add: topic_sim_def)
  have caught: "dr_caught_up out \<longleftrightarrow> ?n = t_head_seq t"
    using u by simp
  show ?case
  proof (cases "dr_caught_up out")
    case True
    then show ?thesis
      using sp(1) caught by (simp add: Let_def split_beta out_def[symmetric] del: upt_Suc)
  next
    case False
    then have lt: "?n < t_head_seq t"
      using caught sp(3) by simp
    then have "dr_records out \<noteq> []"
      by (rule sp(4))
    then have "?c < ?n"
      using sp(1,2) by (metis append_Nil filter.simps(1) le_neq_implies_less list.map_disc_iff upt_rec lessI less_irrefl)
    define req' where "req' = req\<lparr>dq_from_seq := ?n\<rparr>"
    have cur: "diff_cursor req' t' = ?n"
      using diff_cursor_resume[OF sp(2) sp(3) Suc(2) cursor_above_gap] diff_start_sim[OF sim]
      by (simp add: req'_def diff_cursor_def)
    have "read_all env now req' fuel t' =
        Some (filter (\<lambda>s. is_live (t_index t') s \<and> passes now req' t' s) [Suc (diff_cursor req' t')..<Suc (t_head_seq t')])"
      using Suc(2,3) \<open>?c < ?n\<close> lt cur by (intro Suc(1)) (simp_all add: t')
    then have "read_all env now req' fuel t' = Some (filter ?P [Suc ?n..<Suc (t_head_seq t)])"
      unfolding cur t' ix passes_index[OF ix t'(2)] by (simp add: req'_def del: upt_Suc)
    then show ?thesis
      using False sp(1) upt_split[OF sp(2) sp(3)]
      by (simp add: Let_def split_beta out_def[symmetric] t'_def[symmetric] req'_def[symmetric] filter_append[symmetric]
          del: upt_Suc filter_append)
  qed
qed simp

section \<open>Tombstones\<close>

text \<open>A gap is reported exactly for a stale cursor or for involuntary loss, never for a delete.\<close>

lemma tombstone_iff:
  "dr_tombstone (snd (diff_read env now req t)) \<noteq> None \<longleftrightarrow>
     t_head_seq t < dq_from_seq req \<or> sat_add (dq_from_seq req) 1 < evict_earliest_seq t"
  by (auto simp: diff_read_unfold(4) diff_start_def Let_def)

lemma tombstone_gap:
  assumes "dr_tombstone (snd (diff_read env now req t)) = Some tb" "dq_from_seq req \<le> t_head_seq t" "t_head_seq t < u64_max"
  shows "gap_from tb = Suc (dq_from_seq req)" "gap_to tb = evict_earliest_seq t - 1"
    "\<forall>s. gap_from tb \<le> s \<and> s \<le> gap_to tb \<longrightarrow> \<not> visible t s"
    "gap_to tb \<le> diff_cursor req t"
proof -
  have lt: "sat_add (dq_from_seq req) 1 < evict_earliest_seq t"
    using assms(1,2) by (auto simp: diff_read_unfold(4) diff_start_def Let_def split: if_splits)
  have sat: "sat_add (dq_from_seq req) 1 = Suc (dq_from_seq req)"
    using assms(2,3) by (simp add: sat_add_def)
  have tb: "tb = build_tombstone (dq_from_seq req) (evict_earliest_seq t) (t_head_seq t) (reason_for_gap (t_floors t) (Suc (dq_from_seq req)))"
    using assms(1,2) lt sat by (auto simp: diff_read_unfold(4) diff_start_def Let_def)
  show "gap_from tb = Suc (dq_from_seq req)" "gap_to tb = evict_earliest_seq t - 1"
    by (simp_all add: tb build_tombstone_def Let_def sat[unfolded One_nat_def])
  then show "\<forall>s. gap_from tb \<le> s \<and> s \<le> gap_to tb \<longrightarrow> \<not> visible t s" "gap_to tb \<le> diff_cursor req t"
    using evict_earliest_le[of t] lt cursor_above_gap[of t req] by (auto simp: visible_def)
qed

end
