(* ===== verification/Reachability.thy ===== *)
theory Reachability
  imports Prelude
begin

text \<open>
  Step systems: an invariant kept by every step holds in every reachable state, a measure that
  no step lowers is monotone along runs, and a system that can always lower its pending work
  can be driven to rest. Clients interpret these on their own step relations.
\<close>

locale step_invariant =
  fixes step :: "'s \<Rightarrow> 's \<Rightarrow> bool" and inv :: "'s \<Rightarrow> bool"
  assumes step_inv: "inv s \<Longrightarrow> step s s' \<Longrightarrow> inv s'"
begin

lemma run_inv: "step\<^sup>*\<^sup>* s s' \<Longrightarrow> inv s \<Longrightarrow> inv s'"
  by (induction rule: rtranclp_induct) (auto intro: step_inv)

end

locale monotone_system = step_invariant step inv
  for step :: "'s \<Rightarrow> 's \<Rightarrow> bool" and inv :: "'s \<Rightarrow> bool" +
  fixes rank :: "'s \<Rightarrow> nat"
  assumes step_mono: "inv s \<Longrightarrow> step s s' \<Longrightarrow> rank s \<le> rank s'"
begin

lemma run_mono: "step\<^sup>*\<^sup>* s s' \<Longrightarrow> inv s \<Longrightarrow> rank s \<le> rank s'"
proof (induction rule: rtranclp_induct)
  case (step y z)
  then show ?case
    using step_mono[OF run_inv[OF step(1) step(4)] step(2)] by simp
qed simp

end

locale draining_system = step_invariant step inv
  for step :: "'s \<Rightarrow> 's \<Rightarrow> bool" and inv :: "'s \<Rightarrow> bool" +
  fixes pending :: "'s \<Rightarrow> nat"
  assumes progress: "inv s \<Longrightarrow> 0 < pending s \<Longrightarrow> \<exists>s'. step\<^sup>*\<^sup>* s s' \<and> pending s' < pending s"
begin

lemma drains: "inv s \<Longrightarrow> \<exists>s'. step\<^sup>*\<^sup>* s s' \<and> inv s' \<and> pending s' = 0"
proof (induction "pending s" arbitrary: s rule: less_induct)
  case less
  show ?case
  proof (cases "pending s = 0")
    case False
    then obtain s' where "step\<^sup>*\<^sup>* s s'" "pending s' < pending s"
      using progress[OF less(2)] by auto
    moreover from this obtain s'' where "step\<^sup>*\<^sup>* s' s''" "inv s''" "pending s'' = 0"
      using less(1)[of s'] run_inv[OF _ less(2)] by blast
    ultimately show ?thesis
      by (meson rtranclp_trans)
  qed (use less(2) in blast)
qed

end

end
