(* ===== verification/Publish_Gate.thy ===== *)
theory Publish_Gate
  imports Topic_Deletes Reachability
begin

text \<open>
  The publish gate of a topic (\<open>PublishGuard\<close> and the ticket functions of
  \<open>engine/topic_state.rs\<close>) as the writers of \<open>engine/mod.rs\<close> use it. Writers stage under the
  append lock and take a ticket; their log commits resolve in any order; publication, rollback
  and delete application happen in ticket order. Interleavings are the runs of an inductive
  step relation. Proved for every reachable state: the topic invariant, head monotonicity, that
  only committed records are ever readable, that tickets are released in order, and that the
  gate drains.
\<close>

section \<open>Guards\<close>

datatype unwind_action = NoUnwind | RollbackAppend seq nat | AbortProcess

record publish_guard =
  pg_ticket :: nat
  pg_waited :: bool
  pg_done :: bool
  pg_on_unwind :: unwind_action

text \<open>A writer in flight: what it will apply, its guard, and its commit token.\<close>

datatype flight_op = OpAppend staged_append | OpDelete "seq option" "tag_filter option" seq

datatype token = Pending | Committed | Failed

record flight =
  fl_op :: flight_op
  fl_guard :: publish_guard
  fl_token :: token

text \<open>
  The gate: the next ticket to hand out (\<open>publish_ticket\<close>), the ticket whose turn it is
  (\<open>publish_next\<close>), the writers holding tickets in ticket order, and, for the statements
  only, the sequences whose batch was committed.
\<close>

record gate =
  g_topic :: topic_state
  g_ticket :: nat
  g_next :: nat
  g_flights :: "flight list"
  g_committed :: "seq set"

definition gate_new :: "topic_state \<Rightarrow> gate" where
  "gate_new t = \<lparr>g_topic = t, g_ticket = 0, g_next = 0, g_flights = [], g_committed = {}\<rparr>"

definition next_publish_ticket :: "gate \<Rightarrow> gate \<times> publish_guard" where
  "next_publish_ticket g =
     (g\<lparr>g_ticket := g_ticket g + 1\<rparr>,
      \<lparr>pg_ticket = g_ticket g, pg_waited = False, pg_done = False, pg_on_unwind = NoUnwind\<rparr>)"

definition arm_append :: "staged_append \<Rightarrow> publish_guard \<Rightarrow> publish_guard" where
  "arm_append sa pg = pg\<lparr>pg_on_unwind := RollbackAppend (sa_start sa) (sa_count sa)\<rparr>"

definition arm_abort_on_unwind :: "publish_guard \<Rightarrow> publish_guard" where
  "arm_abort_on_unwind pg = pg\<lparr>pg_on_unwind := AbortProcess\<rparr>"

definition turn :: "gate \<Rightarrow> publish_guard \<Rightarrow> bool" where
  "turn g pg \<longleftrightarrow> g_next g = pg_ticket pg"

definition publish_done :: "publish_guard \<Rightarrow> gate \<Rightarrow> gate" where
  "publish_done pg g = g\<lparr>g_next := pg_ticket pg + 1\<rparr>"

definition quiesced :: "gate \<Rightarrow> bool" where
  "quiesced g \<longleftrightarrow> g_next g = g_ticket g"

text \<open>Dropping a guard that was not released; \<open>None\<close> is the process abort.\<close>

definition guard_drop :: "publish_guard \<Rightarrow> gate \<Rightarrow> gate option" where
  "guard_drop pg g =
     (if pg_done pg then Some g
      else case pg_on_unwind pg of
             NoUnwind \<Rightarrow> Some (publish_done pg g)
           | RollbackAppend start n \<Rightarrow>
               let t = g_topic g;
                   ix = fold (\<lambda>i ix. fst (mark_deleted (start + i) ix)) [0..<n] (t_index t)
               in Some (publish_done pg (g\<lparr>g_topic := t\<lparr>t_index := ix\<rparr>\<rparr>))
           | AbortProcess \<Rightarrow> None)"

section \<open>What writers do\<close>

definition begin_append :: "stored_record list \<Rightarrow> gate \<Rightarrow> gate" where
  "begin_append rs g =
     (let (t, sa) = stage_append rs (g_topic g);
          (g, pg) = next_publish_ticket (g\<lparr>g_topic := t\<rparr>)
      in g\<lparr>g_flights := g_flights g @ [\<lparr>fl_op = OpAppend sa, fl_guard = arm_append sa pg, fl_token = Pending\<rparr>]\<rparr>)"

definition begin_delete :: "seq option \<Rightarrow> tag_filter option \<Rightarrow> gate \<Rightarrow> gate" where
  "begin_delete before match_sel g =
     (let bound_head = sat_add (t_head_seq (g_topic g)) 1;
          (g, pg) = next_publish_ticket g
      in g\<lparr>g_flights := g_flights g @ [\<lparr>fl_op = OpDelete before match_sel bound_head, fl_guard = pg, fl_token = Pending\<rparr>]\<rparr>)"

definition resolve_token :: "bool \<Rightarrow> flight \<Rightarrow> flight" where
  "resolve_token ok f =
     (if ok then f\<lparr>fl_token := Committed,
                   fl_guard := (case fl_op f of OpAppend _ \<Rightarrow> fl_guard f | OpDelete _ _ _ \<Rightarrow> arm_abort_on_unwind (fl_guard f))\<rparr>
      else f\<lparr>fl_token := Failed\<rparr>)"

definition flight_seqs :: "flight \<Rightarrow> seq set" where
  "flight_seqs f = (case fl_op f of OpAppend sa \<Rightarrow> set (staged_seqs sa) | OpDelete _ _ _ \<Rightarrow> {})"

definition apply_flight :: "i64 \<Rightarrow> flight \<Rightarrow> topic_state \<Rightarrow> topic_state" where
  "apply_flight now f t =
     (case (fl_op f, fl_token f) of
        (OpAppend sa, Committed) \<Rightarrow> fst (publish_staged_no_seal sa now t)
      | (OpAppend sa, _) \<Rightarrow> rollback_staged_by_seqs sa t
      | (OpDelete before match_sel bound, Committed) \<Rightarrow> fst (apply_delete_stats before match_sel (Some bound) now t)
      | (OpDelete _ _ _, _) \<Rightarrow> t)"

definition finish_flight :: "i64 \<Rightarrow> flight \<Rightarrow> flight list \<Rightarrow> gate \<Rightarrow> gate" where
  "finish_flight now f rest g =
     publish_done (fl_guard f) (g\<lparr>g_topic := apply_flight now f (g_topic g), g_flights := rest\<rparr>)"

text \<open>
  One step of any thread. \<open>room\<close> states that the payload bytes and the sequences of one
  topic stay below \<open>u64::MAX\<close>.
\<close>

definition room :: "stored_record list \<Rightarrow> topic_state \<Rightarrow> bool" where
  "room rs t \<longleftrightarrow> slot_bytes (records (t_index t)) + slot_bytes rs \<le> u64_max \<and>
     base_seq (t_index t) + length (records (t_index t)) + length rs \<le> u64_max"

inductive gate_step :: "env \<Rightarrow> gate \<Rightarrow> gate \<Rightarrow> bool" for env where
  stage: "rs \<noteq> [] \<Longrightarrow> \<forall>r\<in>set rs. \<not> sr_deleted r \<Longrightarrow> room rs (g_topic g) \<Longrightarrow> gate_step env g (begin_append rs g)"
| reject: "\<forall>r\<in>set rs. \<not> sr_deleted r \<Longrightarrow> stage_append rs (g_topic g) = (t, sa) \<Longrightarrow>
    gate_step env g (g\<lparr>g_topic := rollback_staged sa t\<rparr>)"
| start_delete: "enforce_retention_hardened now (harden :: retention_advance \<Rightarrow> string option) (g_topic g) = Inr (t, adv) \<Longrightarrow>
    gate_step env g (begin_delete before match_sel (g\<lparr>g_topic := t\<rparr>))"
| token: "g_flights g = fs @ f # gs \<Longrightarrow> fl_token f = Pending \<Longrightarrow>
    gate_step env g (g\<lparr>g_flights := fs @ resolve_token ok f # gs,
      g_committed := (if ok then g_committed g \<union> flight_seqs f else g_committed g)\<rparr>)"
| finish: "g_flights g = f # rest \<Longrightarrow> turn g (fl_guard f) \<Longrightarrow> fl_token f \<noteq> Pending \<Longrightarrow>
    gate_step env g (finish_flight now f rest g)"
| unwind: "g_flights g = f # rest \<Longrightarrow> turn g (fl_guard f) \<Longrightarrow>
    guard_drop (fl_guard f) (g\<lparr>g_flights := rest\<rparr>) = Some g' \<Longrightarrow> gate_step env g g'"
| seal: "gate_step env g (g\<lparr>g_topic := materialize_published env a b (g_topic g)\<rparr>)"
| retain: "enforce_retention_hardened now (harden :: retention_advance \<Rightarrow> string option) (g_topic g) = Inr (t, adv) \<Longrightarrow> gate_step env g (g\<lparr>g_topic := t\<rparr>)"

section \<open>The layout of staged batches\<close>

abbreviation slot :: "topic_index \<Rightarrow> seq \<Rightarrow> stored_record" where
  "slot ix s \<equiv> records ix ! (s - base_seq ix)"

definition batch_at :: "staged_append \<Rightarrow> topic_index \<Rightarrow> bool" where
  "batch_at sa ix \<longleftrightarrow> 0 < sa_count sa \<and> (\<forall>s\<in>set (staged_seqs sa). is_live ix s) \<and>
     sum_list (map (\<lambda>s. sr_bytes (slot ix s)) (staged_seqs sa)) = sa_added_bytes sa"

text \<open>Above the head, the live slots are exactly the batches in flight, in ticket order.\<close>

fun layout :: "topic_index \<Rightarrow> seq \<Rightarrow> seq \<Rightarrow> flight list \<Rightarrow> bool" where
  "layout ix h pos [] \<longleftrightarrow> (\<forall>s\<ge>pos. \<not> is_live ix s)"
| "layout ix h pos (f # fs) \<longleftrightarrow>
     (case fl_op f of
        OpAppend sa \<Rightarrow> pos \<le> sa_start sa \<and> (\<forall>s. pos \<le> s \<and> s < sa_start sa \<longrightarrow> \<not> is_live ix s) \<and> batch_at sa ix \<and>
          layout ix h (sa_start sa + sa_count sa) fs
      | OpDelete _ _ b \<Rightarrow> b \<le> Suc h \<and> layout ix h pos fs)"

definition same_on :: "seq set \<Rightarrow> topic_index \<Rightarrow> topic_index \<Rightarrow> bool" where
  "same_on S ix ix' \<longleftrightarrow>
     (\<forall>s\<in>S. is_live ix' s = is_live ix s \<and> (is_live ix s \<longrightarrow> erase (slot ix' s) = erase (slot ix s)))"

lemma same_on_refl [simp]: "same_on S ix ix"
  by (simp add: same_on_def)

lemma same_on_trans: "same_on S a b \<Longrightarrow> same_on S b c \<Longrightarrow> same_on S a c"
  by (simp add: same_on_def)

lemma same_on_mono: "same_on S a b \<Longrightarrow> T \<subseteq> S \<Longrightarrow> same_on T a b"
  by (auto simp: same_on_def)

lemma batch_at_same:
  assumes same: "same_on S ix ix'" and sub: "set (staged_seqs sa) \<subseteq> S"
  shows "batch_at sa ix' \<longleftrightarrow> batch_at sa ix"
proof -
  have live: "(\<forall>s\<in>set (staged_seqs sa). is_live ix' s) \<longleftrightarrow> (\<forall>s\<in>set (staged_seqs sa). is_live ix s)"
    using same sub by (auto simp: same_on_def)
  have "map (\<lambda>s. sr_bytes (slot ix' s)) (staged_seqs sa) = map (\<lambda>s. sr_bytes (slot ix s)) (staged_seqs sa)"
    if all: "\<forall>s\<in>set (staged_seqs sa). is_live ix s"
  proof (rule map_cong[OF refl])
    fix s assume "s \<in> set (staged_seqs sa)"
    then have "erase (slot ix' s) = erase (slot ix s)"
      using all same sub by (auto simp: same_on_def)
    then show "sr_bytes (slot ix' s) = sr_bytes (slot ix s)"
      by (rule erase_eq_fields[THEN conjunct2, THEN conjunct1])
  qed
  then show ?thesis
    using live by (auto simp: batch_at_def simp del: map_eq_conv)
qed

lemma layout_same:
  "layout ix h pos fs \<Longrightarrow> same_on {pos..} ix ix' \<Longrightarrow> h \<le> h' \<Longrightarrow> layout ix' h' pos fs"
proof (induction fs arbitrary: pos)
  case (Cons f fs)
  show ?case
  proof (cases "fl_op f")
    case (OpAppend sa)
    have lay: "pos \<le> sa_start sa" "\<forall>s. pos \<le> s \<and> s < sa_start sa \<longrightarrow> \<not> is_live ix s" "batch_at sa ix"
        "layout ix h (sa_start sa + sa_count sa) fs"
      using Cons(2) OpAppend by auto
    have "set (staged_seqs sa) \<subseteq> {pos..}"
      using lay(1) by (auto simp: staged_seqs_def)
    then have "batch_at sa ix'"
      using lay(3) batch_at_same[OF Cons(3)] by blast
    moreover have "layout ix' h' (sa_start sa + sa_count sa) fs"
      using lay Cons(3,4) by (intro Cons(1)) (auto intro: same_on_mono)
    moreover have "\<forall>s. pos \<le> s \<and> s < sa_start sa \<longrightarrow> \<not> is_live ix' s"
      using lay(2) Cons(3) by (simp add: same_on_def)
    ultimately show ?thesis
      using lay(1) OpAppend by simp
  next
    case (OpDelete b m bd)
    then show ?thesis
      using Cons by auto
  qed
qed (auto simp: same_on_def)

lemma resolve_token_op [simp]: "fl_op (resolve_token ok f) = fl_op f"
  by (simp add: resolve_token_def)

lemma layout_ops: "map fl_op fs = map fl_op gs \<Longrightarrow> layout ix h pos fs \<longleftrightarrow> layout ix h pos gs"
proof (induction fs arbitrary: gs pos)
  case (Cons f fs)
  then obtain g gs' where "gs = g # gs'" "fl_op g = fl_op f" "map fl_op fs = map fl_op gs'"
    by (cases gs) auto
  then show ?case
    using Cons(1) by (simp split: flight_op.split)
qed simp

text \<open>The end of the last batch, where the next one may start.\<close>

fun layout_end :: "seq \<Rightarrow> flight list \<Rightarrow> seq" where
  "layout_end pos [] = pos"
| "layout_end pos (f # fs) = layout_end (case fl_op f of OpAppend sa \<Rightarrow> sa_start sa + sa_count sa | OpDelete _ _ _ \<Rightarrow> pos) fs"

lemma batch_at_end:
  assumes "batch_at sa ix"
  shows "sa_start sa + sa_count sa \<le> base_seq ix + length (records ix)" "base_seq ix \<le> sa_start sa"
proof -
  have "is_live ix (sa_start sa)" "is_live ix (sa_start sa + sa_count sa - 1)"
    using assms by (auto simp: batch_at_def staged_seqs_def)
  then show "sa_start sa + sa_count sa \<le> base_seq ix + length (records ix)" "base_seq ix \<le> sa_start sa"
    by (auto simp: is_live_iff)
qed

lemma layout_end_le:
  "layout ix h pos fs \<Longrightarrow> pos \<le> base_seq ix + length (records ix) \<Longrightarrow> layout_end pos fs \<le> base_seq ix + length (records ix)"
  by (induction fs arbitrary: pos) (auto split: flight_op.splits dest: batch_at_end(1))

lemma layout_end_ge: "layout ix h pos fs \<Longrightarrow> pos \<le> layout_end pos fs"
proof (induction fs arbitrary: pos)
  case (Cons f fs)
  then show ?case
    by (cases "fl_op f") (auto dest!: Cons(1))
qed simp

lemma layout_extend:
  assumes "layout ix h pos fs" "same_on {pos..<e} ix ix'" "layout_end pos fs \<le> e"
    and new: "fl_op f = OpAppend sa" "sa_start sa = e" "batch_at sa ix'" "\<forall>s\<ge>e + sa_count sa. \<not> is_live ix' s"
  shows "layout ix' h pos (fs @ [f])"
  using assms(1-3)
proof (induction fs arbitrary: pos)
  case Nil
  then show ?case
    using new by (auto simp: same_on_def)
next
  case (Cons g fs)
  show ?case
  proof (cases "fl_op g")
    case (OpAppend sb)
    have lay: "pos \<le> sa_start sb" "\<forall>s. pos \<le> s \<and> s < sa_start sb \<longrightarrow> \<not> is_live ix s" "batch_at sb ix"
        "layout ix h (sa_start sb + sa_count sb) fs"
      using Cons(2) OpAppend by auto
    have e: "sa_start sb + sa_count sb \<le> e"
      using layout_end_ge[OF lay(4)] Cons(4) OpAppend by simp
    have "set (staged_seqs sb) \<subseteq> {pos..<e}"
      using lay(1) e by (auto simp: staged_seqs_def)
    then have "batch_at sb ix'"
      using lay(3) batch_at_same[OF Cons(3)] by blast
    moreover have "layout ix' h (sa_start sb + sa_count sb) (fs @ [f])"
      using lay Cons(3,4) OpAppend by (intro Cons(1)) (auto intro: same_on_mono)
    moreover have "\<forall>s. pos \<le> s \<and> s < sa_start sb \<longrightarrow> \<not> is_live ix' s"
      using lay(2) Cons(3) e by (simp add: same_on_def)
    ultimately show ?thesis
      using lay(1) OpAppend by simp
  next
    case (OpDelete b m bd)
    then show ?thesis
      using Cons by auto
  qed
qed

lemma layout_delete: "layout ix h pos fs \<Longrightarrow> fl_op f = OpDelete b m bd \<Longrightarrow> bd \<le> Suc h \<Longrightarrow> layout ix h pos (fs @ [f])"
  by (induction fs arbitrary: pos) (auto split: flight_op.splits)

section \<open>The invariant\<close>

definition flights_ok :: "nat \<Rightarrow> flight list \<Rightarrow> bool" where
  "flights_ok n fs \<longleftrightarrow> map (pg_ticket \<circ> fl_guard) fs = [n..<n + length fs] \<and>
     list_all (\<lambda>f. \<not> pg_done (fl_guard f) \<and>
       (case fl_op f of
          OpAppend sa \<Rightarrow> pg_on_unwind (fl_guard f) = RollbackAppend (sa_start sa) (sa_count sa)
        | OpDelete _ _ _ \<Rightarrow> pg_on_unwind (fl_guard f) = (if fl_token f = Committed then AbortProcess else NoUnwind))) fs"

definition gate_inv :: "gate \<Rightarrow> bool" where
  "gate_inv g \<longleftrightarrow> wf_topic (g_topic g) \<and> g_ticket g = g_next g + length (g_flights g) \<and>
     flights_ok (g_next g) (g_flights g) \<and>
     layout (t_index (g_topic g)) (t_head_seq (g_topic g)) (Suc (t_head_seq (g_topic g))) (g_flights g) \<and>
     slot_bytes (records (t_index (g_topic g))) \<le> u64_max \<and>
     base_seq (t_index (g_topic g)) + length (records (t_index (g_topic g))) \<le> u64_max"

text \<open>Updates of the topic that leave everything above the head alone keep the invariant.\<close>

definition above_kept :: "seq \<Rightarrow> topic_index \<Rightarrow> topic_index \<Rightarrow> bool" where
  "above_kept h ix ix' \<longleftrightarrow> same_on {Suc h..} ix ix' \<and>
     base_seq ix' + length (records ix') = base_seq ix + length (records ix) \<and>
     slot_bytes (records ix') \<le> slot_bytes (records ix)"

lemma above_kept_refl [simp]: "above_kept h ix ix"
  by (simp add: above_kept_def)

lemma above_kept_trans: "above_kept h a b \<Longrightarrow> above_kept h b c \<Longrightarrow> above_kept h a c"
  by (auto simp: above_kept_def intro: same_on_trans)

lemma gate_inv_topic:
  assumes inv: "gate_inv g" and wf: "wf_topic t" and head: "t_head_seq t = t_head_seq (g_topic g)"
    and kept: "above_kept (t_head_seq t) (t_index (g_topic g)) (t_index t)"
  shows "gate_inv (g\<lparr>g_topic := t\<rparr>)"
  using inv wf kept
    layout_same[of "t_index (g_topic g)" "t_head_seq (g_topic g)" "Suc (t_head_seq (g_topic g))" "g_flights g" "t_index t"]
  by (simp add: gate_inv_def head above_kept_def)

lemma gate_inv_head: "gate_inv g \<Longrightarrow> t_head_seq (g_topic g) < u64_max"
  by (auto simp: gate_inv_def dest!: wf_topicD(2))

lemma same_on_sim:
  assumes "index_sim ix ix'"
  shows "same_on S ix ix'"
proof -
  have eq: "map erase (records ix) = map erase (records ix')" "base_seq ix = base_seq ix'"
    using assms by (simp_all add: index_sim_def)
  note len = map_erase_fields(5)[OF eq(1)]
  have "erase (slot ix' s) = erase (slot ix s)" if "is_live ix s" for s
    using eq len that by (metis is_live_iff nth_map)
  then show ?thesis
    using is_live_sim[OF assms] by (simp add: same_on_def)
qed

lemma same_on_drain:
  assumes "\<And>s. s \<in> S \<Longrightarrow> s < base_seq ix + n \<Longrightarrow> \<not> is_live ix s" "n \<le> length (records ix)"
  shows "same_on S ix (fst (drain_front n ix))"
proof -
  have "is_live (fst (drain_front n ix)) s \<longleftrightarrow> base_seq ix + n \<le> s \<and> is_live ix s" for s
    using assms(2) by (auto simp: is_live_iff)
  moreover have "slot (fst (drain_front n ix)) s = slot ix s" if "base_seq ix + n \<le> s" for s
    using assms(2) that by (simp add: nth_drop)
  moreover have "base_seq ix + n \<le> s" if "s \<in> S" "is_live ix s" for s
    using assms(1) that not_le by blast
  ultimately show ?thesis
    unfolding same_on_def by metis
qed

lemma above_kept_sim: "index_sim ix ix' \<Longrightarrow> above_kept h ix ix'"
proof -
  assume sim: "index_sim ix ix'"
  then have eq: "map erase (records ix) = map erase (records ix')" "base_seq ix = base_seq ix'"
    by (simp_all add: index_sim_def)
  from map_erase_fields(2,5)[OF eq(1)] show ?thesis
    using same_on_sim[OF sim] eq(2) by (simp add: above_kept_def slot_bytes_def)
qed

lemma above_kept_topic_sim: "topic_sim t t' \<Longrightarrow> above_kept h (t_index t) (t_index t')"
  by (rule above_kept_sim) (simp add: topic_sim_def)

lemma reclaim_front_above:
  assumes t': "t' = fst (reclaim_front (t_head_seq t) t)"
  shows "above_kept (t_head_seq t) (t_index t) (t_index t')"
proof -
  define n where "n = front_drop (floor_earliest t) (t_index t)"
  note f = reclaim_front_fields[OF t' n_def]
  have n: "n \<le> length (records (t_index t))"
    by (simp add: n_def front_drop_le)
  have "floor_earliest t \<le> Suc (t_head_seq t)"
    using floors_earliest_seq_bounds(1)[of "t_floors t" "t_seq_base t" "t_head_seq t"]
    by (simp add: floor_earliest_def sat_add_def split: if_splits)
  then have "\<not> is_live (t_index t) s" if "Suc (t_head_seq t) \<le> s" "s < base_seq (t_index t) + n" for s
    using that front_drop_not_live[of "floor_earliest t" s "t_index t"] by (simp add: n_def)
  then have "same_on {Suc (t_head_seq t)..} (t_index t) (t_index t')"
    unfolding f using n by (intro same_on_drain) auto
  then show ?thesis
    using n by (simp add: above_kept_def f slot_bytes_take_drop_le)
qed

lemma enforce_above:
  assumes "enforce_retention_hardened now harden t = Inr (t', adv)"
  shows "above_kept (t_head_seq t) (t_index t) (t_index t')"
proof (cases "retention_active t")
  case True
  obtain t2 where sim: "topic_sim (commit_floors (plan_retention now t) t) t2" and t': "t' = fst (reclaim_front (t_head_seq t2) t2)"
    using True assms by (rule enforce_active)
  have "t_head_seq t2 = t_head_seq t"
    using sim by (simp add: topic_sim_def commit_floors_fields)
  then show ?thesis
    using above_kept_trans[OF above_kept_topic_sim[OF sim] reclaim_front_above[OF t']] by (simp add: commit_floors_fields)
next
  case False
  then show ?thesis
    using assms by (simp add: enforce_inactive)
qed

lemma kill_bytes_le: "slot_bytes (kill S b rs) \<le> slot_bytes rs"
proof (induction rs rule: rev_induct)
  case (snoc r rs)
  have "kill S b (rs @ [r]) = kill S b rs @ [if b + length rs \<in> S \<and> \<not> sr_deleted r then dead_slot r else r]"
    by (simp add: kill_def)
  then show ?case using snoc by simp
qed (simp add: kill_def)

lemma mark_above:
  assumes "\<forall>s\<in>set ss. s \<le> h"
  shows "above_kept h ix (fold (\<lambda>s ix. fst (mark_deleted s ix)) ss ix)"
proof -
  have out: "s \<notin> set ss" if "Suc h \<le> s" for s
    using assms that by auto
  then have "same_on {Suc h..} ix (fold (\<lambda>s ix. fst (mark_deleted s ix)) ss ix)"
    using slot_fold_mark[of ix _ ss] by (simp add: same_on_def is_live_fold_mark fold_mark_fields(1))
  then show ?thesis
    by (simp add: above_kept_def fold_mark_fields kill_bytes_le)
qed

lemma apply_delete_above:
  assumes wf: "wf_topic t" and h: "t_head_seq t < u64_max" and pit: "pit_bound bound_head t \<le> Suc (t_head_seq t)"
  shows "above_kept (t_head_seq t) (t_index t) (t_index (fst (apply_delete_stats before match_sel bound_head now t)))"
proof -
  obtain t1 ra where ret: "enforce_retention now t = (t1, ra)" by fastforce
  note ef = enforce_retention_fields[OF wf enforce_retention_hardenedD[OF ret]]
  have 1: "above_kept (t_head_seq t) (t_index t) (t_index t1)"
    by (rule enforce_above[OF enforce_retention_hardenedD[OF ret]])
  let ?v = "victims match_sel (delete_bound before bound_head t1) t1"
  obtain ix freed n ds where m: "mark_all ?v (t_index t1) 0 0 [] = (ix, freed, n, ds)"
    by (metis prod_cases4)
  have "delete_bound before bound_head t1 \<le> Suc (t_head_seq t1)"
    using pit ef(2) by (auto simp: delete_bound_def pit_bound_def split: option.splits)
  then have le: "\<forall>s\<in>set ?v. s \<le> t_head_seq t1"
    using victims_spec(1)[OF ef(1)] h ef(2) by simp
  have "0 + slot_bytes (published (t_head_seq t1) (t_index t1)) \<le> u64_max"
    using wf_topicD(4,5)[OF ef(1)] by simp
  then have "ix = fold (\<lambda>s ix. fst (mark_deleted s ix)) ?v (t_index t1)"
    by (rule mark_all_spec(1)[OF le _ m])
  then have 2: "above_kept (t_head_seq t) (t_index t1) ix"
    using mark_above le ef(2) by simp
  let ?r = "raise_below (prefix_bound before match_sel bound_head t1) (settle_marks ix freed n t1)"
  have 3: "above_kept (t_head_seq t) ix (t_index ?r)"
    by (simp add: raise_below_def Let_def above_kept_def same_on_def is_live_iff)
  have hd: "t_head_seq ?r = t_head_seq t"
    by (simp add: raise_below_def Let_def ef(2))
  have 4: "above_kept (t_head_seq t) (t_index ?r) (t_index (fst (reclaim_front (t_head_seq ?r) ?r)))"
    using reclaim_front_above[OF refl, of ?r] by (simp add: hd)
  have 5: "above_kept (t_head_seq t) (t_index (fst (reclaim_front (t_head_seq ?r) ?r))) (t_index (fst (finish_delete ds ?r)))"
    by (rule above_kept_topic_sim[OF finish_delete_sim(1)])
  have "fst (apply_delete_stats before match_sel bound_head now t) = fst (finish_delete ds ?r)"
    by (simp add: apply_delete_stats_alt ret m split_beta)
  then show ?thesis
    using 1 2 3 4 5 by (metis above_kept_trans)
qed

section \<open>Finishing a writer\<close>

lemma batch_slots:
  assumes "batch_at sa ix"
  shows "take (sa_count sa) (drop (sa_start sa - base_seq ix) (records ix)) = map (slot ix) (staged_seqs sa)"
  using batch_at_end[OF assms] by (intro nth_equalityI) (auto simp: staged_seqs_def)

lemma layout_publishable:
  assumes "layout ix h (Suc h) (f # fs)" "fl_op f = OpAppend sa"
  shows "staged_ok sa h ix" "gap_dead h (sa_start sa) ix"
proof -
  have lay: "Suc h \<le> sa_start sa" "\<forall>s. Suc h \<le> s \<and> s < sa_start sa \<longrightarrow> \<not> is_live ix s" and b: "batch_at sa ix"
    using assms by auto
  show "staged_ok sa h ix"
    using lay(1) b batch_at_end[OF b] batch_slots[OF b]
    by (auto simp: staged_ok_def batch_at_def is_live_iff list_all_iff slot_bytes_def comp_def)
  let ?k = "Suc h - base_seq ix"
  have "sr_deleted r" if r: "r \<in> set (take (sa_start sa - base_seq ix - ?k) (drop ?k (records ix)))" for r
  proof -
    obtain j where j: "j < sa_start sa - base_seq ix - ?k" "?k + j < length (records ix)" "r = records ix ! (?k + j)"
      using r by (auto simp: in_set_conv_nth)
    have "Suc h \<le> base_seq ix + (?k + j)" "base_seq ix + (?k + j) < sa_start sa"
      using j(1) by auto
    then have "\<not> is_live ix (base_seq ix + (?k + j))"
      using lay(2) by blast
    then show ?thesis
      using j by (simp add: is_live_iff)
  qed
  then show "gap_dead h (sa_start sa) ix"
    by (simp add: gap_dead_def list_all_iff)
qed

lemma published_bytes_le: "slot_bytes (published h ix) \<le> slot_bytes (records ix)"
  by (metis le_add1 published_staged slot_bytes_simps(3))

lemma layout_room:
  assumes "staged_ok sa h ix"
  shows "slot_bytes (published h ix) + sa_added_bytes sa \<le> slot_bytes (records ix)"
proof -
  have "slot_bytes (take (sa_start sa + sa_count sa - base_seq ix) (records ix)) \<le> slot_bytes (records ix)"
    by (metis append_take_drop_id le_add1 slot_bytes_simps(3))
  then show ?thesis
    using assms published_upto[of h "sa_start sa" ix "sa_count sa"] by (simp add: staged_ok_def)
qed

lemma layout_lower: "layout ix h pos fs \<Longrightarrow> pos' \<le> pos \<Longrightarrow> \<forall>s. pos' \<le> s \<and> s < pos \<longrightarrow> \<not> is_live ix s \<Longrightarrow> layout ix h pos' fs"
proof (induction fs)
  case Nil
  then show ?case
    by (metis layout.simps(1) not_le)
next
  case (Cons f fs)
  show ?case
  proof (cases "fl_op f")
    case (OpAppend sa)
    then show ?thesis
      using Cons(2-4) by simp (metis le_trans not_le)
  next
    case (OpDelete b m bd)
    then show ?thesis
      using Cons by simp
  qed
qed

lemma rollback_index:
  "t_index (rollback_staged_by_seqs sa t) = fold (\<lambda>s ix. fst (mark_deleted s ix)) (staged_seqs sa) (t_index t)"
proof -
  have "staged_seqs sa = map (\<lambda>i. sa_start sa + i) [0..<sa_count sa]"
    by (simp add: staged_seqs_def map_add_upt add.commute)
  then show ?thesis
    by (simp add: rollback_staged_by_seqs_def fold_map comp_def)
qed

lemma rollback_frame:
  "t_head_seq (rollback_staged_by_seqs sa t) = t_head_seq t" "t_floors (rollback_staged_by_seqs sa t) = t_floors t"
  "t_seq_base (rollback_staged_by_seqs sa t) = t_seq_base t"
  by (simp_all add: rollback_staged_by_seqs_def)

lemma rollback_layout:
  assumes "layout (t_index t) h (Suc h) (f # fs)" "fl_op f = OpAppend sa"
  shows "layout (t_index (rollback_staged_by_seqs sa t)) h (Suc h) fs"
proof -
  let ?ix = "t_index (rollback_staged_by_seqs sa t)"
  have lay: "Suc h \<le> sa_start sa" "\<forall>s. Suc h \<le> s \<and> s < sa_start sa \<longrightarrow> \<not> is_live (t_index t) s"
      "layout (t_index t) h (sa_start sa + sa_count sa) fs"
    using assms by auto
  have live: "is_live ?ix s \<longleftrightarrow> is_live (t_index t) s \<and> s \<notin> set (staged_seqs sa)" for s
    by (simp add: rollback_index is_live_fold_mark)
  have "same_on {sa_start sa + sa_count sa..} (t_index t) ?ix"
  proof (cases "sa_count sa = 0")
    case False
    have "\<forall>s\<in>set (staged_seqs sa). s \<le> sa_start sa + sa_count sa - 1"
      by (auto simp: staged_seqs_def)
    from mark_above[OF this, of "t_index t"] show ?thesis
      using False by (simp add: above_kept_def rollback_index)
  qed (simp add: rollback_index staged_seqs_def)
  then have "layout ?ix h (sa_start sa + sa_count sa) fs"
    using layout_same[OF lay(3)] by blast
  moreover have "\<not> is_live ?ix s" if "Suc h \<le> s" "s < sa_start sa + sa_count sa" for s
    using lay(2) that by (cases "s < sa_start sa") (auto simp: live staged_seqs_def)
  ultimately show ?thesis
    using lay(1) layout_lower[of ?ix h "sa_start sa + sa_count sa" fs "Suc h"] by simp
qed

section \<open>Every step keeps the invariant\<close>

lemma flights_ok_Cons:
  "flights_ok n (f # fs) \<longleftrightarrow> pg_ticket (fl_guard f) = n \<and> flights_ok (Suc n) fs \<and> \<not> pg_done (fl_guard f) \<and>
     (case fl_op f of
        OpAppend sa \<Rightarrow> pg_on_unwind (fl_guard f) = RollbackAppend (sa_start sa) (sa_count sa)
      | OpDelete _ _ _ \<Rightarrow> pg_on_unwind (fl_guard f) = (if fl_token f = Committed then AbortProcess else NoUnwind))"
  by (auto simp: flights_ok_def upt_conv_Cons simp del: upt_Suc)

lemma flights_ok_append:
  "flights_ok n (fs @ gs) \<longleftrightarrow> flights_ok n fs \<and> flights_ok (n + length fs) gs"
  by (induction fs arbitrary: n) (auto simp: flights_ok_Cons, simp_all add: flights_ok_def)

lemma flights_ok_Nil [simp]: "flights_ok n []"
  by (simp add: flights_ok_def)

lemma finish_gate_inv:
  assumes inv: "gate_inv g" and fl: "g_flights g = f # rest"
    and wf: "wf_topic t" and lay: "layout (t_index t) (t_head_seq t) (Suc (t_head_seq t)) rest"
    and b: "slot_bytes (records (t_index t)) \<le> slot_bytes (records (t_index (g_topic g)))"
    and e: "base_seq (t_index t) + length (records (t_index t)) = base_seq (t_index (g_topic g)) + length (records (t_index (g_topic g)))"
  shows "gate_inv (publish_done (fl_guard f) (g\<lparr>g_topic := t, g_flights := rest\<rparr>))"
  using inv wf lay b e by (auto simp: gate_inv_def fl flights_ok_Cons publish_done_def)

lemma apply_flight_spec:
  assumes inv: "gate_inv g" and fl: "g_flights g = f # rest" and tok: "fl_token f \<noteq> Pending"
    and t_def: "t = apply_flight now f (g_topic g)"
  shows "wf_topic t" "layout (t_index t) (t_head_seq t) (Suc (t_head_seq t)) rest"
    "slot_bytes (records (t_index t)) \<le> slot_bytes (records (t_index (g_topic g)))"
    "base_seq (t_index t) + length (records (t_index t)) = base_seq (t_index (g_topic g)) + length (records (t_index (g_topic g)))"
    "t_head_seq (g_topic g) \<le> t_head_seq t"
proof -
  let ?t = "g_topic g"
  have wf: "wf_topic ?t" and lay: "layout (t_index ?t) (t_head_seq ?t) (Suc (t_head_seq ?t)) (f # rest)"
      and bytes: "slot_bytes (records (t_index ?t)) \<le> u64_max"
    using inv by (simp_all add: gate_inv_def fl)
  have "wf_topic t \<and> layout (t_index t) (t_head_seq t) (Suc (t_head_seq t)) rest \<and>
    slot_bytes (records (t_index t)) \<le> slot_bytes (records (t_index ?t)) \<and>
    base_seq (t_index t) + length (records (t_index t)) = base_seq (t_index ?t) + length (records (t_index ?t)) \<and>
    t_head_seq ?t \<le> t_head_seq t"
  proof (cases "fl_op f")
    case (OpAppend sa)
    note ok = layout_publishable[OF lay OpAppend]
    show ?thesis
    proof (cases "fl_token f = Committed")
      case True
      have t: "t = fst (publish_staged_no_seal sa now ?t)"
        by (simp add: t_def apply_flight_def OpAppend True)
      have "t_bytes_retained ?t + sa_added_bytes sa \<le> u64_max"
        using layout_room[OF ok(1)] bytes wf_topicD(4)[OF wf] by simp
      then have "wf_topic t"
        unfolding t using wf ok by (intro publish_staged_no_seal_wf)
      moreover have "0 < sa_count sa" and lay': "layout (t_index ?t) (t_head_seq ?t) (sa_start sa + sa_count sa) rest"
          and "Suc (t_head_seq ?t) \<le> sa_start sa"
        using lay OpAppend by (auto simp: batch_at_def)
      moreover from this have "t_index t = t_index ?t" "t_head_seq t = sa_start sa + sa_count sa - 1"
        by (simp_all add: t publish_staged_no_seal_def Let_def publish_head_seq_def)
      moreover from this have "layout (t_index t) (t_head_seq t) (sa_start sa + sa_count sa) rest"
        using lay' \<open>Suc (t_head_seq ?t) \<le> sa_start sa\<close> by (intro layout_same[OF lay']) auto
      ultimately show ?thesis
        by auto
    next
      case False
      then have t: "t = rollback_staged_by_seqs sa ?t"
        using tok by (cases "fl_token f") (simp_all add: t_def apply_flight_def OpAppend)
      have "t_head_seq ?t < sa_start sa"
        using lay OpAppend by auto
      then show ?thesis
        using rollback_staged_by_seqs_wf(1)[OF wf] rollback_layout[OF lay OpAppend]
        by (simp add: t rollback_frame) (simp add: rollback_index fold_mark_fields kill_bytes_le)
    qed
  next
    case (OpDelete b m bd)
    then have bd: "bd \<le> Suc (t_head_seq ?t)" and lay': "layout (t_index ?t) (t_head_seq ?t) (Suc (t_head_seq ?t)) rest"
      using lay by auto
    show ?thesis
    proof (cases "fl_token f = Committed")
      case True
      then have t: "t = fst (apply_delete_stats b m (Some bd) now ?t)"
        by (simp add: t_def apply_flight_def OpDelete)
      obtain t1 ra where ret: "enforce_retention now ?t = (t1, ra)" by fastforce
      obtain st where out: "apply_delete_stats b m (Some bd) now ?t = (t, st)"
        using t by (metis prod.collapse)
      have pit: "pit_bound (Some bd) ?t \<le> Suc (t_head_seq ?t)"
        using bd by (simp add: pit_bound_def)
      note sp = apply_delete_spec[OF wf gate_inv_head[OF inv] pit ret out]
      have "above_kept (t_head_seq ?t) (t_index ?t) (t_index t)"
        unfolding t by (rule apply_delete_above[OF wf gate_inv_head[OF inv] pit])
      then show ?thesis
        using sp(1,3) layout_same[OF lay', of "t_index t" "t_head_seq t"] by (auto simp: above_kept_def)
    next
      case False
      then have "t = ?t"
        using tok by (cases "fl_token f") (simp_all add: t_def apply_flight_def OpDelete)
      then show ?thesis
        using wf lay' by simp
    qed
  qed
  then show "wf_topic t" "layout (t_index t) (t_head_seq t) (Suc (t_head_seq t)) rest"
    "slot_bytes (records (t_index t)) \<le> slot_bytes (records (t_index ?t))"
    "base_seq (t_index t) + length (records (t_index t)) = base_seq (t_index ?t) + length (records (t_index ?t))"
    "t_head_seq ?t \<le> t_head_seq t"
    by blast+
qed

lemma drop_append_flight:
  assumes "gate_inv g" "g_flights g = f # rest" "guard_drop (fl_guard f) (g\<lparr>g_flights := rest\<rparr>) = Some g'"
  obtains (append) sa where "fl_op f = OpAppend sa"
      "g' = publish_done (fl_guard f) (g\<lparr>g_topic := rollback_staged_by_seqs sa (g_topic g), g_flights := rest\<rparr>)"
    | (delete) b m bd where "fl_op f = OpDelete b m bd" "fl_token f \<noteq> Committed"
      "g' = publish_done (fl_guard f) (g\<lparr>g_flights := rest\<rparr>)"
proof (cases "fl_op f")
  case (OpAppend sa)
  have "t\<lparr>t_index := fold (\<lambda>i ix. fst (mark_deleted (sa_start sa + i) ix)) [0..<sa_count sa] (t_index t)\<rparr> = rollback_staged_by_seqs sa t" for t
    by (simp add: rollback_staged_by_seqs_def)
  then show ?thesis
    using assms OpAppend append[OF OpAppend] by (auto simp: gate_inv_def flights_ok_Cons guard_drop_def Let_def publish_done_def)
next
  case (OpDelete b m bd)
  then show ?thesis
    using assms delete[OF OpDelete] by (auto simp: gate_inv_def flights_ok_Cons guard_drop_def split: if_splits)
qed

lemma push_back_live:
  "is_live (fold push_back rs ix) s \<longleftrightarrow>
     is_live ix s \<or> (base_seq ix + length (records ix) \<le> s \<and> s < base_seq ix + length (records ix) + length rs \<and>
       \<not> sr_deleted (rs ! (s - (base_seq ix + length (records ix)))))"
  by (auto simp: is_live_iff nth_append diff_diff_add)

lemma stage_append_batch:
  assumes ne: "rs \<noteq> []" and live: "\<forall>r\<in>set rs. \<not> sr_deleted r" and bytes: "slot_bytes rs \<le> u64_max"
    and st: "stage_append rs t = (t', sa)"
  shows "sa_start sa = base_seq (t_index t) + length (records (t_index t))" "sa_count sa = length rs"
    and "batch_at sa (t_index t')"
proof -
  let ?e = "base_seq (t_index t) + length (records (t_index t))"
  have sa: "sa_start sa = ?e" "sa_count sa = length rs" "sa_added_bytes sa = slot_bytes rs"
    using stage_append_result[OF ne bytes, of t] st by simp_all
  then show "sa_start sa = ?e" "sa_count sa = length rs" by simp_all
  have ix': "t_index t' = fold push_back rs (t_index t)"
    using stage_append_index[of rs t] st by simp
  have seqs: "staged_seqs sa = [?e..<?e + length rs]"
    by (simp add: staged_seqs_def sa)
  have "map (\<lambda>s. sr_bytes (slot (t_index t') s)) (staged_seqs sa) = map sr_bytes rs"
    by (rule nth_equalityI) (simp_all add: seqs ix' nth_append)
  moreover have "is_live (t_index t') s" if "s \<in> set (staged_seqs sa)" for s
    using that live by (auto simp: seqs ix' push_back_live)
  ultimately show "batch_at sa (t_index t')"
    using ne by (simp add: batch_at_def sa slot_bytes_def)
qed

lemma begin_append_inv:
  assumes inv: "gate_inv g" and ne: "rs \<noteq> []" and live: "\<forall>r\<in>set rs. \<not> sr_deleted r" and room: "room rs (g_topic g)"
  shows "gate_inv (begin_append rs g)"
proof -
  let ?t = "g_topic g" and ?ix = "t_index (g_topic g)"
  let ?e = "base_seq ?ix + length (records ?ix)"
  obtain t' sa where st: "stage_append rs ?t = (t', sa)" by fastforce
  have wf: "wf_topic ?t" and lay: "layout ?ix (t_head_seq ?t) (Suc (t_head_seq ?t)) (g_flights g)"
    using inv by (simp_all add: gate_inv_def)
  have "slot_bytes rs \<le> u64_max"
    using room by (simp add: room_def)
  note sa = stage_append_batch[OF ne live this st]
  have "\<forall>r\<in>set rs. slot_ok r"
    using live by (simp add: slot_ok_def)
  then have wf': "wf_topic t'"
    using stage_append_wf[OF wf, of rs] st by simp
  have ix': "t_index t' = fold push_back rs ?ix" and head: "t_head_seq t' = t_head_seq ?t"
    using stage_append_index[of rs ?t] stage_append_frame(1)[of rs ?t] st by simp_all
  define f where "f = \<lparr>fl_op = OpAppend sa, fl_guard = arm_append sa
      \<lparr>pg_ticket = g_ticket g, pg_waited = False, pg_done = False, pg_on_unwind = NoUnwind\<rparr>, fl_token = Pending\<rparr>"
  have same: "same_on {Suc (t_head_seq ?t)..<?e} ?ix (t_index t')"
    by (auto simp: same_on_def ix' push_back_live) (simp add: is_live_iff nth_append)
  have "layout (t_index t') (t_head_seq ?t) (Suc (t_head_seq ?t)) (g_flights g @ [f])"
  proof (rule layout_extend[OF lay same])
    show "layout_end (Suc (t_head_seq ?t)) (g_flights g) \<le> ?e"
      using layout_end_le[OF lay] wf_topicD(2)[OF wf] by simp
    show "fl_op f = OpAppend sa"
      by (simp add: f_def)
    show "\<forall>s\<ge>?e + sa_count sa. \<not> is_live (t_index t') s"
      by (auto simp: ix' sa is_live_iff)
  qed (rule sa)+
  moreover have "begin_append rs g = g\<lparr>g_topic := t', g_ticket := g_ticket g + 1, g_flights := g_flights g @ [f]\<rparr>"
    by (simp add: begin_append_def next_publish_ticket_def st f_def)
  moreover have "flights_ok (g_next g) (g_flights g @ [f])"
    using inv by (simp add: gate_inv_def flights_ok_append flights_ok_Cons f_def arm_append_def)
  ultimately show ?thesis
    using inv wf' room by (simp add: gate_inv_def head ix' room_def)
qed

lemma reject_same:
  assumes "gate_inv g" "\<forall>r\<in>set rs. \<not> sr_deleted r" "stage_append rs (g_topic g) = (t, sa)"
  shows "g\<lparr>g_topic := rollback_staged sa t\<rparr> = g"
proof -
  have "\<forall>r\<in>set rs. slot_ok r"
    using assms(2) by (simp add: slot_ok_def)
  then have "rollback_staged sa t = g_topic g"
    using rollback_stage_identity[of "g_topic g" rs] assms by (simp add: gate_inv_def)
  then show ?thesis by simp
qed

lemma enforce_gate_inv:
  assumes "gate_inv g" "enforce_retention_hardened now harden (g_topic g) = Inr (t, adv)"
  shows "gate_inv (g\<lparr>g_topic := t\<rparr>)"
proof -
  have wf: "wf_topic (g_topic g)" using assms(1) by (simp add: gate_inv_def)
  note ef = enforce_retention_fields[OF wf assms(2)]
  show ?thesis
    using assms(1) ef(1,2) enforce_above[OF assms(2)] by (intro gate_inv_topic) simp_all
qed

lemma begin_delete_inv: "gate_inv g \<Longrightarrow> gate_inv (begin_delete before match_sel g)"
  using layout_delete[of "t_index (g_topic g)" "t_head_seq (g_topic g)" "Suc (t_head_seq (g_topic g))" "g_flights g"]
  by (simp add: begin_delete_def next_publish_ticket_def gate_inv_def flights_ok_append flights_ok_Cons Let_def)
    (simp add: sat_add_def)

lemma token_inv:
  assumes "gate_inv g" "g_flights g = fs @ f # gs" "fl_token f = Pending"
  shows "gate_inv (g\<lparr>g_flights := fs @ resolve_token ok f # gs, g_committed := C\<rparr>)"
proof -
  have "flights_ok n (fs @ resolve_token ok f # gs)" if "flights_ok n (fs @ f # gs)" for n
    using that assms(3)
    by (auto simp: flights_ok_append flights_ok_Cons resolve_token_def arm_abort_on_unwind_def split: flight_op.splits)
  moreover have "layout ix h pos (fs @ resolve_token ok f # gs) \<longleftrightarrow> layout ix h pos (fs @ f # gs)" for ix h pos
    by (rule layout_ops) simp
  ultimately show ?thesis
    using assms(1,2) by (simp add: gate_inv_def)
qed

lemma rollback_gate_inv:
  assumes inv: "gate_inv g" and fl: "g_flights g = f # rest" and op: "fl_op f = OpAppend sa"
  shows "gate_inv (publish_done (fl_guard f) (g\<lparr>g_topic := rollback_staged_by_seqs sa (g_topic g), g_flights := rest\<rparr>))"
proof -
  define f' where "f' = f\<lparr>fl_token := Failed\<rparr>"
  have g': "gate_inv (g\<lparr>g_flights := f' # rest\<rparr>)"
    using inv op by (auto simp: gate_inv_def fl flights_ok_Cons f'_def)
  have "apply_flight 0 f' (g_topic g) = rollback_staged_by_seqs sa (g_topic g)"
    by (simp add: apply_flight_def f'_def op)
  then show ?thesis
    using apply_flight_spec[OF g', of f' rest "rollback_staged_by_seqs sa (g_topic g)" 0] inv fl
    by (intro finish_gate_inv) (simp_all add: f'_def)
qed

lemma gate_step_inv:
  assumes inv: "gate_inv g" and step: "gate_step env g g'"
  shows "gate_inv g'"
  using step
proof cases
  case (stage rs)
  then show ?thesis using inv by (simp add: begin_append_inv)
next
  case (reject rs t sa)
  then show ?thesis using inv reject_same by simp
next
  case (start_delete now harden t adv before match_sel)
  then show ?thesis using begin_delete_inv[OF enforce_gate_inv[OF inv start_delete(2)]] by simp
next
  case (token fs f gs ok)
  then show ?thesis using token_inv[OF inv] by simp
next
  case (finish f rest now)
  then show ?thesis
    using apply_flight_spec[OF inv finish(2,4) refl, of now] finish_gate_inv[OF inv finish(2)]
    by (simp add: finish_flight_def)
next
  case (unwind f rest)
  show ?thesis
    using inv unwind(1,3)
  proof (cases rule: drop_append_flight)
    case (append sa)
    then show ?thesis using rollback_gate_inv[OF inv unwind(1)] by simp
  next
    case (delete b m bd)
    then show ?thesis
      using inv finish_gate_inv[OF inv unwind(1), of "g_topic g"] unwind(1) by (simp add: gate_inv_def)
  qed
next
  case (seal a b)
  let ?t = "materialize_published env a b (g_topic g)"
  have sim: "topic_sim (g_topic g) ?t" by (rule materialize_published_sim)
  have "wf_topic ?t"
    using wf_topic_sim[OF sim] inv by (simp add: gate_inv_def)
  moreover have "t_head_seq ?t = t_head_seq (g_topic g)"
    using sim by (simp add: topic_sim_def)
  ultimately show ?thesis
    using seal gate_inv_topic[OF inv] above_kept_topic_sim[OF sim] by simp
next
  case (retain now harden t adv)
  then show ?thesis using enforce_gate_inv[OF inv] by simp
qed

lemma gate_step_head:
  assumes inv: "gate_inv g" and step: "gate_step env g g'"
  shows "t_head_seq (g_topic g) \<le> t_head_seq (g_topic g')"
proof -
  have wf: "wf_topic (g_topic g)" using inv by (simp add: gate_inv_def)
  show ?thesis
    using step
  proof cases
    case (stage rs)
    then show ?thesis by (simp add: begin_append_def next_publish_ticket_def split_beta stage_append_frame)
  next
    case (reject rs t sa)
    then show ?thesis using inv reject_same by simp
  next
    case (start_delete now harden t adv before match_sel)
    then show ?thesis
      using enforce_retention_fields(2)[OF wf start_delete(2)]
      by (simp add: begin_delete_def next_publish_ticket_def Let_def)
  next
    case (finish f rest now)
    then show ?thesis
      using apply_flight_spec(5)[OF inv finish(2,4) refl] by (simp add: finish_flight_def publish_done_def)
  next
    case (unwind f rest)
    show ?thesis
      using inv unwind(1,3) by (cases rule: drop_append_flight) (simp_all add: publish_done_def rollback_frame)
  next
    case (seal a b)
    then show ?thesis using materialize_published_sim[of "g_topic g" env a b] by (simp add: topic_sim_def)
  next
    case (retain now harden t adv)
    then show ?thesis using enforce_retention_fields(2)[OF wf retain(2)] by simp
  qed simp
qed

interpretation gate_mono: monotone_system "gate_step env" gate_inv "\<lambda>g. t_head_seq (g_topic g)"
  by unfold_locales (auto intro: gate_step_inv gate_step_head)

section \<open>Only committed records become readable\<close>

definition gate_safe :: "seq set \<Rightarrow> gate \<Rightarrow> bool" where
  "gate_safe V g \<longleftrightarrow> gate_inv g \<and> (\<forall>s. visible (g_topic g) s \<longrightarrow> s \<in> V \<union> g_committed g) \<and>
     (\<forall>f\<in>set (g_flights g). fl_token f = Committed \<longrightarrow> flight_seqs f \<subseteq> g_committed g)"

lemma visible_view: "visible t s \<longleftrightarrow> s \<in> fst ` set (view t)"
  by (auto simp: view_def image_iff visible_def simp del: upt_Suc)

lemma visible_filter: "view t' = filter P (view t) \<Longrightarrow> visible t' s \<Longrightarrow> visible t s"
  by (auto simp: visible_view)

lemma visible_same_floors:
  assumes "t_floors t' = t_floors t" "t_seq_base t' = t_seq_base t" "t_head_seq t \<le> t_head_seq t'" "t_head_seq t' < u64_max"
    and "visible t' s" "s \<le> t_head_seq t" "is_live (t_index t) s"
  shows "visible t s"
  using assms floors_earliest_le[of "t_head_seq t'" s] floors_earliest_le[of "t_head_seq t" s]
  by (simp add: visible_floor floor_earliest_def)

lemma publish_visible:
  assumes lay: "layout (t_index t) (t_head_seq t) (Suc (t_head_seq t)) (f # rest)" and op: "fl_op f = OpAppend sa"
    and t': "t' = fst (publish_staged_no_seal sa now t)" and h: "t_head_seq t' < u64_max" and v: "visible t' s"
  shows "visible t s \<or> s \<in> set (staged_seqs sa)"
proof -
  have b: "Suc (t_head_seq t) \<le> sa_start sa" "\<forall>s. Suc (t_head_seq t) \<le> s \<and> s < sa_start sa \<longrightarrow> \<not> is_live (t_index t) s" "0 < sa_count sa"
    using lay op by (auto simp: batch_at_def)
  have f: "t_index t' = t_index t" "t_head_seq t' = sa_start sa + sa_count sa - 1" "t_floors t' = t_floors t" "t_seq_base t' = t_seq_base t"
    using b(3) by (simp_all add: t' publish_staged_no_seal_def Let_def publish_head_seq_def)
  have live: "is_live (t_index t) s" and le: "s \<le> sa_start sa + sa_count sa - 1"
    using v f by (simp_all add: visible_def)
  show ?thesis
  proof (cases "s \<le> t_head_seq t")
    case True
    then show ?thesis
      using visible_same_floors[OF f(3,4) _ h v True live] f(2) b by simp
  next
    case False
    then have "sa_start sa \<le> s"
      using live b(2) by (metis not_le Suc_leI)
    then show ?thesis
      using b(3) le by (auto simp: staged_seqs_def)
  qed
qed

lemma rollback_visible: "visible (rollback_staged_by_seqs sa t) s \<Longrightarrow> visible t s"
  by (auto simp: visible_def rollback_frame earliest_seq_def Let_def rollback_index is_live_fold_mark fold_mark_fields)

lemma apply_flight_visible:
  assumes inv: "gate_inv g" and fl: "g_flights g = f # rest" and tok: "fl_token f \<noteq> Pending"
    and v: "visible (apply_flight now f (g_topic g)) s"
  shows "visible (g_topic g) s \<or> (fl_token f = Committed \<and> s \<in> flight_seqs f)"
proof (cases "fl_op f")
  case (OpAppend sa)
  show ?thesis
  proof (cases "fl_token f = Committed")
    case True
    have lay: "layout (t_index (g_topic g)) (t_head_seq (g_topic g)) (Suc (t_head_seq (g_topic g))) (f # rest)"
      using inv by (simp add: gate_inv_def fl)
    have t: "apply_flight now f (g_topic g) = fst (publish_staged_no_seal sa now (g_topic g))"
      by (simp add: apply_flight_def OpAppend True)
    have "gate_inv (finish_flight now f rest g)"
      using apply_flight_spec[OF inv fl tok refl, of now] finish_gate_inv[OF inv fl] by (simp add: finish_flight_def)
    then have "t_head_seq (apply_flight now f (g_topic g)) < u64_max"
      using gate_inv_head by (fastforce simp: finish_flight_def publish_done_def)
    then show ?thesis
      using publish_visible[OF lay OpAppend t _ v] True by (auto simp: flight_seqs_def OpAppend)
  next
    case False
    then have "apply_flight now f (g_topic g) = rollback_staged_by_seqs sa (g_topic g)"
      using tok by (cases "fl_token f") (simp_all add: apply_flight_def OpAppend)
    then show ?thesis
      using rollback_visible v by auto
  qed
next
  case (OpDelete b m bd)
  show ?thesis
  proof (cases "fl_token f = Committed")
    case True
    have wf: "wf_topic (g_topic g)" and bd: "pit_bound (Some bd) (g_topic g) \<le> Suc (t_head_seq (g_topic g))"
      using inv by (simp_all add: gate_inv_def fl OpDelete pit_bound_def)
    obtain t1 ra where ret: "enforce_retention now (g_topic g) = (t1, ra)" by fastforce
    obtain t' st where out: "apply_delete_stats b m (Some bd) now (g_topic g) = (t', st)" by fastforce
    note sp = apply_delete_spec[OF wf gate_inv_head[OF inv] bd ret out]
    have "visible t1 s"
      using visible_filter[OF sp(2)] v by (simp add: apply_flight_def OpDelete True out)
    then show ?thesis
      using visible_filter[OF enforce_retention_view[OF wf gate_inv_head[OF inv] enforce_retention_hardenedD[OF ret]]] by blast
  next
    case False
    then show ?thesis
      using tok v by (cases "fl_token f") (simp_all add: apply_flight_def OpDelete)
  qed
qed

lemma gate_step_safe:
  assumes safe: "gate_safe V g" and step: "gate_step env g g'"
  shows "gate_safe V g'"
proof -
  have inv: "gate_inv g" and vis: "\<And>s. visible (g_topic g) s \<Longrightarrow> s \<in> V \<union> g_committed g"
      and com: "\<And>f. f \<in> set (g_flights g) \<Longrightarrow> fl_token f = Committed \<Longrightarrow> flight_seqs f \<subseteq> g_committed g"
    using safe by (auto simp: gate_safe_def)
  have wf: "wf_topic (g_topic g)" using inv by (simp add: gate_inv_def)
  have enforce_vis: "visible (g_topic g) s"
    if "enforce_retention_hardened now harden (g_topic g) = Inr (t, adv)" "visible t s" for now t adv s and harden :: "retention_advance \<Rightarrow> string option"
    using visible_filter[OF enforce_retention_view[OF wf gate_inv_head[OF inv] that(1)] that(2)] .
  have rest: "(\<forall>s. visible (g_topic g') s \<longrightarrow> s \<in> V \<union> g_committed g') \<and>
    (\<forall>f\<in>set (g_flights g'). fl_token f = Committed \<longrightarrow> flight_seqs f \<subseteq> g_committed g')"
    using step
  proof cases
    case (stage rs)
    have wf': "visible (fst (stage_append rs (g_topic g))) s \<Longrightarrow> visible (g_topic g) s" for s
      using wf_topicD(2)[OF wf]
      by (auto simp: visible_def stage_append_frame earliest_seq_def Let_def stage_append_index push_back_live)
    then show ?thesis
      using vis com stage(1)
      by (auto simp: begin_append_def next_publish_ticket_def split_beta)
  next
    case (reject rs t sa)
    then show ?thesis using reject_same[OF inv reject(2,3)] vis com by auto
  next
    case (start_delete now harden t adv before match_sel)
    then show ?thesis
      using enforce_vis[OF start_delete(2)] vis com
      by (auto simp: begin_delete_def next_publish_ticket_def Let_def)
  next
    case (token fs f gs ok)
    have "flight_seqs (resolve_token ok f) = flight_seqs f" by (simp add: flight_seqs_def)
    then show ?thesis
      using token vis com by (auto simp: resolve_token_def)
  next
    case (finish f rest now)
    have "s \<in> V \<union> g_committed g" if "visible (apply_flight now f (g_topic g)) s" for s
      using apply_flight_visible[OF inv finish(2,4) that] vis[of s] com[of f] finish(2) by auto
    then show ?thesis
      using com finish(1,2) by (simp add: finish_flight_def publish_done_def)
  next
    case (unwind f rest)
    show ?thesis
      using inv unwind(1,3)
    proof (cases rule: drop_append_flight)
      case (append sa)
      then show ?thesis using rollback_visible vis com unwind(1) by (auto simp: publish_done_def)
    next
      case (delete b m bd)
      then show ?thesis using vis com unwind(1) by (auto simp: publish_done_def)
    qed
  next
    case (seal a b)
    then show ?thesis
      using vis com view_sim[OF materialize_published_sim[of "g_topic g" env a b]] by (simp add: visible_view)
  next
    case (retain now harden t adv)
    then show ?thesis using enforce_vis[OF retain(2)] vis com by auto
  qed
  then show ?thesis
    using gate_step_inv[OF inv step] by (simp add: gate_safe_def)
qed

interpretation gate_safety: step_invariant "gate_step env" "gate_safe V"
  by unfold_locales (rule gate_step_safe)

section \<open>The gate drains\<close>

lemma gate_progress:
  assumes inv: "gate_inv g" and pend: "0 < length (g_flights g)"
  shows "\<exists>g'. (gate_step env)\<^sup>*\<^sup>* g g' \<and> length (g_flights g') < length (g_flights g)"
proof -
  obtain f rest where fl: "g_flights g = f # rest"
    using pend by (cases "g_flights g") auto
  define g1 where "g1 = (if fl_token f = Pending
      then g\<lparr>g_flights := resolve_token True f # rest, g_committed := g_committed g \<union> flight_seqs f\<rparr> else g)"
  have g1: "(gate_step env)\<^sup>*\<^sup>* g g1"
    using gate_step.token[of g "[]" f rest env True] fl by (auto simp: g1_def)
  then have inv1: "gate_inv g1"
    using gate_mono.run_inv inv by blast
  define f1 where "f1 = (if fl_token f = Pending then resolve_token True f else f)"
  have f1: "g_flights g1 = f1 # rest" "fl_token f1 \<noteq> Pending"
    using fl by (simp_all add: g1_def f1_def resolve_token_def)
  then have "turn g1 (fl_guard f1)"
    using inv1 by (simp add: turn_def gate_inv_def flights_ok_Cons)
  then have "gate_step env g1 (finish_flight 0 f1 rest g1)"
    using f1 by (intro gate_step.finish)
  then show ?thesis
    using g1 fl by (intro exI[of _ "finish_flight 0 f1 rest g1"]) (auto simp: finish_flight_def publish_done_def)
qed

interpretation gate_drain: draining_system "gate_step env" gate_inv "\<lambda>g. length (g_flights g)"
  by unfold_locales (rule gate_progress)

lemma gate_quiesces:
  assumes "gate_inv g"
  shows "\<exists>g'. (gate_step env)\<^sup>*\<^sup>* g g' \<and> quiesced g'"
proof -
  obtain g' where "(gate_step env)\<^sup>*\<^sup>* g g'" "gate_inv g'" "length (g_flights g') = 0"
    using gate_drain.drains[OF assms] by blast
  then show ?thesis
    by (auto simp: gate_inv_def quiesced_def)
qed

lemma gate_new_inv:
  assumes "wf_topic t" "quiet t" "slot_bytes (records (t_index t)) \<le> u64_max" "t_head_seq t < u64_max"
  shows "gate_inv (gate_new t)"
  using assms by (auto simp: gate_inv_def gate_new_def quiet_def is_live_iff)

lemma gate_new_safe: "gate_inv (gate_new t) \<Longrightarrow> gate_safe {s. visible t s} (gate_new t)"
  by (simp add: gate_safe_def gate_new_def)

end
