(* ===== verification/Wal_Writer.thy ===== *)
theory Wal_Writer
  imports Wal_Codec Reachability
begin

text \<open>
  The writer of the log (\<open>storage/wal.rs\<close>, second half): the active file with its preallocated
  space, the group commit of a batch of submissions with rotation and the rewind of a failed
  batch, and the protocol between submitters, the writer thread and shutdown.

  The operating system is a script \<open>wal_io\<close>: the answer to the n-th call. A \<open>write_at\<close> may fail,
  or accept fewer bytes than offered; a sync or the creation of a file may fail. Bytes written
  since the last successful sync of a file may read back as anything after a power loss.
\<close>

section \<open>The active file\<close>

record wal_io =
  io_write :: "nat \<Rightarrow> nat option"
  io_sync :: "nat \<Rightarrow> bool"
  io_create :: "nat \<Rightarrow> bool"

record active_file =
  af_idx :: nat
  af_len :: nat
  af_capacity :: nat
  af_bytes :: "u8 list"
  af_clean :: nat

text \<open>
  \<open>af_bytes\<close> is what a read of the file returns now; the first \<open>af_clean\<close> of them are unchanged
  since the last successful sync.
\<close>

definition overwrite :: "nat \<Rightarrow> 'a list \<Rightarrow> 'a list \<Rightarrow> 'a list" where
  "overwrite off bs file = take off file @ bs @ drop (off + length bs) file"

definition file_create :: "nat \<Rightarrow> nat \<Rightarrow> active_file" where
  "file_create idx capacity =
     \<lparr>af_idx = idx, af_len = 0, af_capacity = capacity, af_bytes = replicate capacity 0, af_clean = capacity\<rparr>"

definition open_for_append :: "nat \<Rightarrow> nat \<Rightarrow> nat \<Rightarrow> u8 list \<Rightarrow> active_file" where
  "open_for_append idx capacity vlen content =
     (let want = max capacity vlen;
          content = content @ replicate (want - length content) 0
      in \<lparr>af_idx = idx, af_len = vlen, af_capacity = want, af_bytes = content, af_clean = length content\<rparr>)"

definition write_at :: "nat \<Rightarrow> u8 list \<Rightarrow> active_file \<Rightarrow> active_file" where
  "write_at off bs f = f\<lparr>af_bytes := overwrite off bs (af_bytes f), af_clean := min (af_clean f) off\<rparr>"

function write_loop :: "wal_io \<Rightarrow> nat \<Rightarrow> nat \<Rightarrow> u8 list \<Rightarrow> active_file \<Rightarrow> bool \<times> nat \<times> active_file" where
  "write_loop io n off bs f =
     (if bs = [] then (True, n, f)
      else case io_write io n of
             None \<Rightarrow> (False, Suc n, f)
           | Some k \<Rightarrow>
               let k = min k (length bs) in
               if k = 0 then (False, Suc n, f)
               else write_loop io (Suc n) (off + k) (drop k bs) (write_at off (take k bs) f))"
  by auto
termination
  by (relation "measure (\<lambda>(io, n, off, bs, f). length bs)") auto

declare write_loop.simps [simp del]

definition write_all_at_tail :: "wal_io \<Rightarrow> nat \<Rightarrow> u8 list \<Rightarrow> active_file \<Rightarrow> bool \<times> nat \<times> active_file" where
  "write_all_at_tail io n bs f =
     (let (ok, n, f) = write_loop io n (af_len f) bs f
      in (ok, n, if ok then f\<lparr>af_len := af_len f + length bs\<rparr> else f))"

definition fdatasync :: "wal_io \<Rightarrow> nat \<Rightarrow> active_file \<Rightarrow> bool \<times> nat \<times> active_file" where
  "fdatasync io n f =
     (if io_sync io n then (True, Suc n, f\<lparr>af_clean := length (af_bytes f)\<rparr>) else (False, Suc n, f))"

section \<open>Group commit\<close>

datatype commit_outcome = CoPending | CoOk | CoFailed

record submission =
  sb_records :: "wal_record list"
  sb_durable :: bool
  sb_token :: nat

record wal_metrics =
  wm_fsyncs :: nat
  wm_frames :: nat
  wm_batches :: nat
  wm_bytes_written :: nat
  wm_rotations :: nat
  wm_active_idx :: nat
  wm_active_len :: nat
  wm_read_only :: nat

text \<open>\<open>wt_older\<close> are the files sealed by earlier rotations, oldest first; \<open>wt_calls\<close> counts the calls into the script.\<close>

record writer_task =
  wt_file_size :: nat
  wt_file :: active_file
  wt_older :: "active_file list"
  wt_metrics :: wal_metrics
  wt_read_only :: bool
  wt_calls :: nat

definition no_metrics :: "nat \<Rightarrow> nat \<Rightarrow> wal_metrics" where
  "no_metrics idx len = \<lparr>wm_fsyncs = 0, wm_frames = 0, wm_batches = 0, wm_bytes_written = 0, wm_rotations = 0,
     wm_active_idx = idx, wm_active_len = len, wm_read_only = 0\<rparr>"

definition open_at_with :: "nat \<Rightarrow> nat \<Rightarrow> nat \<Rightarrow> u8 list \<Rightarrow> active_file list \<Rightarrow> writer_task" where
  "open_at_with file_size first_idx existing_len content older =
     \<lparr>wt_file_size = file_size, wt_file = open_for_append first_idx file_size existing_len content, wt_older = older,
      wt_metrics = no_metrics first_idx existing_len, wt_read_only = False, wt_calls = 0\<rparr>"

definition batch_frames :: "submission list \<Rightarrow> wal_frame list" where
  "batch_frames pending =
     concat (map (\<lambda>s. map (\<lambda>r. \<lparr>wf_record = r, wf_durable = sb_durable s\<rparr>) (sb_records s)) pending)"

definition batch_bytes :: "(u8 list \<Rightarrow> nat) \<Rightarrow> submission list \<Rightarrow> u8 list" where
  "batch_bytes crc pending =
     concat (map (\<lambda>s. concat (map (\<lambda>r. encode_frame crc r (sb_durable s)) (sb_records s))) pending)"

definition rotate_file :: "wal_io \<Rightarrow> nat \<Rightarrow> writer_task \<Rightarrow> bool \<times> writer_task" where
  "rotate_file io needed w =
     (if needed > af_capacity (wt_file w) then
        let (_, n, f) = fdatasync io (wt_calls w) (wt_file w);
            next_idx = af_idx f + 1;
            m = wt_metrics w
        in if io_create io n
           then (True, w\<lparr>wt_file := file_create next_idx (wt_file_size w), wt_older := wt_older w @ [f], wt_calls := Suc n,
                   wt_metrics := m\<lparr>wm_rotations := wm_rotations m + 1, wm_active_idx := next_idx, wm_active_len := 0\<rparr>\<rparr>)
           else (False, w\<lparr>wt_file := f, wt_calls := Suc n, wt_read_only := True, wt_metrics := m\<lparr>wm_read_only := 1\<rparr>\<rparr>)
      else (True, w))"

definition rewind :: "nat \<Rightarrow> writer_task \<Rightarrow> writer_task" where
  "rewind len_before w =
     w\<lparr>wt_file := (wt_file w)\<lparr>af_len := len_before\<rparr>, wt_metrics := (wt_metrics w)\<lparr>wm_active_len := len_before\<rparr>\<rparr>"

definition write_batch :: "wal_io \<Rightarrow> u8 list \<Rightarrow> nat \<Rightarrow> bool \<Rightarrow> writer_task \<Rightarrow> commit_outcome \<times> writer_task" where
  "write_batch io bytes frames any_durable w =
     (let len_before = af_len (wt_file w);
          (ok, n, f) = write_all_at_tail io (wt_calls w) bytes (wt_file w);
          w = w\<lparr>wt_file := f, wt_calls := n\<rparr>
      in if \<not> ok then (CoFailed, rewind len_before w)
         else
           let m = wt_metrics w;
               w = w\<lparr>wt_metrics := m\<lparr>wm_bytes_written := wm_bytes_written m + length bytes, wm_frames := wm_frames m + frames,
                     wm_batches := wm_batches m + 1, wm_active_len := af_len f\<rparr>\<rparr>
           in if any_durable then
                let (ok, n, f) = fdatasync io (wt_calls w) (wt_file w);
                    w = w\<lparr>wt_file := f, wt_calls := n\<rparr>
                in if \<not> ok then (CoFailed, rewind len_before w)
                   else (CoOk, w\<lparr>wt_metrics := (wt_metrics w)\<lparr>wm_fsyncs := wm_fsyncs (wt_metrics w) + 1\<rparr>\<rparr>)
              else (CoOk, w))"

definition commit_batch ::
  "(u8 list \<Rightarrow> nat) \<Rightarrow> wal_io \<Rightarrow> submission list \<Rightarrow> bool \<Rightarrow> writer_task \<Rightarrow> commit_outcome \<times> writer_task" where
  "commit_batch crc io pending any_durable w =
     (if pending = [] then (CoOk, w)
      else if wt_read_only w then (CoFailed, w)
      else
        let bytes = batch_bytes crc pending;
            (ok, w) = rotate_file io (af_len (wt_file w) + length bytes) w
        in if \<not> ok then (CoFailed, w) else write_batch io bytes (length (batch_frames pending)) any_durable w)"

section \<open>What a file holds\<close>

definition file_frames :: "(u8 list \<Rightarrow> nat) \<Rightarrow> active_file \<Rightarrow> wal_frame list" where
  "file_frames crc f = fst (read_wal crc (take (af_len f) (af_bytes f)))"

definition durable_frames :: "(u8 list \<Rightarrow> nat) \<Rightarrow> active_file \<Rightarrow> wal_frame list" where
  "durable_frames crc f = fst (read_wal crc (take (min (af_len f) (af_clean f)) (af_bytes f)))"

definition wal_files :: "writer_task \<Rightarrow> active_file list" where
  "wal_files w = wt_older w @ [wt_file w]"

definition log_frames :: "(u8 list \<Rightarrow> nat) \<Rightarrow> writer_task \<Rightarrow> wal_frame list" where
  "log_frames crc w = concat (map (file_frames crc) (wal_files w))"

definition durable_log :: "(u8 list \<Rightarrow> nat) \<Rightarrow> writer_task \<Rightarrow> wal_frame list" where
  "durable_log crc w = concat (map (durable_frames crc) (wal_files w))"

text \<open>A power loss keeps the clean part of a file and leaves anything behind it.\<close>

definition crash_image :: "active_file \<Rightarrow> u8 list \<Rightarrow> bool" where
  "crash_image f img \<longleftrightarrow> length img = length (af_bytes f) \<and> take (af_clean f) img = take (af_clean f) (af_bytes f)"

definition file_ok :: "(u8 list \<Rightarrow> nat) \<Rightarrow> active_file \<Rightarrow> bool" where
  "file_ok crc f \<longleftrightarrow> af_len f \<le> length (af_bytes f) \<and>
     (\<exists>fs. take (af_len f) (af_bytes f) = encode_frames crc fs \<and> (\<forall>x\<in>set fs. record_ok (wf_record x)))"

definition writer_ok :: "(u8 list \<Rightarrow> nat) \<Rightarrow> writer_task \<Rightarrow> bool" where
  "writer_ok crc w \<longleftrightarrow> (\<forall>f\<in>set (wal_files w). file_ok crc f)"

definition subs_ok :: "submission list \<Rightarrow> bool" where
  "subs_ok pending = list_all (\<lambda>s. list_all record_ok (sb_records s)) pending"

lemma batch_bytes_frames: "batch_bytes crc pending = encode_frames crc (batch_frames pending)"
  by (induction pending) (simp_all add: batch_bytes_def batch_frames_def encode_frames_def o_def)

lemma subs_ok_frames: "subs_ok pending \<Longrightarrow> \<forall>x\<in>set (batch_frames pending). record_ok (wf_record x)"
  by (auto simp: subs_ok_def batch_frames_def list_all_iff)

lemma encode_frames_append: "encode_frames crc (xs @ ys) = encode_frames crc xs @ encode_frames crc ys"
  by (simp add: encode_frames_def)

lemma length_overwrite: "off + length bs \<le> length file \<Longrightarrow> length (overwrite off bs file) = length file"
  by (simp add: overwrite_def)

lemma take_overwrite: "k \<le> off \<Longrightarrow> off \<le> length file \<Longrightarrow> take k (overwrite off bs file) = take k file"
  by (simp add: overwrite_def)

lemma overwrite_overwrite:
  "off \<le> length file \<Longrightarrow> overwrite (off + length xs) ys (overwrite off xs file) = overwrite off (xs @ ys) file"
  by (simp add: overwrite_def min_def ac_simps)

lemma write_loop_spec:
  assumes "write_loop io n off bs f = (ok, n', f')" "off \<le> length (af_bytes f)"
  shows "(\<exists>k\<le>length bs. af_bytes f' = overwrite off (take k bs) (af_bytes f)) \<and>
    (ok \<longrightarrow> af_bytes f' = overwrite off bs (af_bytes f)) \<and>
    min (af_clean f) off \<le> af_clean f' \<and> af_clean f' \<le> af_clean f \<and> (bs \<noteq> [] \<and> ok \<longrightarrow> af_clean f' \<le> off) \<and>
    af_len f' = af_len f \<and> af_idx f' = af_idx f \<and> af_capacity f' = af_capacity f"
  using assms
proof (induction io n off bs f arbitrary: ok n' f' rule: write_loop.induct)
  case (1 io n off bs f)
  show ?case
  proof (cases "bs = [] \<or> io_write io n = None \<or> io_write io n = Some 0")
    case True
    have "overwrite off [] (af_bytes f) = af_bytes f"
      by (simp add: overwrite_def)
    then show ?thesis
      using 1(2) True by (subst (asm) write_loop.simps) (auto split: if_splits intro!: exI[of _ 0])
  next
    case False
    then obtain k0 where k0: "io_write io n = Some k0" "0 < k0" by auto
    let ?k = "min k0 (length bs)" and ?f = "write_at off (take (min k0 (length bs)) bs) f"
    have kpos: "0 < ?k" "?k \<le> length bs" "bs \<noteq> []"
      using False k0(2) by auto
    have rec: "write_loop io (Suc n) (off + ?k) (drop ?k bs) ?f = (ok, n', f')"
      using 1(2) False k0 kpos by (subst (asm) write_loop.simps) (auto simp: Let_def split: if_splits)
    have len: "off + ?k \<le> length (af_bytes ?f)"
      using 1(3) by (simp add: write_at_def overwrite_def)
    have merge: "overwrite (off + ?k) (take j (drop ?k bs)) (af_bytes ?f) = overwrite off (take (?k + j) bs) (af_bytes f)" for j
      using overwrite_overwrite[OF 1(3), of "take ?k bs" "take j (drop ?k bs)"] by (simp add: write_at_def take_add)
    have all: "overwrite (off + ?k) (drop ?k bs) (af_bytes ?f) = overwrite off bs (af_bytes f)"
      using overwrite_overwrite[OF 1(3), of "take ?k bs" "drop ?k bs"] by (simp add: write_at_def)
    have IH: "(\<exists>j\<le>length (drop ?k bs). af_bytes f' = overwrite (off + ?k) (take j (drop ?k bs)) (af_bytes ?f)) \<and>
      (ok \<longrightarrow> af_bytes f' = overwrite (off + ?k) (drop ?k bs) (af_bytes ?f)) \<and>
      min (af_clean ?f) (off + ?k) \<le> af_clean f' \<and> af_clean f' \<le> af_clean ?f \<and>
      (drop ?k bs \<noteq> [] \<and> ok \<longrightarrow> af_clean f' \<le> off + ?k) \<and>
      af_len f' = af_len ?f \<and> af_idx f' = af_idx ?f \<and> af_capacity f' = af_capacity ?f"
      using 1(1)[OF kpos(3) k0(1) refl _ rec len] kpos(1) by blast
    then obtain j where j: "j \<le> length (drop ?k bs)" "af_bytes f' = overwrite off (take (?k + j) bs) (af_bytes f)"
      using merge by auto
    show ?thesis
      using IH j kpos all by (auto simp: write_at_def intro!: exI[of _ "?k + j"])
  qed
qed

section \<open>Recovering the frames of a file\<close>

lemma wal_drain_frames_prefix:
  assumes "crc_u64 crc" "\<forall>f\<in>set fs. record_ok (wf_record f)"
    "rd_buf rd = pre @ encode_frames crc fs @ tail" "rd_pos rd = length pre" "\<not> rd_done rd"
  shows "\<exists>more. fst (wal_drain crc rd) = fs @ more"
  using assms
proof (induction fs arbitrary: pre rd)
  case (Cons f fs)
  let ?e = "encode_frame crc (wf_record f) (wf_durable f)"
  let ?rd = "rd\<lparr>rd_pos := length pre + length ?e, valid_len := length pre + length ?e\<rparr>"
  have "decode_one crc (drop (rd_pos rd) (rd_buf rd)) = Frame f (length ?e)"
    using decode_encode_frame[of "wf_record f" crc "wf_durable f" "encode_frames crc fs @ tail"] Cons.prems
    by (simp add: encode_frames_def)
  then have step: "wal_reader_next crc rd = (Some f, ?rd)"
    using Cons.prems by (simp add: wal_reader_next_def)
  have "\<exists>more. fst (wal_drain crc ?rd) = fs @ more"
    using Cons.prems by (intro Cons.IH[of _ "pre @ ?e"]) (auto simp: encode_frames_def)
  then show ?case
    by (subst wal_drain.simps) (auto simp: step split: prod.splits)
qed simp

lemma read_wal_prefix:
  assumes "crc_u64 crc" "\<forall>f\<in>set fs. record_ok (wf_record f)"
  shows "prefix fs (fst (read_wal crc (encode_frames crc fs @ tail)))"
  using wal_drain_frames_prefix[OF assms, of "wal_reader_new (encode_frames crc fs @ tail)" "[]" tail]
  by (auto simp: read_wal_def wal_reader_new_def prefix_def split: prod.splits)

lemma read_wal_encoded:
  "crc_u64 crc \<Longrightarrow> \<forall>f\<in>set fs. record_ok (wf_record f) \<Longrightarrow> read_wal crc (encode_frames crc fs) = (fs, length (encode_frames crc fs))"
  using read_wal_frames[of crc fs "[]"] decode_zeros[of crc 0] by simp

lemma file_frames_eq:
  assumes "crc_u64 crc" "take (af_len f) (af_bytes f) = encode_frames crc fs" "\<forall>x\<in>set fs. record_ok (wf_record x)"
  shows "file_frames crc f = fs"
  using read_wal_encoded[OF assms(1,3)] assms(2) by (simp add: file_frames_def)

lemma file_okE:
  assumes "crc_u64 crc" "file_ok crc f"
  shows "af_len f \<le> length (af_bytes f)" "take (af_len f) (af_bytes f) = encode_frames crc (file_frames crc f)"
    "\<forall>x\<in>set (file_frames crc f). record_ok (wf_record x)"
  using assms file_frames_eq[OF assms(1)] by (auto simp: file_ok_def)

lemma durable_frames_cut:
  assumes "crc_u64 crc" "file_ok crc f"
  shows "\<exists>n tail. durable_frames crc f = take n (file_frames crc f) \<and>
    take (min (af_len f) (af_clean f)) (af_bytes f) = encode_frames crc (take n (file_frames crc f)) @ tail"
proof -
  note ok = file_okE[OF assms]
  obtain n tail where cut: "take (af_clean f) (encode_frames crc (file_frames crc f)) = encode_frames crc (take n (file_frames crc f)) @ tail"
    "decode_one crc tail = Torn"
    using encode_frames_cut[OF ok(3)] by blast
  have eq: "take (min (af_len f) (af_clean f)) (af_bytes f) = encode_frames crc (take n (file_frames crc f)) @ tail"
    using cut(1) by (simp add: ok(2)[symmetric] min.commute)
  have "\<forall>x\<in>set (take n (file_frames crc f)). record_ok (wf_record x)"
    using ok(3) by (meson in_set_takeD)
  from read_wal_frames[OF assms(1) this cut(2)] show ?thesis
    using eq by (auto simp: durable_frames_def)
qed

lemma durable_prefix: "crc_u64 crc \<Longrightarrow> file_ok crc f \<Longrightarrow> prefix (durable_frames crc f) (file_frames crc f)"
  using durable_frames_cut by (metis take_is_prefix)

lemma crash_keeps_durable:
  assumes "crc_u64 crc" "file_ok crc f" "crash_image f img"
  shows "prefix (durable_frames crc f) (fst (read_wal crc img))"
proof -
  obtain n tail where n: "durable_frames crc f = take n (file_frames crc f)"
    "take (min (af_len f) (af_clean f)) (af_bytes f) = encode_frames crc (take n (file_frames crc f)) @ tail"
    using durable_frames_cut[OF assms(1,2)] by blast
  have "take (min (af_len f) (af_clean f)) img = take (min (af_len f) (af_clean f)) (af_bytes f)"
    using assms(3) by (metis crash_image_def min.cobounded2 min_def take_take)
  then have "img = encode_frames crc (take n (file_frames crc f)) @ tail @ drop (min (af_len f) (af_clean f)) img"
    using n(2) by (metis append.assoc append_take_drop_id)
  moreover have "\<forall>x\<in>set (take n (file_frames crc f)). record_ok (wf_record x)"
    using file_okE(3)[OF assms(1,2)] by (meson in_set_takeD)
  ultimately show ?thesis
    using read_wal_prefix[OF assms(1)] n(1) by metis
qed

lemma durable_all:
  assumes "af_len f \<le> af_clean f"
  shows "durable_frames crc f = file_frames crc f"
  using assms by (simp add: durable_frames_def file_frames_def)

text \<open>A change of a file that keeps its first \<open>af_len\<close> bytes keeps its frames.\<close>

lemma same_frames:
  assumes "take (af_len f) (af_bytes f') = take (af_len f) (af_bytes f)" "af_len f' = af_len f"
  shows "file_frames crc f' = file_frames crc f"
    and "af_len f \<le> length (af_bytes f') \<Longrightarrow> file_ok crc f \<Longrightarrow> file_ok crc f'"
    and "min (af_len f) (af_clean f') = min (af_len f) (af_clean f) \<Longrightarrow> durable_frames crc f' = durable_frames crc f"
proof -
  show "file_frames crc f' = file_frames crc f" "af_len f \<le> length (af_bytes f') \<Longrightarrow> file_ok crc f \<Longrightarrow> file_ok crc f'"
    using assms by (simp_all add: file_frames_def file_ok_def)
  assume m: "min (af_len f) (af_clean f') = min (af_len f) (af_clean f)"
  have "take (min (af_len f) (af_clean f)) (af_bytes f') = take (min (af_len f) (af_clean f)) (af_bytes f)"
    using assms(1) by (metis min.commute take_take)
  then show "durable_frames crc f' = durable_frames crc f"
    using m assms(2) by (simp add: durable_frames_def)
qed

section \<open>Effect of a group commit\<close>

lemma rewound_file:
  assumes "crc_u64 crc" "file_ok crc f" "af_bytes f' = overwrite (af_len f) bs (af_bytes f)"
    "min (af_clean f) (af_len f) \<le> af_clean f'" "af_clean f' \<le> af_clean f"
  shows "file_frames crc (f'\<lparr>af_len := af_len f\<rparr>) = file_frames crc f"
    "durable_frames crc (f'\<lparr>af_len := af_len f\<rparr>) = durable_frames crc f" "file_ok crc (f'\<lparr>af_len := af_len f\<rparr>)"
proof -
  let ?g = "f'\<lparr>af_len := af_len f\<rparr>"
  have le: "af_len f \<le> length (af_bytes f)"
    by (rule file_okE(1)[OF assms(1,2)])
  then have keep: "take (af_len f) (af_bytes ?g) = take (af_len f) (af_bytes f)" "af_len f \<le> length (af_bytes ?g)"
    using assms(3) take_overwrite[of "af_len f" "af_len f" "af_bytes f" bs] by (simp_all add: overwrite_def)
  have "min (af_len f) (af_clean ?g) = min (af_len f) (af_clean f)"
    using assms(4,5) by (simp add: min_def split: if_splits)
  then show "file_frames crc ?g = file_frames crc f" "durable_frames crc ?g = durable_frames crc f" "file_ok crc ?g"
    using same_frames[OF keep(1)] keep(2) assms(2) by simp_all
qed

lemma extended_file:
  assumes "crc_u64 crc" "file_ok crc f" "\<forall>x\<in>set fs. record_ok (wf_record x)"
    "af_bytes f' = overwrite (af_len f) (encode_frames crc fs) (af_bytes f)"
    "af_len f' = af_len f + length (encode_frames crc fs)"
  shows "file_frames crc f' = file_frames crc f @ fs" "file_ok crc f'"
proof -
  note ok = file_okE[OF assms(1,2)]
  have "length (encode_frames crc (file_frames crc f)) = af_len f"
    using ok(1) by (simp flip: ok(2))
  then have bytes: "take (af_len f') (af_bytes f') = encode_frames crc (file_frames crc f @ fs)"
    using assms(4,5) ok(2) by (simp add: overwrite_def encode_frames_append)
  have recs: "\<forall>x\<in>set (file_frames crc f @ fs). record_ok (wf_record x)"
    using ok(3) assms(3) by auto
  show "file_frames crc f' = file_frames crc f @ fs"
    by (rule file_frames_eq[OF assms(1) bytes recs])
  have "af_len f' \<le> length (af_bytes f')"
    using assms(4,5) ok(1) by (simp add: overwrite_def)
  with bytes recs show "file_ok crc f'"
    unfolding file_ok_def by blast
qed

lemma write_batch_spec:
  assumes "crc_u64 crc" "file_ok crc (wt_file w)" "\<forall>x\<in>set fs. record_ok (wf_record x)"
    and run: "write_batch io (encode_frames crc fs) n dur w = (out, w')"
  shows "wt_older w' = wt_older w" "wt_read_only w' = wt_read_only w" "file_ok crc (wt_file w')" "out = CoOk \<or> out = CoFailed"
    "file_frames crc (wt_file w') = (if out = CoOk then file_frames crc (wt_file w) @ fs else file_frames crc (wt_file w))"
    "durable_frames crc (wt_file w') =
      (if out = CoOk \<and> dur then file_frames crc (wt_file w') else durable_frames crc (wt_file w))"
proof -
  let ?f = "wt_file w" and ?bs = "encode_frames crc fs"
  have le: "af_len ?f \<le> length (af_bytes ?f)"
    by (rule file_okE(1)[OF assms(1,2)])
  obtain ok n1 f1 where wl: "write_loop io (wt_calls w) (af_len ?f) ?bs ?f = (ok, n1, f1)"
    by (metis prod_cases3)
  note sp = write_loop_spec[OF wl le]
  obtain k where k: "af_bytes f1 = overwrite (af_len ?f) (take k ?bs) (af_bytes ?f)"
    using sp by blast
  have clean: "min (af_clean ?f) (af_len ?f) \<le> af_clean f1" "af_clean f1 \<le> af_clean ?f"
    using sp by simp_all
  note rw = rewound_file[OF assms(1,2) k clean]
  have key: "wt_older w' = wt_older w \<and> wt_read_only w' = wt_read_only w \<and> file_ok crc (wt_file w') \<and> (out = CoOk \<or> out = CoFailed) \<and>
    file_frames crc (wt_file w') = (if out = CoOk then file_frames crc ?f @ fs else file_frames crc ?f) \<and>
    durable_frames crc (wt_file w') = (if out = CoOk \<and> dur then file_frames crc (wt_file w') else durable_frames crc ?f)"
  proof (cases ok)
    case False
    then show ?thesis
      using run wl rw by (auto simp: write_batch_def write_all_at_tail_def rewind_def Let_def)
  next
    case True
    let ?g = "f1\<lparr>af_len := af_len f1 + length ?bs\<rparr>"
    have bytes: "af_bytes f1 = overwrite (af_len ?f) ?bs (af_bytes ?f)" "af_len f1 = af_len ?f"
      using sp True by simp_all
    note ext = extended_file[OF assms(1-3), of ?g]
    have g: "file_frames crc ?g = file_frames crc ?f @ fs" "file_ok crc ?g"
      using ext bytes by simp_all
    have len: "af_len ?g \<le> length (af_bytes ?g)"
      using file_okE(1)[OF assms(1) g(2)] .
    show ?thesis
    proof (cases dur)
      case False
      have "min (af_len ?g) (af_clean ?g) = min (af_len ?f) (af_clean ?f)"
        using clean sp True bytes(2) by (cases "?bs = []") (auto simp: min_def simp flip: length_greater_0_conv split: if_splits)
      moreover have "take (min (af_len ?f) (af_clean ?f)) (af_bytes ?g) = take (min (af_len ?f) (af_clean ?f)) (af_bytes ?f)"
        using bytes(1) le by (simp add: take_overwrite)
      ultimately have "durable_frames crc ?g = durable_frames crc ?f"
        by (simp add: durable_frames_def)
      then show ?thesis
        using run wl True False g by (auto simp: write_batch_def write_all_at_tail_def Let_def)
    next
      case dur: True
      show ?thesis
      proof (cases "io_sync io n1")
        case True
        let ?h = "?g\<lparr>af_clean := length (af_bytes ?g)\<rparr>"
        have "file_frames crc ?h = file_frames crc ?g" "file_ok crc ?h"
          using g(2) by (simp_all add: file_frames_def file_ok_def)
        moreover have "durable_frames crc ?h = file_frames crc ?h"
          using len by (intro durable_all) simp
        ultimately show ?thesis
          using run wl \<open>ok\<close> dur True g by (auto simp: write_batch_def write_all_at_tail_def fdatasync_def Let_def)
      next
        case False
        have "(f1\<lparr>af_len := af_len f1 + length ?bs\<rparr>)\<lparr>af_len := af_len ?f\<rparr> = f1\<lparr>af_len := af_len ?f\<rparr>"
          by simp
        then show ?thesis
          using run wl \<open>ok\<close> dur False rw by (auto simp: write_batch_def write_all_at_tail_def fdatasync_def rewind_def Let_def)
      qed
    qed
  qed
  then show "wt_older w' = wt_older w" "wt_read_only w' = wt_read_only w" "file_ok crc (wt_file w')" "out = CoOk \<or> out = CoFailed"
    "file_frames crc (wt_file w') = (if out = CoOk then file_frames crc ?f @ fs else file_frames crc ?f)"
    "durable_frames crc (wt_file w') = (if out = CoOk \<and> dur then file_frames crc (wt_file w') else durable_frames crc ?f)"
    by blast+
qed

lemma rotate_file_spec:
  assumes "crc_u64 crc" "writer_ok crc w" and run: "rotate_file io needed w = (ok, w')"
  shows "writer_ok crc w'" "log_frames crc w' = log_frames crc w" "subseq (durable_log crc w) (durable_log crc w')"
    "wt_read_only w' = (wt_read_only w \<or> \<not> ok)"
proof -
  let ?f = "wt_file w"
  obtain b n f where sync: "fdatasync io (wt_calls w) ?f = (b, n, f)" by (metis prod_cases3)
  have okf: "file_ok crc ?f"
    using assms(2) by (simp add: writer_ok_def wal_files_def)
  have f: "file_frames crc f = file_frames crc ?f" "file_ok crc f"
    using sync okf by (auto simp: fdatasync_def file_frames_def file_ok_def split: if_splits)
  have "durable_frames crc f = durable_frames crc ?f \<or> durable_frames crc f = file_frames crc f"
    using sync file_okE(1)[OF assms(1) okf] by (auto simp: fdatasync_def intro: durable_all split: if_splits)
  then have df: "prefix (durable_frames crc ?f) (durable_frames crc f)"
    using durable_prefix[OF assms(1) okf] f(1) by auto
  let ?new = "file_create (af_idx f + 1) (wt_file_size w)"
  have new: "file_frames crc ?new = []" "file_ok crc ?new" "durable_frames crc ?new = []"
    using read_wal_encoded[OF assms(1), of "[]"]
    by (simp_all add: file_create_def file_frames_def durable_frames_def file_ok_def encode_frames_def exI[of _ "[]"])
  have "writer_ok crc w' \<and> log_frames crc w' = log_frames crc w \<and> subseq (durable_log crc w) (durable_log crc w') \<and>
      wt_read_only w' = (wt_read_only w \<or> \<not> ok)"
    using run sync f new assms(2) df
    by (auto simp: rotate_file_def Let_def writer_ok_def wal_files_def log_frames_def durable_log_def
        intro: list_emb_append_mono prefix_imp_subseq split: if_splits)
  then show "writer_ok crc w'" "log_frames crc w' = log_frames crc w" "subseq (durable_log crc w) (durable_log crc w')"
    "wt_read_only w' = (wt_read_only w \<or> \<not> ok)"
    by blast+
qed

lemma commit_batch_spec:
  assumes "crc_u64 crc" "writer_ok crc w" "subs_ok pending" and run: "commit_batch crc io pending dur w = (out, w')"
  shows "writer_ok crc w'" "out = CoOk \<or> out = CoFailed"
    "log_frames crc w' = log_frames crc w @ (if out = CoOk then batch_frames pending else [])"
    "subseq (durable_log crc w @ (if out = CoOk \<and> dur then batch_frames pending else [])) (durable_log crc w')"
proof -
  have "writer_ok crc w' \<and> (out = CoOk \<or> out = CoFailed) \<and>
    log_frames crc w' = log_frames crc w @ (if out = CoOk then batch_frames pending else []) \<and>
    subseq (durable_log crc w @ (if out = CoOk \<and> dur then batch_frames pending else [])) (durable_log crc w')"
  proof (cases "pending = [] \<or> wt_read_only w")
    case True
    then show ?thesis
      using run assms(2) by (auto simp: commit_batch_def batch_frames_def split: if_splits)
  next
    case False
    obtain ok w1 where rot: "rotate_file io (af_len (wt_file w) + length (batch_bytes crc pending)) w = (ok, w1)" by fastforce
    note r = rotate_file_spec[OF assms(1,2) rot]
    show ?thesis
    proof (cases ok)
      case False
      then show ?thesis
        using run \<open>\<not> (pending = [] \<or> wt_read_only w)\<close> rot r by (auto simp: commit_batch_def Let_def)
    next
      case True
      have wb: "write_batch io (encode_frames crc (batch_frames pending)) (length (batch_frames pending)) dur w1 = (out, w')"
        using run \<open>\<not> (pending = [] \<or> wt_read_only w)\<close> rot True by (simp add: commit_batch_def batch_bytes_frames)
      have f1: "file_ok crc (wt_file w1)" and older: "\<forall>f\<in>set (wt_older w1). file_ok crc f"
        using r(1) by (simp_all add: writer_ok_def wal_files_def)
      note sp = write_batch_spec[OF assms(1) f1 subs_ok_frames[OF assms(3)] wb]
      have "subseq (durable_log crc w1 @ (if out = CoOk \<and> dur then batch_frames pending else [])) (durable_log crc w')"
        using sp(1,5,6) durable_prefix[OF assms(1) f1]
        by (auto simp: durable_log_def wal_files_def intro: list_emb_append_mono prefix_imp_subseq)
      then have "subseq (durable_log crc w @ (if out = CoOk \<and> dur then batch_frames pending else [])) (durable_log crc w')"
        using r(3) by (meson list_emb_append_mono subseq_order.dual_order.trans subseq_order.order_refl)
      then show ?thesis
        using sp r older by (auto simp: log_frames_def wal_files_def writer_ok_def)
    qed
  qed
  then show "writer_ok crc w'" "out = CoOk \<or> out = CoFailed"
    "log_frames crc w' = log_frames crc w @ (if out = CoOk then batch_frames pending else [])"
    "subseq (durable_log crc w @ (if out = CoOk \<and> dur then batch_frames pending else [])) (durable_log crc w')"
    by blast+
qed

lemma crash_keeps_durable_log:
  assumes "crc_u64 crc" "writer_ok crc w" "list_all2 crash_image (wal_files w) imgs"
  shows "subseq (durable_log crc w) (concat (map (\<lambda>img. fst (read_wal crc img)) imgs))"
proof -
  have "list_all2 crash_image fl imgs \<Longrightarrow> \<forall>f\<in>set fl. file_ok crc f \<Longrightarrow>
      subseq (concat (map (durable_frames crc) fl)) (concat (map (\<lambda>img. fst (read_wal crc img)) imgs))" for fl
    by (induction rule: list_all2_induct) (auto intro!: list_emb_append_mono intro: prefix_imp_subseq crash_keeps_durable[OF assms(1)])
  then show ?thesis
    using assms(2,3) by (simp add: durable_log_def writer_ok_def)
qed

section \<open>Submitters, the writer thread and shutdown\<close>

text \<open>
  A submission passes three atomic steps: it bumps the gauge, checks the stop signal, and sends
  into the bounded channel. The writer takes some of what is queued, in order, as one batch; after
  the stop signal it forces a sync of each batch and exits once the gauge reads zero.
  \<open>ch_done\<close> records, for each committed submission, the outcome that its token was signalled with.
\<close>

record wal_chan =
  ch_queue :: "submission list"
  ch_cap :: nat
  ch_queued :: nat
  ch_bumped :: "submission list"
  ch_checked :: "submission list"
  ch_shutdown :: bool
  ch_exited :: bool
  ch_writer :: writer_task
  ch_done :: "(submission \<times> commit_outcome) list"

datatype wal_error = WriterGone | WalFull

definition chan_new :: "nat \<Rightarrow> writer_task \<Rightarrow> wal_chan" where
  "chan_new cap w = \<lparr>ch_queue = [], ch_cap = max cap 1, ch_queued = 0, ch_bumped = [], ch_checked = [],
     ch_shutdown = False, ch_exited = False, ch_writer = w, ch_done = []\<rparr>"

definition submit_enqueued :: "submission \<Rightarrow> wal_chan \<Rightarrow> wal_chan" where
  "submit_enqueued s c = c\<lparr>ch_queued := ch_queued c + 1, ch_bumped := s # ch_bumped c\<rparr>"

definition submit_check :: "submission \<Rightarrow> wal_chan \<Rightarrow> wal_error option \<times> wal_chan" where
  "submit_check s c =
     (let c = c\<lparr>ch_bumped := remove1 s (ch_bumped c)\<rparr> in
      if ch_shutdown c then (Some WriterGone, c\<lparr>ch_queued := ch_queued c - 1\<rparr>)
      else (None, c\<lparr>ch_checked := s # ch_checked c\<rparr>))"

definition submit_send :: "submission \<Rightarrow> wal_chan \<Rightarrow> wal_error option \<times> wal_chan" where
  "submit_send s c =
     (let c = c\<lparr>ch_checked := remove1 s (ch_checked c)\<rparr> in
      if ch_exited c then (Some WriterGone, c\<lparr>ch_queued := ch_queued c - 1\<rparr>)
      else if length (ch_queue c) \<ge> ch_cap c then (Some WalFull, c\<lparr>ch_queued := ch_queued c - 1\<rparr>)
      else (None, c\<lparr>ch_queue := ch_queue c @ [s]\<rparr>))"

definition writer_commit :: "(u8 list \<Rightarrow> nat) \<Rightarrow> wal_io \<Rightarrow> nat \<Rightarrow> bool \<Rightarrow> wal_chan \<Rightarrow> wal_chan" where
  "writer_commit crc io n forced c =
     (let pending = take n (ch_queue c);
          any_durable = (forced \<or> list_ex sb_durable pending);
          (out, w) = commit_batch crc io pending any_durable (ch_writer c)
      in c\<lparr>ch_queue := drop n (ch_queue c), ch_queued := ch_queued c - n, ch_writer := w,
           ch_done := ch_done c @ map (\<lambda>s. (s, out)) pending\<rparr>)"

definition token_outcome :: "wal_chan \<Rightarrow> nat \<Rightarrow> commit_outcome" where
  "token_outcome c t =
     (case map_of (map (\<lambda>(s, out). (sb_token s, out)) (ch_done c)) t of Some out \<Rightarrow> out | None \<Rightarrow> CoPending)"

inductive chan_step :: "(u8 list \<Rightarrow> nat) \<Rightarrow> wal_io \<Rightarrow> wal_chan \<Rightarrow> wal_chan \<Rightarrow> bool" for crc io where
  bump: "sb_records s \<noteq> [] \<Longrightarrow> list_all record_ok (sb_records s) \<Longrightarrow> chan_step crc io c (submit_enqueued s c)"
| check: "s \<in> set (ch_bumped c) \<Longrightarrow> chan_step crc io c (snd (submit_check s c))"
| send: "s \<in> set (ch_checked c) \<Longrightarrow> chan_step crc io c (snd (submit_send s c))"
| commit: "\<not> ch_exited c \<Longrightarrow> 0 < n \<Longrightarrow> n \<le> length (ch_queue c) \<Longrightarrow> (forced \<longrightarrow> ch_shutdown c) \<Longrightarrow>
    chan_step crc io c (writer_commit crc io n forced c)"
| stop: "chan_step crc io c (c\<lparr>ch_shutdown := True\<rparr>)"
| exit: "ch_shutdown c \<Longrightarrow> ch_queued c = 0 \<Longrightarrow> chan_step crc io c (c\<lparr>ch_exited := True\<rparr>)"

definition ok_frames :: "(submission \<times> commit_outcome) list \<Rightarrow> wal_frame list" where
  "ok_frames done = batch_frames (map fst (filter (\<lambda>(s, out). out = CoOk) done))"

definition ok_durable_frames :: "(submission \<times> commit_outcome) list \<Rightarrow> wal_frame list" where
  "ok_durable_frames done = batch_frames (map fst (filter (\<lambda>(s, out). out = CoOk \<and> sb_durable s) done))"

definition chan_inv :: "(u8 list \<Rightarrow> nat) \<Rightarrow> wal_chan \<Rightarrow> bool" where
  "chan_inv crc c \<longleftrightarrow>
     ch_queued c = length (ch_bumped c) + length (ch_checked c) + length (ch_queue c) \<and>
     length (ch_queue c) \<le> ch_cap c \<and> subs_ok (ch_bumped c @ ch_checked c @ ch_queue c) \<and>
     (ch_exited c \<longrightarrow> ch_shutdown c \<and> ch_checked c = [] \<and> ch_queue c = []) \<and>
     (\<forall>(s, out)\<in>set (ch_done c). out \<noteq> CoPending) \<and> writer_ok crc (ch_writer c) \<and>
     log_frames crc (ch_writer c) = ok_frames (ch_done c) \<and>
     subseq (ok_durable_frames (ch_done c)) (durable_log crc (ch_writer c))"

lemma batch_frames_append: "batch_frames (xs @ ys) = batch_frames xs @ batch_frames ys"
  by (simp add: batch_frames_def)

lemma batch_frames_filter: "subseq (batch_frames (filter P xs)) (batch_frames xs)"
proof (induction xs)
  case (Cons s xs)
  have "batch_frames (s # xs) = batch_frames [s] @ batch_frames xs" "batch_frames (s # filter P xs) = batch_frames [s] @ batch_frames (filter P xs)"
    by (simp_all add: batch_frames_def)
  then show ?case
    using Cons list_emb_append2[OF Cons] by (auto intro: list_emb_append_mono)
qed simp

lemma writer_commit_inv:
  assumes "crc_u64 crc" "chan_inv crc c" "n \<le> length (ch_queue c)"
  shows "chan_inv crc (writer_commit crc io n forced c)"
proof -
  let ?p = "take n (ch_queue c)" and ?d = "forced \<or> list_ex sb_durable (take n (ch_queue c))"
  obtain out w where run: "commit_batch crc io ?p ?d (ch_writer c) = (out, w)" by fastforce
  have inv: "writer_ok crc (ch_writer c)" "subs_ok (ch_queue c)" "subs_ok (ch_bumped c @ ch_checked c)"
    "log_frames crc (ch_writer c) = ok_frames (ch_done c)" "subseq (ok_durable_frames (ch_done c)) (durable_log crc (ch_writer c))"
    using assms(2) by (simp_all add: chan_inv_def subs_ok_def)
  have parts: "subs_ok ?p" "subs_ok (drop n (ch_queue c))"
    using inv(2) by (auto simp: subs_ok_def list_all_iff dest: in_set_takeD in_set_dropD)
  note sp = commit_batch_spec[OF assms(1) inv(1) parts(1) run]
  have new_ok: "ok_frames (map (\<lambda>s. (s, out)) ?p) = (if out = CoOk then batch_frames ?p else [])"
    using sp(2) by (auto simp: ok_frames_def filter_map o_def batch_frames_def)
  have "ok_durable_frames (map (\<lambda>s. (s, out)) ?p) = (if out = CoOk then batch_frames (filter sb_durable ?p) else [])"
    using sp(2) by (auto simp: ok_durable_frames_def filter_map o_def batch_frames_def)
  moreover have "filter sb_durable ?p = [] \<or> ?d"
    by (auto simp: filter_empty_conv list_ex_iff)
  ultimately have "subseq (ok_durable_frames (map (\<lambda>s. (s, out)) ?p)) (if out = CoOk \<and> ?d then batch_frames ?p else [])"
    using batch_frames_filter[of sb_durable ?p] by (auto simp: batch_frames_def)
  then have dur: "subseq (ok_durable_frames (ch_done c) @ ok_durable_frames (map (\<lambda>s. (s, out)) ?p)) (durable_log crc w)"
    using inv(5) sp(4) by (meson list_emb_append_mono subseq_order.dual_order.trans)
  show ?thesis
    using assms(2,3) run sp parts inv new_ok dur
    by (auto simp: writer_commit_def chan_inv_def Let_def ok_frames_def ok_durable_frames_def batch_frames_append subs_ok_def)
qed

lemma chan_step_inv:
  assumes "crc_u64 crc" "chan_inv crc c" "chan_step crc io c c'"
  shows "chan_inv crc c'"
  using assms(3,2)
proof cases
  case (bump s)
  then show ?thesis
    using assms(2) by (auto simp: chan_inv_def submit_enqueued_def subs_ok_def)
next
  case (check s)
  have "length (ch_bumped c) = Suc (length (remove1 s (ch_bumped c)))"
    using check by (simp add: length_remove1) (metis Suc_pred length_pos_if_in_set)
  moreover have "subs_ok (remove1 s (ch_bumped c))" "list_all record_ok (sb_records s)"
    using check assms(2) by (auto simp: chan_inv_def subs_ok_def list_all_iff dest!: subsetD[OF set_remove1_subset])
  ultimately show ?thesis
    using assms(2) check by (auto simp: chan_inv_def submit_check_def Let_def subs_ok_def)
next
  case (send s)
  have "length (ch_checked c) = Suc (length (remove1 s (ch_checked c)))"
    using send by (simp add: length_remove1) (metis Suc_pred length_pos_if_in_set)
  moreover have "subs_ok (remove1 s (ch_checked c))" "list_all record_ok (sb_records s)"
    using send assms(2) by (auto simp: chan_inv_def subs_ok_def list_all_iff dest!: subsetD[OF set_remove1_subset])
  ultimately show ?thesis
    using assms(2) send by (auto simp: chan_inv_def submit_send_def Let_def subs_ok_def)
next
  case (commit n forced)
  then show ?thesis
    using writer_commit_inv[OF assms(1,2)] by simp
next
  case stop
  then show ?thesis
    using assms(2) by (auto simp: chan_inv_def)
next
  case exit
  then show ?thesis
    using assms(2) by (auto simp: chan_inv_def)
qed

text \<open>After the stop signal the writer can always finish: the submitters in flight resolve and the queue drains.\<close>

definition chan_stopping :: "(u8 list \<Rightarrow> nat) \<Rightarrow> wal_chan \<Rightarrow> bool" where
  "chan_stopping crc c \<longleftrightarrow> crc_u64 crc \<and> chan_inv crc c \<and> ch_shutdown c"

definition chan_work :: "wal_chan \<Rightarrow> nat" where
  "chan_work c = (if ch_exited c then 0 else Suc (ch_queued c + length (ch_checked c)))"

lemma chan_step_shutdown: "chan_step crc io c c' \<Longrightarrow> ch_shutdown c \<Longrightarrow> ch_shutdown c'"
  by (induction rule: chan_step.induct)
    (auto simp: submit_enqueued_def submit_check_def submit_send_def writer_commit_def Let_def split_beta)

lemma chan_progress:
  assumes "chan_stopping crc c" "0 < chan_work c"
  shows "\<exists>c'. chan_step crc io c c' \<and> chan_work c' < chan_work c"
proof -
  have gauge: "ch_queued c = length (ch_bumped c) + length (ch_checked c) + length (ch_queue c)"
    and live: "ch_shutdown c" "\<not> ch_exited c"
    using assms by (simp_all add: chan_stopping_def chan_inv_def chan_work_def split: if_splits)
  consider s where "s \<in> set (ch_bumped c)" | s where "s \<in> set (ch_checked c)" | "ch_queue c \<noteq> []" | "ch_queued c = 0"
    using gauge by (metis add_is_0 length_0_conv list.set_sel(1))
  then show ?thesis
  proof cases
    case (1 s)
    then have "chan_work (snd (submit_check s c)) < chan_work c"
      using gauge live length_pos_if_in_set[OF 1] by (simp add: chan_work_def submit_check_def Let_def)
    then show ?thesis
      using chan_step.check[OF 1] by blast
  next
    case (2 s)
    obtain k where "length (ch_checked c) = Suc k"
      using length_pos_if_in_set[OF 2] by (metis gr0_implies_Suc)
    then have "chan_work (snd (submit_send s c)) < chan_work c"
      using 2 gauge live by (simp add: chan_work_def submit_send_def Let_def length_remove1)
    then show ?thesis
      using chan_step.send[OF 2] by blast
  next
    case 3
    then have "chan_work (writer_commit crc io 1 True c) < chan_work c"
      using gauge live by (simp add: chan_work_def writer_commit_def Let_def split_beta flip: length_greater_0_conv)
    moreover have "chan_step crc io c (writer_commit crc io 1 True c)"
      using 3 live by (intro chan_step.commit) (simp_all add: Suc_leI)
    ultimately show ?thesis by blast
  next
    case 4
    then show ?thesis
      using live chan_step.exit[of c crc io] by (auto simp: chan_work_def)
  qed
qed

interpretation chan_safety: step_invariant "chan_step crc io" "\<lambda>c. crc_u64 crc \<and> chan_inv crc c"
  by unfold_locales (auto intro: chan_step_inv)

interpretation chan_drain: draining_system "chan_step crc io" "chan_stopping crc" chan_work
proof unfold_locales
  show "chan_stopping crc c'" if "chan_stopping crc c" "chan_step crc io c c'" for c c'
    using that by (auto simp: chan_stopping_def intro: chan_step_inv chan_step_shutdown)
  show "\<exists>c'. (chan_step crc io)\<^sup>*\<^sup>* c c' \<and> chan_work c' < chan_work c" if "chan_stopping crc c" "0 < chan_work c" for c
    using chan_progress[OF that] by blast
qed

lemma chan_exits:
  assumes "chan_stopping crc c"
  shows "\<exists>c'. (chan_step crc io)\<^sup>*\<^sup>* c c' \<and> ch_exited c'"
  using chan_drain.drains[OF assms, of io] by (auto simp: chan_work_def split: if_splits)

lemma chan_new_inv:
  "crc_u64 crc \<Longrightarrow> writer_ok crc w \<Longrightarrow> log_frames crc w = [] \<Longrightarrow> chan_inv crc (chan_new cap w)"
  by (simp add: chan_inv_def chan_new_def subs_ok_def ok_frames_def ok_durable_frames_def batch_frames_def)

section \<open>A rewound batch leaves its bytes behind\<close>

text \<open>
  The rewind after a failed sync moves the append position back and leaves the bytes of the failed
  batch in the file. When the next batch is shorter, what it does not overwrite is still there.
\<close>

lemma overwrite_shorter:
  "off \<le> length file \<Longrightarrow> length ys = length a \<Longrightarrow>
    overwrite off ys (overwrite off (a @ b) file) = overwrite off (ys @ b) file"
  by (simp add: overwrite_def ac_simps)

lemma stale_frame_replayed:
  assumes "crc_u64 crc" "file_ok crc f" "\<forall>x\<in>{lost1, lost2, kept}. record_ok (wf_record x)"
    and "length (encode_frames crc [kept]) = length (encode_frames crc [lost1])"
    and "drop (af_len f) (af_bytes f) = replicate n 0" "length (encode_frames crc [lost1, lost2]) \<le> n"
  defines "failed \<equiv> (f\<lparr>af_bytes := overwrite (af_len f) (encode_frames crc [lost1, lost2]) (af_bytes f)\<rparr>)"
  defines "g \<equiv> f\<lparr>af_bytes := overwrite (af_len f) (encode_frames crc [kept]) (af_bytes failed),
      af_len := af_len f + length (encode_frames crc [kept])\<rparr>"
  shows "file_frames crc g = file_frames crc f @ [kept] \<and> fst (read_wal crc (af_bytes g)) = file_frames crc f @ [kept, lost2]"
proof -
  note ok = file_okE[OF assms(1,2)]
  let ?e = "encode_frames crc"
  have split: "?e [lost1, lost2] = ?e [lost1] @ ?e [lost2]" "?e [kept, lost2] = ?e [kept] @ ?e [lost2]"
    by (simp_all add: encode_frames_def)
  have bytes: "af_bytes g = overwrite (af_len f) (?e [kept, lost2]) (af_bytes f)"
    using overwrite_shorter[OF ok(1) assms(4), of "?e [lost2]"] by (simp add: g_def failed_def split)
  have len: "length (?e [kept, lost2]) = length (?e [lost1, lost2])"
    using assms(4) by (simp add: split)
  have "af_bytes g = ?e (file_frames crc f) @ ?e [kept, lost2] @ drop (af_len f + length (?e [kept, lost2])) (af_bytes f)"
    using bytes ok(2) by (simp add: overwrite_def)
  moreover have "drop (af_len f + length (?e [kept, lost2])) (af_bytes f) = replicate (n - length (?e [kept, lost2])) 0"
    using arg_cong[OF assms(5), of "drop (length (?e [kept, lost2]))"] by (simp add: add.commute)
  ultimately have img: "af_bytes g = ?e (file_frames crc f @ [kept, lost2]) @ replicate (n - length (?e [kept, lost2])) 0"
    by (simp add: encode_frames_append)
  have recs: "\<forall>x\<in>set (file_frames crc f @ [kept, lost2]). record_ok (wf_record x)" "\<forall>x\<in>set [kept]. record_ok (wf_record x)"
    using ok(3) assms(3) by auto
  have "fst (read_wal crc (af_bytes g)) = file_frames crc f @ [kept, lost2]"
    unfolding img using read_wal_frames[OF assms(1) recs(1) decode_zeros] by simp
  moreover have "file_frames crc g = file_frames crc f @ [kept]"
  proof -
    have "take (af_len g) (af_bytes g) = ?e (file_frames crc f @ [kept])"
    proof -
      have "length (?e (file_frames crc f)) = af_len f"
        using ok(1) by (simp flip: ok(2))
      then show ?thesis
        by (simp add: img encode_frames_append split) (simp add: g_def)
    qed
    then show ?thesis
      using recs ok(3) assms(1) by (intro file_frames_eq) auto
  qed
  ultimately show ?thesis by blast
qed

lemma write_loop_full:
  assumes "bs \<noteq> []" "io_write io n = Some k" "length bs \<le> k"
  shows "write_loop io n off bs f = (True, Suc n, write_at off bs f)"
proof -
  have "min k (length bs) = length bs" "length bs \<noteq> 0"
    using assms by simp_all
  then have "write_loop io n off bs f = write_loop io (Suc n) (off + length bs) [] (write_at off bs f)"
    using assms by (subst write_loop.simps) (simp add: Let_def)
  then show ?thesis
    by (simp add: write_loop.simps[of io "Suc n" _ "[]"])
qed

lemma encode_frames_pos: "encode_frames crc (x # fs) \<noteq> []"
  using length_encode_frame[of crc "wf_record x" "wf_durable x"] by (force simp: encode_frames_def)

lemma commit_batch_succeeds:
  assumes "\<not> wt_read_only w" "batch_frames pending \<noteq> []"
    and "af_len (wt_file w) + length (batch_bytes crc pending) \<le> af_capacity (wt_file w)"
    and "io_write io (wt_calls w) = Some k" "length (batch_bytes crc pending) \<le> k" "\<forall>n. io_sync io n"
  shows "fst (commit_batch crc io pending dur w) = CoOk"
proof -
  have "pending \<noteq> []"
    using assms(2) by (auto simp: batch_frames_def)
  moreover have ne: "batch_bytes crc pending \<noteq> []"
    using assms(2) encode_frames_pos by (cases "batch_frames pending") (simp_all add: batch_bytes_frames)
  ultimately show ?thesis
    using assms write_loop_full[OF ne assms(4,5)]
    by (simp add: commit_batch_def rotate_file_def write_batch_def write_all_at_tail_def fdatasync_def Let_def)
qed

text \<open>The same through two group commits: the first fails at its sync, the second succeeds.\<close>

lemma rewind_leaves_frame:
  assumes "crc_u64 crc" "file_ok crc (wt_file w)" "\<not> wt_read_only w" "\<forall>x\<in>{lost1, lost2, kept}. record_ok x"
    and "length (encode_frame crc kept True) = length (encode_frame crc lost1 True)"
    and "drop (af_len (wt_file w)) (af_bytes (wt_file w)) = replicate n 0"
    and "length (encode_frame crc lost1 True) + length (encode_frame crc lost2 True) \<le> n"
    and "af_len (wt_file w) + n \<le> af_capacity (wt_file w)"
    and "\<forall>i. \<exists>k\<ge>n. io_write io i = Some k" "\<not> io_sync io (wt_calls w + 1)" "io_sync io (wt_calls w + 3)"
  shows "\<exists>w1 w2. commit_batch crc io [\<lparr>sb_records = [lost1, lost2], sb_durable = True, sb_token = t\<rparr>] True w = (CoFailed, w1) \<and>
    commit_batch crc io [\<lparr>sb_records = [kept], sb_durable = True, sb_token = t'\<rparr>] True w1 = (CoOk, w2) \<and>
    log_frames crc w2 = log_frames crc w @ [\<lparr>wf_record = kept, wf_durable = True\<rparr>] \<and>
    fst (read_wal crc (af_bytes (wt_file w2))) =
      file_frames crc (wt_file w) @ [\<lparr>wf_record = kept, wf_durable = True\<rparr>, \<lparr>wf_record = lost2, wf_durable = True\<rparr>]"
proof -
  let ?f = "wt_file w" and ?l1 = "\<lparr>wf_record = lost1, wf_durable = True\<rparr>" and ?l2 = "\<lparr>wf_record = lost2, wf_durable = True\<rparr>"
    and ?k = "\<lparr>wf_record = kept, wf_durable = True\<rparr>"
  let ?B = "encode_frames crc [?l1, ?l2]" and ?K = "encode_frames crc [?k]"
  have bytes: "batch_bytes crc [\<lparr>sb_records = [lost1, lost2], sb_durable = True, sb_token = t\<rparr>] = ?B"
    "batch_bytes crc [\<lparr>sb_records = [kept], sb_durable = True, sb_token = t'\<rparr>] = ?K"
    by (simp_all add: batch_bytes_def encode_frames_def)
  have len: "length ?B \<le> n" "length ?K \<le> n" "length ?K = length (encode_frames crc [?l1])"
    using assms(5,7) by (simp_all add: encode_frames_def)
  have wr: "write_loop io i off bs f = (True, Suc i, write_at off bs f)" if "bs \<noteq> []" "length bs \<le> n" for i off bs f
    using assms(9) write_loop_full[OF that(1)] that(2) by (meson le_trans)
  have le: "af_len ?f \<le> length (af_bytes ?f)"
    by (rule file_okE(1)[OF assms(1,2)])
  define f1 where "f1 = (write_at (af_len ?f) ?B ?f)"
  define w1 where "w1 = snd (commit_batch crc io [\<lparr>sb_records = [lost1, lost2], sb_durable = True, sb_token = t\<rparr>] True w)"
  have c1: "commit_batch crc io [\<lparr>sb_records = [lost1, lost2], sb_durable = True, sb_token = t\<rparr>] True w = (CoFailed, w1)"
    "wt_file w1 = f1" "wt_calls w1 = wt_calls w + 2" "\<not> wt_read_only w1" "wt_older w1 = wt_older w"
    using assms(3,8,10) wr[OF encode_frames_pos len(1)] len(1)
    by (simp_all add: w1_def commit_batch_def bytes rotate_file_def write_batch_def write_all_at_tail_def fdatasync_def rewind_def
        Let_def f1_def write_at_def)
  define f2 where "f2 = (write_at (af_len ?f) ?K f1)\<lparr>af_len := af_len ?f + length ?K, af_clean := length (overwrite (af_len ?f) ?K (af_bytes f1))\<rparr>"
  define w2 where "w2 = snd (commit_batch crc io [\<lparr>sb_records = [kept], sb_durable = True, sb_token = t'\<rparr>] True w1)"
  have cap: "af_len f1 = af_len ?f" "af_capacity f1 = af_capacity ?f"
    by (simp_all add: f1_def write_at_def)
  have c2: "commit_batch crc io [\<lparr>sb_records = [kept], sb_durable = True, sb_token = t'\<rparr>] True w1 = (CoOk, w2)"
    "wt_file w2 = f2" "wt_older w2 = wt_older w"
    using c1 cap assms(8,11) wr[OF encode_frames_pos len(2)] len(2)
    by (simp_all add: w2_def commit_batch_def bytes rotate_file_def write_batch_def write_all_at_tail_def fdatasync_def
        Let_def f2_def write_at_def numeral_3_eq_3)
  have stale: "file_frames crc g = file_frames crc ?f @ [?k] \<and> fst (read_wal crc (af_bytes g)) = file_frames crc ?f @ [?k, ?l2]"
    if "g = ?f\<lparr>af_bytes := overwrite (af_len ?f) ?K (overwrite (af_len ?f) ?B (af_bytes ?f)), af_len := af_len ?f + length ?K\<rparr>" for g
    using stale_frame_replayed[OF assms(1,2) _ len(3) assms(6) len(1)] assms(4) that by simp
  have "file_frames crc f2 = file_frames crc ?f @ [?k]" "fst (read_wal crc (af_bytes f2)) = file_frames crc ?f @ [?k, ?l2]"
    using stale[OF refl] by (simp_all add: f2_def f1_def write_at_def file_frames_def)
  then show ?thesis
    using c1(1) c2 by (intro exI[of _ w1] exI[of _ w2]) (simp add: log_frames_def wal_files_def)
qed

end
