(* ===== verification/Router_Graph.thy ===== *)
theory Router_Graph
  imports Topic_Index Reachability
begin

text \<open>
  The router registry and its forwarding graph (\<open>engine/router.rs\<close>): insertion with the cycle
  check, the cascade of a topic delete, the per-router cursor and the deterministic numbering of
  forwarded records. The hash maps are association lists.
\<close>

section \<open>State\<close>

datatype router_guarantee = AtLeastOnce | ExactlyOnce

record router =
  r_name :: string
  r_source :: string
  r_dest :: string
  r_preserve_node :: bool
  r_preserve_tag :: bool
  r_create_dest :: bool
  r_filter :: "tag_filter option"
  r_allow_cycle :: bool
  r_guarantee :: router_guarantee

record router_graph =
  rg_routers :: "(string \<times> router) list"
  rg_cursors :: "(string \<times> seq) list"
  rg_forwarded_total :: "(string \<times> nat) list"
  rg_dest_base :: "(string \<times> seq) list"

datatype router_error = RouterCycle "string list" | RouterThrottled | RouterInvalid

definition graph_new :: router_graph where
  "graph_new = \<lparr>rg_routers = [], rg_cursors = [], rg_forwarded_total = [], rg_dest_base = []\<rparr>"

section \<open>Cycle search\<close>

type_synonym edges = "(string \<times> string) list"

definition neighbors :: "edges \<Rightarrow> string \<Rightarrow> string list" where
  "neighbors adj v = map snd (filter (\<lambda>e. fst e = v) adj)"

function dfs_to :: "edges \<Rightarrow> string \<Rightarrow> string \<Rightarrow> string set \<Rightarrow> string list \<Rightarrow> string list option \<times> string set"
  and dfs_list :: "edges \<Rightarrow> string list \<Rightarrow> string \<Rightarrow> string set \<Rightarrow> string list \<Rightarrow> string list option \<times> string set" where
  "dfs_to adj v target visited path =
     (if v = target then (Some (path @ [v]), visited)
      else dfs_list adj (neighbors adj v) target (insert v visited) (path @ [v]))"
| "dfs_list adj [] target visited path = (None, visited)"
| "dfs_list adj (n # ns) target visited path =
     (if n \<in> visited then dfs_list adj ns target visited path
      else case dfs_to adj n target visited path of
             (Some found, visited') \<Rightarrow> (Some found, visited')
           | (None, visited') \<Rightarrow> dfs_list adj ns target visited' path)"
  by pat_completeness auto

lemma dfs_visited:
  "dfs_to_dfs_list_dom (Inl (adj, v, target, visited, path)) \<Longrightarrow> visited \<subseteq> snd (dfs_to adj v target visited path)"
  "dfs_to_dfs_list_dom (Inr (adj, ns, target, visited, path)) \<Longrightarrow> visited \<subseteq> snd (dfs_list adj ns target visited path)"
proof (induction rule: dfs_to_dfs_list.pinduct)
  case (1 adj v target visited path)
  then show ?case by (auto simp: dfs_to.psimps)
next
  case (2 adj target visited path)
  then show ?case by (simp add: dfs_list.psimps)
next
  case (3 adj n ns target visited path)
  then show ?case
    by (auto simp: dfs_list.psimps split: prod.splits option.splits) blast+
qed

definition nodes :: "edges \<Rightarrow> string set" where
  "nodes adj = set (map fst adj)"

lemma neighbors_outside: "v \<notin> nodes adj \<Longrightarrow> neighbors adj v = []"
  by (auto simp: nodes_def neighbors_def filter_empty_conv image_iff)

termination dfs_to
proof (relation "inv_image (less_than <*lex*> less_than)
    (\<lambda>x. case x of Inl (adj, v, target, visited, path) \<Rightarrow>
             (card (nodes adj - visited), if v \<in> visited then 2 * length (neighbors adj v) + 1 else 1)
         | Inr (adj, ns, target, visited, path) \<Rightarrow> (card (nodes adj - visited), 2 * length ns))", goal_cases)
  case (2 adj v target visited path)
  have fin: "finite (nodes adj - visited)"
    by (simp add: nodes_def)
  show ?case
  proof (cases "v \<in> nodes adj - visited")
    case True
    then have "card (nodes adj - insert v visited) < card (nodes adj - visited)"
      using fin by (intro psubset_card_mono) auto
    then show ?thesis by simp
  next
    case False
    then have "nodes adj - insert v visited = nodes adj - visited" by auto
    then show ?thesis
      using False neighbors_outside[of v adj] by auto
  qed
next
  case (5 adj n ns target visited path x visited')
  then have "visited \<subseteq> visited'"
    using dfs_visited(1) by (metis snd_conv)
  then have "card (nodes adj - visited') \<le> card (nodes adj - visited)"
    by (intro card_mono) (auto simp: nodes_def)
  then show ?case by (simp add: le_eq_less_or_eq)
qed (auto simp: le_eq_less_or_eq)

declare dfs_to.simps [simp del]

text \<open>Paths over the edges, as the search reports them.\<close>

fun walk_ok :: "edges \<Rightarrow> string list \<Rightarrow> bool" where
  "walk_ok adj (a # b # p) \<longleftrightarrow> (a, b) \<in> set adj \<and> walk_ok adj (b # p)"
| "walk_ok adj _ \<longleftrightarrow> True"

lemma mem_neighbors: "b \<in> set (neighbors adj a) \<longleftrightarrow> (a, b) \<in> set adj"
  by (force simp: neighbors_def)

lemma walk_append: "walk_ok adj p \<Longrightarrow> p \<noteq> [] \<Longrightarrow> (last p, v) \<in> set adj \<Longrightarrow> walk_ok adj (p @ [v])"
  by (induction adj p rule: walk_ok.induct) auto

lemma walk_reaches: "walk_ok adj (a # p) \<Longrightarrow> (a, last (a # p)) \<in> (set adj)\<^sup>*"
  by (induction adj "a # p" arbitrary: a p rule: walk_ok.induct) (auto intro: converse_rtrancl_into_rtrancl)

lemma dfs_sound:
  "dfs_to adj v target visited path = (Some found, visited') \<Longrightarrow> walk_ok adj (path @ [v]) \<Longrightarrow>
     prefix (path @ [v]) found \<and> walk_ok adj found \<and> last found = target"
  "dfs_list adj ns target visited path = (Some found, visited') \<Longrightarrow> path \<noteq> [] \<Longrightarrow> walk_ok adj path \<Longrightarrow>
     set ns \<subseteq> set (neighbors adj (last path)) \<Longrightarrow> prefix path found \<and> walk_ok adj found \<and> last found = target"
proof (induction adj v target visited path and adj ns target visited path
    arbitrary: found visited' and found visited' rule: dfs_to_dfs_list.induct)
  case (1 adj v target visited path)
  show ?case
  proof (cases "v = target")
    case True
    then show ?thesis
      using 1(2,3) by (auto simp: dfs_to.simps)
  next
    case False
    then have "dfs_list adj (neighbors adj v) target (insert v visited) (path @ [v]) = (Some found, visited')"
      using 1(2) by (simp add: dfs_to.simps)
    from 1(1)[OF False this _ 1(3)] show ?thesis by simp
  qed
next
  case (3 adj n ns target visited path)
  show ?case
  proof (cases "n \<in> visited")
    case True
    then show ?thesis
      using 3(1)[OF True] 3(4-7) by simp
  next
    case False
    obtain r v1 where d: "dfs_to adj n target visited path = (r, v1)" by fastforce
    show ?thesis
    proof (cases r)
      case None
      then show ?thesis
        using 3(3)[OF False d[symmetric] None] 3(4-7) False d by simp
    next
      case (Some f)
      have "(last path, n) \<in> set adj"
        using 3(7) by (simp add: mem_neighbors)
      then have w: "walk_ok adj (path @ [n])"
        using 3(5,6) by (intro walk_append)
      have "f = found"
        using 3(4) False d Some by simp
      then show ?thesis
        using 3(2)[OF False _ w] d Some by (metis append_prefixD)
    qed
  qed
qed simp

lemma dfs_complete:
  "dfs_to adj v target visited path = (None, visited') \<Longrightarrow> target \<notin> visited \<Longrightarrow>
     visited \<subseteq> visited' \<and> v \<in> visited' \<and> target \<notin> visited' \<and> (\<forall>x\<in>visited' - visited. set (neighbors adj x) \<subseteq> visited')"
  "dfs_list adj ns target visited path = (None, visited') \<Longrightarrow> target \<notin> visited \<Longrightarrow>
     visited \<subseteq> visited' \<and> set ns \<subseteq> visited' \<and> target \<notin> visited' \<and> (\<forall>x\<in>visited' - visited. set (neighbors adj x) \<subseteq> visited')"
proof (induction adj v target visited path and adj ns target visited path
    arbitrary: visited' and visited' rule: dfs_to_dfs_list.induct)
  case (1 adj v target visited path)
  have ne: "v \<noteq> target"
    using 1(2) by (auto simp: dfs_to.simps)
  then have "dfs_list adj (neighbors adj v) target (insert v visited) (path @ [v]) = (None, visited')"
    using 1(2) by (simp add: dfs_to.simps)
  from 1(1)[OF ne this] show ?case
    using 1(3) ne by blast
next
  case (3 adj n ns target visited path)
  show ?case
  proof (cases "n \<in> visited")
    case True
    then show ?thesis
      using 3(1)[OF True, of visited'] 3(4,5) by auto
  next
    case False
    obtain r v1 where d: "dfs_to adj n target visited path = (r, v1)" by fastforce
    have "r = None"
      using 3(4) False d by (cases r) auto
    then have d1: "dfs_to adj n target visited path = (None, v1)" and rest: "dfs_list adj ns target v1 path = (None, visited')"
      using 3(4) False d by simp_all
    have first: "visited \<subseteq> v1 \<and> n \<in> v1 \<and> target \<notin> v1 \<and> (\<forall>x\<in>v1 - visited. set (neighbors adj x) \<subseteq> v1)"
      using 3(2)[OF False d1 3(5)] .
    have second: "v1 \<subseteq> visited' \<and> set ns \<subseteq> visited' \<and> target \<notin> visited' \<and> (\<forall>x\<in>visited' - v1. set (neighbors adj x) \<subseteq> visited')"
      using 3(3)[OF False d1[symmetric] refl rest] first by blast
    have "set (neighbors adj x) \<subseteq> visited'" if "x \<in> visited' - visited" for x
      using first second that by (cases "x \<in> v1") blast+
    then show ?thesis
      using first second by auto
  qed
qed simp

lemma dfs_to_iff: "(\<exists>found v'. dfs_to adj v target {} [] = (Some found, v')) \<longleftrightarrow> (v, target) \<in> (set adj)\<^sup>*"
proof
  assume "\<exists>found v'. dfs_to adj v target {} [] = (Some found, v')"
  then obtain found v' where "dfs_to adj v target {} [] = (Some found, v')" by blast
  from dfs_sound(1)[OF this] have "prefix [v] found" "walk_ok adj found" "last found = target" by simp_all
  then show "(v, target) \<in> (set adj)\<^sup>*"
    using walk_reaches by (cases found) auto
next
  assume reach: "(v, target) \<in> (set adj)\<^sup>*"
  obtain r v' where d: "dfs_to adj v target {} [] = (r, v')" by fastforce
  have "r \<noteq> None"
  proof
    assume "r = None"
    then have c: "v \<in> v'" "target \<notin> v'" "\<forall>x\<in>v'. set (neighbors adj x) \<subseteq> v'"
      using dfs_complete(1)[of adj v target "{}" "[]" v'] d by auto
    have "y \<in> v'" if "(v, y) \<in> (set adj)\<^sup>*" for y
      using that c(1) by (induction) (use c(3) in \<open>auto simp: mem_neighbors subset_iff\<close>)
    then show False
      using reach c(2) by blast
  qed
  then show "\<exists>found v'. dfs_to adj v target {} [] = (Some found, v')"
    using d by auto
qed

section \<open>Operations\<close>

definition router_edges :: "string option \<Rightarrow> router_graph \<Rightarrow> edges" where
  "router_edges exclude g =
     map (\<lambda>(_, r). (r_source r, r_dest r)) (filter (\<lambda>(_, r). exclude \<noteq> Some (r_name r)) (rg_routers g))"

definition would_create_cycle_excluding ::
  "string \<Rightarrow> string \<Rightarrow> string option \<Rightarrow> router_graph \<Rightarrow> string list option" where
  "would_create_cycle_excluding source dest exclude g =
     (if source = dest then Some [source, dest]
      else case dfs_to (router_edges exclude g) dest source {} [] of
             (Some found, _) \<Rightarrow> Some (source # found)
           | (None, _) \<Rightarrow> None)"

definition or_insert :: "string \<Rightarrow> nat \<Rightarrow> (string \<times> nat) list \<Rightarrow> (string \<times> nat) list" where
  "or_insert k v m = (if map_of m k = None then AList.update k v m else m)"

definition upsert :: "router \<Rightarrow> router_graph \<Rightarrow> router_error + bool \<times> router_graph" where
  "upsert r g =
     (case (if r_allow_cycle r then None else would_create_cycle_excluding (r_source r) (r_dest r) (Some (r_name r)) g) of
        Some cycle \<Rightarrow> Inl (RouterCycle cycle)
      | None \<Rightarrow>
          let created = (map_of (rg_routers g) (r_name r) = None) in
          Inr (created, g\<lparr>rg_routers := AList.update (r_name r) r (rg_routers g),
            rg_cursors := or_insert (r_name r) 0 (rg_cursors g),
            rg_forwarded_total := or_insert (r_name r) 0 (rg_forwarded_total g),
            rg_dest_base := or_insert (r_name r) 0 (rg_dest_base g)\<rparr>))"

definition upsert_capped :: "router \<Rightarrow> nat \<Rightarrow> router_graph \<Rightarrow> router_error + bool \<times> router_graph" where
  "upsert_capped r max_routers g =
     (let is_new = (map_of (rg_routers g) (r_name r) = None) in
      if is_new \<and> max_routers \<noteq> 0 \<and> length (rg_routers g) \<ge> max_routers then Inl RouterThrottled
      else upsert r g)"

definition graph_remove :: "string \<Rightarrow> router_graph \<Rightarrow> router_graph" where
  "graph_remove name g =
     g\<lparr>rg_routers := AList.delete name (rg_routers g), rg_cursors := AList.delete name (rg_cursors g),
       rg_forwarded_total := AList.delete name (rg_forwarded_total g), rg_dest_base := AList.delete name (rg_dest_base g)\<rparr>"

definition routers_touching_topic :: "string \<Rightarrow> router_graph \<Rightarrow> string list" where
  "routers_touching_topic topic g =
     sort (map (\<lambda>(_, r). r_name r) (filter (\<lambda>(_, r). r_source r = topic \<or> r_dest r = topic) (rg_routers g)))"

definition remove_touching_topic :: "string \<Rightarrow> router_graph \<Rightarrow> router_graph \<times> string list" where
  "remove_touching_topic topic g =
     (let removed = routers_touching_topic topic g in (fold graph_remove removed g, removed))"

definition routers_for_source :: "string \<Rightarrow> router_graph \<Rightarrow> router list" where
  "routers_for_source topic g = map snd (filter (\<lambda>(_, r). r_source r = topic) (rg_routers g))"

definition get_or_zero :: "(string \<times> nat) list \<Rightarrow> string \<Rightarrow> nat" where
  "get_or_zero m k = (case map_of m k of Some v \<Rightarrow> v | None \<Rightarrow> 0)"

definition router_cursor :: "string \<Rightarrow> router_graph \<Rightarrow> seq" where
  "router_cursor name g = get_or_zero (rg_cursors g) name"

definition forwarded_total :: "string \<Rightarrow> router_graph \<Rightarrow> nat" where
  "forwarded_total name g = get_or_zero (rg_forwarded_total g) name"

definition dest_base :: "string \<Rightarrow> router_graph \<Rightarrow> seq" where
  "dest_base name g = get_or_zero (rg_dest_base g) name"

definition note_forwarded :: "string \<Rightarrow> seq \<Rightarrow> nat \<Rightarrow> router_graph \<Rightarrow> router_graph" where
  "note_forwarded name src_head n g =
     g\<lparr>rg_cursors := AList.update name src_head (rg_cursors g),
       rg_forwarded_total := AList.update name (forwarded_total name g + n) (rg_forwarded_total g)\<rparr>"

definition set_cursor :: "string \<Rightarrow> seq \<Rightarrow> router_graph \<Rightarrow> router_graph" where
  "set_cursor name c g = g\<lparr>rg_cursors := AList.update name c (rg_cursors g)\<rparr>"

definition seed_dest_base :: "string \<Rightarrow> seq \<Rightarrow> router_graph \<Rightarrow> router_graph" where
  "seed_dest_base name base g =
     (if forwarded_total name g = 0 then g\<lparr>rg_dest_base := AList.update name base (rg_dest_base g)\<rparr> else g)"

definition next_dest_seq :: "string \<Rightarrow> router_graph \<Rightarrow> seq" where
  "next_dest_seq name g = dest_base name g + forwarded_total name g + 1"

definition snapshot_all :: "router_graph \<Rightarrow> (router \<times> seq \<times> nat \<times> seq) list" where
  "snapshot_all g =
     map (\<lambda>(_, r). (r, router_cursor (r_name r) g, forwarded_total (r_name r) g, dest_base (r_name r) g)) (rg_routers g)"

definition graph_restore :: "router \<times> seq \<times> nat \<times> seq \<Rightarrow> router_graph \<Rightarrow> router_graph" where
  "graph_restore e g =
     (case e of (r, c, tot, base) \<Rightarrow>
        g\<lparr>rg_routers := AList.update (r_name r) r (rg_routers g), rg_cursors := AList.update (r_name r) c (rg_cursors g),
          rg_forwarded_total := AList.update (r_name r) tot (rg_forwarded_total g),
          rg_dest_base := AList.update (r_name r) base (rg_dest_base g)\<rparr>)"

definition default_router_name :: "string \<Rightarrow> string \<Rightarrow> string" where
  "default_router_name source dest = source @ ''->'' @ dest"

definition ascii_alphanumeric :: "char \<Rightarrow> bool" where
  "ascii_alphanumeric c = (CHR ''0'' \<le> c \<and> c \<le> CHR ''9'' \<or> CHR ''A'' \<le> c \<and> c \<le> CHR ''Z'' \<or> CHR ''a'' \<le> c \<and> c \<le> CHR ''z'')"

definition is_valid_name :: "string \<Rightarrow> bool" where
  "is_valid_name name =
     (case name of
        [] \<Rightarrow> False
      | first # _ \<Rightarrow> length name \<le> 255 \<and> ascii_alphanumeric first \<and>
          list_all (\<lambda>b. ascii_alphanumeric b \<or> b \<in> set ''._:-'') name)"

definition is_valid_router_name :: "string \<Rightarrow> bool" where
  "is_valid_router_name name =
     (case name of
        [] \<Rightarrow> False
      | first # _ \<Rightarrow> length name \<le> 255 \<and> ascii_alphanumeric first \<and>
          list_all (\<lambda>b. ascii_alphanumeric b \<or> b \<in> set ''._:->'') name)"

definition validate_router :: "string \<Rightarrow> string \<Rightarrow> router_error option" where
  "validate_router source dest =
     (if source = dest then Some RouterInvalid
      else if \<not> is_valid_name source \<or> \<not> is_valid_name dest then Some RouterInvalid
      else None)"

section \<open>The forwarding graph stays acyclic\<close>

definition wf_graph :: "router_graph \<Rightarrow> bool" where
  "wf_graph g \<longleftrightarrow> distinct (map fst (rg_routers g)) \<and> (\<forall>(k, r)\<in>set (rg_routers g). k = r_name r)"

lemma wf_graph_new [simp]: "wf_graph graph_new"
  by (simp add: wf_graph_def graph_new_def)

lemma cycle_check_iff:
  "would_create_cycle_excluding source dest exclude g \<noteq> None \<longleftrightarrow>
     source = dest \<or> (dest, source) \<in> (set (router_edges exclude g))\<^sup>*"
  using dfs_to_iff[of "router_edges exclude g" dest source]
  by (auto simp: would_create_cycle_excluding_def split: option.splits prod.splits)

lemma cycle_check_path:
  assumes "would_create_cycle_excluding source dest exclude g = Some c"
  shows "hd c = source \<and> last c = source \<and> walk_ok ((source, dest) # router_edges exclude g) c"
proof (cases "source = dest")
  case True
  then show ?thesis
    using assms by (auto simp: would_create_cycle_excluding_def)
next
  case False
  then obtain found v where d: "dfs_to (router_edges exclude g) dest source {} [] = (Some found, v)" "c = source # found"
    using assms by (auto simp: would_create_cycle_excluding_def split: option.splits prod.splits)
  from dfs_sound(1)[OF d(1)] have f: "prefix [dest] found" "walk_ok (router_edges exclude g) found" "last found = source" by simp_all
  have mono: "walk_ok adj p \<Longrightarrow> walk_ok (e # adj) p" for e adj p
    by (induction adj p rule: walk_ok.induct) auto
  show ?thesis
    using f mono[OF f(2)] d(2) by (cases found) auto
qed

lemma mem_update:
  assumes "wf_graph g"
  shows "(k, x) \<in> set (AList.update n r (rg_routers g)) \<longleftrightarrow> (if k = n then x = r else (k, x) \<in> set (rg_routers g))"
proof -
  have d: "distinct (map fst (rg_routers g))"
    using assms by (simp add: wf_graph_def)
  show ?thesis
    using map_of_eq_Some_iff[OF distinct_update[OF d], of n r k x] map_of_eq_Some_iff[OF d, of k x]
    by (auto simp: update_conv split: if_splits)
qed

lemma edges_update:
  assumes "wf_graph g"
  shows "set (router_edges None (g\<lparr>rg_routers := AList.update (r_name r) r (rg_routers g)\<rparr>)) =
    insert (r_source r, r_dest r) (set (router_edges (Some (r_name r)) g))"
proof -
  have mem: "(a, b) \<in> set (router_edges ex h) \<longleftrightarrow>
      (\<exists>k x. (k, x) \<in> set (rg_routers h) \<and> ex \<noteq> Some (r_name x) \<and> a = r_source x \<and> b = r_dest x)" for a b ex h
    by (force simp: router_edges_def)
  have keys: "k = r_name x" if "(k, x) \<in> set (rg_routers g)" for k x
    using assms that by (auto simp: wf_graph_def)
  show ?thesis
  proof (rule set_eqI, clarify)
    fix a b
    show "(a, b) \<in> set (router_edges None (g\<lparr>rg_routers := AList.update (r_name r) r (rg_routers g)\<rparr>)) \<longleftrightarrow>
        (a, b) \<in> insert (r_source r, r_dest r) (set (router_edges (Some (r_name r)) g))"
      unfolding insert_iff mem using keys by (auto simp: mem_update[OF assms]) metis+
  qed
qed

lemma acyclic_insert_edge:
  assumes "acyclic E" "(b, a) \<notin> E\<^sup>*"
  shows "acyclic (insert (a, b) E)"
  using assms by (simp add: acyclic_insert)

lemma edges_excluding: "set (router_edges ex g) \<subseteq> set (router_edges None g)"
  by (auto simp: router_edges_def)

lemma upsert_wf: "wf_graph g \<Longrightarrow> upsert r g = Inr (created, g') \<Longrightarrow> wf_graph g'"
  by (auto simp: upsert_def Let_def split: option.splits)
    (auto simp: wf_graph_def distinct_update mem_update[unfolded wf_graph_def] split: if_splits)

lemma upsert_acyclic:
  assumes "wf_graph g" "acyclic (set (router_edges None g))" "\<not> r_allow_cycle r" "upsert r g = Inr (created, g')"
  shows "acyclic (set (router_edges None g'))"
proof -
  have none: "would_create_cycle_excluding (r_source r) (r_dest r) (Some (r_name r)) g = None"
    and g': "router_edges None g' = router_edges None (g\<lparr>rg_routers := AList.update (r_name r) r (rg_routers g)\<rparr>)"
    using assms(3,4) by (auto simp: upsert_def Let_def router_edges_def split: option.splits)
  have "acyclic (set (router_edges (Some (r_name r)) g))"
    using assms(2) edges_excluding by (rule acyclic_subset)
  then show ?thesis
    using none cycle_check_iff[of "r_source r" "r_dest r" "Some (r_name r)" g] unfolding g' edges_update[OF assms(1)]
    by (intro acyclic_insert_edge) auto
qed

text \<open>
  The operations on the graph as a step relation. A router that allows cycles is the one way to
  close one, so the steps leave it out.
\<close>

inductive graph_step :: "router_graph \<Rightarrow> router_graph \<Rightarrow> bool" where
  put: "\<not> r_allow_cycle r \<Longrightarrow> upsert_capped r n g = Inr (created, g') \<Longrightarrow> graph_step g g'"
| remove: "graph_step g (graph_remove name g)"
| remove_topic: "graph_step g (fst (remove_touching_topic topic g))"
| forward: "graph_step g (note_forwarded name src_head n g)"
| cursor: "graph_step g (set_cursor name c g)"
| seed: "graph_step g (seed_dest_base name base g)"

definition acyclic_graph :: "router_graph \<Rightarrow> bool" where
  "acyclic_graph g \<longleftrightarrow> wf_graph g \<and> acyclic (set (router_edges None g))"

lemma graph_remove_keeps:
  assumes "acyclic_graph g"
  shows "acyclic_graph (graph_remove name g)"
proof -
  have sub: "set (rg_routers (graph_remove name g)) \<subseteq> set (rg_routers g)"
    by (simp add: graph_remove_def AList.delete_eq)
  then have "set (router_edges None (graph_remove name g)) \<subseteq> set (router_edges None g)"
    by (auto simp: router_edges_def)
  moreover have "distinct (map fst (rg_routers (graph_remove name g)))"
    using assms by (simp add: acyclic_graph_def wf_graph_def graph_remove_def AList.distinct_delete)
  ultimately show ?thesis
    using assms sub by (auto simp: acyclic_graph_def wf_graph_def intro: acyclic_subset)
qed

lemma same_routers_keep: "rg_routers g' = rg_routers g \<Longrightarrow> acyclic_graph g \<Longrightarrow> acyclic_graph g'"
  by (simp add: acyclic_graph_def wf_graph_def router_edges_def)

lemma graph_step_acyclic:
  assumes "acyclic_graph g" "graph_step g g'"
  shows "acyclic_graph g'"
  using assms(2,1)
proof cases
  case (put r n created)
  then have "upsert r g = Inr (created, g')"
    by (simp add: upsert_capped_def Let_def split: if_splits)
  then show ?thesis
    using assms(1) put(1) upsert_wf[of g r created g'] upsert_acyclic[of g r created g'] by (simp add: acyclic_graph_def)
next
  case (remove name)
  then show ?thesis
    using assms(1) by (simp add: graph_remove_keeps)
next
  case (remove_topic topic)
  have "acyclic_graph (fold graph_remove names g)" for names
    using assms(1) by (induction names arbitrary: g) (auto intro: graph_remove_keeps)
  then show ?thesis
    using remove_topic by (simp add: remove_touching_topic_def Let_def)
next
  case (forward name src_head n)
  then show ?thesis
    using assms(1) by (auto simp: note_forwarded_def elim: same_routers_keep[rotated])
next
  case (cursor name c)
  then show ?thesis
    using assms(1) by (auto simp: set_cursor_def elim: same_routers_keep[rotated])
next
  case (seed name base)
  then show ?thesis
    using assms(1) by (auto simp: seed_dest_base_def elim: same_routers_keep[rotated])
qed

interpretation graph_safety: step_invariant graph_step acyclic_graph
  by unfold_locales (rule graph_step_acyclic)

lemma acyclic_graph_new: "acyclic_graph graph_new"
  by (simp add: acyclic_graph_def graph_new_def router_edges_def wf_graph_def acyclic_def)

lemma graph_reachable_acyclic: "graph_step\<^sup>*\<^sup>* graph_new g \<Longrightarrow> acyclic_graph g"
  using graph_safety.run_inv acyclic_graph_new by blast

lemma remove_touching_clears:
  assumes "wf_graph g" "(k, r) \<in> set (rg_routers (fst (remove_touching_topic topic g)))"
  shows "(k, r) \<in> set (rg_routers g)" "r_source r \<noteq> topic" "r_dest r \<noteq> topic"
proof -
  have fold: "(k, r) \<in> set (rg_routers (fold graph_remove names g)) \<Longrightarrow> (k, r) \<in> set (rg_routers g) \<and> k \<notin> set names" for names g
  proof (induction names arbitrary: g)
    case (Cons a names)
    then have "(k, r) \<in> set (rg_routers (graph_remove a g))" "k \<notin> set names" by auto
    then show ?case by (auto simp: graph_remove_def AList.delete_eq)
  qed simp
  from fold[of "routers_touching_topic topic g" g] assms(2)
  have mem: "(k, r) \<in> set (rg_routers g)" and k: "k \<notin> set (routers_touching_topic topic g)"
    by (simp_all add: remove_touching_topic_def Let_def)
  moreover have "k = r_name r"
    using assms(1) mem by (auto simp: wf_graph_def)
  ultimately show "(k, r) \<in> set (rg_routers g)" "r_source r \<noteq> topic" "r_dest r \<noteq> topic"
    by (force simp: routers_touching_topic_def)+
qed

section \<open>Snapshot and restore\<close>

lemma update_new: "k \<notin> fst ` set m \<Longrightarrow> AList.update k v m = m @ [(k, v)]"
  by (induction m) auto

lemma restore_fold:
  assumes "distinct (map (\<lambda>(r, _). r_name r) es)" "\<forall>(r, _)\<in>set es. r_name r \<notin> fst ` set (rg_routers g)"
    and g': "g' = fold graph_restore es g"
  shows "rg_routers g' = rg_routers g @ map (\<lambda>(r, _). (r_name r, r)) es \<and>
    (\<forall>n. router_cursor n g' = (case map_of (map (\<lambda>(r, x). (r_name r, x)) es) n of Some (c, _) \<Rightarrow> c | None \<Rightarrow> router_cursor n g) \<and>
      forwarded_total n g' = (case map_of (map (\<lambda>(r, x). (r_name r, x)) es) n of Some (_, f, _) \<Rightarrow> f | None \<Rightarrow> forwarded_total n g) \<and>
      dest_base n g' = (case map_of (map (\<lambda>(r, x). (r_name r, x)) es) n of Some (_, _, b) \<Rightarrow> b | None \<Rightarrow> dest_base n g))"
  using assms
proof (induction es arbitrary: g)
  case (Cons e es)
  obtain r c f b where e: "e = (r, c, f, b)" by (metis prod_cases4)
  let ?g = "graph_restore e g"
  have "map_of (map (\<lambda>(r, x). (r_name r, x)) es) (r_name r) = None"
    using Cons.prems(1) by (force simp: e map_of_eq_None_iff)
  moreover have "rg_routers ?g = rg_routers g @ [(r_name r, r)]"
    using Cons.prems(2) by (simp add: e graph_restore_def update_new)
  moreover have "router_cursor n ?g = (if n = r_name r then c else router_cursor n g)"
      "forwarded_total n ?g = (if n = r_name r then f else forwarded_total n g)"
      "dest_base n ?g = (if n = r_name r then b else dest_base n g)" for n
    by (simp_all add: e graph_restore_def router_cursor_def forwarded_total_def dest_base_def get_or_zero_def update_conv')
  moreover have "\<forall>(r, _)\<in>set es. r_name r \<notin> fst ` set (rg_routers ?g)"
    using Cons.prems(1,2) unfolding calculation(2) by (auto simp: e split_beta) (metis (mono_tags, lifting) fst_conv imageI)
  moreover have "distinct (map (\<lambda>(r, _). r_name r) es)" "g' = fold graph_restore es ?g"
    using Cons.prems(1,3) by simp_all
  ultimately show ?case
    using Cons.IH[of ?g] by (simp add: e split: option.split)
qed simp

lemma snapshot_restores:
  assumes "wf_graph g" and g': "g' = fold graph_restore (snapshot_all g) graph_new"
  shows "rg_routers g' = rg_routers g"
    "n \<in> fst ` set (rg_routers g) \<Longrightarrow> router_cursor n g' = router_cursor n g"
    "n \<in> fst ` set (rg_routers g) \<Longrightarrow> forwarded_total n g' = forwarded_total n g"
    "n \<in> fst ` set (rg_routers g) \<Longrightarrow> dest_base n g' = dest_base n g"
proof -
  let ?es = "snapshot_all g"
  have names: "map (\<lambda>(r, _). r_name r) ?es = map fst (rg_routers g)"
    and pairs: "map (\<lambda>(r, _). (r_name r, r)) ?es = rg_routers g"
    using assms(1) by (auto simp: snapshot_all_def wf_graph_def map_idI intro!: map_idI)
  have none: "\<forall>(r, _)\<in>set ?es. r_name r \<notin> fst ` set (rg_routers graph_new)"
    by (simp add: graph_new_def)
  have keyed: "map (\<lambda>(r, x). (r_name r, x)) ?es =
      map (\<lambda>(k, r). (k, router_cursor k g, forwarded_total k g, dest_base k g)) (rg_routers g)"
    using assms(1) by (auto simp: snapshot_all_def wf_graph_def)
  have look: "map_of (map (\<lambda>(r, x). (r_name r, x)) ?es) n = Some (router_cursor n g, forwarded_total n g, dest_base n g)"
    if "n \<in> fst ` set (rg_routers g)" for n
  proof -
    have "n \<in> fst ` set m \<Longrightarrow> map_of (map (\<lambda>(k, r). (k, f k)) m) n = Some (f n)" for f and m :: "(string \<times> router) list"
      by (induction m) auto
    then show ?thesis
      unfolding keyed using that .
  qed
  have d: "distinct (map (\<lambda>(r, _). r_name r) ?es)"
    using assms(1) by (simp add: names wf_graph_def)
  note r = restore_fold[OF d none g']
  show "rg_routers g' = rg_routers g"
    using r pairs by (simp add: graph_new_def)
  show "n \<in> fst ` set (rg_routers g) \<Longrightarrow> router_cursor n g' = router_cursor n g"
    "n \<in> fst ` set (rg_routers g) \<Longrightarrow> forwarded_total n g' = forwarded_total n g"
    "n \<in> fst ` set (rg_routers g) \<Longrightarrow> dest_base n g' = dest_base n g"
    using r look[of n] by simp_all
qed

end
