(* ===== verification/Scheduler.thy ===== *)
theory Scheduler
  imports Prelude
begin

text \<open>
  The priority scheduler (\<open>sched.rs\<close>): effective priorities, the five bands, and the ready set of
  dirty topics that the router worker drains. The recency decay of an idle topic, a floating-point
  power rounded to an integer, is a parameter \<open>recency\<close> on the idle time in milliseconds.
\<close>

section \<open>Priorities and bands\<close>

definition PRIORITY_MIN :: int where
  "PRIORITY_MIN = - 1000"

definition PRIORITY_MAX :: int where
  "PRIORITY_MAX = 1000"

definition AUTO_FLOOR_MS :: nat where
  "AUTO_FLOOR_MS = 300000"

text \<open>\<open>effective_priority_at\<close> as the engine calls it, with no enqueue time and so no ageing term.\<close>

definition effective_priority_at ::
  "(nat \<Rightarrow> int) \<Rightarrow> i64 \<Rightarrow> int option \<Rightarrow> bool \<Rightarrow> i64 option \<Rightarrow> int" where
  "effective_priority_at recency now_ms manual auto_priority last_consumed_ms =
     (case manual of
        Some m \<Rightarrow> max PRIORITY_MIN (min PRIORITY_MAX m)
      | None \<Rightarrow>
          if auto_priority then
            (case last_consumed_ms of
               Some l \<Rightarrow> let idle = nat (max 0 (now_ms - l)) in if idle \<ge> AUTO_FLOOR_MS then 0 else recency idle
             | None \<Rightarrow> 0)
          else 0)"

datatype band = B4 | B3 | B2 | B1 | B0

definition band_of :: "int \<Rightarrow> band" where
  "band_of p = (if p \<ge> 750 then B4 else if p \<ge> 500 then B3 else if p \<ge> 250 then B2 else if p \<ge> 0 then B1 else B0)"

fun band_weight :: "band \<Rightarrow> nat" where
  "band_weight B4 = 8"
| "band_weight B3 = 4"
| "band_weight B2 = 2"
| "band_weight B1 = 1"
| "band_weight B0 = 1"

fun band_rank :: "band \<Rightarrow> nat" where
  "band_rank B4 = 0"
| "band_rank B3 = 1"
| "band_rank B2 = 2"
| "band_rank B1 = 3"
| "band_rank B0 = 4"

text \<open>Bands are ordered as they are served.\<close>

instantiation band :: linorder
begin

definition less_eq_band :: "band \<Rightarrow> band \<Rightarrow> bool" where
  "less_eq_band a b \<longleftrightarrow> band_rank a \<le> band_rank b"

definition less_band :: "band \<Rightarrow> band \<Rightarrow> bool" where
  "less_band a b \<longleftrightarrow> band_rank a < band_rank b"

instance
proof
  show "a = b" if "a \<le> b" "b \<le> a" for a b :: band
    using that by (cases a; cases b) (simp_all add: less_eq_band_def)
qed (auto simp: less_eq_band_def less_band_def)

end

section \<open>The ready set\<close>

record ready_set =
  rs_b4 :: "string list"
  rs_b3 :: "string list"
  rs_b2 :: "string list"
  rs_b1 :: "string list"
  rs_b0 :: "string list"

definition ready_empty :: ready_set where
  "ready_empty = \<lparr>rs_b4 = [], rs_b3 = [], rs_b2 = [], rs_b1 = [], rs_b0 = []\<rparr>"

fun band_queue :: "band \<Rightarrow> ready_set \<Rightarrow> string list" where
  "band_queue B4 r = rs_b4 r"
| "band_queue B3 r = rs_b3 r"
| "band_queue B2 r = rs_b2 r"
| "band_queue B1 r = rs_b1 r"
| "band_queue B0 r = rs_b0 r"

fun set_band_queue :: "band \<Rightarrow> string list \<Rightarrow> ready_set \<Rightarrow> ready_set" where
  "set_band_queue B4 q r = r\<lparr>rs_b4 := q\<rparr>"
| "set_band_queue B3 q r = r\<lparr>rs_b3 := q\<rparr>"
| "set_band_queue B2 q r = r\<lparr>rs_b2 := q\<rparr>"
| "set_band_queue B1 q r = r\<lparr>rs_b1 := q\<rparr>"
| "set_band_queue B0 q r = r\<lparr>rs_b0 := q\<rparr>"

definition mark_dirty :: "string \<Rightarrow> int \<Rightarrow> ready_set \<Rightarrow> ready_set" where
  "mark_dirty topic p r =
     (let q = band_queue (band_of p) r in
      if topic \<in> set q then r else set_band_queue (band_of p) (q @ [topic]) r)"

definition mark_dirty_fast :: "string \<Rightarrow> int \<Rightarrow> bool \<Rightarrow> ready_set \<Rightarrow> bool \<times> ready_set" where
  "mark_dirty_fast topic p already_dirty r =
     (if already_dirty then (True, r) else (True, mark_dirty topic p r))"

definition drain_order :: "ready_set \<Rightarrow> string list \<times> ready_set" where
  "drain_order r = (concat (map (\<lambda>b. band_queue b r) [B4, B3, B2, B1, B0]), ready_empty)"

definition ready_names :: "ready_set \<Rightarrow> string set" where
  "ready_names r = set (fst (drain_order r))"

lemma band_queue_set [simp]: "band_queue b (set_band_queue b' q r) = (if b = b' then q else band_queue b r)"
  by (cases b; cases b') simp_all

lemma ready_names_iff: "n \<in> ready_names r \<longleftrightarrow> (\<exists>b. n \<in> set (band_queue b r))"
proof
  show "n \<in> ready_names r \<Longrightarrow> \<exists>b. n \<in> set (band_queue b r)"
    by (auto simp: ready_names_def drain_order_def simp del: band_queue.simps)
  show "\<exists>b. n \<in> set (band_queue b r) \<Longrightarrow> n \<in> ready_names r"
  proof (erule exE)
    show "n \<in> ready_names r" if "n \<in> set (band_queue b r)" for b
      using that by (cases b) (simp_all add: ready_names_def drain_order_def)
  qed
qed

lemma ready_names_mark: "ready_names (mark_dirty topic p r) = insert topic (ready_names r)"
proof (rule set_eqI)
  fix n
  have "n \<in> set (band_queue b (mark_dirty topic p r)) \<longleftrightarrow> n \<in> set (band_queue b r) \<or> b = band_of p \<and> n = topic" for b
    by (auto simp: mark_dirty_def Let_def)
  then show "n \<in> ready_names (mark_dirty topic p r) \<longleftrightarrow> n \<in> insert topic (ready_names r)"
    by (auto simp: ready_names_iff)
qed

lemma band_of_antimono: "p \<le> q \<Longrightarrow> band_of q \<le> band_of p"
  by (auto simp: band_of_def less_eq_band_def)

lemma mark_dirty_distinct:
  "\<forall>b. distinct (band_queue b r) \<Longrightarrow> distinct (band_queue b (mark_dirty topic p r))"
  by (simp add: mark_dirty_def Let_def)

section \<open>One drain\<close>

text \<open>The first occurrence of each element, in order.\<close>

definition first_seen :: "'a list \<Rightarrow> 'a list" where
  "first_seen xs = rev (remdups (rev xs))"

lemma first_seen_snoc: "first_seen (xs @ [x]) = (if x \<in> set xs then first_seen xs else first_seen xs @ [x])"
  by (simp add: first_seen_def)

lemma set_first_seen [simp]: "set (first_seen xs) = set xs" and distinct_first_seen [simp]: "distinct (first_seen xs)"
  by (simp_all add: first_seen_def)

definition mark_topics :: "(string \<Rightarrow> int) \<Rightarrow> string list \<Rightarrow> ready_set" where
  "mark_topics prio ts = fold (\<lambda>t. mark_dirty t (prio t)) ts ready_empty"

lemma mark_topics_queue: "band_queue b (mark_topics prio ts) = first_seen (filter (\<lambda>t. band_of (prio t) = b) ts)"
proof (induction ts rule: rev_induct)
  case Nil
  then show ?case
    by (cases b) (simp_all add: mark_topics_def ready_empty_def first_seen_def)
next
  case (snoc t ts)
  let ?r = "mark_topics prio ts" and ?b = "band_of (prio t)"
  have q: "band_queue ?b ?r = first_seen (filter (\<lambda>t'. band_of (prio t') = ?b) ts)" if "b = ?b"
    using snoc that by simp
  have m: "mark_topics prio (ts @ [t]) = mark_dirty t (prio t) ?r"
    by (simp add: mark_topics_def)
  show ?case
    using snoc q by (auto simp: m mark_dirty_def Let_def first_seen_snoc simp del: band_queue.simps)
qed

definition bands :: "band list" where
  "bands = [B4, B3, B2, B1, B0]"

lemma bands_complete: "set bands = UNIV" and bands_distinct: "distinct bands" and bands_sorted: "sorted bands"
proof -
  show "set bands = UNIV"
    by (rule set_eqI, case_tac x) (simp_all add: bands_def)
qed (simp_all add: bands_def less_eq_band_def)

lemma sorted_concat_bands:
  assumes "sorted bs" "\<And>b x. b \<in> set bs \<Longrightarrow> x \<in> set (f b) \<Longrightarrow> key x = b"
  shows "sorted (map key (concat (map f bs)))"
  using assms
proof (induction bs)
  case (Cons b bs)
  have "map key (f b) = replicate (length (f b)) b"
    using Cons.prems(2)[of b] by (intro nth_equalityI) auto
  moreover have "y \<in> key ` set (concat (map f bs)) \<Longrightarrow> b \<le> y" for y
    using Cons.prems by auto
  ultimately show ?case
    using Cons by (auto simp: sorted_append)
qed simp

lemma distinct_concat_bands:
  assumes "distinct bs" "\<And>b x. b \<in> set bs \<Longrightarrow> x \<in> set (f b) \<Longrightarrow> key x = b" "\<And>b. distinct (f b)"
  shows "distinct (concat (map f bs))"
  using assms
proof (induction bs)
  case (Cons b bs)
  have "x \<notin> set (concat (map f bs))" if "x \<in> set (f b)" for x
    using that Cons.prems(1) Cons.prems(2)[of b x] Cons.prems(2)[of _ x] by auto
  then show ?case
    using Cons by auto
qed simp

lemma filter_concat_bands:
  assumes "distinct bs" "b \<in> set bs" "\<And>c x. c \<in> set bs \<Longrightarrow> x \<in> set (f c) \<Longrightarrow> key x = c"
  shows "filter (\<lambda>x. key x = b) (concat (map f bs)) = f b"
proof -
  have none: "b \<notin> set cs \<Longrightarrow> set cs \<subseteq> set bs \<Longrightarrow> filter (\<lambda>x. key x = b) (concat (map f cs)) = []" for cs
    using assms(3) by (fastforce simp: filter_empty_conv)
  obtain xs ys where bs: "bs = xs @ b # ys"
    using assms(2) by (meson split_list)
  then have "b \<notin> set xs" "b \<notin> set ys" "filter (\<lambda>x. key x = b) (f b) = f b"
    using assms(1,3) by (auto simp: filter_id_conv)
  then show ?thesis
    using none[of xs] none[of ys] unfolding bs by (simp add: subset_iff)
qed

lemma drain_spec:
  assumes "out = fst (drain_order (mark_topics prio ts))"
  shows "distinct out" "set out = set ts" "sorted (map (\<lambda>t. band_of (prio t)) out)"
    "filter (\<lambda>t. band_of (prio t) = b) out = first_seen (filter (\<lambda>t. band_of (prio t) = b) ts)"
proof -
  let ?f = "\<lambda>b. first_seen (filter (\<lambda>t. band_of (prio t) = b) ts)"
  have out: "out = concat (map ?f bands)"
    unfolding assms drain_order_def bands_def[symmetric] fst_conv mark_topics_queue ..
  have key: "\<And>c x. c \<in> set bands \<Longrightarrow> x \<in> set (?f c) \<Longrightarrow> band_of (prio x) = c" by simp
  show "sorted (map (\<lambda>t. band_of (prio t)) out)"
    unfolding out by (rule sorted_concat_bands[OF bands_sorted key])
  show fil: "filter (\<lambda>t. band_of (prio t) = b) out = ?f b" for b
    unfolding out by (rule filter_concat_bands[OF bands_distinct _ key]) (simp add: bands_complete)
  show "set out = set ts"
    by (auto simp: out bands_complete)
  show "distinct out"
    unfolding out by (rule distinct_concat_bands[OF bands_distinct key]) simp_all
qed

end
