(* ===== verification/Samples.thy ===== *)
theory Samples
  imports Diff Publish_Gate Wal_Writer Router_Graph Scheduler
begin

text \<open>Small concrete states on which the properties of the development are instantiated.\<close>

definition demo_env :: env where
  "demo_env = \<lparr>env_crc = (\<lambda>_. 0), env_to_vec = (\<lambda>_. []), env_from_slice = (\<lambda>_. None), env_now_ms = 1000\<rparr>"

definition demo_record :: "nat \<Rightarrow> string option \<Rightarrow> stored_record" where
  "demo_record n tag = \<lparr>sr_ts = 1000, sr_node = None, sr_tag = tag, sr_data = JNull, sr_meta = None,
     sr_bytes = n, sr_deleted = False, sr_payload_resident = True, sr_hops = 0\<rparr>"

definition demo_records :: "stored_record list" where
  "demo_records = [demo_record 10 (Some ''a''), demo_record 20 (Some ''b''), demo_record 30 (Some ''a'')]"

definition demo_topic :: "topic_config \<Rightarrow> topic_state" where
  "demo_topic cfg = topic_new ''t'' 1 cfg 1 1"

definition demo_log :: "topic_config \<Rightarrow> topic_state" where
  "demo_log cfg = fst (append_records demo_env demo_records 1000 (demo_topic cfg))"

lemma demo_topic_wf: "wf_topic (demo_topic cfg)" "quiet (demo_topic cfg)" "t_head_seq (demo_topic cfg) = 0"
  by (simp_all add: demo_topic_def wf_topic_new) (simp_all add: quiet_def topic_new_def index_new_def)

lemma demo_records_live: "demo_records \<noteq> []" "\<forall>r\<in>set demo_records. \<not> sr_deleted r"
  "slot_bytes demo_records = 60" "length demo_records = 3"
  by (simp_all add: demo_records_def demo_record_def)

lemma demo_log_wf:
  "wf_topic (demo_log cfg)" "quiet (demo_log cfg)" "t_head_seq (demo_log cfg) = 3"
  "map erase (records (t_index (demo_log cfg))) = map erase demo_records" "base_seq (t_index (demo_log cfg)) = 1"
proof -
  have room: "t_bytes_retained (demo_topic cfg) + slot_bytes demo_records \<le> u64_max"
    by (simp add: demo_topic_def topic_new_def demo_records_live u64_max_def)
  note sp = append_records_spec[OF demo_topic_wf(1,2) demo_records_live(1,2) room refl, where now=1000 and env=demo_env, folded demo_log_def]
  show "wf_topic (demo_log cfg)" "quiet (demo_log cfg)"
    using sp by blast+
  show "t_head_seq (demo_log cfg) = 3"
    using sp(4) demo_records_live(4) demo_topic_wf(3) by simp
  show "map erase (records (t_index (demo_log cfg))) = map erase demo_records" "base_seq (t_index (demo_log cfg)) = 1"
    using sp(5,6) by (simp_all add: demo_topic_def topic_new_def index_new_def)
qed

lemma demo_head: "t_head_seq (demo_log cfg) < u64_max" "0 < t_head_seq (demo_log cfg)"
  by (simp_all add: demo_log_wf(3) u64_max_def)

lemma demo_log_fields: "t_config (demo_log cfg) = cfg" "t_floors (demo_log cfg) = default_floors" "t_seq_base (demo_log cfg) = 1"
  "t_bytes_retained (demo_log cfg) = 60" "slot_bytes (records (t_index (demo_log cfg))) = 60"
proof -
  let ?t = "fst (stage_append demo_records (demo_topic cfg))" and ?sa = "snd (stage_append demo_records (demo_topic cfg))"
  have sa: "sa_count ?sa = 3" "sa_added_bytes ?sa = 60"
    using stage_append_result[OF demo_records_live(1), of "demo_topic cfg"] demo_records_live by (simp_all add: u64_max_def)
  have log: "demo_log cfg = publish_staged demo_env ?sa 1000 ?t"
    using sa(1) by (simp add: demo_log_def append_records_def split_beta)
  have sim: "topic_sim (fst (publish_staged_no_seal ?sa 1000 ?t)) (demo_log cfg)"
    unfolding log by (rule publish_staged_sim)
  then show "t_config (demo_log cfg) = cfg" "t_floors (demo_log cfg) = default_floors" "t_seq_base (demo_log cfg) = 1"
      "t_bytes_retained (demo_log cfg) = 60"
    using sa by (auto simp: topic_sim_def publish_staged_no_seal_def Let_def publish_head_seq_def stage_append_frame
        demo_topic_def topic_new_def)
  show "slot_bytes (records (t_index (demo_log cfg))) = 60"
    using map_erase_fields(2)[OF demo_log_wf(4)] demo_records_live(3) by (simp add: slot_bytes_def)
qed

section \<open>A sealed segment\<close>

definition demo_store :: seg_store where
  "demo_store = \<lparr>data_files = [], idx_files = [], fs_fails = (\<lambda>_. False)\<rparr>"

definition demo_seg_config :: segment_config where
  "demo_seg_config = \<lparr>max_events = 10, max_bytes = 0, max_age_ms = 0, hot_retain_segments = 0, hot_retain_bytes = 0\<rparr>"

definition demo_seg_records :: "segment_record list" where
  "demo_seg_records = [\<lparr>sg_seq = 5, sg_ts = 1, sg_node = None, sg_tag = None, sg_data = []\<rparr>,
     \<lparr>sg_seq = 6, sg_ts = 2, sg_node = None, sg_tag = None, sg_data = []\<rparr>]"

definition demo_writer :: segment_writer where
  "demo_writer = (writer_new \<lparr>hot = demo_store, cold = Some demo_store\<rparr> demo_seg_config)
     \<lparr>sw_active := Some (build (env_crc demo_env) (builder_new 5) demo_seg_records)\<rparr>"

lemma demo_crc: "crc_ok demo_env"
  by (simp add: crc_ok_def demo_env_def)

lemma demo_writer_facts:
  "store_ok (hot (sw_tier demo_writer))" "sw_active demo_writer = Some (build (env_crc demo_env) (builder_new 5) demo_seg_records)"
  "demo_seg_records \<noteq> []" "list_all seg_record_ok demo_seg_records" "map sg_seq demo_seg_records = [5..<5 + length demo_seg_records]"
  "length (concat (map (encode_data_frame (env_crc demo_env)) demo_seg_records)) < 256 ^ 4"
  "tier_resolve (sw_tier demo_writer) 5 = None" "\<forall>c. \<not> fs_fails (hot (sw_tier demo_writer)) c"
  "length demo_seg_records = 2"
  by (simp_all add: demo_writer_def writer_new_def demo_store_def demo_seg_records_def store_ok_def seg_record_ok_def
      seg_str_ok_def str_bytes_def encode_data_frame_def seg_body_def Let_def bt_invar_def tier_resolve_def store_exists_def upt_rec)

definition demo_sealed :: segment_writer where
  "demo_sealed = fst (seal_active demo_env demo_writer)"

definition demo_segment :: sealed_segment where
  "demo_segment = last (sw_sealed demo_sealed)"

lemma demo_sealed_facts:
  "ss_start_seq demo_segment = 5" "segment_for demo_sealed 5 = Some demo_segment" "segment_for demo_sealed 6 = Some demo_segment"
  "store_for (sw_tier demo_sealed) 5 = Some (hot (sw_tier demo_sealed))" "\<forall>c. \<not> fs_fails (hot (sw_tier demo_sealed)) c"
  "store_ok (hot (sw_tier demo_sealed))"
  "seg_image (env_crc demo_env) 5 demo_seg_records (replicate 2 SEG_DEL_LIVE) (hot (sw_tier demo_sealed))"
  "find (\<lambda>g. ss_start_seq g = 5) (sw_sealed demo_sealed) = Some demo_segment" "ss_tier demo_segment = Hot"
  "cold (sw_tier demo_sealed) = Some demo_store" "store_ok demo_store" "\<not> store_exists 5 Data demo_store" "\<forall>c. \<not> fs_fails demo_store c"
proof -
  obtain sealed where out: "seal_active demo_env demo_writer = (demo_sealed, sealed)"
    unfolding demo_sealed_def by (metis prod.collapse)
  have "\<forall>r\<in>set demo_seg_records. seg_record_ok r"
    using demo_writer_facts(4) by (simp add: list_all_iff)
  note im = seal_active_image[OF demo_writer_facts(1-3) this demo_writer_facts(5-7) out]
  have "sealed \<noteq> []"
    using seal_active_succeeds[OF demo_writer_facts(2,3,7,8)] out by simp
  then have st: "store_for (sw_tier demo_sealed) 5 = Some (hot (sw_tier demo_sealed))"
      "fs_fails (hot (sw_tier demo_sealed)) = fs_fails (hot (sw_tier demo_writer))"
      "seg_image (env_crc demo_env) 5 demo_seg_records (replicate 2 SEG_DEL_LIVE) (hot (sw_tier demo_sealed))"
    and "\<exists>g. sw_sealed demo_sealed = sw_sealed demo_writer @ [g] \<and> ss_start_seq g = 5 \<and> ss_end_seq g = 5 + length demo_seg_records - 1 \<and> ss_tier g = Hot"
    using im demo_writer_facts(9) by auto
  then obtain g where g: "sw_sealed demo_sealed = [g]" "ss_start_seq g = 5" "ss_end_seq g = 6" "ss_tier g = Hot"
    using demo_writer_facts(9) by (auto simp: demo_writer_def writer_new_def)
  then have dg: "demo_segment = g"
    by (simp add: demo_segment_def)
  show "store_for (sw_tier demo_sealed) 5 = Some (hot (sw_tier demo_sealed))"
    "seg_image (env_crc demo_env) 5 demo_seg_records (replicate 2 SEG_DEL_LIVE) (hot (sw_tier demo_sealed))"
    using st by simp_all
  show "\<forall>c. \<not> fs_fails (hot (sw_tier demo_sealed)) c"
    using st(2) demo_writer_facts(8) by simp
  show "ss_start_seq demo_segment = 5" "segment_for demo_sealed 5 = Some demo_segment" "segment_for demo_sealed 6 = Some demo_segment"
    "find (\<lambda>g. ss_start_seq g = 5) (sw_sealed demo_sealed) = Some demo_segment" "ss_tier demo_segment = Hot"
    using g dg by (simp_all add: segment_for_def)
  show "store_ok demo_store" "\<not> store_exists 5 Data demo_store" "\<forall>c. \<not> fs_fails demo_store c"
    by (simp_all add: demo_store_def store_ok_def bt_invar_def store_exists_def)
  show "store_ok (hot (sw_tier demo_sealed))"
    using seal_active_tiers(2)[OF demo_writer_facts(1)] by (simp add: demo_sealed_def)
  show "cold (sw_tier demo_sealed) = Some demo_store"
    using seal_active_tiers(1)[of demo_env demo_writer] by (simp add: demo_sealed_def demo_writer_def writer_new_def)
qed

section \<open>A log, its submitters and a router graph\<close>

definition demo_wal :: writer_task where
  "demo_wal = open_at_with 4096 0 0 [] []"

definition demo_io :: wal_io where
  "demo_io = \<lparr>io_write = (\<lambda>_. Some 4096), io_sync = (\<lambda>_. True), io_create = (\<lambda>_. True)\<rparr>"

definition demo_sub :: submission where
  "demo_sub = \<lparr>sb_records = [HeadWatermark 7 300 5], sb_durable = True, sb_token = 0\<rparr>"

definition demo_chan :: wal_chan where
  "demo_chan = writer_commit (\<lambda>_. 0) demo_io 1 False
     (snd (submit_send demo_sub (snd (submit_check demo_sub (submit_enqueued demo_sub (chan_new 4 demo_wal))))))"

lemma demo_wal_ok: "writer_ok (\<lambda>_. 0) demo_wal" "log_frames (\<lambda>_. 0) demo_wal = []" "wal_files demo_wal = [wt_file demo_wal]"
proof -
  have "af_len (wt_file demo_wal) = 0" "wt_older demo_wal = []"
    by (simp_all add: demo_wal_def open_at_with_def open_for_append_def Let_def)
  moreover from this have "file_ok (\<lambda>_. 0) (wt_file demo_wal)"
    by (auto simp: file_ok_def encode_frames_def intro: exI[of _ "[]"])
  ultimately show "writer_ok (\<lambda>_. 0) demo_wal" "log_frames (\<lambda>_. 0) demo_wal = []" "wal_files demo_wal = [wt_file demo_wal]"
    using read_wal_encoded[of "\<lambda>_. 0" "[]"]
    by (simp_all add: writer_ok_def wal_files_def log_frames_def file_frames_def encode_frames_def crc_u64_def)
qed

lemma demo_sub_ok: "sb_records demo_sub \<noteq> []" "list_all record_ok (sb_records demo_sub)" "sb_durable demo_sub"
  by (simp_all add: demo_sub_def record_ok_def u64_ok_def opt_bytes_def)

lemma demo_chan_run: "(chan_step (\<lambda>_. 0) demo_io)\<^sup>*\<^sup>* (chan_new 4 demo_wal) demo_chan"
proof -
  let ?c1 = "submit_enqueued demo_sub (chan_new 4 demo_wal)"
  let ?c2 = "snd (submit_check demo_sub ?c1)"
  let ?c3 = "snd (submit_send demo_sub ?c2)"
  have "chan_step (\<lambda>_. 0) demo_io (chan_new 4 demo_wal) ?c1"
    using demo_sub_ok by (intro chan_step.bump)
  moreover have "chan_step (\<lambda>_. 0) demo_io ?c1 ?c2"
    by (rule chan_step.check) (simp add: submit_enqueued_def)
  moreover have "chan_step (\<lambda>_. 0) demo_io ?c2 ?c3"
    by (rule chan_step.send) (simp add: submit_check_def submit_enqueued_def chan_new_def)
  moreover have "chan_step (\<lambda>_. 0) demo_io ?c3 demo_chan"
    unfolding demo_chan_def by (rule chan_step.commit) (simp_all add: submit_send_def submit_check_def submit_enqueued_def chan_new_def)
  ultimately show ?thesis
    by (meson converse_rtranclp_into_rtranclp rtranclp.rtrancl_refl)
qed

lemma demo_chan_done: "ch_done demo_chan = [(demo_sub, CoOk)]" "ch_exited demo_chan = False" "ch_shutdown demo_chan = False"
proof -
  have len: "length (batch_bytes (\<lambda>_. 0) [demo_sub]) \<le> 4096"
    by (simp add: batch_bytes_def demo_sub_def encode_frame_def Let_def length_frame_body opt_bytes_def)
  have "fst (commit_batch (\<lambda>_. 0) demo_io [demo_sub] True demo_wal) = CoOk"
    by (rule commit_batch_succeeds[where k = 4096])
      (use len in \<open>simp_all add: demo_wal_def demo_io_def open_at_with_def open_for_append_def Let_def batch_frames_def\<close>,
        simp add: demo_sub_def)
  then show "ch_done demo_chan = [(demo_sub, CoOk)]" "ch_exited demo_chan = False" "ch_shutdown demo_chan = False"
    using demo_sub_ok(3)
    by (simp_all add: demo_chan_def writer_commit_def submit_send_def submit_check_def submit_enqueued_def chan_new_def Let_def split_beta)
qed

definition demo_router :: "string \<Rightarrow> string \<Rightarrow> router" where
  "demo_router a b = \<lparr>r_name = a @ b, r_source = a, r_dest = b, r_preserve_node = True, r_preserve_tag = True,
     r_create_dest = False, r_filter = None, r_allow_cycle = False, r_guarantee = AtLeastOnce\<rparr>"

end
