(* ===== verification/Engine_Core.thy ===== *)
theory Engine_Core
  imports Topic_Deletes Wal_Writer Router_Graph Scheduler
begin

text \<open>
  The engine (\<open>engine/mod.rs\<close>): the topic registry, the byte and topic quotas, the sharded log
  handle, and the operations on the control plane and the shared append path. A handler is a
  function on the engine state; it runs to completion, and the interleaving of writers inside one
  topic is the subject of \<open>Publish_Gate\<close>.

  A method of the source that takes a topic works here on the topic and the engine and returns
  both. Opening a topic's segment store is a parameter of the engine, \<open>e_open_writer\<close>, and so is the
  JSON codec of a topic's configuration; what the bounded channel of the log answers to a
  submission is the script \<open>wh_reject\<close>, since it depends on the writer thread; timings are not
  modelled.
\<close>

section \<open>State\<close>

datatype api_error =
    InvalidRequest | BatchTooLarge | RecordTooLarge | TopicNotFound | RouterNotFound
  | CycleError "string list" | TopicExistsIncompatible | TopicNotEmpty | NotAQueue | TopicFull
  | Throttled | Internal

type_synonym 'a result = "api_error + 'a"

record limits =
  lim_max_total_bytes :: nat
  lim_max_topics :: nat
  lim_max_routers :: nat

record wal_handle =
  wh_writers :: "writer_task list"
  wh_io :: "nat \<Rightarrow> wal_io"
  wh_reject :: "nat \<Rightarrow> wal_error option"
  wh_submits :: nat

record engine =
  e_topics :: "(string \<times> topic_state) list"
  e_routers :: router_graph
  e_next_topic_id :: nat
  e_topic_count :: nat
  e_total_bytes_live :: nat
  e_wal :: "wal_handle option"
  e_open_writer :: "u64 \<Rightarrow> segment_writer option"
  e_config_to_vec :: "topic_config \<Rightarrow> u8 list"
  e_config_from_slice :: "u8 list \<Rightarrow> topic_config option"
  e_limits :: limits
  e_ready_set :: ready_set
  e_recency :: "nat \<Rightarrow> int"

definition SEQ_BASE :: seq where
  "SEQ_BASE = 1"

definition DISK_HEAD_RESERVE_AHEAD :: nat where
  "DISK_HEAD_RESERVE_AHEAD = 256"

definition get_topic :: "string \<Rightarrow> engine \<Rightarrow> topic_state option" where
  "get_topic name e = map_of (e_topics e) name"

definition put_state :: "topic_state \<Rightarrow> engine \<Rightarrow> engine" where
  "put_state t e = e\<lparr>e_topics := AList.update (t_name t) t (e_topics e)\<rparr>"

definition as_ts :: "i64 \<Rightarrow> u64" where
  "as_ts now = nat (max now 0)"

section \<open>The byte quota\<close>

definition total_bytes :: "engine \<Rightarrow> nat" where
  "total_bytes e = fold (\<lambda>(_, t) a. sat_add a (t_bytes_retained t)) (e_topics e) 0"

definition try_reserve_total_bytes :: "nat \<Rightarrow> engine \<Rightarrow> bool \<times> engine" where
  "try_reserve_total_bytes incoming e =
     (let cap = lim_max_total_bytes (e_limits e) in
      if cap = 0 then (True, e)
      else if sat_add (e_total_bytes_live e) incoming > cap then (False, e)
      else (True, e\<lparr>e_total_bytes_live := e_total_bytes_live e + incoming\<rparr>))"

definition release_total_bytes :: "nat \<Rightarrow> engine \<Rightarrow> engine" where
  "release_total_bytes bytes e =
     (if bytes = 0 then e else e\<lparr>e_total_bytes_live := e_total_bytes_live e - bytes\<rparr>)"

section \<open>The sharded log\<close>

definition shard_for_topic :: "env \<Rightarrow> u64 \<Rightarrow> nat \<Rightarrow> nat" where
  "shard_for_topic env topic_id n =
     (if n \<le> 1 \<or> topic_id = 0 then 0 else env_crc env (le_bytes 8 topic_id) mod n)"

definition submit_batch ::
  "env \<Rightarrow> u64 \<Rightarrow> wal_record list \<Rightarrow> bool \<Rightarrow> wal_handle \<Rightarrow> (wal_error + commit_outcome) \<times> wal_handle" where
  "submit_batch env topic_id recs durable h =
     (if recs = [] then (Inr CoOk, h)
      else case wh_reject h (wh_submits h) of
             Some err \<Rightarrow> (Inl err, h\<lparr>wh_submits := wh_submits h + 1\<rparr>)
           | None \<Rightarrow>
               let s = shard_for_topic env topic_id (length (wh_writers h));
                   sub = \<lparr>sb_records = recs, sb_durable = durable, sb_token = wh_submits h\<rparr>;
                   (out, w) = commit_batch (env_crc env) (wh_io h s) [sub] durable (wh_writers h ! s)
               in (Inr out, h\<lparr>wh_writers := (wh_writers h)[s := w], wh_submits := wh_submits h + 1\<rparr>))"

definition map_wal_submit_err :: "wal_error \<Rightarrow> api_error" where
  "map_wal_submit_err err = (case err of WalFull \<Rightarrow> Throttled | WriterGone \<Rightarrow> Internal)"

definition wal_commit :: "env \<Rightarrow> wal_record \<Rightarrow> bool \<Rightarrow> engine \<Rightarrow> unit result \<times> engine" where
  "wal_commit env rec durable e =
     (case e_wal e of
        None \<Rightarrow> (Inr (), e)
      | Some h \<Rightarrow>
          (case submit_batch env (wr_topic_id rec) [rec] durable h of
             (Inl err, h) \<Rightarrow> (Inl (map_wal_submit_err err), e\<lparr>e_wal := Some h\<rparr>)
           | (Inr out, h) \<Rightarrow>
               (if durable \<and> out = CoFailed then Inl Internal else Inr (), e\<lparr>e_wal := Some h\<rparr>)))"

definition wal_log_best_effort :: "env \<Rightarrow> wal_record \<Rightarrow> bool \<Rightarrow> engine \<Rightarrow> engine" where
  "wal_log_best_effort env rec durable e = snd (wal_commit env rec durable e)"

definition wal_log_delete_seqs :: "env \<Rightarrow> u64 \<Rightarrow> seq list \<Rightarrow> i64 \<Rightarrow> bool \<Rightarrow> engine \<Rightarrow> engine" where
  "wal_log_delete_seqs env topic_id seqs now durable e =
     wal_log_best_effort env (Delete topic_id None None seqs None (as_ts now)) durable e"

definition log_evict_watermark :: "env \<Rightarrow> u64 \<Rightarrow> retention_advance \<Rightarrow> i64 \<Rightarrow> engine \<Rightarrow> unit result \<times> engine" where
  "log_evict_watermark env topic_id adv now e =
     (let floor = max (ra_evict_floor adv) (ra_expiry_floor adv) in
      if e_wal e = None \<or> floor = 0 then (Inr (), e)
      else wal_commit env (EvictWatermark topic_id (ra_evict_floor adv) (ra_expiry_floor adv) (sat_add floor 1) (as_ts now)) True e)"

definition ensure_disk_head_reserved ::
  "env \<Rightarrow> topic_state \<Rightarrow> seq \<Rightarrow> i64 \<Rightarrow> engine \<Rightarrow> unit result \<times> topic_state \<times> engine" where
  "ensure_disk_head_reserved env t head now e =
     (if e_wal e = None then (Inr (), t, e)
      else if head < t_reserved_head t then (Inr (), t, e)
      else
        let target = sat_add (max head (t_reserved_head t)) DISK_HEAD_RESERVE_AHEAD in
        case wal_commit env (HeadWatermark (t_topic_id t) target (as_ts now)) True e of
          (Inl err, e) \<Rightarrow> (Inl err, t, e)
        | (Inr _, e) \<Rightarrow> (Inr (), set_reserved_head target t, e))"

section \<open>Retention with a durable floor\<close>

text \<open>
  The watermark of the planned floors is written before they are committed, exactly when the
  enforcement would call its hardening step.
\<close>

definition harden_due :: "i64 \<Rightarrow> topic_state \<Rightarrow> bool" where
  "harden_due now t =
     (retention_active t \<and> ra_floor_advanced (plan_retention now t) \<and> ra_durable_advance (plan_retention now t))"

definition enforce_retention_durable :: "env \<Rightarrow> topic_state \<Rightarrow> i64 \<Rightarrow> engine \<Rightarrow> unit result \<times> topic_state \<times> engine" where
  "enforce_retention_durable env t now e =
     (if \<not> uses_persistent_record_store (t_config t) then
        let (t, adv) = enforce_retention now t in (Inr (), t, release_total_bytes (ra_bytes_reclaimed adv) e)
      else
        let (hardened, e) =
              (if harden_due now t then log_evict_watermark env (t_topic_id t) (plan_retention now t) now e
               else (Inr (), e))
        in case enforce_retention_hardened now (\<lambda>_. case hardened of Inl err \<Rightarrow> Some err | Inr _ \<Rightarrow> None) t of
             Inl err \<Rightarrow> (Inl err, t, e)
           | Inr (t, adv) \<Rightarrow> (Inr (), t, release_total_bytes (ra_bytes_reclaimed adv) e))"

section \<open>The append path\<close>

definition encode_record_payload :: "env \<Rightarrow> json \<Rightarrow> json option \<Rightarrow> u8 list" where
  "encode_record_payload env data meta =
     env_to_vec env (JObject ((''d'', data) # (case meta of Some m \<Rightarrow> [(''m'', m)] | None \<Rightarrow> [])))"

definition append_frames :: "env \<Rightarrow> u64 \<Rightarrow> seq list \<Rightarrow> stored_record list \<Rightarrow> i64 \<Rightarrow> wal_record list" where
  "append_frames env topic_id seqs recs now =
     map (\<lambda>(s, r). Append topic_id s (as_ts now) (sr_node r) (sr_tag r) (encode_record_payload env (sr_data r) (sr_meta r)))
       (zip seqs recs)"

definition wal_enqueue_batch ::
  "env \<Rightarrow> u64 \<Rightarrow> seq list \<Rightarrow> stored_record list \<Rightarrow> i64 \<Rightarrow> bool \<Rightarrow> engine \<Rightarrow> commit_outcome option result \<times> engine" where
  "wal_enqueue_batch env topic_id seqs recs now durable e =
     (case e_wal e of
        None \<Rightarrow> (Inr None, e)
      | Some h \<Rightarrow>
          (case submit_batch env topic_id (append_frames env topic_id seqs recs now) durable h of
             (Inl _, h) \<Rightarrow> (Inl Internal, e\<lparr>e_wal := Some h\<rparr>)
           | (Inr out, h) \<Rightarrow> (Inr (Some out), e\<lparr>e_wal := Some h\<rparr>)))"

definition reserve_incoming :: "stored_record list \<Rightarrow> engine \<Rightarrow> bool \<times> engine" where
  "reserve_incoming rs e = try_reserve_total_bytes (sum_list (map sr_bytes rs)) e"

definition release_incoming :: "stored_record list \<Rightarrow> engine \<Rightarrow> engine" where
  "release_incoming rs e =
     (if lim_max_total_bytes (e_limits e) \<noteq> 0 then release_total_bytes (sum_list (map sr_bytes rs)) e else e)"

definition publish_and_seal :: "env \<Rightarrow> staged_append \<Rightarrow> i64 \<Rightarrow> topic_state \<Rightarrow> topic_state" where
  "publish_and_seal env sa now t =
     (if durability_class (t_config t) \<noteq> Ephemeral then publish_staged env sa now t
      else fst (publish_staged_no_seal sa now t))"

definition durable_append ::
  "env \<Rightarrow> topic_state \<Rightarrow> stored_record list \<Rightarrow> i64 \<Rightarrow> engine \<Rightarrow> seq list result \<times> topic_state \<times> engine" where
  "durable_append env t rs now e =
     (if rs = [] then (Inr [], t, e)
      else
        let (ok, e) = reserve_incoming rs e in
        if \<not> ok then (Inl Throttled, t, e)
        else
          let class = durability_class (t_config t);
              need_wal = (e_wal e \<noteq> None \<and> class \<noteq> Ephemeral);
              (t, sa) = stage_append rs t;
              seqs = staged_seqs sa;
              (token, e) = (if need_wal then wal_enqueue_batch env (t_topic_id t) seqs rs now (class = Fsync) e
                            else (Inr None, e))
          in case token of
               Inl err \<Rightarrow> (Inl err, rollback_staged sa t, release_incoming rs e)
             | Inr outcome \<Rightarrow>
                 if outcome = Some CoFailed then (Inl Internal, rollback_staged_by_seqs sa t, release_incoming rs e)
                 else
                   let (reserved, t, e) = (if class = Disk then ensure_disk_head_reserved env t (publish_head sa) now e
                                           else (Inr (), t, e))
                   in case reserved of
                        Inl err \<Rightarrow> (Inl err, rollback_staged_by_seqs sa t, release_incoming rs e)
                      | Inr _ \<Rightarrow> (Inr seqs, publish_and_seal env sa now t, e))"

text \<open>A forwarded batch takes the same path without a log frame.\<close>

definition derived_append ::
  "env \<Rightarrow> topic_state \<Rightarrow> stored_record list \<Rightarrow> i64 \<Rightarrow> engine \<Rightarrow> seq list result \<times> topic_state \<times> engine" where
  "derived_append env t rs now e =
     (if rs = [] then (Inr [], t, e)
      else
        let (ok, e) = reserve_incoming rs e in
        if \<not> ok then (Inl Throttled, t, e)
        else let (t, sa) = stage_append rs t in (Inr (staged_seqs sa), publish_and_seal env sa now t, e))"

end
