(* ===== verification/Topic_Ok.thy ===== *)
theory Topic_Ok
  imports Topic_Deletes
begin

text \<open>
  The invariant the engine keeps for each of its topics between requests, with what every
  operation of a handler does to it. After a failed commit the tail of the window may hold dead
  slots above the head (the holes of the rolled-back batch), so a topic between requests has no
  live slot above its head, but not necessarily no slot; the next batch starts after the holes.
\<close>

section \<open>The invariant\<close>

definition tail :: "topic_state \<Rightarrow> seq" where
  "tail t = base_seq (t_index t) + length (records (t_index t))"

definition resting :: "topic_state \<Rightarrow> bool" where
  "resting t \<longleftrightarrow> (\<forall>s. is_live (t_index t) s \<longrightarrow> s \<le> t_head_seq t)"

definition floors_below :: "seq \<Rightarrow> floors \<Rightarrow> bool" where
  "floors_below s f \<longleftrightarrow> evict_floor f < s \<and> expiry_floor f < s \<and> delete_floor f < s \<and> source_trim_floor f < s"

definition topic_ok :: "topic_state \<Rightarrow> bool" where
  "topic_ok t \<longleftrightarrow> wf_topic t \<and> resting t \<and> floors_below (tail t) (t_floors t) \<and> t_seq_base t \<le> tail t"

text \<open>What no operation on the records of a topic changes.\<close>

definition same_id :: "topic_state \<Rightarrow> topic_state \<Rightarrow> bool" where
  "same_id t t' \<longleftrightarrow> t_name t' = t_name t \<and> t_topic_id t' = t_topic_id t \<and> t_seq_base t' = t_seq_base t \<and>
     t_config t' = t_config t \<and> t_queue t' = t_queue t \<and> t_dedupe t' = t_dedupe t"

lemma same_id_refl [simp]: "same_id t t"
  by (simp add: same_id_def)

lemma same_id_trans: "same_id a b \<Longrightarrow> same_id b c \<Longrightarrow> same_id a c"
  by (simp add: same_id_def)

lemma topic_okD:
  assumes "topic_ok t"
  shows "wf_topic t" "resting t" "floors_below (tail t) (t_floors t)" "t_seq_base t \<le> tail t" "t_head_seq t < tail t"
  using assms wf_topicD(2)[of t] by (auto simp: topic_ok_def tail_def)

lemma topic_ok_new: "1 \<le> base \<Longrightarrow> topic_ok (topic_new name tid cfg base ep)"
  by (simp add: topic_ok_def wf_topic_new)
    (simp add: topic_new_def index_new_def resting_def is_live_iff floors_below_def default_floors_def tail_def)

lemma tail_sim: "topic_sim t t' \<Longrightarrow> tail t' = tail t"
  using map_erase_fields(5)[of "records (t_index t)" "records (t_index t')"]
  by (simp add: topic_sim_def index_sim_def tail_def)

lemma same_id_sim: "topic_sim t t' \<Longrightarrow> same_id t t'"
  by (simp add: topic_sim_def same_id_def)

lemma topic_ok_sim: "topic_sim t t' \<Longrightarrow> topic_ok t' = topic_ok t"
proof -
  assume sim: "topic_sim t t'"
  then have "resting t' = resting t"
    using is_live_sim[of "t_index t" "t_index t'"] by (simp add: topic_sim_def resting_def)
  then show ?thesis
    using sim wf_topic_sim[OF sim] tail_sim[OF sim] by (simp add: topic_ok_def topic_sim_def)
qed

lemma wf_topic_reserved [simp]: "wf_topic (t\<lparr>t_reserved_head := r\<rparr>) = wf_topic t"
  by (simp add: wf_topic_def)

lemma topic_ok_reserved [simp]: "topic_ok (t\<lparr>t_reserved_head := r\<rparr>) = topic_ok t"
  by (simp add: topic_ok_def wf_topic_def resting_def tail_def)

lemma set_reserved_head_ok:
  "topic_ok (set_reserved_head r t) = topic_ok t" "same_id t (set_reserved_head r t)" "tail (set_reserved_head r t) = tail t"
  "view (set_reserved_head r t) = view t" "t_bytes_retained (set_reserved_head r t) = t_bytes_retained t"
proof -
  show "view (set_reserved_head r t) = view t"
    by (rule view_same) (simp_all add: set_reserved_head_def visible_def slot_at_def earliest_seq_def)
qed (simp_all add: set_reserved_head_def same_id_def tail_def)

section \<open>Reclaiming and retention\<close>

lemma reclaim_front_ok:
  assumes ok: "topic_ok t" and t': "t' = fst (reclaim_front (t_head_seq t) t)"
  shows "topic_ok t'" "same_id t t'" "tail t' = tail t"
proof -
  note f = reclaim_front_fields[OF t' refl]
  let ?n = "front_drop (floor_earliest t) (t_index t)"
  have n: "?n \<le> length (records (t_index t))"
    by (rule front_drop_le)
  then show tl: "tail t' = tail t"
    by (simp add: tail_def f)
  have "is_live (t_index t') s \<Longrightarrow> is_live (t_index t) s" for s
    using n by (auto simp: is_live_iff f)
  then have "resting t'"
    using topic_okD(2)[OF ok] by (auto simp: resting_def f)
  then show "topic_ok t'"
    using topic_okD[OF ok] reclaim_front_wf(1)[OF topic_okD(1)[OF ok]] tl by (simp add: topic_ok_def t' f(3,4)[unfolded t'])
  show "same_id t t'"
    by (simp add: same_id_def f(4,5,6)) (simp add: t' reclaim_front_def Let_def subtract_live_count_def subtract_bytes_retained_def split_beta)
qed

lemma ttl_scan_bound: "ttl_scan now ttl s rs x = x \<or> (s \<le> ttl_scan now ttl s rs x \<and> ttl_scan now ttl s rs x < s + length rs)"
proof (induction now ttl s rs x rule: ttl_scan.induct)
  case (2 now ttl s r rs x)
  then show ?case by (cases "i64_sat_sub now (sr_ts r) > ttl") auto
qed simp

lemma bytes_scan_bound: "bytes_scan fl s rs over x = x \<or> (s \<le> bytes_scan fl s rs over x \<and> bytes_scan fl s rs over x < s + length rs)"
proof (induction fl s rs over x rule: bytes_scan.induct)
  case (2 fl s r rs over x)
  then show ?case by (auto simp: Let_def)
qed simp

lemma plan_retention_bound:
  assumes "floors_below (tail t) (t_floors t)" "t_head_seq t < tail t"
  shows "ra_evict_floor (plan_retention now t) < tail t" "ra_expiry_floor (plan_retention now t) < tail t"
proof -
  let ?ix = "t_index t"
  have ttl: "ttl_scan now k (base_seq ?ix) (records ?ix) x < tail t" if "x < tail t" for k x
    using ttl_scan_bound[of now k "base_seq ?ix" "records ?ix" x] that by (auto simp: tail_def)
  have bytes: "bytes_scan fl (base_seq ?ix) (records ?ix) over x < tail t" if "x < tail t" for fl over x
    using bytes_scan_bound[of fl "base_seq ?ix" "records ?ix" over x] that by (auto simp: tail_def)
  show "ra_expiry_floor (plan_retention now t) < tail t"
    using assms ttl by (simp add: plan_retention_def Let_def floors_below_def)
  show "ra_evict_floor (plan_retention now t) < tail t"
    using assms(1) bytes less_imp_diff_less[OF assms(2)] by (simp add: plan_retention_def Let_def floors_below_def)
qed

lemma commit_floors_ok:
  assumes "topic_ok t"
  shows "topic_ok (commit_floors (plan_retention now t) t)"
  using topic_okD[OF assms] plan_retention_bound[OF topic_okD(3,5)[OF assms], of now]
  by (simp add: topic_ok_def commit_floors_wf) (simp add: commit_floors_def resting_def tail_def floors_below_def)

lemma enforce_retention_ok:
  assumes ok: "topic_ok t" and out: "enforce_retention_hardened now harden t = Inr (t', adv)"
  shows "topic_ok t'" "same_id t t'" "tail t' = tail t"
    "ra_bytes_reclaimed adv + t_bytes_retained t' = t_bytes_retained t" "t_head_seq t' = t_head_seq t"
proof -
  have "topic_ok t' \<and> same_id t t' \<and> tail t' = tail t"
  proof (cases "retention_active t")
    case True
    let ?c = "commit_floors (plan_retention now t) t"
    obtain t2 where sim: "topic_sim ?c t2" and t': "t' = fst (reclaim_front (t_head_seq t2) t2)"
      using True out by (rule enforce_active)
    have "topic_ok t2" "same_id t t2" "tail t2 = tail t"
      using commit_floors_ok[OF ok] topic_ok_sim[OF sim] tail_sim[OF sim] same_id_sim[OF sim]
      by (auto simp: commit_floors_def tail_def same_id_def)
    then show ?thesis
      using reclaim_front_ok[OF _ t'] same_id_trans by metis
  next
    case False
    then show ?thesis
      using out ok by (auto simp: enforce_inactive)
  qed
  then show "topic_ok t'" "same_id t t'" "tail t' = tail t" by blast+
  show "ra_bytes_reclaimed adv + t_bytes_retained t' = t_bytes_retained t" "t_head_seq t' = t_head_seq t"
    using enforce_retention_fields[OF topic_okD(1)[OF ok] out] by blast+
qed

section \<open>Staging, publishing, rolling back\<close>

lemma stage_append_same_id: "same_id t (fst (stage_append rs t))"
  by (simp add: same_id_def stage_append_def Let_def split: prod.splits)

lemma stage_append_ok_result:
  assumes "rs \<noteq> []" "slot_bytes rs \<le> u64_max"
  shows "sa_start (snd (stage_append rs t)) = tail t" "sa_count (snd (stage_append rs t)) = length rs"
    "sa_added_bytes (snd (stage_append rs t)) = slot_bytes rs" "staged_seqs (snd (stage_append rs t)) = [tail t..<tail t + length rs]"
    "publish_head (snd (stage_append rs t)) = tail t + length rs - 1"
  using assms by (simp_all add: stage_append_result tail_def staged_seqs_def publish_head_def)

definition published_with :: "env \<Rightarrow> bool \<Rightarrow> staged_append \<Rightarrow> i64 \<Rightarrow> topic_state \<Rightarrow> topic_state" where
  "published_with env seal sa now t = (if seal then publish_staged env sa now t else fst (publish_staged_no_seal sa now t))"

lemma published_with_sim: "topic_sim (fst (publish_staged_no_seal sa now t)) (published_with env seal sa now t)"
  by (simp add: published_with_def publish_staged_sim)

lemma resting_gap_dead:
  assumes "resting t" "wf_topic t"
  shows "gap_dead (t_head_seq t) (tail t) (fold push_back rs (t_index t))"
proof -
  let ?ix = "t_index t" and ?k = "Suc (t_head_seq t) - base_seq (t_index t)"
  have "sr_deleted (records ?ix ! i)" if "?k \<le> i" "i < length (records ?ix)" for i
    using assms(1) that by (auto simp: resting_def is_live_iff dest!: spec[of _ "base_seq ?ix + i"])
  moreover have "take (tail t - base_seq ?ix - ?k) (drop ?k (records ?ix @ rs)) = drop ?k (records ?ix)"
    using wf_topicD(2)[OF assms(2)] by (simp add: tail_def)
  ultimately show ?thesis
    by (simp add: gap_dead_def list_all_length)
qed

text \<open>One batch staged and published on a topic at rest, whatever the reserved head was raised to meanwhile.\<close>

lemma publish_ok:
  assumes ok: "topic_ok t" and ne: "rs \<noteq> []" and live: "list_all (\<lambda>r. \<not> sr_deleted r) rs"
    and room: "t_bytes_retained t + slot_bytes rs \<le> u64_max"
    and sa: "sa = snd (stage_append rs t)"
    and t': "t' = published_with env seal sa now ((fst (stage_append rs t))\<lparr>t_reserved_head := rh\<rparr>)"
  shows "topic_ok t'" "same_id t t'" "tail t' = tail t + length rs" "t_head_seq t' = tail t + length rs - 1"
    "t_bytes_retained t' = t_bytes_retained t + slot_bytes rs" "t_floors t' = t_floors t"
    "map erase (records (t_index t')) = map erase (records (t_index t) @ rs)" "base_seq (t_index t') = base_seq (t_index t)"
proof -
  note wf = topic_okD(1)[OF ok]
  let ?t = "(fst (stage_append rs t))\<lparr>t_reserved_head := rh\<rparr>"
  let ?p = "fst (publish_staged_no_seal sa now ?t)"
  have res: "sa_start sa = tail t" "sa_count sa = length rs" "sa_added_bytes sa = slot_bytes rs"
    using stage_append_ok_result[OF ne, of t] room by (simp_all add: sa)
  have sim: "topic_sim ?p t'"
    unfolding t' by (rule published_with_sim)
  have p: "t_head_seq ?p = tail t + length rs - 1" "t_index ?p = fold push_back rs (t_index t)" "t_floors ?p = t_floors t"
    "t_bytes_retained ?p = t_bytes_retained t + slot_bytes rs" "same_id t ?p"
    using ne res stage_append_same_id[of t rs]
    by (simp_all add: publish_staged_no_seal_def Let_def publish_head_seq_def stage_append_index stage_append_frame same_id_def)
  have tlp: "tail ?p = tail t + length rs"
    by (simp add: tail_def p)
  have "\<forall>r\<in>set rs. slot_ok r" "\<forall>r\<in>set rs. \<not> sr_deleted r"
    using live by (auto simp: list_all_iff slot_ok_def)
  then have wfp: "wf_topic ?p"
    using wf stage_append_wf[OF wf] stage_append_ok[OF wf ne] resting_gap_dead[OF topic_okD(2)[OF ok] wf] room
    by (intro publish_staged_no_seal_wf) (simp_all add: stage_append_frame stage_append_index sa[symmetric] res)
  have "s \<le> t_head_seq ?p" if "is_live (t_index ?p) s" for s
    using that by (auto simp: is_live_iff p tail_def)
  then have "topic_ok ?p"
    using wfp p tlp topic_okD(3,4)[OF ok] by (auto simp: topic_ok_def resting_def floors_below_def same_id_def)
  then show "topic_ok t'"
    using topic_ok_sim[OF sim] by simp
  show "same_id t t'" "tail t' = tail t + length rs" "t_head_seq t' = tail t + length rs - 1"
    "t_bytes_retained t' = t_bytes_retained t + slot_bytes rs" "t_floors t' = t_floors t"
    "map erase (records (t_index t')) = map erase (records (t_index t) @ rs)" "base_seq (t_index t') = base_seq (t_index t)"
    using sim p tail_sim[OF sim] tlp same_id_trans[OF p(5) same_id_sim[OF sim]] by (simp_all add: topic_sim_def index_sim_def)
qed

lemma rollback_by_seqs_ok:
  assumes ok: "topic_ok t" and ne: "rs \<noteq> []" and live: "list_all (\<lambda>r. \<not> sr_deleted r) rs" and small: "slot_bytes rs \<le> u64_max"
    and t': "t' = rollback_staged_by_seqs (snd (stage_append rs t)) ((fst (stage_append rs t))\<lparr>t_reserved_head := rh\<rparr>)"
  shows "topic_ok t'" "same_id t t'" "tail t' = tail t + length rs" "t_head_seq t' = t_head_seq t"
    "t_bytes_retained t' = t_bytes_retained t" "t_floors t' = t_floors t"
    "base_seq (t_index t') = base_seq (t_index t)"
    "records (t_index t') = records (t_index t) @ map dead_slot rs"
proof -
  note wf = topic_okD(1)[OF ok]
  let ?t = "(fst (stage_append rs t))\<lparr>t_reserved_head := rh\<rparr>" and ?sa = "snd (stage_append rs t)"
  let ?ss = "map (\<lambda>i. tail t + i) [0..<length rs]"
  have res: "sa_start ?sa = tail t" "sa_count ?sa = length rs"
    using stage_append_ok_result[OF ne small, of t] by simp_all
  have ix: "t_index t' = fold (\<lambda>s ix. fst (mark_deleted s ix)) ?ss (fold push_back rs (t_index t))"
    using ne by (simp add: t' rollback_staged_by_seqs_def res stage_append_index fold_map comp_def)
  show recs: "records (t_index t') = records (t_index t) @ map dead_slot rs"
    unfolding ix fold_mark_fields using live
    by (intro nth_equalityI) (auto simp: nth_kill nth_append tail_def list_all_length)
  show base: "base_seq (t_index t') = base_seq (t_index t)"
    by (simp add: ix fold_mark_fields)
  show tl: "tail t' = tail t + length rs"
    by (simp add: tail_def recs base)
  show f: "t_head_seq t' = t_head_seq t" "t_bytes_retained t' = t_bytes_retained t" "t_floors t' = t_floors t"
    by (simp_all add: t' rollback_staged_by_seqs_def stage_append_frame)
  show sid: "same_id t t'"
    using stage_append_same_id[of t rs] by (simp add: t' rollback_staged_by_seqs_def same_id_def)
  have "\<forall>r\<in>set rs. slot_ok r"
    using live by (auto simp: list_all_iff slot_ok_def)
  then have "wf_topic ?t"
    using stage_append_wf[OF wf] by simp
  then have "wf_topic t'"
    unfolding t' using topic_okD(5)[OF ok] by (intro rollback_staged_by_seqs_wf(1)) (simp_all add: res stage_append_frame)
  moreover have "s \<le> t_head_seq t'" if "is_live (t_index t') s" for s
  proof -
    have "is_live (t_index t) s"
      using that by (auto simp: is_live_iff recs base nth_append dead_slot_def split: if_splits)
    then show ?thesis
      using topic_okD(2)[OF ok] by (simp add: resting_def f)
  qed
  ultimately show "topic_ok t'"
    using topic_okD(3,4)[OF ok] tl f sid by (auto simp: topic_ok_def resting_def floors_below_def same_id_def)
qed

section \<open>The readable log\<close>

lemma grown_old:
  assumes len: "length (records (t_index t')) = length (records (t_index t)) + n" and base: "base_seq (t_index t') = base_seq (t_index t)"
    and pre: "map erase (take (length (records (t_index t))) (records (t_index t'))) = map erase (records (t_index t))"
    and fl: "t_floors t' = t_floors t" "t_seq_base t' = t_seq_base t" and h: "t_head_seq t \<le> t_head_seq t'" "t_head_seq t' < u64_max"
    and wf: "wf_topic t" and s: "s \<le> t_head_seq t"
  shows "visible t' s \<longleftrightarrow> visible t s" "visible t s \<Longrightarrow> slot_at t' s = slot_at t s"
proof -
  let ?i = "s - base_seq (t_index t)"
  have er: "erase (records (t_index t') ! i) = erase (records (t_index t) ! i)" if "i < length (records (t_index t))" for i
    using arg_cong[OF pre, of "\<lambda>xs. xs ! i"] that len by simp
  have "s < base_seq (t_index t) \<or> ?i < length (records (t_index t))"
    using wf_topicD(2)[OF wf] s by auto
  then have "is_live (t_index t') s \<longleftrightarrow> is_live (t_index t) s"
    using er[of ?i, THEN erase_eq_fields] len by (auto simp: is_live_iff base)
  moreover have "floor_earliest t' \<le> s \<longleftrightarrow> floor_earliest t \<le> s"
    using floors_earliest_le[of "t_head_seq t'" s] floors_earliest_le[of "t_head_seq t" s] s h by (simp add: floor_earliest_def fl)
  ultimately show "visible t' s \<longleftrightarrow> visible t s"
    using h s by (simp add: visible_floor)
  show "visible t s \<Longrightarrow> slot_at t' s = slot_at t s"
    using er[of ?i] by (simp add: visible_def is_live_iff slot_at_def base)
qed

lemma rollback_by_seqs_view:
  assumes ok: "topic_ok t" and ne: "rs \<noteq> []" and live: "list_all (\<lambda>r. \<not> sr_deleted r) rs" and small: "slot_bytes rs \<le> u64_max"
    and h: "t_head_seq t < u64_max"
    and t': "t' = rollback_staged_by_seqs (snd (stage_append rs t)) ((fst (stage_append rs t))\<lparr>t_reserved_head := rh\<rparr>)"
  shows "view t' = view t"
proof (rule view_same)
  note r = rollback_by_seqs_ok[OF ok ne live small t']
  show hd: "t_head_seq t' = t_head_seq t" by (rule r)
  have "t_seq_base t' = t_seq_base t"
    using r(2) by (simp add: same_id_def)
  then have old: "visible t' s \<longleftrightarrow> visible t s" "visible t s \<Longrightarrow> slot_at t' s = slot_at t s" if "s \<le> t_head_seq t" for s
    using grown_old[OF _ r(7) _ r(6), of "length rs" s] h hd topic_okD(1)[OF ok] that by (simp_all add: r(8))
  show vis: "visible t' s \<longleftrightarrow> visible t s" for s
    using old(1)[of s] by (cases "s \<le> t_head_seq t") (auto simp: visible_def hd)
  show "slot_at t' s = slot_at t s" if "visible t' s" for s
    using that vis[of s] old(2)[of s] by (auto simp: visible_def)
qed

lemma publish_view:
  assumes ok: "topic_ok t" and ne: "rs \<noteq> []" and live: "list_all (\<lambda>r. \<not> sr_deleted r) rs"
    and room: "t_bytes_retained t + slot_bytes rs \<le> u64_max" "tail t + length rs \<le> u64_max"
    and sa: "sa = snd (stage_append rs t)"
    and t': "t' = published_with env seal sa now ((fst (stage_append rs t))\<lparr>t_reserved_head := rh\<rparr>)"
  shows "view t' = view t @ zip [tail t..<tail t + length rs] (map erase rs)"
proof -
  note r = publish_ok[OF ok ne live room(1) sa t']
  let ?h = "t_head_seq t" and ?n = "length (records (t_index t))"
  have len: "length (records (t_index t')) = ?n + length rs"
    using map_erase_fields(5)[OF r(7)] by simp
  have er: "erase (records (t_index t') ! i) = erase ((records (t_index t) @ rs) ! i)" if "i < ?n + length rs" for i
    using arg_cong[OF r(7), of "\<lambda>xs. xs ! i"] that len by (simp del: map_append)
  have pre: "map erase (take ?n (records (t_index t'))) = map erase (records (t_index t))"
    using er len by (intro nth_equalityI) (auto simp: nth_append)
  have "t_seq_base t' = t_seq_base t"
    using r(2) by (simp add: same_id_def)
  moreover have n: "0 < length rs" "?h < tail t"
    using ne topic_okD(5)[OF ok] by simp_all
  ultimately have old: "visible t' s \<longleftrightarrow> visible t s" "visible t s \<Longrightarrow> slot_at t' s = slot_at t s" if "s \<le> ?h" for s
    using grown_old[OF len r(8) pre r(6) _ _ _ topic_okD(1)[OF ok] that] r(4) room(2) by simp_all
  have mid: "\<not> visible t' s" if "?h < s" "s < tail t" for s
  proof -
    have "\<not> is_live (t_index t) s"
      using topic_okD(2)[OF ok] that by (auto simp: resting_def)
    then show ?thesis
      using er[of "s - base_seq (t_index t)", THEN erase_eq_fields] that len
      by (auto simp: visible_def is_live_iff r(8) tail_def nth_append)
  qed
  have new: "visible t' (tail t + i)" "slot_at t' (tail t + i) = erase (rs ! i)" if i: "i < length rs" for i
  proof -
    have idx: "tail t + i - base_seq (t_index t) = ?n + i" "base_seq (t_index t) \<le> tail t + i"
      by (simp_all add: tail_def)
    have "is_live (t_index t') (tail t + i)"
      using er[of "?n + i", THEN erase_eq_fields] i len live by (simp add: is_live_iff r(8) idx nth_append list_all_length)
    moreover have "floor_earliest t' \<le> tail t + i"
      using floors_earliest_le[of "t_head_seq t'" "tail t + i"] topic_okD(3,4)[OF ok] room(2) i r(2)
      by (simp add: floor_earliest_def r(4,6) floors_below_def same_id_def)
    ultimately show "visible t' (tail t + i)"
      using room(2) i by (simp add: visible_floor r(4))
    show "slot_at t' (tail t + i) = erase (rs ! i)"
      using er[of "?n + i"] i by (simp add: slot_at_def r(8) idx nth_append)
  qed
  have split: "[0..<Suc (t_head_seq t')] = [0..<Suc ?h] @ [Suc ?h..<tail t] @ [tail t..<tail t + length rs]"
  proof -
    have "Suc (t_head_seq t') = tail t + length rs" "tail t = Suc ?h + (tail t - Suc ?h)"
      using n r(4) by simp_all
    then show ?thesis
      using upt_add_eq_append[of 0 "tail t" "length rs"] upt_add_eq_append[of 0 "Suc ?h" "tail t - Suc ?h"] by (simp del: upt_Suc)
  qed
  have "map (\<lambda>s. (s, slot_at t' s)) (filter (visible t') [0..<Suc ?h]) = view t"
  proof -
    have "filter (visible t') [0..<Suc ?h] = filter (visible t) [0..<Suc ?h]"
      using old(1) by (intro filter_cong) (auto simp del: upt_Suc)
    then show ?thesis
      unfolding view_def using old(2) by (intro map_cong) (auto simp del: upt_Suc)
  qed
  moreover have "filter (visible t') [Suc ?h..<tail t] = []"
    using mid by (auto simp: filter_empty_conv)
  moreover have "filter (visible t') [tail t..<tail t + length rs] = [tail t..<tail t + length rs]"
    using new(1) by (intro filter_True) (auto simp: le_iff_add)
  moreover have "map (\<lambda>s. (s, slot_at t' s)) [tail t..<tail t + length rs] = zip [tail t..<tail t + length rs] (map erase rs)"
    using new(2) by (intro nth_equalityI) auto
  ultimately show ?thesis
    unfolding view_def[of t'] split by (simp del: upt_Suc)
qed

section \<open>Deletes\<close>

lemma settle_marks_ok:
  assumes ok: "topic_ok t" and h: "t_head_seq t < u64_max" and le: "\<forall>s\<in>set ss. s \<le> t_head_seq t"
    and m: "mark_all ss (t_index t) 0 0 [] = (ix, freed, n, ds)"
  shows "topic_ok (settle_marks ix freed n t)" "same_id t (settle_marks ix freed n t)" "tail (settle_marks ix freed n t) = tail t"
proof -
  note wf = topic_okD(1)[OF ok]
  note s = settle_marks_spec[OF wf h le m]
  have "0 + slot_bytes (published (t_head_seq t) (t_index t)) \<le> u64_max"
    using wf_topicD(4,5)[OF wf] by simp
  from mark_all_spec(1)[OF le this m] show tl: "tail (settle_marks ix freed n t) = tail t"
    by (simp add: tail_def fold_mark_fields)
  show "same_id t (settle_marks ix freed n t)"
    by (simp add: same_id_def) (simp add: settle_marks_def subtract_live_count_def subtract_bytes_retained_def)
  have "resting (settle_marks ix freed n t)"
    using topic_okD(2)[OF ok] s(6) by (simp add: resting_def)
  then show "topic_ok (settle_marks ix freed n t)"
    using s(1) topic_okD(3,4)[OF ok] tl by (simp add: topic_ok_def)
qed

lemma raise_below_ok:
  assumes ok: "topic_ok t" and b: "b \<le> tail t"
  shows "topic_ok (raise_below b t)" "same_id t (raise_below b t)" "tail (raise_below b t) = tail t"
proof -
  have f: "base_seq (t_index (raise_below b t)) = base_seq (t_index t)" "records (t_index (raise_below b t)) = records (t_index t)"
      "tag_index (t_index (raise_below b t)) = tag_index (t_index t)" "t_head_seq (raise_below b t) = t_head_seq t"
    by (simp_all add: raise_below_def Let_def)
  show tl: "tail (raise_below b t) = tail t"
    by (simp add: tail_def f)
  show "same_id t (raise_below b t)"
    by (simp add: raise_below_def same_id_def Let_def)
  have "wf_index (t_index (raise_below b t))"
    using wf_topicD(1)[OF topic_okD(1)[OF ok]] f by (simp add: wf_index_def)
  then have "wf_topic (raise_below b t)"
    using topic_okD(1)[OF ok] f by (simp add: wf_topic_def published_def) (simp add: raise_below_def Let_def)
  moreover have "resting (raise_below b t)"
    using topic_okD(2)[OF ok] by (simp add: resting_def is_live_iff f)
  moreover have "floors_below (tail t) (t_floors (raise_below b t))"
    using topic_okD(3,5)[OF ok] wf_topicD(6)[OF topic_okD(1)[OF ok]] b
    by (auto simp: floors_below_def raise_below_def Let_def)
  ultimately show "topic_ok (raise_below b t)"
    using topic_okD(4)[OF ok] tl by (simp add: topic_ok_def) (simp add: raise_below_def Let_def)
qed

lemma finish_delete_ok:
  assumes "topic_ok t"
  shows "topic_ok (fst (finish_delete ds t))" "same_id t (fst (finish_delete ds t))" "tail (fst (finish_delete ds t)) = tail t"
  using finish_delete_sim(1)[where t=t and ds=ds] reclaim_front_ok[OF assms refl]
  by (auto simp: topic_ok_sim tail_sim dest: same_id_sim intro: same_id_trans)

lemma delete_seqs_ok:
  assumes ok: "topic_ok t" and h: "t_head_seq t < u64_max" and le: "\<forall>s\<in>set ss. s \<le> t_head_seq t"
    and out: "delete_seqs_stats ss t = (t', st)"
  shows "topic_ok t'" "same_id t t'" "tail t' = tail t" "ds_bytes_freed st + t_bytes_retained t' = t_bytes_retained t"
proof -
  obtain ix freed n ds where m: "mark_all ss (t_index t) 0 0 [] = (ix, freed, n, ds)"
    by (metis prod_cases4)
  have "t' = fst (finish_delete ds (settle_marks ix freed n t))"
    using out by (simp add: delete_seqs_stats_alt m split_beta)
  then show "topic_ok t'" "same_id t t'" "tail t' = tail t"
    using settle_marks_ok[OF ok h le m] finish_delete_ok[of "settle_marks ix freed n t" ds] by (auto intro: same_id_trans)
  show "ds_bytes_freed st + t_bytes_retained t' = t_bytes_retained t"
    by (rule delete_seqs_spec(3)[OF topic_okD(1)[OF ok] h le out])
qed

lemma apply_delete_ok:
  assumes ok: "topic_ok t" and h: "t_head_seq t < u64_max" and pit: "pit_bound bound_head t \<le> Suc (t_head_seq t)"
    and out: "apply_delete_stats before match_sel bound_head now t = (t', st)"
  shows "topic_ok t'" "same_id t t'" "tail t' = tail t" "ds_bytes_freed st + t_bytes_retained t' = t_bytes_retained t"
    "t_head_seq t' = t_head_seq t"
proof -
  obtain t1 ra where ret: "enforce_retention now t = (t1, ra)" by fastforce
  note e = enforce_retention_ok[OF ok enforce_retention_hardenedD[OF ret]]
  let ?bound = "delete_bound before bound_head t1" and ?b = "prefix_bound before match_sel bound_head t1"
  obtain ix freed n ds where m: "mark_all (victims match_sel ?bound t1) (t_index t1) 0 0 [] = (ix, freed, n, ds)"
    by (metis prod_cases4)
  have pit1: "pit_bound bound_head t1 \<le> Suc (t_head_seq t1)"
    using pit e(5) by (auto simp: pit_bound_def split: option.splits)
  have h1: "t_head_seq t1 < u64_max" using h e(5) by simp
  have bound: "?bound \<le> Suc (t_head_seq t1)"
    using pit1 by (auto simp: delete_bound_def split: option.splits)
  have le: "\<forall>s\<in>set (victims match_sel ?bound t1). s \<le> t_head_seq t1"
    using victims_spec(1)[OF topic_okD(1)[OF e(1)] h1 bound] by blast
  note s = settle_marks_ok[OF e(1) h1 le m]
  have b: "?b \<le> tail (settle_marks ix freed n t1)"
    using topic_okD(5)[OF e(1)] pit1 s(3) by (auto simp: prefix_bound_def split: option.splits)
  note r = raise_below_ok[OF s(1) b]
  have "t' = fst (finish_delete ds (raise_below ?b (settle_marks ix freed n t1)))"
    using out by (simp add: apply_delete_stats_alt ret m split_beta)
  then show "topic_ok t'" "same_id t t'" "tail t' = tail t"
    using finish_delete_ok[OF r(1), of ds] r s e by (auto intro: same_id_trans)
  show "ds_bytes_freed st + t_bytes_retained t' = t_bytes_retained t" "t_head_seq t' = t_head_seq t"
    using apply_delete_spec(5,3)[OF topic_okD(1)[OF ok] h pit ret out] by blast+
qed

section \<open>Holes\<close>

lemma note_source_trim_ok:
  assumes ok: "topic_ok t"
  shows "topic_ok (note_source_trim env t)" "same_id t (note_source_trim env t)" "tail (note_source_trim env t) = Suc (tail t)"
    "t_bytes_retained (note_source_trim env t) = t_bytes_retained t" "t_head_seq (note_source_trim env t) = tail t"
    "source_trim_floor (t_floors (note_source_trim env t)) = tail t"
proof -
  note wf = topic_okD(1)[OF ok]
  let ?s = "fst (stage_append [deleted_hole] t)"
  have hole: "sr_deleted deleted_hole" "sr_bytes deleted_hole = 0" "sr_tag deleted_hole = None" "slot_ok deleted_hole"
    by (simp_all add: deleted_hole_def slot_ok_def)
  have res: "sa_start (snd (stage_append [deleted_hole] t)) = tail t" "sa_count (snd (stage_append [deleted_hole] t)) = 1"
    using stage_append_ok_result[of "[deleted_hole]" t] by (simp_all add: hole)
  define u where "u = (publish_head_seq (tail t) ?s)\<lparr>t_floors := (t_floors t)\<lparr>source_trim_floor := max (source_trim_floor (t_floors t)) (tail t)\<rparr>\<rparr>"
  have nst: "note_source_trim env t = materialize_published env (tail t) (tail t) u"
    using res by (simp add: note_source_trim_def split_beta Let_def u_def publish_head_seq_def stage_append_frame)
  have sim: "topic_sim u (note_source_trim env t)"
    unfolding nst by (rule materialize_published_sim)
  have ux: "t_index u = fold push_back [deleted_hole] (t_index t)" "t_head_seq u = tail t" "t_bytes_retained u = t_bytes_retained t"
    "t_live_count u = t_live_count t" "t_seq_base u = t_seq_base t"
    by (simp_all add: u_def publish_head_seq_def stage_append_index[of "[deleted_hole]", simplified] stage_append_frame)
  have sid: "same_id t u"
    using stage_append_same_id[of t "[deleted_hole]"] by (simp add: u_def publish_head_seq_def same_id_def)
  have tu: "tail u = Suc (tail t)"
    by (simp add: tail_def ux)
  have st: "source_trim_floor (t_floors t) < tail t"
    using topic_okD(3)[OF ok] by (simp add: floors_below_def)
  have pub: "published (tail t) (t_index u) = records (t_index t) @ [deleted_hole]"
    by (simp add: published_def ux tail_def)
  have "live_slots (records (t_index t)) = t_live_count t \<and> slot_bytes (records (t_index t)) = t_bytes_retained t"
  proof -
    let ?k = "Suc (t_head_seq t) - base_seq (t_index t)"
    have "gap_dead (t_head_seq t) (tail t) (fold push_back [] (t_index t))"
      using topic_okD(2)[OF ok] wf by (rule resting_gap_dead)
    then have dead: "list_all sr_deleted (drop ?k (records (t_index t)))"
      using wf_topicD(2)[OF wf] by (simp add: gap_dead_def tail_def)
    moreover have "\<forall>r\<in>set (drop ?k (records (t_index t))). slot_ok r"
      using wf_topicD(1)[OF wf] by (auto simp: wf_index_def dest: in_set_dropD)
    moreover have "live_slots (take k rs) + live_slots (drop k rs) = live_slots rs"
        "slot_bytes (take k rs) + slot_bytes (drop k rs) = slot_bytes rs" for k rs
      by (simp_all add: live_slots_simps(3)[symmetric] slot_bytes_simps(3)[symmetric] del: live_slots_simps(3) slot_bytes_simps(3))
    ultimately show ?thesis
      using wf_topicD(3,4)[OF wf] live_slots_all_dead[OF dead] slot_bytes_all_dead[OF dead]
      by (metis add_0_right published_def)
  qed
  then have "wf_topic u"
    using wf fold_push_back_wf[OF wf_topicD(1)[OF wf], of "[deleted_hole]"] hole
    by (simp add: wf_topic_def pub[unfolded tail_def ux(1), simplified] ux tail_def) (simp add: u_def)
  moreover have "s \<le> t_head_seq u" if "is_live (t_index u) s" for s
    using that by (auto simp: is_live_iff ux tail_def)
  moreover have "floors_below (tail u) (t_floors u)"
    using topic_okD(3)[OF ok] tu by (simp add: floors_below_def u_def)
  ultimately have "topic_ok u"
    using tu topic_okD(4)[OF ok] ux by (simp add: topic_ok_def resting_def)
  then show "topic_ok (note_source_trim env t)"
    using topic_ok_sim[OF sim] by simp
  show "same_id t (note_source_trim env t)" "tail (note_source_trim env t) = Suc (tail t)"
    "t_bytes_retained (note_source_trim env t) = t_bytes_retained t" "t_head_seq (note_source_trim env t) = tail t"
    using sim tail_sim[OF sim] tu ux same_id_trans[OF sid same_id_sim[OF sim]] by (simp_all add: topic_sim_def)
  have "t_floors (note_source_trim env t) = t_floors u"
    using sim by (simp add: topic_sim_def)
  moreover have "source_trim_floor (t_floors u) = tail t"
    using st by (simp add: u_def)
  ultimately show "source_trim_floor (t_floors (note_source_trim env t)) = tail t"
    by simp
qed

end
