(* ===== verification/Engine_Append.thy ===== *)
theory Engine_Append
  imports Engine_Core Topic_Ok
begin

text \<open>
  What the shared append path of the engine guarantees: the byte quota is accounted exactly on
  every branch, an error leaves the readable log as it was, a success extends it by the batch,
  and the frames of an acknowledged batch are in the log of the topic's shard.
\<close>

section \<open>The byte quota\<close>

abbreviation quota :: "engine \<Rightarrow> nat" where
  "quota e \<equiv> lim_max_total_bytes (e_limits e)"

text \<open>The reservation counter follows the retained bytes of the topic in hand, and only a reservation that fits raises it.\<close>

definition quota_step :: "topic_state \<Rightarrow> engine \<Rightarrow> topic_state \<Rightarrow> engine \<Rightarrow> bool" where
  "quota_step t e t' e' \<longleftrightarrow> (quota e \<noteq> 0 \<longrightarrow>
     e_total_bytes_live e' + t_bytes_retained t = e_total_bytes_live e + t_bytes_retained t' \<and>
     e_total_bytes_live e' \<le> max (quota e) (e_total_bytes_live e))"

definition covered :: "topic_state \<Rightarrow> engine \<Rightarrow> bool" where
  "covered t e \<longleftrightarrow> quota e \<noteq> 0 \<longrightarrow> t_bytes_retained t \<le> e_total_bytes_live e"

text \<open>What the append path leaves alone in the engine.\<close>

definition engine_frame :: "engine \<Rightarrow> engine \<Rightarrow> bool" where
  "engine_frame e e' \<longleftrightarrow> e_topics e' = e_topics e \<and> e_routers e' = e_routers e \<and> e_next_topic_id e' = e_next_topic_id e \<and>
     e_topic_count e' = e_topic_count e \<and> e_limits e' = e_limits e \<and> e_open_writer e' = e_open_writer e \<and>
     e_config_to_vec e' = e_config_to_vec e \<and> e_config_from_slice e' = e_config_from_slice e \<and>
     e_recency e' = e_recency e \<and> e_ready_set e' = e_ready_set e \<and> (e_wal e' = None \<longleftrightarrow> e_wal e = None)"

lemma engine_frame_refl [simp]: "engine_frame e e"
  by (simp add: engine_frame_def)

lemma engine_frame_trans: "engine_frame a b \<Longrightarrow> engine_frame b c \<Longrightarrow> engine_frame a c"
  by (simp add: engine_frame_def)

lemma engine_frame_limits: "engine_frame e e' \<Longrightarrow> e_limits e' = e_limits e"
  by (simp add: engine_frame_def)

lemma quota_step_refl [simp]: "quota_step t e t e"
  by (simp add: quota_step_def)

lemma quota_step_trans:
  assumes "quota_step t e t' e'" "quota_step t' e' t'' e''" "e_limits e' = e_limits e"
  shows "quota_step t e t'' e''"
  using assms by (auto simp: quota_step_def max_def split: if_splits)

lemma quota_step_covered: "quota_step t e t' e' \<Longrightarrow> e_limits e' = e_limits e \<Longrightarrow> covered t e \<Longrightarrow> covered t' e'"
  by (auto simp: quota_step_def covered_def)

lemma quota_step_same:
  "e_total_bytes_live e' = e_total_bytes_live e \<Longrightarrow> t_bytes_retained t' = t_bytes_retained t \<Longrightarrow> quota_step t e t' e'"
  by (simp add: quota_step_def)

section \<open>The log handle leaves the rest alone\<close>

lemma wal_commit_frame:
  assumes "wal_commit env r durable e = (res, e')"
  shows "engine_frame e e'" "e_total_bytes_live e' = e_total_bytes_live e"
  using assms by (auto simp: wal_commit_def engine_frame_def split: option.splits prod.splits sum.splits)

lemma wal_enqueue_batch_frame:
  assumes "wal_enqueue_batch env tid seqs rs now durable e = (res, e')"
  shows "engine_frame e e'" "e_total_bytes_live e' = e_total_bytes_live e"
  using assms by (auto simp: wal_enqueue_batch_def engine_frame_def split: option.splits prod.splits sum.splits)

lemma log_evict_watermark_frame:
  assumes "log_evict_watermark env tid adv now e = (res, e')"
  shows "engine_frame e e'" "e_total_bytes_live e' = e_total_bytes_live e"
  using assms wal_commit_frame by (auto simp: log_evict_watermark_def Let_def split: if_splits)

lemma wal_log_best_effort_frame:
  "engine_frame e (wal_log_best_effort env r durable e)" "e_total_bytes_live (wal_log_best_effort env r durable e) = e_total_bytes_live e"
  using wal_commit_frame[of env r durable e] by (cases "wal_commit env r durable e"; simp add: wal_log_best_effort_def)+

lemma ensure_disk_head_reserved_spec:
  assumes "ensure_disk_head_reserved env t head now e = (res, t', e')"
  shows "engine_frame e e'" "e_total_bytes_live e' = e_total_bytes_live e" "\<exists>r. t' = t\<lparr>t_reserved_head := r\<rparr>"
proof -
  have "\<exists>r. t = t\<lparr>t_reserved_head := r\<rparr>" "\<exists>r. set_reserved_head x t = t\<lparr>t_reserved_head := r\<rparr>" for x
    by (rule exI[of _ "t_reserved_head t"], simp) (auto simp: set_reserved_head_def)
  then show "engine_frame e e'" "e_total_bytes_live e' = e_total_bytes_live e" "\<exists>r. t' = t\<lparr>t_reserved_head := r\<rparr>"
    using assms wal_commit_frame[of env "HeadWatermark (t_topic_id t) (sat_add (max head (t_reserved_head t)) DISK_HEAD_RESERVE_AHEAD) (as_ts now)" True e]
    by (auto simp: ensure_disk_head_reserved_def Let_def split: if_splits prod.splits sum.splits)
qed

section \<open>Retention\<close>

lemma release_frame: "engine_frame e (release_total_bytes n e)"
  by (simp add: release_total_bytes_def engine_frame_def)

lemma release_quota:
  assumes "n + t_bytes_retained t' = t_bytes_retained t" "covered t e"
  shows "quota_step t e t' (release_total_bytes n e)"
  using assms by (auto simp: quota_step_def covered_def release_total_bytes_def)

lemma enforce_retention_durable_ok:
  assumes ok: "topic_ok t" and cov: "covered t e" and out: "enforce_retention_durable env t now e = (res, t', e')"
  shows "topic_ok t'" "same_id t t'" "tail t' = tail t" "t_head_seq t' = t_head_seq t" "engine_frame e e'" "quota_step t e t' e'"
    "res = Inl err \<Longrightarrow> t' = t"
proof -
  have "topic_ok t' \<and> same_id t t' \<and> tail t' = tail t \<and> t_head_seq t' = t_head_seq t \<and> engine_frame e e' \<and> quota_step t e t' e' \<and>
      (\<forall>err. res = Inl err \<longrightarrow> t' = t)"
  proof (cases "uses_persistent_record_store (t_config t)")
    case False
    obtain adv where ret: "enforce_retention now t = (t', adv)" and e': "e' = release_total_bytes (ra_bytes_reclaimed adv) e" "res = Inr ()"
      using out False by (auto simp: enforce_retention_durable_def split: prod.splits)
    note r = enforce_retention_ok[OF ok enforce_retention_hardenedD[OF ret]]
    show ?thesis
      using r release_frame release_quota[OF r(4) cov] by (simp add: e')
  next
    case True
    obtain hd e1 where h: "(if harden_due now t then log_evict_watermark env (t_topic_id t) (plan_retention now t) now e else (Inr (), e)) = (hd, e1)"
      by fastforce
    have e1: "engine_frame e e1" "e_total_bytes_live e1 = e_total_bytes_live e"
      using h log_evict_watermark_frame by (auto split: if_splits)
    let ?hard = "\<lambda>_. case hd of Inl err \<Rightarrow> Some err | Inr _ \<Rightarrow> None"
    show ?thesis
    proof (cases "enforce_retention_hardened now ?hard t")
      case (Inl err)
      then show ?thesis
        using out True h e1 ok by (auto simp: enforce_retention_durable_def intro: quota_step_same)
    next
      case (Inr p)
      then obtain adv where p: "enforce_retention_hardened now ?hard t = Inr (t', adv)"
          and e': "e' = release_total_bytes (ra_bytes_reclaimed adv) e1" "res = Inr ()"
        using out True h by (auto simp: enforce_retention_durable_def split: prod.splits)
      note r = enforce_retention_ok[OF ok p]
      have "covered t e1"
        using cov e1 by (simp add: covered_def engine_frame_def)
      from release_quota[OF r(4) this] have "quota_step t e t' e'"
        using quota_step_trans[OF quota_step_same[OF e1(2) refl]] e1(1) by (simp add: e' engine_frame_def)
      then show ?thesis
        using r e1 engine_frame_trans[OF e1(1) release_frame] by (simp add: e')
    qed
  qed
  then show "topic_ok t'" "same_id t t'" "tail t' = tail t" "t_head_seq t' = t_head_seq t" "engine_frame e e'" "quota_step t e t' e'"
    "res = Inl err \<Longrightarrow> t' = t" by blast+
qed

section \<open>Appending\<close>

lemma reserve_incoming_spec:
  assumes "reserve_incoming rs e = (ok, e')"
  shows "engine_frame e e'" "\<not> ok \<Longrightarrow> e' = e"
    "ok \<Longrightarrow> e_total_bytes_live e' = e_total_bytes_live e + (if quota e = 0 then 0 else slot_bytes rs)"
    "ok \<Longrightarrow> quota e \<noteq> 0 \<Longrightarrow> quota e < u64_max \<Longrightarrow> e_total_bytes_live e' \<le> quota e"
  using assms by (auto simp: reserve_incoming_def try_reserve_total_bytes_def Let_def engine_frame_def slot_bytes_def sat_add_def split: if_splits)

lemma release_total_bytes_live [simp]: "e_total_bytes_live (release_total_bytes n e) = e_total_bytes_live e - n"
  by (simp add: release_total_bytes_def)

lemma release_incoming_spec:
  "engine_frame e (release_incoming rs e)"
  "e_total_bytes_live (release_incoming rs e) = e_total_bytes_live e - (if quota e = 0 then 0 else slot_bytes rs)"
  by (simp_all add: release_incoming_def release_frame slot_bytes_def)

lemma publish_and_seal_with: "publish_and_seal env sa now t = published_with env (durability_class (t_config t) \<noteq> Ephemeral) sa now t"
  by (simp add: publish_and_seal_def published_with_def)

text \<open>The outcomes of an append: refused without a trace, or published as a whole.\<close>

definition append_done :: "env \<Rightarrow> topic_state \<Rightarrow> stored_record list \<Rightarrow> topic_state \<Rightarrow> bool" where
  "append_done env t rs t' \<longleftrightarrow> tail t' = tail t + length rs \<and> t_head_seq t' = tail t + length rs - 1 \<and>
     t_bytes_retained t' = t_bytes_retained t + slot_bytes rs \<and> t_floors t' = t_floors t \<and>
     view t' = view t @ zip [tail t..<tail t + length rs] (map erase rs)"

definition append_refused :: "topic_state \<Rightarrow> topic_state \<Rightarrow> bool" where
  "append_refused t t' \<longleftrightarrow> t_head_seq t' = t_head_seq t \<and> t_bytes_retained t' = t_bytes_retained t \<and> t_floors t' = t_floors t \<and>
     view t' = view t"

lemma publish_done:
  assumes ok: "topic_ok t" and ne: "rs \<noteq> []" and live: "list_all (\<lambda>r. \<not> sr_deleted r) rs"
    and room: "t_bytes_retained t + slot_bytes rs \<le> u64_max" "tail t + length rs \<le> u64_max"
    and t': "t' = publish_and_seal env (snd (stage_append rs t)) now ((fst (stage_append rs t))\<lparr>t_reserved_head := rh\<rparr>)"
  shows "topic_ok t'" "same_id t t'" "append_done env t rs t'"
proof -
  note t'' = t'[unfolded publish_and_seal_with]
  note p = publish_ok[OF ok ne live room(1) refl t'']
  show "topic_ok t'" "same_id t t'" by (rule p)+
  show "append_done env t rs t'"
    using p publish_view[OF ok ne live room refl t''] by (simp add: append_done_def)
qed

lemma derived_append_ok:
  assumes ok: "topic_ok t" and live: "list_all (\<lambda>r. \<not> sr_deleted r) rs"
    and room: "t_bytes_retained t + slot_bytes rs \<le> u64_max" "tail t + length rs \<le> u64_max" "quota e < u64_max"
    and out: "derived_append env t rs now e = (res, t', e')"
  shows "topic_ok t'" "same_id t t'" "engine_frame e e'" "quota_step t e t' e'"
    "res = Inr seqs \<Longrightarrow> rs \<noteq> [] \<Longrightarrow> seqs = [tail t..<tail t + length rs] \<and> append_done env t rs t'"
    "res = Inl err \<Longrightarrow> t' = t \<and> e' = e"
proof -
  have "topic_ok t' \<and> same_id t t' \<and> engine_frame e e' \<and> quota_step t e t' e' \<and>
    (\<forall>seqs. res = Inr seqs \<and> rs \<noteq> [] \<longrightarrow> seqs = [tail t..<tail t + length rs] \<and> append_done env t rs t') \<and>
    (\<forall>err. res = Inl err \<longrightarrow> t' = t \<and> e' = e)"
  proof (cases "rs = []")
    case False
    obtain b e1 where rsv: "reserve_incoming rs e = (b, e1)" by fastforce
    note r = reserve_incoming_spec[OF rsv]
    show ?thesis
    proof (cases b)
      case True
      let ?t1 = "(fst (stage_append rs t))\<lparr>t_reserved_head := t_reserved_head (fst (stage_append rs t))\<rparr>"
      have t': "t' = publish_and_seal env (snd (stage_append rs t)) now ?t1"
          and res: "res = Inr (staged_seqs (snd (stage_append rs t)))" and e': "e' = e1"
        using out False rsv True by (auto simp: derived_append_def split_beta)
      note p = publish_done[OF ok False live room(1,2) t']
      have seqs: "staged_seqs (snd (stage_append rs t)) = [tail t..<tail t + length rs]"
        using stage_append_ok_result(4)[OF False, of t] room(1) by simp
      have "quota_step t e t' e1"
        using r(3)[OF True] r(4)[OF True] room(3) p(3) by (auto simp: quota_step_def append_done_def)
      then show ?thesis
        using r(1) p seqs by (simp add: e' res)
    qed (use out False rsv r(2) ok in \<open>auto simp: derived_append_def\<close>)
  qed (use out ok in \<open>auto simp: derived_append_def\<close>)
  then show "topic_ok t'" "same_id t t'" "engine_frame e e'" "quota_step t e t' e'"
    "res = Inr seqs \<Longrightarrow> rs \<noteq> [] \<Longrightarrow> seqs = [tail t..<tail t + length rs] \<and> append_done env t rs t'"
    "res = Inl err \<Longrightarrow> t' = t \<and> e' = e" by blast+
qed

text \<open>
  The path as a decision: what the log answered for the batch, then what it answered for the
  reserved head of a disk topic.
\<close>

definition append_tail ::
  "env \<Rightarrow> topic_state \<Rightarrow> stored_record list \<Rightarrow> i64 \<Rightarrow> engine \<Rightarrow> seq list result \<times> topic_state \<times> engine" where
  "append_tail env t rs now e =
     (let class = durability_class (t_config t);
          sa = snd (stage_append rs t); t1 = fst (stage_append rs t);
          (token, e) = (if e_wal e \<noteq> None \<and> class \<noteq> Ephemeral
                        then wal_enqueue_batch env (t_topic_id t) (staged_seqs sa) rs now (class = Fsync) e else (Inr None, e))
      in case token of
           Inl err \<Rightarrow> (Inl err, rollback_staged sa t1, release_incoming rs e)
         | Inr outcome \<Rightarrow>
             if outcome = Some CoFailed then (Inl Internal, rollback_staged_by_seqs sa t1, release_incoming rs e)
             else
               let (reserved, t1, e) = (if class = Disk then ensure_disk_head_reserved env t1 (publish_head sa) now e else (Inr (), t1, e))
               in case reserved of
                    Inl err \<Rightarrow> (Inl err, rollback_staged_by_seqs sa t1, release_incoming rs e)
                  | Inr _ \<Rightarrow> (Inr (staged_seqs sa), publish_and_seal env sa now t1, e))"

lemma durable_append_tail:
  assumes "rs \<noteq> []" "reserve_incoming rs e = (True, e1)"
  shows "durable_append env t rs now e = append_tail env t rs now e1"
proof -
  have same: "t_config (fst (stage_append rs t)) = t_config t" "t_topic_id (fst (stage_append rs t)) = t_topic_id t"
    using stage_append_same_id[of t rs] by (simp_all add: same_id_def)
  show ?thesis
    using assms(1) unfolding durable_append_def append_tail_def Let_def split_beta assms(2) fst_conv snd_conv same by simp
qed

lemma append_tail_cases:
  assumes out: "append_tail env t rs now e = (res, t', e')"
  obtains (refused) err e1 where "res = Inl err" "t' = rollback_staged (snd (stage_append rs t)) (fst (stage_append rs t))"
      "e' = release_incoming rs e1" "engine_frame e e1" "e_total_bytes_live e1 = e_total_bytes_live e"
  | (failed) err e1 rh where "res = Inl err"
      "t' = rollback_staged_by_seqs (snd (stage_append rs t)) ((fst (stage_append rs t))\<lparr>t_reserved_head := rh\<rparr>)"
      "e' = release_incoming rs e1" "engine_frame e e1" "e_total_bytes_live e1 = e_total_bytes_live e"
  | (ok) rh where "res = Inr (staged_seqs (snd (stage_append rs t)))"
      "t' = publish_and_seal env (snd (stage_append rs t)) now ((fst (stage_append rs t))\<lparr>t_reserved_head := rh\<rparr>)"
      "engine_frame e e'" "e_total_bytes_live e' = e_total_bytes_live e"
proof -
  let ?cl = "durability_class (t_config t)" and ?sa = "snd (stage_append rs t)" and ?t1 = "fst (stage_append rs t)"
  obtain token e1 where tok: "(if e_wal e \<noteq> None \<and> ?cl \<noteq> Ephemeral
      then wal_enqueue_batch env (t_topic_id t) (staged_seqs ?sa) rs now (?cl = Fsync) e else (Inr None, e)) = (token, e1)" by fastforce
  have e1: "engine_frame e e1" "e_total_bytes_live e1 = e_total_bytes_live e"
    using tok wal_enqueue_batch_frame by (auto split: if_splits)
  have self: "?t1\<lparr>t_reserved_head := t_reserved_head ?t1\<rparr> = ?t1" by simp
  show ?thesis
  proof (cases token)
    case (Inl err)
    then show ?thesis
      using refused[of err e1] e1 out tok by (simp add: append_tail_def Let_def)
  next
    case (Inr outcome)
    obtain reserved t2 e2 where rsv: "(if ?cl = Disk then ensure_disk_head_reserved env ?t1 (publish_head ?sa) now e1 else (Inr (), ?t1, e1)) =
        (reserved, t2, e2)" by (metis prod_cases3)
    have e2: "engine_frame e1 e2 \<and> e_total_bytes_live e2 = e_total_bytes_live e1 \<and> (\<exists>r. t2 = ?t1\<lparr>t_reserved_head := r\<rparr>)"
    proof (cases "?cl = Disk")
      case True
      then show ?thesis
        using rsv ensure_disk_head_reserved_spec[of env ?t1 "publish_head ?sa" now e1 reserved t2 e2] by simp
    next
      case False
      then show ?thesis
        using rsv self by (metis engine_frame_refl prod.inject)
    qed
    then obtain rh where rh: "t2 = ?t1\<lparr>t_reserved_head := rh\<rparr>" by blast
    have fr: "engine_frame e e2"
      using engine_frame_trans e1(1) e2 by blast
    show ?thesis
    proof (cases "outcome = Some CoFailed")
      case True
      then show ?thesis
        using failed[of Internal "t_reserved_head ?t1" e1] e1 out tok Inr self by (simp add: append_tail_def Let_def)
    next
      case False
      then show ?thesis
        using failed[of _ rh e2] ok[of rh] fr e1(2) e2 out tok Inr rsv rh
        by (auto simp: append_tail_def Let_def split: sum.splits)
    qed
  qed
qed

lemma durable_append_ok:
  assumes ok: "topic_ok t" and live: "list_all (\<lambda>r. \<not> sr_deleted r) rs"
    and room: "t_bytes_retained t + slot_bytes rs \<le> u64_max" "tail t + length rs \<le> u64_max" "quota e < u64_max"
    and out: "durable_append env t rs now e = (res, t', e')"
  shows "topic_ok t'" "same_id t t'" "engine_frame e e'" "quota_step t e t' e'"
    "res = Inr seqs \<Longrightarrow> rs \<noteq> [] \<Longrightarrow> seqs = [tail t..<tail t + length rs] \<and> append_done env t rs t'"
    "res = Inl err \<Longrightarrow> append_refused t t'" "tail t' \<le> tail t + length rs"
proof -
  have "topic_ok t' \<and> same_id t t' \<and> engine_frame e e' \<and> quota_step t e t' e' \<and>
    (\<forall>seqs. res = Inr seqs \<and> rs \<noteq> [] \<longrightarrow> seqs = [tail t..<tail t + length rs] \<and> append_done env t rs t') \<and>
    (\<forall>err. res = Inl err \<longrightarrow> append_refused t t') \<and> tail t' \<le> tail t + length rs"
  proof (cases "rs = [] \<or> \<not> fst (reserve_incoming rs e)")
    case True
    have "t' = t \<and> e' = e \<and> (rs = [] \<or> res = Inl Throttled)"
    proof (cases "rs = []")
      case False
      then have "reserve_incoming rs e = (False, e)"
        using True reserve_incoming_spec(2)[of rs e False] by (cases "reserve_incoming rs e") auto
      then show ?thesis
        using out False by (simp add: durable_append_def)
    qed (use out in \<open>simp add: durable_append_def\<close>)
    then show ?thesis
      using ok by (auto simp: append_refused_def)
  next
    case False
    then have ne: "rs \<noteq> []" and "\<exists>e1. reserve_incoming rs e = (True, e1)"
      by (auto simp: prod_eq_iff intro: exI[of _ "snd (reserve_incoming rs e)"])
    then obtain e1 where rsv: "reserve_incoming rs e = (True, e1)" by blast
    note r = reserve_incoming_spec(1)[OF rsv] reserve_incoming_spec(3,4)[OF rsv TrueI]
    have lim: "e_limits e1 = e_limits e"
      using r(1) by (simp add: engine_frame_def)
    have small: "slot_bytes rs \<le> u64_max" using room(1) by simp
    have h: "t_head_seq t < u64_max"
      using topic_okD(5)[OF ok] room(2) by simp
    have sok: "\<forall>r\<in>set rs. slot_ok r"
      using live by (auto simp: list_all_iff slot_ok_def)
    have undone: "quota_step t e t2 (release_incoming rs e2)"
      if "engine_frame e1 e2" "e_total_bytes_live e2 = e_total_bytes_live e1" "t_bytes_retained t2 = t_bytes_retained t" for t2 e2
      using that r(2) lim release_incoming_spec(2)[of rs e2] by (auto simp: quota_step_def engine_frame_def)
    have frame: "engine_frame e (release_incoming rs e2)" if "engine_frame e1 e2" for e2
      using r(1) that release_incoming_spec(1) engine_frame_trans by blast
    have out': "append_tail env t rs now e1 = (res, t', e')"
      using out durable_append_tail[OF ne rsv] by simp
    then show ?thesis
    proof (cases rule: append_tail_cases)
      case (refused err e2)
      have "t' = t"
        using rollback_stage_identity[OF topic_okD(1)[OF ok] sok] refused(2) by simp
      then show ?thesis
        using ok refused undone[OF refused(4,5)] frame[OF refused(4)] by (simp add: append_refused_def)
    next
      case (failed err e2 rh)
      note b = rollback_by_seqs_ok[OF ok ne live small failed(2)] and v = rollback_by_seqs_view[OF ok ne live small h failed(2)]
      show ?thesis
        using b v failed undone[OF failed(4,5) b(5)] frame[OF failed(4)] by (simp add: append_refused_def)
    next
      case (ok rh)
      note p = publish_done[OF assms(1) ne live room(1,2) ok(2)]
      have seqs: "staged_seqs (snd (stage_append rs t)) = [tail t..<tail t + length rs]"
        using stage_append_ok_result(4)[OF ne small] .
      have "quota_step t e t' e'"
        using r(2,3) room(3) p(3) ok(4) by (auto simp: quota_step_def append_done_def)
      moreover have "tail t' = tail t + length rs"
        using p(3) by (simp add: append_done_def)
      ultimately show ?thesis
        using p seqs ok engine_frame_trans[OF r(1) ok(3)] by simp
    qed
  qed
  then show "topic_ok t'" "same_id t t'" "engine_frame e e'" "quota_step t e t' e'"
    "res = Inr seqs \<Longrightarrow> rs \<noteq> [] \<Longrightarrow> seqs = [tail t..<tail t + length rs] \<and> append_done env t rs t'"
    "res = Inl err \<Longrightarrow> append_refused t t'" "tail t' \<le> tail t + length rs" by blast+
qed

section \<open>The log of an acknowledged batch\<close>

definition wal_ok :: "env \<Rightarrow> wal_handle \<Rightarrow> bool" where
  "wal_ok env h \<longleftrightarrow> crc_u64 (env_crc env) \<and> wh_writers h \<noteq> [] \<and> list_all (writer_ok (env_crc env)) (wh_writers h)"

definition topic_writer :: "env \<Rightarrow> u64 \<Rightarrow> wal_handle \<Rightarrow> writer_task" where
  "topic_writer env topic_id h = wh_writers h ! shard_for_topic env topic_id (length (wh_writers h))"

lemma shard_for_topic_less: "ws \<noteq> [] \<Longrightarrow> shard_for_topic env topic_id (length ws) < length ws"
  by (simp add: shard_for_topic_def)

definition log_grows :: "env \<Rightarrow> u64 \<Rightarrow> wal_handle \<Rightarrow> wal_frame list \<Rightarrow> wal_frame list \<Rightarrow> wal_handle \<Rightarrow> bool" where
  "log_grows env topic_id h fs durable_fs h' \<longleftrightarrow> wal_ok env h' \<and> length (wh_writers h') = length (wh_writers h) \<and>
     subseq (log_frames (env_crc env) (topic_writer env topic_id h) @ fs) (log_frames (env_crc env) (topic_writer env topic_id h')) \<and>
     subseq (durable_log (env_crc env) (topic_writer env topic_id h) @ durable_fs) (durable_log (env_crc env) (topic_writer env topic_id h'))"

definition frames_of :: "bool \<Rightarrow> wal_record list \<Rightarrow> wal_frame list" where
  "frames_of durable recs = map (\<lambda>r. \<lparr>wf_record = r, wf_durable = durable\<rparr>) recs"

lemma submit_batch_log:
  assumes ok: "wal_ok env h" and recs: "list_all record_ok recs" and out: "submit_batch env tid recs durable h = (res, h')"
  shows "log_grows env tid h (if res = Inr CoOk then frames_of durable recs else []) (if res = Inr CoOk \<and> durable then frames_of durable recs else []) h'"
proof (cases "recs = [] \<or> wh_reject h (wh_submits h) \<noteq> None")
  case True
  have "wh_writers h' = wh_writers h \<and> (recs = [] \<or> res \<noteq> Inr CoOk)"
    using True out by (cases "recs = []") (auto simp: submit_batch_def)
  then show ?thesis
    using ok by (auto simp: log_grows_def frames_of_def wal_ok_def topic_writer_def)
next
  case False
  let ?s = "shard_for_topic env tid (length (wh_writers h))" and ?crc = "env_crc env"
    and ?sub = "\<lparr>sb_records = recs, sb_durable = durable, sb_token = wh_submits h\<rparr>"
  have s: "?s < length (wh_writers h)"
    using ok by (simp add: shard_for_topic_less wal_ok_def)
  obtain o1 w where c: "commit_batch ?crc (wh_io h ?s) [?sub] durable (wh_writers h ! ?s) = (o1, w)" by fastforce
  have h': "h' = h\<lparr>wh_writers := (wh_writers h)[?s := w], wh_submits := wh_submits h + 1\<rparr>" "res = Inr o1"
    using False out c by (auto simp: submit_batch_def Let_def)
  have pre: "crc_u64 ?crc" "writer_ok ?crc (wh_writers h ! ?s)" "subs_ok [?sub]"
    using ok s recs by (auto simp: wal_ok_def list_all_length subs_ok_def)
  have fr: "batch_frames [?sub] = frames_of durable recs"
    by (simp add: batch_frames_def frames_of_def)
  note sp = commit_batch_spec[OF pre c, unfolded fr]
  have "list_all (writer_ok ?crc) ((wh_writers h)[?s := w])"
    using ok sp(1) s by (auto simp: wal_ok_def list_all_length nth_list_update)
  then show ?thesis
    using ok sp(3,4) s by (auto simp: h' log_grows_def wal_ok_def topic_writer_def)
qed

lemma log_grows_trans:
  assumes "log_grows env tid h fs ds h1" "log_grows env tid h1 fs' ds' h2"
  shows "log_grows env tid h fs ds h2"
proof -
  have "subseq xs ys \<Longrightarrow> subseq (ys @ zs) us \<Longrightarrow> subseq xs us" for xs ys zs us :: "wal_frame list"
    by (meson list_emb_append2 prefixI prefix_imp_subseq subseq_order.dual_order.trans)
  then show ?thesis
    using assms unfolding log_grows_def by metis
qed

lemma wal_commit_log:
  assumes "e_wal e = Some h" "wal_ok env h" "record_ok r" "wal_commit env r durable e = (res, e')" "wr_topic_id r = tid"
  shows "\<exists>h'. e_wal e' = Some h' \<and> log_grows env tid h [] [] h'"
proof -
  obtain res1 h1 where s: "submit_batch env tid [r] durable h = (res1, h1)" by fastforce
  have weaken: "log_grows env tid h fs ds h1 \<Longrightarrow> log_grows env tid h [] [] h1" for fs ds
    unfolding log_grows_def by (auto dest: list_emb_append2 intro: subseq_order.dual_order.trans[rotated] prefix_imp_subseq[OF prefixI])
  have "log_grows env tid h [] [] h1"
    using weaken submit_batch_log[OF assms(2) _ s] assms(3) by simp
  moreover have "e_wal e' = Some h1"
    using assms(1,4,5) s by (auto simp: wal_commit_def split: sum.splits)
  ultimately show ?thesis by blast
qed

lemma append_frames_nonempty: "length seqs = length rs \<Longrightarrow> rs \<noteq> [] \<Longrightarrow> append_frames env tid seqs rs now \<noteq> []"
  by (auto simp: append_frames_def dest!: arg_cong[of _ _ length])

text \<open>
  An acknowledged batch of a logged topic is in the log of its shard, and of a topic of class
  \<open>fsync\<close> in the part of it that survives a power loss.
\<close>

lemma durable_append_logged:
  assumes ne: "rs \<noteq> []" and room: "slot_bytes rs \<le> u64_max" and wal: "e_wal e = Some h" "wal_ok env h"
    and cls: "durability_class (t_config t) \<noteq> Ephemeral"
    and recs: "list_all record_ok (append_frames env (t_topic_id t) [tail t..<tail t + length rs] rs now)"
    and out: "durable_append env t rs now e = (Inr seqs, t', e')"
  shows "\<exists>h'. e_wal e' = Some h' \<and> log_grows env (t_topic_id t) h
    (frames_of (durability_class (t_config t) = Fsync) (append_frames env (t_topic_id t) seqs rs now))
    (if durability_class (t_config t) = Fsync then frames_of True (append_frames env (t_topic_id t) seqs rs now) else []) h'"
proof -
  let ?cl = "durability_class (t_config t)" and ?sa = "snd (stage_append rs t)" and ?t1 = "fst (stage_append rs t)"
  obtain b e0 where rsv: "reserve_incoming rs e = (b, e0)" by fastforce
  have b: "b"
    using out ne rsv by (auto simp: durable_append_def split: if_splits)
  then have tl: "append_tail env t rs now e0 = (Inr seqs, t', e')"
    using out durable_append_tail[OF ne, of e e0 env t now] rsv by simp
  have w0: "e_wal e0 = Some h"
    using rsv wal(1) by (auto simp: reserve_incoming_def try_reserve_total_bytes_def Let_def split: if_splits)
  have seqs: "staged_seqs ?sa = [tail t..<tail t + length rs]"
    by (rule stage_append_ok_result(4)[OF ne room])
  let ?recs = "append_frames env (t_topic_id t) [tail t..<tail t + length rs] rs now"
  obtain res1 h1 where sub: "submit_batch env (t_topic_id t) ?recs (?cl = Fsync) h = (res1, h1)" by fastforce
  have enq: "wal_enqueue_batch env (t_topic_id t) (staged_seqs ?sa) rs now (?cl = Fsync) e0 =
      ((case res1 of Inl _ \<Rightarrow> Inl Internal | Inr o1 \<Rightarrow> Inr (Some o1)), e0\<lparr>e_wal := Some h1\<rparr>)"
    using w0 sub seqs by (simp add: wal_enqueue_batch_def split: sum.splits)
  obtain o1 where o1: "res1 = Inr o1"
    using tl cls w0 enq by (cases res1) (auto simp: append_tail_def Let_def)
  have "o1 = CoOk \<or> o1 = CoFailed"
  proof -
    let ?s = "shard_for_topic env (t_topic_id t) (length (wh_writers h))"
    have "writer_ok (env_crc env) (wh_writers h ! ?s)" "crc_u64 (env_crc env)"
      using wal(2) shard_for_topic_less by (auto simp: wal_ok_def list_all_length)
    then show ?thesis
      using sub o1 recs commit_batch_spec(2)[of "env_crc env" "wh_writers h ! ?s" "[\<lparr>sb_records = ?recs, sb_durable = (?cl = Fsync), sb_token = wh_submits h\<rparr>]"]
      by (auto simp: submit_batch_def Let_def subs_ok_def split: if_splits option.splits prod.splits)
  qed
  moreover have "o1 \<noteq> CoFailed"
    using tl cls w0 enq o1 by (auto simp: append_tail_def Let_def)
  ultimately have o: "o1 = CoOk" by blast
  note g = submit_batch_log[OF wal(2) recs sub, unfolded o1 o, simplified]
  obtain reserved t2 e2 where rsv2: "(if ?cl = Disk then ensure_disk_head_reserved env ?t1 (publish_head ?sa) now (e0\<lparr>e_wal := Some h1\<rparr>)
      else (Inr (), ?t1, e0\<lparr>e_wal := Some h1\<rparr>)) = (reserved, t2, e2)" by (metis prod_cases3)
  have fin: "seqs = staged_seqs ?sa" "e' = e2"
    using tl cls w0 enq o1 o rsv2 by (auto simp: append_tail_def Let_def split: sum.splits)
  have "\<exists>h2. e_wal e2 = Some h2 \<and> (h2 = h1 \<or> log_grows env (t_topic_id t) h1 [] [] h2)"
  proof -
    have "?recs \<noteq> []"
      using ne by (intro append_frames_nonempty) simp_all
    then obtain r where r: "r \<in> set ?recs" "record_ok r"
      using recs by (meson list.set_sel(1) list_all_iff)
    then have ids: "u64_ok (t_topic_id t)" "u64_ok (as_ts now)"
      by (auto simp: append_frames_def record_ok_def)
    let ?target = "sat_add (max (publish_head ?sa) (t_reserved_head ?t1)) DISK_HEAD_RESERVE_AHEAD"
    have hw: "record_ok (HeadWatermark (t_topic_id ?t1) ?target (as_ts now))"
      using ids stage_append_same_id[of t rs] by (simp add: record_ok_def opt_bytes_def u64_ok_def sat_add_def u64_max_def same_id_def)
    have "wal_ok env h1"
      using g by (simp add: log_grows_def)
    from wal_commit_log[OF _ this hw, of "e0\<lparr>e_wal := Some h1\<rparr>" True _ _ "t_topic_id t"]
    show ?thesis
      using rsv2 stage_append_same_id[of t rs]
      by (auto simp: ensure_disk_head_reserved_def Let_def same_id_def split: if_splits prod.splits sum.splits)
  qed
  then obtain h2 where h2: "e_wal e2 = Some h2" "h2 = h1 \<or> log_grows env (t_topic_id t) h1 [] [] h2" by blast
  have "log_grows env (t_topic_id t) h (frames_of (?cl = Fsync) ?recs) (if ?cl = Fsync then frames_of (?cl = Fsync) ?recs else []) h2"
    using h2(2) g log_grows_trans[OF g] by blast
  then show ?thesis
    using h2(1) unfolding fin seqs by (cases "?cl = Fsync") auto
qed

end
