(* ===== verification/Engine_Topics.thy ===== *)
theory Engine_Topics
  imports Engine_Append
begin

text \<open>
  The life of a topic in the engine (\<open>engine/mod.rs\<close>): creation and configuration with
  \<open>put_topic\<close>, removal with \<open>delete_topic\<close> and its cascade, and the invariant of the registry with
  its quotas, which the handlers of the later theories keep too. A handler reads the clock once.
\<close>

section \<open>Operations\<close>

definition MIN_LEASE_MS :: nat where
  "MIN_LEASE_MS = 100"

definition MAX_LEASE_MS :: nat where
  "MAX_LEASE_MS = 86400000"

definition MAX_CLAIM_JITTER_MS :: nat where
  "MAX_CLAIM_JITTER_MS = 5000"

definition normalize_config :: "topic_config \<Rightarrow> topic_config" where
  "normalize_config c =
     c\<lparr>cfg_lease_ms := max MIN_LEASE_MS (min MAX_LEASE_MS (cfg_lease_ms c)),
       cfg_claim_jitter_ms := min MAX_CLAIM_JITTER_MS (cfg_claim_jitter_ms c)\<rparr>"

definition validate_config :: "topic_config \<Rightarrow> bool" where
  "validate_config c = (case cfg_dead_letter c of Some dl \<Rightarrow> is_valid_name dl | None \<Rightarrow> True)"

definition config_frame :: "engine \<Rightarrow> string \<Rightarrow> topic_config \<Rightarrow> i64 \<Rightarrow> u64 \<Rightarrow> wal_record" where
  "config_frame e name cfg now topic_id =
     TopicConfig topic_id \<lparr>tco_name = name, tco_config = e_config_to_vec e cfg\<rparr> False (as_ts now)"

definition alloc_topic_id :: "engine \<Rightarrow> u64 \<times> engine" where
  "alloc_topic_id e = (e_next_topic_id e, e\<lparr>e_next_topic_id := e_next_topic_id e + 1\<rparr>)"

definition reserve_topic_slot :: "nat \<Rightarrow> engine \<Rightarrow> u64 option \<times> engine" where
  "reserve_topic_slot cap e =
     (if cap \<noteq> 0 \<and> e_topic_count e \<ge> cap then (None, e)
      else let (tid, e) = alloc_topic_id (e\<lparr>e_topic_count := e_topic_count e + 1\<rparr>) in (Some tid, e))"

definition fresh_topic :: "env \<Rightarrow> string \<Rightarrow> u64 \<Rightarrow> topic_config \<Rightarrow> u64 \<Rightarrow> engine \<Rightarrow> topic_state" where
  "fresh_topic env name topic_id cfg ep e =
     (let t = topic_new name topic_id cfg SEQ_BASE ep in
      if uses_persistent_record_store cfg
      then (case e_open_writer e topic_id of Some w \<Rightarrow> attach_segwriter env w t | None \<Rightarrow> t)
      else t)"

definition update_topic :: "env \<Rightarrow> topic_state \<Rightarrow> topic_config \<Rightarrow> i64 \<Rightarrow> engine \<Rightarrow> unit result \<times> engine" where
  "update_topic env t cfg now e =
     (case wal_commit env (config_frame e (t_name t) cfg now (t_topic_id t)) True e of
        (Inl err, e) \<Rightarrow> (Inl err, e)
      | (Inr _, e) \<Rightarrow>
          let (res, t, e) = enforce_retention_durable env (t\<lparr>t_config := cfg\<rparr>) now e
          in (res, put_state t e))"

definition create_topic :: "env \<Rightarrow> string \<Rightarrow> topic_config \<Rightarrow> i64 \<Rightarrow> engine \<Rightarrow> unit result \<times> engine" where
  "create_topic env name cfg now e =
     (case reserve_topic_slot (lim_max_topics (e_limits e)) e of
        (None, e) \<Rightarrow> (Inl Throttled, e)
      | (Some tid, e) \<Rightarrow>
          (case wal_commit env (config_frame e name cfg now tid) True e of
             (Inl err, e) \<Rightarrow> (Inl err, e\<lparr>e_topic_count := e_topic_count e - 1\<rparr>)
           | (Inr _, e) \<Rightarrow> (Inr (), put_state (fresh_topic env name tid cfg 1 e) e)))"

definition put_topic ::
  "env \<Rightarrow> string \<Rightarrow> topic_config \<Rightarrow> i64 \<Rightarrow> engine \<Rightarrow> (bool \<times> topic_config) result \<times> engine" where
  "put_topic env name cfg now e =
     (if \<not> is_valid_name name then (Inl InvalidRequest, e)
      else
        let cfg = normalize_config cfg in
        if \<not> validate_config cfg then (Inl InvalidRequest, e)
        else
          let cfg = normalize_durability cfg in
          if is_queue cfg \<and> cfg_dead_letter cfg = Some name then (Inl InvalidRequest, e)
          else case get_topic name e of
                 Some t \<Rightarrow>
                   if cfg_type (t_config t) \<noteq> cfg_type cfg then (Inl TopicExistsIncompatible, e)
                   else (case update_topic env t cfg now e of
                           (Inl err, e) \<Rightarrow> (Inl err, e)
                         | (Inr _, e) \<Rightarrow> (Inr (False, cfg), e))
               | None \<Rightarrow>
                   (case create_topic env name cfg now e of
                      (Inl err, e) \<Rightarrow> (Inl err, e)
                    | (Inr _, e) \<Rightarrow> (Inr (True, cfg), e)))"

fun log_router_deletes :: "env \<Rightarrow> string list \<Rightarrow> i64 \<Rightarrow> engine \<Rightarrow> unit result \<times> engine" where
  "log_router_deletes env [] now e = (Inr (), e)"
| "log_router_deletes env (r # rs) now e =
     (case wal_commit env (RouterDelete r (as_ts now)) True e of
        (Inl err, e) \<Rightarrow> (Inl err, e)
      | (Inr _, e) \<Rightarrow> log_router_deletes env rs now e)"

definition remove_topic :: "topic_state \<Rightarrow> engine \<Rightarrow> engine" where
  "remove_topic t e =
     (let e = release_total_bytes (t_bytes_retained t)
                (e\<lparr>e_topics := AList.delete (t_name t) (e_topics e), e_topic_count := e_topic_count e - 1\<rparr>)
      in e\<lparr>e_routers := fst (remove_touching_topic (t_name t) (e_routers e))\<rparr>)"

definition delete_topic ::
  "env \<Rightarrow> string \<Rightarrow> bool \<Rightarrow> i64 \<Rightarrow> engine \<Rightarrow> (bool \<times> string list) result \<times> engine" where
  "delete_topic env name if_empty now e =
     (case get_topic name e of
        None \<Rightarrow> (Inr (False, []), e)
      | Some t \<Rightarrow>
          let (res, t, e) = (if if_empty then enforce_retention_durable env t now e else (Inr (), t, e));
              e = put_state t e
          in case res of
               Inl err \<Rightarrow> (Inl err, e)
             | Inr _ \<Rightarrow>
                 if if_empty \<and> t_live_count t \<noteq> 0 then (Inl TopicNotEmpty, e)
                 else
                   let routers_removed = routers_touching_topic name (e_routers e) in
                   case wal_commit env (TopicConfig (t_topic_id t) \<lparr>tco_name = name, tco_config = []\<rparr> True (as_ts now)) True e of
                     (Inl err, e) \<Rightarrow> (Inl err, e)
                   | (Inr _, e) \<Rightarrow>
                       (case log_router_deletes env routers_removed now e of
                          (Inl err, e) \<Rightarrow> (Inl err, e)
                        | (Inr _, e) \<Rightarrow> (Inr (True, routers_removed), remove_topic t e)))"

section \<open>The invariant of the registry\<close>

definition topics_bytes :: "(string \<times> topic_state) list \<Rightarrow> nat" where
  "topics_bytes ts = sum_list (map (\<lambda>(_, t). t_bytes_retained t) ts)"

definition engine_ok :: "engine \<Rightarrow> bool" where
  "engine_ok e \<longleftrightarrow> distinct (map fst (e_topics e)) \<and>
     (\<forall>(n, t)\<in>set (e_topics e). t_name t = n \<and> topic_ok t \<and> t_topic_id t < e_next_topic_id e) \<and>
     distinct (map (\<lambda>(_, t). t_topic_id t) (e_topics e)) \<and>
     e_topic_count e = length (e_topics e) \<and>
     (lim_max_topics (e_limits e) \<noteq> 0 \<longrightarrow> length (e_topics e) \<le> lim_max_topics (e_limits e)) \<and>
     (quota e \<noteq> 0 \<longrightarrow> e_total_bytes_live e = topics_bytes (e_topics e) \<and> e_total_bytes_live e \<le> quota e)"

lemma get_topic_mem: "get_topic n e = Some t \<Longrightarrow> (n, t) \<in> set (e_topics e)"
  by (simp add: get_topic_def map_of_SomeD)

lemma engine_ok_topic:
  assumes "engine_ok e" "get_topic n e = Some t"
  shows "topic_ok t" "t_name t = n" "t_topic_id t < e_next_topic_id e" "covered t e"
proof -
  have mem: "(n, t) \<in> set (e_topics e)"
    using assms(2) by (rule get_topic_mem)
  then show "topic_ok t" "t_name t = n" "t_topic_id t < e_next_topic_id e"
    using assms(1) by (auto simp: engine_ok_def)
  have "t_bytes_retained t \<le> topics_bytes (e_topics e)"
    unfolding topics_bytes_def using mem by (intro member_le_sum_list) (force simp: image_iff, simp)
  then show "covered t e"
    using assms(1) by (simp add: covered_def engine_ok_def)
qed

lemma update_split:
  "map_of m k = Some v \<Longrightarrow> \<exists>a b. m = a @ (k, v) # b \<and> k \<notin> fst ` set a \<and> AList.update k v' m = a @ (k, v') # b"
proof (induction m)
  case (Cons x m)
  show ?case
  proof (cases "fst x = k")
    case True
    then show ?thesis
      using Cons.prems by (intro exI[of _ "[]"] exI[of _ m]) (auto split: if_splits)
  next
    case False
    then obtain a b where "m = a @ (k, v) # b \<and> k \<notin> fst ` set a \<and> AList.update k v' m = a @ (k, v') # b"
      using Cons by (cases x) auto
    then show ?thesis
      using False by (intro exI[of _ "x # a"] exI[of _ b]) (cases x, auto)
  qed
qed simp

text \<open>Writing back a topic after an operation on it.\<close>

lemma put_state_ok:
  assumes ok: "engine_ok e" and t: "get_topic n e = Some t" and t': "topic_ok t'" "t_name t' = t_name t" "t_topic_id t' = t_topic_id t"
    and fr: "engine_frame e e'" and q: "quota_step t e t' e'"
  shows "engine_ok (put_state t' e')" "get_topic n (put_state t' e') = Some t'"
    "m \<noteq> n \<Longrightarrow> get_topic m (put_state t' e') = get_topic m e"
proof -
  have n: "t_name t = n"
    using engine_ok_topic(2)[OF ok t] .
  obtain a b where ab: "e_topics e = a @ (n, t) # b" "n \<notin> fst ` set a" "AList.update n t' (e_topics e) = a @ (n, t') # b"
    using update_split[of "e_topics e" n t t'] t by (auto simp: get_topic_def)
  have f: "e_topics e' = e_topics e" "e_next_topic_id e' = e_next_topic_id e" "e_topic_count e' = e_topic_count e" "e_limits e' = e_limits e"
    using fr by (simp_all add: engine_frame_def)
  have put: "e_topics (put_state t' e') = a @ (n, t') # b"
    using ab f t' n by (simp add: put_state_def)
  have "topics_bytes (a @ (n, t') # b) + t_bytes_retained t = topics_bytes (e_topics e) + t_bytes_retained t'"
    by (simp add: topics_bytes_def ab)
  moreover have "quota e \<noteq> 0 \<Longrightarrow> e_total_bytes_live e' + t_bytes_retained t = e_total_bytes_live e + t_bytes_retained t' \<and> e_total_bytes_live e' \<le> quota e"
    using q ok by (auto simp: quota_step_def engine_ok_def)
  ultimately show "engine_ok (put_state t' e')"
    using ok t' n unfolding engine_ok_def put by (auto simp: put_state_def f ab)
  show "get_topic n (put_state t' e') = Some t'" "m \<noteq> n \<Longrightarrow> get_topic m (put_state t' e') = get_topic m e"
    using t' n by (simp_all add: get_topic_def put_state_def f update_conv')
qed

lemma put_state_frame:
  assumes "engine_ok e" "get_topic n e = Some t" "topic_ok t'" "same_id t t'" "engine_frame e e'" "quota_step t e t' e'"
  shows "engine_ok (put_state t' e')" "get_topic n (put_state t' e') = Some t'"
    "m \<noteq> n \<Longrightarrow> get_topic m (put_state t' e') = get_topic m e"
  using put_state_ok[OF assms(1,2,3) _ _ assms(5,6)] assms(4) by (simp_all add: same_id_def)

lemma engine_ok_frame:
  assumes "engine_ok e" "engine_frame e e'" "e_total_bytes_live e' = e_total_bytes_live e"
  shows "engine_ok e'"
  using assms by (auto simp: engine_ok_def engine_frame_def)

lemma get_topic_frame: "engine_frame e e' \<Longrightarrow> get_topic n e' = get_topic n e"
  by (simp add: get_topic_def engine_frame_def)

section \<open>Creating and updating\<close>

lemma topic_ok_config [simp]: "topic_ok (t\<lparr>t_config := cfg\<rparr>) = topic_ok t"
  by (simp add: topic_ok_def wf_topic_def resting_def tail_def)

lemma fresh_topic_ok:
  "topic_ok (fresh_topic env name tid cfg ep e)" "t_name (fresh_topic env name tid cfg ep e) = name"
  "t_topic_id (fresh_topic env name tid cfg ep e) = tid" "t_config (fresh_topic env name tid cfg ep e) = cfg"
  "t_bytes_retained (fresh_topic env name tid cfg ep e) = 0" "t_head_seq (fresh_topic env name tid cfg ep e) = 0"
  "view (fresh_topic env name tid cfg ep e) = []"
proof -
  let ?n = "topic_new name tid cfg SEQ_BASE ep"
  have sim: "topic_sim ?n (fresh_topic env name tid cfg ep e)"
    by (auto simp: fresh_topic_def Let_def attach_segwriter_def topic_sim_def split: option.split)
  have new: "topic_ok ?n"
    by (rule topic_ok_new) (simp add: SEQ_BASE_def)
  show "topic_ok (fresh_topic env name tid cfg ep e)"
    using topic_ok_sim[OF sim] new by simp
  have "view ?n = []"
    by (simp add: view_def visible_def is_live_iff) (simp add: topic_new_def index_new_def SEQ_BASE_def)
  then show "view (fresh_topic env name tid cfg ep e) = []"
    using view_sim[OF sim] by simp
  show "t_name (fresh_topic env name tid cfg ep e) = name"
    "t_topic_id (fresh_topic env name tid cfg ep e) = tid" "t_config (fresh_topic env name tid cfg ep e) = cfg"
    "t_bytes_retained (fresh_topic env name tid cfg ep e) = 0" "t_head_seq (fresh_topic env name tid cfg ep e) = 0"
    using sim by (simp_all add: topic_sim_def topic_new_def SEQ_BASE_def)
qed

lemmas fresh_topic_fields [simp] = fresh_topic_ok(1-6)

lemma update_topic_ok:
  assumes ok: "engine_ok e" and t: "get_topic n e = Some t" and out: "update_topic env t cfg now e = (res, e')"
  shows "engine_ok e'" "m \<noteq> n \<Longrightarrow> get_topic m e' = get_topic m e"
    "res = Inr () \<Longrightarrow> \<exists>t'. get_topic n e' = Some t' \<and> t_config t' = cfg \<and> t_topic_id t' = t_topic_id t \<and> t_head_seq t' = t_head_seq t"
proof -
  note b = engine_ok_topic[OF ok t]
  obtain r1 e1 where c: "wal_commit env (config_frame e (t_name t) cfg now (t_topic_id t)) True e = (r1, e1)" by fastforce
  note f1 = wal_commit_frame[OF c]
  have ok1: "engine_ok e1" and t1: "get_topic n e1 = Some t"
    using engine_ok_frame[OF ok f1] get_topic_frame[OF f1(1)] t by simp_all
  have "engine_ok e' \<and> (\<forall>m. m \<noteq> n \<longrightarrow> get_topic m e' = get_topic m e) \<and>
    (res = Inr () \<longrightarrow> (\<exists>t'. get_topic n e' = Some t' \<and> t_config t' = cfg \<and> t_topic_id t' = t_topic_id t \<and> t_head_seq t' = t_head_seq t))"
  proof (cases r1)
    case (Inl err)
    then show ?thesis
      using out c ok1 get_topic_frame[OF f1(1)] by (auto simp: update_topic_def)
  next
    case (Inr u)
    obtain r2 t2 e2 where r: "enforce_retention_durable env (t\<lparr>t_config := cfg\<rparr>) now e1 = (r2, t2, e2)" by (metis prod_cases3)
    have cov: "covered (t\<lparr>t_config := cfg\<rparr>) e1" "topic_ok (t\<lparr>t_config := cfg\<rparr>)"
      using engine_ok_topic(1,4)[OF ok1 t1] by (simp_all add: covered_def)
    note s = enforce_retention_durable_ok[OF cov(2,1) r]
    have q: "quota_step t e1 t2 e2"
      using s(6) by (simp add: quota_step_def)
    have id: "t_name t2 = t_name t" "t_topic_id t2 = t_topic_id t" "t_config t2 = cfg" "t_head_seq t2 = t_head_seq t"
      using s(2,4) by (simp_all add: same_id_def)
    note p = put_state_ok[OF ok1 t1 s(1) id(1,2) s(5) q]
    have "res = r2" "e' = put_state t2 e2"
      using out c Inr r by (simp_all add: update_topic_def)
    then show ?thesis
      using p id get_topic_frame[OF f1(1)] by auto
  qed
  then show "engine_ok e'" "m \<noteq> n \<Longrightarrow> get_topic m e' = get_topic m e"
    "res = Inr () \<Longrightarrow> \<exists>t'. get_topic n e' = Some t' \<and> t_config t' = cfg \<and> t_topic_id t' = t_topic_id t \<and> t_head_seq t' = t_head_seq t"
    by blast+
qed

lemma engine_ok_next_id: "engine_ok e \<Longrightarrow> engine_ok (e\<lparr>e_next_topic_id := e_next_topic_id e + 1\<rparr>)"
  by (auto simp: engine_ok_def)

lemma create_topic_ok:
  assumes ok: "engine_ok e" and none: "get_topic name e = None" and out: "create_topic env name cfg now e = (res, e')"
  shows "engine_ok e'" "m \<noteq> name \<Longrightarrow> get_topic m e' = get_topic m e"
    "res = Inr () \<Longrightarrow> get_topic name e' = Some (fresh_topic env name (e_next_topic_id e) cfg 1 e')"
    "res = Inl err \<Longrightarrow> get_topic name e' = None"
proof -
  let ?cap = "lim_max_topics (e_limits e)"
  have "engine_ok e' \<and> (\<forall>m. m \<noteq> name \<longrightarrow> get_topic m e' = get_topic m e) \<and>
    (res = Inr () \<longrightarrow> get_topic name e' = Some (fresh_topic env name (e_next_topic_id e) cfg 1 e')) \<and>
    (\<forall>err. res = Inl err \<longrightarrow> get_topic name e' = None)"
  proof (cases "?cap \<noteq> 0 \<and> e_topic_count e \<ge> ?cap")
    case True
    then show ?thesis
      using out ok none by (auto simp: create_topic_def reserve_topic_slot_def)
  next
    case False
    let ?e1 = "e\<lparr>e_topic_count := e_topic_count e + 1, e_next_topic_id := e_next_topic_id e + 1\<rparr>"
    have slot: "reserve_topic_slot ?cap e = (Some (e_next_topic_id e), ?e1)"
      using False by (auto simp: reserve_topic_slot_def alloc_topic_id_def)
    obtain r2 e2 where c: "wal_commit env (config_frame ?e1 name cfg now (e_next_topic_id e)) True ?e1 = (r2, e2)" by fastforce
    note f = wal_commit_frame[OF c]
    have fs: "e_topics e2 = e_topics e" "e_topic_count e2 = e_topic_count e + 1" "e_next_topic_id e2 = e_next_topic_id e + 1"
      "e_limits e2 = e_limits e" "e_total_bytes_live e2 = e_total_bytes_live e" "e_open_writer e2 = e_open_writer e"
      using f by (simp_all add: engine_frame_def)
    show ?thesis
    proof (cases r2)
      case (Inl err)
      have "e' = e2\<lparr>e_topic_count := e_topic_count e2 - 1\<rparr>" "res = Inl err"
        using out slot c Inl by (simp_all add: create_topic_def)
      moreover have "engine_ok (e2\<lparr>e_topic_count := e_topic_count e2 - 1\<rparr>)"
        using ok by (auto simp: engine_ok_def fs)
      ultimately show ?thesis
        using none by (simp add: get_topic_def fs)
    next
      case (Inr u)
      let ?t = "fresh_topic env name (e_next_topic_id e) cfg 1 e2"
      have e': "e' = put_state ?t e2" "res = Inr ()"
        using out slot c Inr by (simp_all add: create_topic_def)
      have fresh: "name \<notin> fst ` set (e_topics e)"
        using none by (simp add: get_topic_def map_of_eq_None_iff)
      have tops: "e_topics e' = e_topics e @ [(name, ?t)]"
        by (simp add: e' put_state_def fs update_new[OF fresh])
      have ids: "e_next_topic_id e \<notin> (\<lambda>(_, t). t_topic_id t) ` set (e_topics e)"
        using ok by (auto simp: engine_ok_def)
      have rest: "e_topic_count e' = e_topic_count e + 1" "e_next_topic_id e' = e_next_topic_id e + 1" "e_limits e' = e_limits e"
          "e_total_bytes_live e' = e_total_bytes_live e"
        by (simp_all add: e' put_state_def fs)
      have "engine_ok e'"
        unfolding engine_ok_def tops rest
        using ok False fresh ids by (auto simp: engine_ok_def topics_bytes_def)
      moreover have ow: "e_open_writer e' = e_open_writer e2"
        by (simp add: e' put_state_def)
      have "fresh_topic env name (e_next_topic_id e) cfg 1 e' = ?t"
        unfolding fresh_topic_def ow ..
      ultimately show ?thesis
        using e'(2) fresh none by (auto simp: get_topic_def tops map_add_def \<open>fresh_topic env name (e_next_topic_id e) cfg 1 e' = ?t\<close> split: option.splits)
    qed
  qed
  then show "engine_ok e'" "m \<noteq> name \<Longrightarrow> get_topic m e' = get_topic m e"
    "res = Inr () \<Longrightarrow> get_topic name e' = Some (fresh_topic env name (e_next_topic_id e) cfg 1 e')"
    "res = Inl err \<Longrightarrow> get_topic name e' = None"
    by blast+
qed

lemma put_topic_ok:
  assumes ok: "engine_ok e" and out: "put_topic env name cfg now e = (res, e')"
  shows "engine_ok e'" "m \<noteq> name \<Longrightarrow> get_topic m e' = get_topic m e"
    "res = Inr (created, cfg') \<Longrightarrow> \<exists>t. get_topic name e' = Some t \<and> t_config t = cfg' \<and> (created \<longleftrightarrow> get_topic name e = None)"
    "res = Inl err \<Longrightarrow> get_topic name e = None \<Longrightarrow> get_topic name e' = None"
proof -
  let ?c = "normalize_durability (normalize_config cfg)"
  have "engine_ok e' \<and> (\<forall>m. m \<noteq> name \<longrightarrow> get_topic m e' = get_topic m e) \<and>
    (\<forall>created cfg'. res = Inr (created, cfg') \<longrightarrow> (\<exists>t. get_topic name e' = Some t \<and> t_config t = cfg' \<and> (created \<longleftrightarrow> get_topic name e = None))) \<and>
    (\<forall>err. res = Inl err \<and> get_topic name e = None \<longrightarrow> get_topic name e' = None)"
  proof (cases "\<not> is_valid_name name \<or> \<not> validate_config (normalize_config cfg) \<or> is_queue ?c \<and> cfg_dead_letter ?c = Some name")
    case True
    then have "e' = e \<and> res = Inl InvalidRequest"
      using out by (auto simp: put_topic_def Let_def split: if_splits)
    then show ?thesis
      using ok by simp
  next
    case no_error: False
    show ?thesis
    proof (cases "get_topic name e")
      case None
      obtain r1 e1 where c: "create_topic env name ?c now e = (r1, e1)" by fastforce
      note s = create_topic_ok[OF ok None c]
      have "e' = e1 \<and> res = (case r1 of Inl err \<Rightarrow> Inl err | Inr _ \<Rightarrow> Inr (True, ?c))"
        using out no_error None c by (auto simp: put_topic_def Let_def split: sum.splits)
      then show ?thesis
        using s None by (auto split: sum.splits)
    next
      case (Some t)
      show ?thesis
      proof (cases "cfg_type (t_config t) = cfg_type ?c")
        case False
        then have "e' = e \<and> res = Inl TopicExistsIncompatible"
          using out no_error Some by (auto simp: put_topic_def Let_def)
        then show ?thesis
          using ok Some by simp
      next
        case True
        obtain r1 e1 where c: "update_topic env t ?c now e = (r1, e1)" by fastforce
        note s = update_topic_ok[OF ok Some c]
        have "e' = e1 \<and> res = (case r1 of Inl err \<Rightarrow> Inl err | Inr _ \<Rightarrow> Inr (False, ?c))"
          using out no_error True Some c by (auto simp: put_topic_def Let_def split: sum.splits)
        then show ?thesis
          using s Some by (auto split: sum.splits)
      qed
    qed
  qed
  then show "engine_ok e'" "m \<noteq> name \<Longrightarrow> get_topic m e' = get_topic m e"
    "res = Inr (created, cfg') \<Longrightarrow> \<exists>t. get_topic name e' = Some t \<and> t_config t = cfg' \<and> (created \<longleftrightarrow> get_topic name e = None)"
    "res = Inl err \<Longrightarrow> get_topic name e = None \<Longrightarrow> get_topic name e' = None"
    by blast+
qed

section \<open>Deleting\<close>

lemma log_router_deletes_frame:
  "log_router_deletes env rs now e = (res, e') \<Longrightarrow> engine_frame e e' \<and> e_total_bytes_live e' = e_total_bytes_live e"
proof (induction env rs now e rule: log_router_deletes.induct)
  case (2 env r rs now e)
  obtain r1 e1 where c: "wal_commit env (RouterDelete r (as_ts now)) True e = (r1, e1)" by fastforce
  note f = wal_commit_frame[OF c]
  show ?case
  proof (cases r1)
    case (Inr u)
    then have "log_router_deletes env rs now e1 = (res, e')"
      using 2(2) c by simp
    then show ?thesis
      using 2(1)[OF c[symmetric] Inr] f engine_frame_trans by metis
  qed (use 2(2) c f in auto)
qed simp

lemma remove_topic_ok:
  assumes ok: "engine_ok e" and t: "get_topic n e = Some t"
  shows "engine_ok (remove_topic t e)" "get_topic n (remove_topic t e) = None" "m \<noteq> n \<Longrightarrow> get_topic m (remove_topic t e) = get_topic m e"
proof -
  have n: "t_name t = n"
    using engine_ok_topic(2)[OF ok t] .
  obtain a b where ab: "e_topics e = a @ (n, t) # b" "n \<notin> fst ` set a"
    using update_split[of "e_topics e" n t t] t by (auto simp: get_topic_def)
  have "n \<notin> fst ` set b"
    using ok ab by (auto simp: engine_ok_def)
  then have del: "AList.delete n (e_topics e) = a @ b"
    using ab by (auto simp: AList.delete_eq image_iff intro!: arg_cong2[where f = append] filter_True)
  have tops: "e_topics (remove_topic t e) = a @ b"
    by (simp add: remove_topic_def Let_def n del[symmetric] release_total_bytes_def)
  have rest: "e_topic_count (remove_topic t e) = e_topic_count e - 1" "e_next_topic_id (remove_topic t e) = e_next_topic_id e"
      "e_limits (remove_topic t e) = e_limits e" "e_total_bytes_live (remove_topic t e) = e_total_bytes_live e - t_bytes_retained t"
    by (simp_all add: remove_topic_def Let_def release_total_bytes_def)
  show "engine_ok (remove_topic t e)"
    unfolding engine_ok_def tops rest using ok by (auto simp: engine_ok_def ab topics_bytes_def)
  show "get_topic n (remove_topic t e) = None" "m \<noteq> n \<Longrightarrow> get_topic m (remove_topic t e) = get_topic m e"
    using n by (simp_all add: get_topic_def remove_topic_def Let_def release_total_bytes_def AList.delete_conv')
qed

lemma delete_topic_ok:
  assumes ok: "engine_ok e" and out: "delete_topic env name if_empty now e = (res, e')"
  shows "engine_ok e'" "m \<noteq> name \<Longrightarrow> get_topic m e' = get_topic m e"
    "res = Inr (d, rs) \<Longrightarrow> get_topic name e' = None" "res = Inl err \<Longrightarrow> get_topic name e' \<noteq> None"
proof -
  have "engine_ok e' \<and> (\<forall>m. m \<noteq> name \<longrightarrow> get_topic m e' = get_topic m e) \<and>
    (\<forall>d rs. res = Inr (d, rs) \<longrightarrow> get_topic name e' = None) \<and> (\<forall>err. res = Inl err \<longrightarrow> get_topic name e' \<noteq> None)"
  proof (cases "get_topic name e")
    case None
    then show ?thesis
      using out ok by (auto simp: delete_topic_def)
  next
    case (Some t)
    note b = engine_ok_topic[OF ok Some]
    obtain r1 t1 e1 where r: "(if if_empty then enforce_retention_durable env t now e else (Inr (), t, e)) = (r1, t1, e1)" by (metis prod_cases3)
    have s: "topic_ok t1 \<and> same_id t t1 \<and> engine_frame e e1 \<and> quota_step t e t1 e1"
    proof (cases if_empty)
      case True
      then show ?thesis
        using enforce_retention_durable_ok[OF b(1,4), of env now r1 t1 e1] r by simp
    qed (use r b in auto)
    note p = put_state_frame[OF ok Some conjunct1[OF s] conjunct1[OF conjunct2[OF s]] conjunct1[OF conjunct2[OF conjunct2[OF s]]]
        conjunct2[OF conjunct2[OF conjunct2[OF s]]]]
    let ?e = "put_state t1 e1"
    obtain r2 e2 where c: "wal_commit env (TopicConfig (t_topic_id t1) \<lparr>tco_name = name, tco_config = []\<rparr> True (as_ts now)) True ?e = (r2, e2)"
      by fastforce
    obtain r3 e3 where l: "log_router_deletes env (routers_touching_topic name (e_routers ?e)) now e2 = (r3, e3)" by fastforce
    note f2 = wal_commit_frame[OF c]
    have f3: "engine_frame ?e e3" "e_total_bytes_live e3 = e_total_bytes_live ?e"
      using f2 log_router_deletes_frame[OF l] engine_frame_trans by fastforce+
    note g2 = get_topic_frame[OF f2(1)] and g3 = get_topic_frame[OF f3(1)]
    have ok2: "engine_ok e2" and ok3: "engine_ok e3" and t3: "get_topic name e3 = Some t1"
      using engine_ok_frame[OF p(1) f2] engine_ok_frame[OF p(1) f3] g3 p(2) by simp_all
    note rm = remove_topic_ok[OF ok3 t3]
    have eq: "(res, e') = (case r1 of Inl err \<Rightarrow> (Inl err, ?e) | Inr _ \<Rightarrow>
        if if_empty \<and> t_live_count t1 \<noteq> 0 then (Inl TopicNotEmpty, ?e)
        else case r2 of Inl err \<Rightarrow> (Inl err, e2) | Inr _ \<Rightarrow>
          (case r3 of Inl err \<Rightarrow> (Inl err, e3) | Inr _ \<Rightarrow> (Inr (True, routers_touching_topic name (e_routers ?e)), remove_topic t1 e3)))"
      unfolding out[symmetric] delete_topic_def Some option.case r Let_def prod.case c l by (simp split: sum.split)
    consider (a) err where "r1 = Inl err" "res = Inl err" "e' = ?e" | (b) "res = Inl TopicNotEmpty" "e' = ?e"
      | (c) err where "res = Inl err" "e' = e2" | (d) err where "res = Inl err" "e' = e3"
      | (e) "res = Inr (True, routers_touching_topic name (e_routers ?e))" "e' = remove_topic t1 e3"
      using eq by (auto split: sum.splits if_splits)
    then show ?thesis
      using p g2 g3 ok2 ok3 rm by cases auto
  qed
  then show "engine_ok e'" "m \<noteq> name \<Longrightarrow> get_topic m e' = get_topic m e"
    "res = Inr (d, rs) \<Longrightarrow> get_topic name e' = None" "res = Inl err \<Longrightarrow> get_topic name e' \<noteq> None" by blast+
qed

end
