(* ===== verification/Engine_Write.thy ===== *)
theory Engine_Write
  imports Engine_Topics
begin

text \<open>
  The data plane of the engine (\<open>engine/mod.rs\<close>): validation of incoming records, \<open>write\<close> with its
  creation, deduplication, admission and quota steps, and \<open>delete\<close>.
\<close>

section \<open>Records\<close>

definition MAX_BATCH_RECORDS :: nat where
  "MAX_BATCH_RECORDS = 10000"

definition MAX_RECORD_BYTES :: nat where
  "MAX_RECORD_BYTES = 1048576"

definition MAX_META_BYTES :: nat where
  "MAX_META_BYTES = 16384"

definition MAX_META_KEYS :: nat where
  "MAX_META_KEYS = 64"

definition MAX_TAG_BYTES :: nat where
  "MAX_TAG_BYTES = 256"

definition MAX_NODE_BYTES :: nat where
  "MAX_NODE_BYTES = 128"

definition MAX_IDEMPOTENCY_KEY_LEN :: nat where
  "MAX_IDEMPOTENCY_KEY_LEN = 256"

definition payload_bytes :: "env \<Rightarrow> json \<Rightarrow> json option \<Rightarrow> nat" where
  "payload_bytes env data meta =
     length (env_to_vec env data) + (case meta of Some m \<Rightarrow> length (env_to_vec env m) | None \<Rightarrow> 0)"

fun object_keys :: "json \<Rightarrow> nat" where
  "object_keys (JObject kvs) = length kvs"
| "object_keys _ = 0"

definition build_stored_owned ::
  "env \<Rightarrow> json \<Rightarrow> string option \<Rightarrow> string option \<Rightarrow> json option \<Rightarrow> i64 \<Rightarrow> stored_record result" where
  "build_stored_owned env data tag node meta now =
     (if (case tag of Some t \<Rightarrow> length t > MAX_TAG_BYTES | None \<Rightarrow> False) then Inl InvalidRequest
      else if (case node of Some n \<Rightarrow> length n > MAX_NODE_BYTES | None \<Rightarrow> False) then Inl InvalidRequest
      else if (case meta of Some m \<Rightarrow> length (env_to_vec env m) > MAX_META_BYTES \<or> object_keys m > MAX_META_KEYS | None \<Rightarrow> False)
      then Inl InvalidRequest
      else
        let bytes = payload_bytes env data meta in
        if bytes > MAX_RECORD_BYTES then Inl RecordTooLarge
        else Inr \<lparr>sr_ts = now, sr_node = node, sr_tag = tag, sr_data = data, sr_meta = meta, sr_bytes = bytes,
                  sr_deleted = False, sr_payload_resident = True, sr_hops = 0\<rparr>)"

definition build_stored :: "env \<Rightarrow> record_in \<Rightarrow> string option \<Rightarrow> i64 \<Rightarrow> stored_record result" where
  "build_stored env r node now = build_stored_owned env (ri_data r) (ri_tag r) node (ri_meta r) now"

text \<open>A record's own node wins over the batch's.\<close>

definition or_else :: "'a option \<Rightarrow> 'a option \<Rightarrow> 'a option" where
  "or_else a b = (case a of Some _ \<Rightarrow> a | None \<Rightarrow> b)"

fun build_all :: "env \<Rightarrow> record_in list \<Rightarrow> string option \<Rightarrow> i64 \<Rightarrow> stored_record list result" where
  "build_all env [] node now = Inr []"
| "build_all env (r # rs) node now =
     (case build_stored env r (or_else (ri_node r) node) now of
        Inl err \<Rightarrow> Inl err
      | Inr s \<Rightarrow> (case build_all env rs node now of Inl err \<Rightarrow> Inl err | Inr ss \<Rightarrow> Inr (s # ss)))"

section \<open>Writing\<close>

record write_request =
  wq_records :: "record_in list"
  wq_node :: "string option"
  wq_idempotency_key :: "string option"
  wq_create :: "bool option"
  wq_config :: "topic_config option"

record write_response =
  wp_first_seq :: seq
  wp_last_seq :: seq
  wp_seqs :: "seq list option"
  wp_head_seq :: seq
  wp_count :: nat
  wp_created :: bool
  wp_deduped :: bool

definition read_ts :: "i64 \<Rightarrow> i64 option" where
  "read_ts ts = (if ts = TS_NEVER then None else Some ts)"

definition effective_priority :: "topic_state \<Rightarrow> i64 \<Rightarrow> engine \<Rightarrow> int" where
  "effective_priority t now e =
     effective_priority_at (e_recency e) now (cfg_priority (t_config t)) (cfg_auto_priority (t_config t)) (read_ts (t_last_consumed_ms t))"

definition mark_topic_dirty :: "topic_state \<Rightarrow> i64 \<Rightarrow> engine \<Rightarrow> topic_state \<times> engine" where
  "mark_topic_dirty t now e =
     (let (dirty, ready) = mark_dirty_fast (t_name t) (effective_priority t now e) (t_sched_dirty t) (e_ready_set e)
      in (t\<lparr>t_sched_dirty := dirty\<rparr>, e\<lparr>e_ready_set := ready\<rparr>))"

definition prune_dedupe :: "i64 \<Rightarrow> topic_state \<Rightarrow> topic_state" where
  "prune_dedupe now t =
     t\<lparr>t_dedupe := filter (\<lambda>(_, en). i64_sat_sub now (de_created_ms en) \<le> as_i64 (cfg_idempotency_window_ms (t_config t))) (t_dedupe t)\<rparr>"

definition dedupe_check :: "string option \<Rightarrow> i64 \<Rightarrow> topic_state \<Rightarrow> dedupe_entry option \<times> topic_state" where
  "dedupe_check key now t =
     (case key of
        None \<Rightarrow> (None, t)
      | Some k \<Rightarrow> let t = prune_dedupe now t in (map_of (t_dedupe t) k, t))"

definition dedupe_record :: "string option \<Rightarrow> seq list \<Rightarrow> seq \<Rightarrow> i64 \<Rightarrow> topic_state \<Rightarrow> topic_state" where
  "dedupe_record key seqs head now t =
     (case key of
        None \<Rightarrow> t
      | Some k \<Rightarrow> t\<lparr>t_dedupe := AList.update k \<lparr>de_seqs = seqs, de_head_seq = head, de_created_ms = now\<rparr> (t_dedupe t)\<rparr>)"

definition admission :: "nat \<Rightarrow> nat \<Rightarrow> topic_state \<Rightarrow> api_error option" where
  "admission incoming incoming_bytes t =
     (let cfg = t_config t in
      if cfg_cap_bytes cfg > 0 \<and> incoming_bytes > cfg_cap_bytes cfg \<and> cfg_discard cfg = Reject then Some RecordTooLarge
      else if cfg_cap_records cfg > 0 \<and> incoming > cfg_cap_records cfg \<and> cfg_discard cfg = Reject then Some RecordTooLarge
      else if admit (cfg_discard cfg) (cfg_cap_records cfg) (cfg_cap_bytes cfg) (t_live_count t) (t_bytes_retained t)
                incoming incoming_bytes = AdmitReject then Some TopicFull
      else None)"

text \<open>
  The steps of a write after the deduplication check. The reservation, staging, commit and publish
  steps are those of \<open>durable_append\<close>, which the source repeats here.
\<close>

definition append_topic ::
  "env \<Rightarrow> stored_record list \<Rightarrow> i64 \<Rightarrow> topic_state \<Rightarrow> engine \<Rightarrow> (seq list \<times> seq) result \<times> topic_state \<times> engine" where
  "append_topic env stored now t e =
     (case enforce_retention_durable env t now e of
        (Inl err, t, e) \<Rightarrow> (Inl err, t, e)
      | (Inr _, t, e) \<Rightarrow>
          (case admission (length stored) (fold (\<lambda>r n. sat_add n (sr_bytes r)) stored 0) t of
             Some err \<Rightarrow> (Inl err, t, e)
           | None \<Rightarrow>
               (case durable_append env t stored now e of
                  (Inl err, t, e) \<Rightarrow> (Inl err, t, e)
                | (Inr seqs, t, e) \<Rightarrow>
                    (case enforce_retention_durable env t now e of
                       (Inl err, t', e) \<Rightarrow> (Inl err, t', e)
                     | (Inr _, t', e) \<Rightarrow> (Inr (seqs, t_head_seq t), t', e)))))"

definition write_topic ::
  "env \<Rightarrow> string option \<Rightarrow> stored_record list \<Rightarrow> i64 \<Rightarrow> topic_state \<Rightarrow> engine \<Rightarrow>
     (seq list \<times> seq \<times> bool) result \<times> topic_state \<times> engine" where
  "write_topic env key stored now t e =
     (case dedupe_check key now t of
        (Some en, t) \<Rightarrow> (Inr (de_seqs en, de_head_seq en, True), t, e)
      | (None, t) \<Rightarrow>
          (case append_topic env stored now t e of
             (Inl err, t, e) \<Rightarrow> (Inl err, t, e)
           | (Inr (seqs, head), t, e) \<Rightarrow> (Inr (seqs, head, False), dedupe_record key seqs head now t, e)))"

definition resolve_topic ::
  "env \<Rightarrow> string \<Rightarrow> bool option \<Rightarrow> topic_config option \<Rightarrow> i64 \<Rightarrow> engine \<Rightarrow> (topic_state \<times> bool) result \<times> engine" where
  "resolve_topic env name create cfg now e =
     (case get_topic name e of
        Some t \<Rightarrow> (Inr (t, False), e)
      | None \<Rightarrow>
          let create_cfg = (case cfg of Some c \<Rightarrow> c | None \<Rightarrow> default_config);
              may_create = (case create of Some c \<Rightarrow> c | None \<Rightarrow> cfg_auto_create create_cfg)
          in if \<not> may_create then (Inl TopicNotFound, e)
             else if \<not> is_valid_name name \<or> \<not> validate_config create_cfg then (Inl InvalidRequest, e)
             else (case put_topic env name create_cfg now e of
                     (Inl err, e) \<Rightarrow> (Inl err, e)
                   | (Inr (was_created, _), e) \<Rightarrow>
                       (case get_topic name e of
                          Some t \<Rightarrow> (Inr (t, was_created), e)
                        | None \<Rightarrow> (Inl Internal, e))))"

definition check_write :: "env \<Rightarrow> write_request \<Rightarrow> i64 \<Rightarrow> stored_record list result" where
  "check_write env req now =
     (if wq_records req = [] then Inl InvalidRequest
      else if length (wq_records req) > MAX_BATCH_RECORDS then Inl BatchTooLarge
      else if (case wq_idempotency_key req of Some k \<Rightarrow> length k > MAX_IDEMPOTENCY_KEY_LEN | None \<Rightarrow> False) then Inl InvalidRequest
      else build_all env (wq_records req) (wq_node req) now)"

definition write_answer :: "bool \<Rightarrow> seq list \<Rightarrow> seq \<Rightarrow> bool \<Rightarrow> bool \<Rightarrow> write_response" where
  "write_answer return_seqs seqs head created deduped =
     \<lparr>wp_first_seq = (case seqs of s # _ \<Rightarrow> s | [] \<Rightarrow> 0), wp_last_seq = (if seqs = [] then 0 else last seqs),
      wp_seqs = (if return_seqs then Some seqs else None), wp_head_seq = head, wp_count = length seqs,
      wp_created = created, wp_deduped = deduped\<rparr>"

definition engine_write ::
  "env \<Rightarrow> string \<Rightarrow> write_request \<Rightarrow> bool \<Rightarrow> i64 \<Rightarrow> engine \<Rightarrow> write_response result \<times> engine" where
  "engine_write env name req return_seqs now e =
     (case check_write env req now of
        Inl err \<Rightarrow> (Inl err, e)
      | Inr stored \<Rightarrow>
          (case resolve_topic env name (wq_create req) (wq_config req) now e of
             (Inl err, e) \<Rightarrow> (Inl err, e)
           | (Inr (t, created), e) \<Rightarrow>
               let (res, t, e) = write_topic env (wq_idempotency_key req) stored now t e
               in case res of
                    Inl err \<Rightarrow> (Inl err, put_state t e)
                  | Inr (seqs, head, deduped) \<Rightarrow>
                      let (t, e) = (if deduped then (t, e) else mark_topic_dirty t now e) in
                      (Inr (write_answer return_seqs seqs head (created \<and> \<not> deduped) deduped), put_state t e)))"

section \<open>Deleting records\<close>

record delete_response =
  dp_deleted :: nat
  dp_earliest_seq :: seq
  dp_head_seq :: seq
  dp_count :: nat
  dp_bytes :: nat

fun filter_to_matchsel :: "tag_filter \<Rightarrow> match_sel" where
  "filter_to_matchsel f = (case flt_op f of Eq \<Rightarrow> MEq (flt_value f) | Glob \<Rightarrow> MGlob (flt_value f))"

fun matchsel_to_filter :: "match_sel \<Rightarrow> tag_filter" where
  "matchsel_to_filter (MEq v) = \<lparr>flt_op = Eq, flt_value = v\<rparr>"
| "matchsel_to_filter (MGlob v) = \<lparr>flt_op = Glob, flt_value = v\<rparr>"

definition log_delete ::
  "env \<Rightarrow> topic_state \<Rightarrow> seq option \<Rightarrow> tag_filter option \<Rightarrow> seq \<Rightarrow> i64 \<Rightarrow> engine \<Rightarrow> unit result \<times> engine" where
  "log_delete env t before match_sel bound_head now e =
     (case e_wal e of
        None \<Rightarrow> (Inr (), e)
      | Some h \<Rightarrow>
          if durability_class (t_config t) = Ephemeral then (Inr (), e)
          else (case submit_batch env (t_topic_id t)
                       [Delete (t_topic_id t) before (map_option filter_to_matchsel match_sel) [] (Some bound_head) (as_ts now)]
                       (durability_class (t_config t) = Fsync) h of
                  (Inl err, h) \<Rightarrow> (Inl (map_wal_submit_err err), e\<lparr>e_wal := Some h\<rparr>)
                | (Inr out, h) \<Rightarrow> (if out = CoFailed then Inl Internal else Inr (), e\<lparr>e_wal := Some h\<rparr>)))"

definition engine_delete ::
  "env \<Rightarrow> string \<Rightarrow> seq option \<Rightarrow> tag_filter option \<Rightarrow> i64 \<Rightarrow> engine \<Rightarrow> delete_response result \<times> engine" where
  "engine_delete env name before match_sel now e =
     (if before = None \<and> match_sel = None then (Inl InvalidRequest, e)
      else case get_topic name e of
             None \<Rightarrow> (Inl TopicNotFound, e)
           | Some t \<Rightarrow>
               (case enforce_retention_durable env t now e of
                  (Inl err, t, e) \<Rightarrow> (Inl err, put_state t e)
                | (Inr _, t, e) \<Rightarrow>
                    let bound_head = sat_add (t_head_seq t) 1 in
                    (case log_delete env t before match_sel bound_head now e of
                       (Inl err, e) \<Rightarrow> (Inl err, put_state t e)
                     | (Inr _, e) \<Rightarrow>
                         let (t, st) = apply_delete_stats before match_sel (Some bound_head) now t;
                             e = release_total_bytes (ds_bytes_freed st) e
                         in (Inr \<lparr>dp_deleted = ds_deleted st, dp_earliest_seq = earliest_seq t, dp_head_seq = t_head_seq t,
                                  dp_count = t_live_count t, dp_bytes = t_bytes_retained t\<rparr>, put_state t e))))"

section \<open>Records within the limits\<close>

lemma build_stored_ok:
  assumes "build_stored env r node now = Inr s"
  shows "\<not> sr_deleted s" "sr_bytes s \<le> MAX_RECORD_BYTES" "sr_bytes s = payload_bytes env (sr_data s) (sr_meta s)"
    "sr_data s = ri_data r" "sr_tag s = ri_tag r" "sr_meta s = ri_meta r" "sr_node s = node" "sr_ts s = now" "sr_hops s = 0"
    "sr_payload_resident s"
  using assms by (auto simp: build_stored_def build_stored_owned_def Let_def split: if_splits)

lemma build_all_ok:
  assumes "build_all env rs node now = Inr ss"
  shows "length ss = length rs" "list_all (\<lambda>s. \<not> sr_deleted s) ss" "list_all (\<lambda>s. sr_bytes s \<le> MAX_RECORD_BYTES) ss"
    "map sr_data ss = map ri_data rs" "map sr_tag ss = map ri_tag rs" "map sr_node ss = map (\<lambda>r. or_else (ri_node r) node) rs"
proof -
  have "length ss = length rs \<and> list_all (\<lambda>s. \<not> sr_deleted s) ss \<and> list_all (\<lambda>s. sr_bytes s \<le> MAX_RECORD_BYTES) ss \<and>
    map sr_data ss = map ri_data rs \<and> map sr_tag ss = map ri_tag rs \<and> map sr_node ss = map (\<lambda>r. or_else (ri_node r) node) rs"
    using assms
  proof (induction env rs node now arbitrary: ss rule: build_all.induct)
    case (2 env r rs node now)
    then show ?case
      using build_stored_ok[of env r "or_else (ri_node r) node" now] by (auto split: sum.splits)
  qed simp
  then show "length ss = length rs" "list_all (\<lambda>s. \<not> sr_deleted s) ss" "list_all (\<lambda>s. sr_bytes s \<le> MAX_RECORD_BYTES) ss"
    "map sr_data ss = map ri_data rs" "map sr_tag ss = map ri_tag rs" "map sr_node ss = map (\<lambda>r. or_else (ri_node r) node) rs"
    by simp_all
qed

lemma slot_bytes_le: "list_all (\<lambda>s. sr_bytes s \<le> b) ss \<Longrightarrow> slot_bytes ss \<le> length ss * b"
  by (induction ss) (auto simp: slot_bytes_def)

definition stored_as :: "env \<Rightarrow> string option \<Rightarrow> i64 \<Rightarrow> record_in \<Rightarrow> stored_record \<Rightarrow> bool" where
  "stored_as env node now r s \<longleftrightarrow> \<not> sr_deleted s \<and> sr_payload_resident s \<and> sr_ts s = now \<and> sr_hops s = 0 \<and> sr_data s = ri_data r \<and>
     sr_tag s = ri_tag r \<and> sr_meta s = ri_meta r \<and> sr_node s = or_else (ri_node r) node \<and>
     sr_bytes s = payload_bytes env (ri_data r) (ri_meta r) \<and> sr_bytes s \<le> MAX_RECORD_BYTES"

lemma build_stored_as: "build_stored env r (or_else (ri_node r) node) now = Inr s \<Longrightarrow> stored_as env node now r s"
  using build_stored_ok[of env r "or_else (ri_node r) node" now s] unfolding stored_as_def by metis

lemma build_all_stored: "build_all env rs node now = Inr ss \<Longrightarrow> list_all2 (stored_as env node now) rs ss"
proof (induction rs arbitrary: ss)
  case (Cons r rs)
  then show ?case
    by (auto simp: build_stored_as split: sum.splits)
qed simp

lemma check_write_stored: "check_write env req now = Inr ss \<Longrightarrow> list_all2 (stored_as env (wq_node req) now) (wq_records req) ss"
  by (rule build_all_stored) (simp add: check_write_def split: if_splits)

lemma check_write_ok:
  assumes "check_write env req now = Inr ss"
  shows "ss \<noteq> []" "length ss \<le> MAX_BATCH_RECORDS" "length ss = length (wq_records req)" "list_all (\<lambda>s. \<not> sr_deleted s) ss"
    "slot_bytes ss \<le> MAX_BATCH_RECORDS * MAX_RECORD_BYTES" "map sr_data ss = map ri_data (wq_records req)"
proof -
  have b: "build_all env (wq_records req) (wq_node req) now = Inr ss" and ne: "wq_records req \<noteq> []"
    and le: "length (wq_records req) \<le> MAX_BATCH_RECORDS"
    using assms by (auto simp: check_write_def split: if_splits)
  note o = build_all_ok[OF b]
  show "ss \<noteq> []" "length ss \<le> MAX_BATCH_RECORDS" "length ss = length (wq_records req)" "list_all (\<lambda>s. \<not> sr_deleted s) ss"
    "map sr_data ss = map ri_data (wq_records req)"
    using o ne le by auto
  have "slot_bytes ss \<le> length ss * MAX_RECORD_BYTES"
    by (rule slot_bytes_le[OF o(3)])
  also have "\<dots> \<le> MAX_BATCH_RECORDS * MAX_RECORD_BYTES"
    using o(1) le by simp
  finally show "slot_bytes ss \<le> MAX_BATCH_RECORDS * MAX_RECORD_BYTES" .
qed

section \<open>What a write does to its topic\<close>

text \<open>The records that retention leaves.\<close>

definition above_floor :: "topic_state \<Rightarrow> (seq \<times> stored_record) list \<Rightarrow> (seq \<times> stored_record) list" where
  "above_floor t v = filter (\<lambda>(s, r). floor_earliest t \<le> s) v"

lemma kept_append [simp]: "above_floor t (v @ w) = above_floor t v @ above_floor t w"
  by (simp add: above_floor_def)

lemma kept_kept: "floor_earliest t \<le> floor_earliest t' \<Longrightarrow> above_floor t' (above_floor t v) = above_floor t' v"
  unfolding above_floor_def filter_filter by (rule filter_cong) auto

lemma kept_view: "topic_ok t \<Longrightarrow> tail t \<le> u64_max \<Longrightarrow> above_floor t (view t) = view t"
  using topic_okD(5)[of t] by (auto simp: above_floor_def view_def visible_floor filter_map o_def intro!: arg_cong[where f="map _"] filter_cong)

definition trims :: "topic_state \<Rightarrow> topic_state \<Rightarrow> bool" where
  "trims t t' \<longleftrightarrow> view t' = above_floor t' (view t) \<and> floors_le (t_floors t) (t_floors t') \<and>
     t_bytes_retained t' \<le> t_bytes_retained t"

lemma enforce_retention_trims:
  assumes "topic_ok t" "tail t \<le> u64_max" "enforce_retention_hardened now harden t = Inr (t', adv)"
  shows "trims t t'"
  using enforce_retention_view[OF topic_okD(1)[OF assms(1)] _ assms(3)] enforce_retention_fields(5,8)[OF topic_okD(1)[OF assms(1)] assms(3)]
    topic_okD(5)[OF assms(1)] assms(2) by (simp add: trims_def above_floor_def)

lemma enforce_retention_durable_trims:
  assumes ok: "topic_ok t" and h: "tail t \<le> u64_max" and out: "enforce_retention_durable env t now e = (res, t', e')"
  shows "trims t t'"
proof -
  consider "t' = t" | adv where "enforce_retention_hardened now (\<lambda>_. None :: unit option) t = Inr (t', adv)"
    | harden adv where "enforce_retention_hardened now (harden :: _ \<Rightarrow> api_error option) t = Inr (t', adv)"
    using out by (auto simp: enforce_retention_durable_def enforce_retention_def Let_def split: prod.splits sum.splits if_splits)
  then show ?thesis
  proof cases
    case 1
    then show ?thesis
      using kept_view[OF ok h] by (simp add: trims_def)
  qed (rule enforce_retention_trims[OF ok h], assumption)+
qed

lemma trims_floor:
  assumes "trims t t'" "t_head_seq t \<le> t_head_seq t'" "t_seq_base t' = t_seq_base t"
  shows "floor_earliest t \<le> floor_earliest t'"
  using assms by (simp add: trims_def floor_earliest_def floors_earliest_seq_mono)

text \<open>What the parts of a write after deduplication leave behind; the records are published even when the last step fails.\<close>

definition wrote :: "topic_state \<Rightarrow> stored_record list \<Rightarrow> topic_state \<Rightarrow> bool" where
  "wrote t stored t' \<longleftrightarrow> t_head_seq t' = tail t + length stored - 1 \<and>
     view t' = above_floor t' (view t @ zip [tail t..<tail t + length stored] (map erase stored))"

definition same_topic :: "topic_state \<Rightarrow> topic_state \<Rightarrow> bool" where
  "same_topic t t' \<longleftrightarrow> t_name t' = t_name t \<and> t_topic_id t' = t_topic_id t \<and> t_seq_base t' = t_seq_base t \<and>
     t_config t' = t_config t \<and> t_queue t' = t_queue t"

lemma same_topic_id: "same_id t t' \<Longrightarrow> same_topic t t'"
  by (simp add: same_id_def same_topic_def)

lemma append_after_trim:
  assumes tr: "trims t t1" and id1: "same_id t t1" "tail t1 = tail t" "t_head_seq t1 = t_head_seq t" "topic_ok t1"
    and ad: "append_done env t1 rs t2" and ne: "rs \<noteq> []" and tr2: "trims t2 t3" and id3: "same_id t1 t2" "same_id t2 t3" "t_head_seq t3 = t_head_seq t2"
  shows "wrote t rs t3"
proof -
  have fl: "t_floors t2 = t_floors t1" and h2: "t_head_seq t2 = tail t + length rs - 1"
    and v2: "view t2 = view t1 @ zip [tail t..<tail t + length rs] (map erase rs)"
    using ad id1(2) by (simp_all add: append_done_def)
  have "t_head_seq t1 < tail t1"
    by (rule topic_okD(5)[OF id1(4)])
  then have le: "floor_earliest t1 \<le> floor_earliest t3"
    using tr2 fl id1 id3 h2 ne unfolding floor_earliest_def same_id_def trims_def
    by (auto intro!: floors_earliest_seq_mono simp: Suc_le_eq neq_Nil_conv)
  show ?thesis
    using tr tr2 v2 h2 id3(3) kept_kept[OF le] by (simp add: wrote_def trims_def)
qed

text \<open>The deduplication map and the scheduling flag play no part in the records.\<close>

lemma dedupe_upd [simp]:
  "topic_ok (t\<lparr>t_dedupe := d\<rparr>) = topic_ok t" "tail (t\<lparr>t_dedupe := d\<rparr>) = tail t" "view (t\<lparr>t_dedupe := d\<rparr>) = view t"
  "floor_earliest (t\<lparr>t_dedupe := d\<rparr>) = floor_earliest t" "covered (t\<lparr>t_dedupe := d\<rparr>) e = covered t e"
  "quota_step (t\<lparr>t_dedupe := d\<rparr>) e t' e' = quota_step t e t' e'" "quota_step t e (t'\<lparr>t_dedupe := d\<rparr>) e' = quota_step t e t' e'"
  "same_topic (t\<lparr>t_dedupe := d\<rparr>) t' = same_topic t t'" "same_topic t (t'\<lparr>t_dedupe := d\<rparr>) = same_topic t t'"
  by (simp_all add: topic_ok_def wf_topic_def resting_def tail_def view_def visible_def[abs_def] earliest_seq_def slot_at_def
      floor_earliest_def covered_def quota_step_def same_topic_def)

lemma sched_dirty_upd [simp]:
  "topic_ok (t\<lparr>t_sched_dirty := d\<rparr>) = topic_ok t" "tail (t\<lparr>t_sched_dirty := d\<rparr>) = tail t" "view (t\<lparr>t_sched_dirty := d\<rparr>) = view t"
  "floor_earliest (t\<lparr>t_sched_dirty := d\<rparr>) = floor_earliest t"
  "quota_step t e (t'\<lparr>t_sched_dirty := d\<rparr>) e' = quota_step t e t' e'" "same_topic t (t'\<lparr>t_sched_dirty := d\<rparr>) = same_topic t t'"
  by (simp_all add: topic_ok_def wf_topic_def resting_def tail_def view_def visible_def[abs_def] earliest_seq_def slot_at_def
      floor_earliest_def quota_step_def same_topic_def)

lemma dedupe_check_cases:
  assumes "dedupe_check key now t = (hit, t')"
  obtains (none) "hit = None" "key = None" "t' = t"
  | (miss) k where "hit = None" "key = Some k" "t' = prune_dedupe now t" "map_of (t_dedupe t') k = None"
  | (hit) k en where "hit = Some en" "key = Some k" "t' = prune_dedupe now t" "map_of (t_dedupe t') k = Some en"
  using assms by (auto simp: dedupe_check_def Let_def split: option.splits)

lemma dedupe_check_upd: "dedupe_check key now t = (hit, t') \<Longrightarrow> \<exists>d. t' = t\<lparr>t_dedupe := d\<rparr>"
  by (cases key; force simp: dedupe_check_def prune_dedupe_def Let_def intro: exI[of _ "t_dedupe t"])

definition recorded :: "string option \<Rightarrow> seq list \<Rightarrow> seq \<Rightarrow> i64 \<Rightarrow> topic_state \<Rightarrow> bool" where
  "recorded key seqs head now t \<longleftrightarrow>
     (\<forall>k. key = Some k \<longrightarrow> map_of (t_dedupe t) k = Some \<lparr>de_seqs = seqs, de_head_seq = head, de_created_ms = now\<rparr>)"

lemma append_topic_cases:
  assumes out: "append_topic env stored now t e = (res, t', e')"
  obtains (early) err where "res = Inl err" "enforce_retention_durable env t now e = (Inl err, t', e')"
  | (refused) err u where "res = Inl err" "enforce_retention_durable env t now e = (Inr u, t', e')"
  | (failed) err u t1 e1 where "res = Inl err" "enforce_retention_durable env t now e = (Inr u, t1, e1)"
      "durable_append env t1 stored now e1 = (Inl err, t', e')"
  | (late) err u t1 e1 seqs t2 e2 where "res = Inl err" "enforce_retention_durable env t now e = (Inr u, t1, e1)"
      "durable_append env t1 stored now e1 = (Inr seqs, t2, e2)" "enforce_retention_durable env t2 now e2 = (Inl err, t', e')"
  | (complete) u t1 e1 seqs t2 e2 u' where "res = Inr (seqs, t_head_seq t2)" "enforce_retention_durable env t now e = (Inr u, t1, e1)"
      "durable_append env t1 stored now e1 = (Inr seqs, t2, e2)" "enforce_retention_durable env t2 now e2 = (Inr u', t', e')"
  using out unfolding append_topic_def by (auto split: prod.splits sum.splits option.splits)

lemma append_topic_ok:
  assumes ok: "topic_ok t" and cov: "covered t e" and live: "list_all (\<lambda>r. \<not> sr_deleted r) stored" and ne: "stored \<noteq> []"
    and room: "t_bytes_retained t + slot_bytes stored \<le> u64_max" "tail t + length stored \<le> u64_max" "quota e < u64_max"
    and out: "append_topic env stored now t e = (res, t', e')"
  shows "topic_ok t'" "same_id t t'" "engine_frame e e'" "quota_step t e t' e'"
    "res = Inr (seqs, head) \<Longrightarrow> seqs = [tail t..<tail t + length stored] \<and> head = tail t + length stored - 1 \<and> wrote t stored t'"
    "res = Inl err \<Longrightarrow> trims t t' \<or> wrote t stored t'"
proof -
  have tl: "tail t \<le> u64_max"
    using room(2) by simp
  have "topic_ok t' \<and> same_id t t' \<and> engine_frame e e' \<and> quota_step t e t' e' \<and>
    (\<forall>seqs head. res = Inr (seqs, head) \<longrightarrow>
       seqs = [tail t..<tail t + length stored] \<and> head = tail t + length stored - 1 \<and> wrote t stored t') \<and>
    (\<forall>err. res = Inl err \<longrightarrow> trims t t' \<or> wrote t stored t')"
  proof -
    have first: "topic_ok t1 \<and> same_id t t1 \<and> tail t1 = tail t \<and> t_head_seq t1 = t_head_seq t \<and> engine_frame e e1 \<and> quota_step t e t1 e1 \<and> trims t t1"
      if "enforce_retention_durable env t now e = (r, t1, e1)" for r t1 e1
      using enforce_retention_durable_ok(1-6)[OF ok cov that] enforce_retention_durable_trims[OF ok tl that] by simp
    have second: "topic_ok t2 \<and> same_id t t2 \<and> same_id t1 t2 \<and> engine_frame e e2 \<and> quota_step t e t2 e2 \<and>
        (\<forall>seqs. r = Inr seqs \<longrightarrow> seqs = [tail t..<tail t + length stored] \<and> append_done env t1 stored t2) \<and>
        (\<forall>err. r = Inl err \<longrightarrow> append_refused t1 t2)"
      if r1: "enforce_retention_durable env t now e = (r1, t1, e1)" and d: "durable_append env t1 stored now e1 = (r, t2, e2)" for r1 r t1 t2 e1 e2
    proof -
      note f = first[OF r1]
      have "t_bytes_retained t1 + slot_bytes stored \<le> u64_max" "tail t1 + length stored \<le> u64_max" "quota e1 < u64_max"
        using f room by (auto simp: trims_def engine_frame_def)
      note a = durable_append_ok[OF conjunct1[OF f] live this d]
      show ?thesis
        using a(1,2) a(5,6) f ne quota_step_trans[OF _ a(4), of t e] same_id_trans[OF _ a(2), of t] engine_frame_trans[OF _ a(3), of e]
        by (simp add: engine_frame_limits)
    qed
    have third: "topic_ok t3 \<and> same_id t t3 \<and> engine_frame e e3 \<and> quota_step t e t3 e3 \<and> wrote t stored t3"
      if r1: "enforce_retention_durable env t now e = (r1, t1, e1)" and d: "durable_append env t1 stored now e1 = (Inr seqs, t2, e2)"
        and r3: "enforce_retention_durable env t2 now e2 = (r3, t3, e3)" for r1 seqs r3 t1 t2 t3 e1 e2 e3
    proof -
      note f = first[OF r1] and s = second[OF r1 d]
      have c2: "covered t2 e2"
        using s cov by (blast intro: quota_step_covered dest: engine_frame_limits)
      have tl2: "tail t2 \<le> u64_max"
        using s f room(2) by (simp add: append_done_def)
      have ok2: "topic_ok t2" using s by simp
      note g = enforce_retention_durable_ok(1-6)[OF ok2 c2 r3] and tr = enforce_retention_durable_trims[OF ok2 tl2 r3]
      have w: "wrote t stored t3"
        using append_after_trim[of t t1 env stored t2 t3] f s g(2,4) tr ne by blast
      show ?thesis
        using w s g(1) quota_step_trans[OF _ g(6), of t e] same_id_trans[OF _ g(2), of t] engine_frame_trans[OF _ g(5), of e]
        by (simp add: engine_frame_limits)
    qed
    show ?thesis
      using out
    proof (cases rule: append_topic_cases)
      case failed
      then show ?thesis
        using first second by (auto simp: append_refused_def trims_def above_floor_def floor_earliest_def same_id_def)
    next
      case complete
      then show ?thesis
        using third[OF complete(2,3,4)] second[OF complete(2,3)] first[OF complete(2)] by (auto simp: append_done_def)
    qed (use first third in \<open>auto\<close>)
  qed
  then show "topic_ok t'" "same_id t t'" "engine_frame e e'" "quota_step t e t' e'"
    "res = Inr (seqs, head) \<Longrightarrow> seqs = [tail t..<tail t + length stored] \<and> head = tail t + length stored - 1 \<and> wrote t stored t'"
    "res = Inl err \<Longrightarrow> trims t t' \<or> wrote t stored t'"
    by simp_all
qed

definition deduped_to :: "string option \<Rightarrow> i64 \<Rightarrow> topic_state \<Rightarrow> seq list \<Rightarrow> seq \<Rightarrow> bool" where
  "deduped_to key now t seqs head \<longleftrightarrow>
     (\<exists>k en. key = Some k \<and> map_of (t_dedupe (prune_dedupe now t)) k = Some en \<and> seqs = de_seqs en \<and> head = de_head_seq en)"

lemma write_topic_ok:
  assumes ok: "topic_ok t" and cov: "covered t e" and live: "list_all (\<lambda>r. \<not> sr_deleted r) stored" and ne: "stored \<noteq> []"
    and room: "t_bytes_retained t + slot_bytes stored \<le> u64_max" "tail t + length stored \<le> u64_max" "quota e < u64_max"
    and out: "write_topic env key stored now t e = (res, t', e')"
  shows "topic_ok t'" "same_topic t t'" "engine_frame e e'" "quota_step t e t' e'"
    "res = Inr (seqs, head, False) \<Longrightarrow> seqs = [tail t..<tail t + length stored] \<and> head = tail t + length stored - 1 \<and>
       wrote t stored t' \<and> recorded key seqs head now t'"
    "res = Inr (seqs, head, True) \<Longrightarrow> deduped_to key now t seqs head \<and> t' = prune_dedupe now t \<and> e' = e"
    "res = Inl err \<Longrightarrow> trims t t' \<or> wrote t stored t'"
proof -
  obtain hit t1 where d: "dedupe_check key now t = (hit, t1)" by fastforce
  then obtain m where t1: "t1 = t\<lparr>t_dedupe := m\<rparr>"
    using dedupe_check_upd by blast
  have tr: "trims t x = trims t1 x" "wrote t stored x = wrote t1 stored x" for x
    by (simp_all add: t1 trims_def wrote_def)
  have upd: "wrote t stored (x\<lparr>t_dedupe := dd\<rparr>) = wrote t stored x" for x dd
    by (simp add: wrote_def above_floor_def)
  have "topic_ok t' \<and> same_topic t t' \<and> engine_frame e e' \<and> quota_step t e t' e' \<and>
    (\<forall>seqs head. res = Inr (seqs, head, False) \<longrightarrow> seqs = [tail t..<tail t + length stored] \<and> head = tail t + length stored - 1 \<and>
       wrote t stored t' \<and> recorded key seqs head now t') \<and>
    (\<forall>seqs head. res = Inr (seqs, head, True) \<longrightarrow> deduped_to key now t seqs head \<and> t' = prune_dedupe now t \<and> e' = e) \<and>
    (\<forall>err. res = Inl err \<longrightarrow> trims t t' \<or> wrote t stored t')"
  proof (cases hit)
    case (Some en)
    then have r: "res = Inr (de_seqs en, de_head_seq en, True)" "t' = t1" "e' = e"
      using out d by (simp_all add: write_topic_def)
    have "deduped_to key now t (de_seqs en) (de_head_seq en) \<and> t1 = prune_dedupe now t"
      using d Some by (cases rule: dedupe_check_cases) (auto simp: deduped_to_def)
    then show ?thesis
      using r ok by (auto simp: prune_dedupe_def same_topic_def)
  next
    case None
    obtain r1 t2 e2 where a: "append_topic env stored now t1 e = (r1, t2, e2)" by (metis prod_cases3)
    have pre: "topic_ok t1" "covered t1 e" "t_bytes_retained t1 + slot_bytes stored \<le> u64_max" "tail t1 + length stored \<le> u64_max"
      using ok cov room by (simp_all add: t1)
    note s = append_topic_ok[OF pre(1,2) live ne pre(3,4) room(3) a]
    have st: "same_topic t t2" "quota_step t e t2 e2"
      using same_topic_id[OF s(2)] s(4) by (simp_all add: t1)
    show ?thesis
    proof (cases r1)
      case (Inl err)
      then have "res = Inl err \<and> t' = t2 \<and> e' = e2"
        using out d None a by (simp add: write_topic_def)
      then show ?thesis
        using s(1,3) s(6)[OF Inl] st by (auto simp: tr)
    next
      case (Inr x)
      then obtain seqs head where r1: "r1 = Inr (seqs, head)" by (cases x) auto
      then have r: "res = Inr (seqs, head, False)" "t' = dedupe_record key seqs head now t2" "e' = e2"
        using out d None a by (simp_all add: write_topic_def)
      have rec: "recorded key seqs head now t'" "\<exists>dd. t' = t2\<lparr>t_dedupe := dd\<rparr>"
        unfolding r(2) by (cases key; force simp: recorded_def dedupe_record_def update_conv' intro: exI[of _ "t_dedupe t2"])+
      then obtain dd where t': "t' = t2\<lparr>t_dedupe := dd\<rparr>" by blast
      show ?thesis
        using s(1,3) s(5)[OF r1] st rec(1) r(1,3) unfolding t' by (auto simp: upd tr[symmetric]) (simp_all add: t1)
    qed
  qed
  then show "topic_ok t'" "same_topic t t'" "engine_frame e e'" "quota_step t e t' e'"
    "res = Inr (seqs, head, False) \<Longrightarrow> seqs = [tail t..<tail t + length stored] \<and> head = tail t + length stored - 1 \<and>
       wrote t stored t' \<and> recorded key seqs head now t'"
    "res = Inr (seqs, head, True) \<Longrightarrow> deduped_to key now t seqs head \<and> t' = prune_dedupe now t \<and> e' = e"
    "res = Inl err \<Longrightarrow> trims t t' \<or> wrote t stored t'"
    by blast+
qed

section \<open>What a write does to the engine\<close>

definition log_of :: "string \<Rightarrow> engine \<Rightarrow> (seq \<times> stored_record) list" where
  "log_of name e = (case get_topic name e of Some t \<Rightarrow> view t | None \<Rightarrow> [])"

definition next_of :: "string \<Rightarrow> engine \<Rightarrow> seq" where
  "next_of name e = (case get_topic name e of Some t \<Rightarrow> tail t | None \<Rightarrow> SEQ_BASE)"

text \<open>
  Sequence numbers and byte counters stay far from their 64 bits: below 2^62, which a topic does not
  reach in practice. A request adds at most a batch of the largest size.
\<close>

definition ROOM :: nat where
  "ROOM = 4611686018427387904"

definition topic_room :: "topic_state \<Rightarrow> bool" where
  "topic_room t \<longleftrightarrow> tail t \<le> ROOM \<and> t_bytes_retained t \<le> ROOM"

lemma topic_roomD:
  assumes "topic_room t"
  shows "tail t \<le> u64_max" "n \<le> ROOM \<Longrightarrow> tail t + n \<le> u64_max" "n \<le> MAX_BATCH_RECORDS \<Longrightarrow> tail t + n \<le> u64_max"
    "b \<le> MAX_BATCH_RECORDS * MAX_RECORD_BYTES \<Longrightarrow> t_bytes_retained t + b \<le> u64_max" "t_bytes_retained t + 4 * MAX_BATCH_RECORDS * MAX_RECORD_BYTES \<le> u64_max"
  using assms by (simp_all add: topic_room_def ROOM_def u64_max_def MAX_BATCH_RECORDS_def MAX_RECORD_BYTES_def)

definition engine_room :: "engine \<Rightarrow> bool" where
  "engine_room e \<longleftrightarrow> quota e < u64_max \<and> list_all (\<lambda>(n, t). topic_room t) (e_topics e)"

lemma engine_roomD: "engine_room e \<Longrightarrow> get_topic n e = Some t \<Longrightarrow> topic_room t \<and> quota e < u64_max"
  using get_topic_mem[of n e t] by (auto simp: engine_room_def list_all_iff)

lemma fresh_topic_tail: "tail (fresh_topic env name tid cfg ep e) = SEQ_BASE"
proof -
  have "topic_sim (topic_new name tid cfg SEQ_BASE ep) (fresh_topic env name tid cfg ep e)"
    by (auto simp: fresh_topic_def Let_def attach_segwriter_def topic_sim_def split: option.split)
  from tail_sim[OF this] show ?thesis
    by (simp add: topic_new_def index_new_def tail_def)
qed

lemma fresh_topic_room: "topic_room (fresh_topic env name tid cfg ep e)"
  by (simp add: topic_room_def fresh_topic_tail SEQ_BASE_def ROOM_def)

lemma put_topic_created:
  assumes "engine_ok e" "get_topic name e = None" "put_topic env name cfg now e = (Inr (c, cfg'), e')"
  shows "\<exists>tid. get_topic name e' = Some (fresh_topic env name tid cfg' 1 e') \<and> c"
  using assms create_topic_ok(3)[OF assms(1,2)]
  by (auto simp: put_topic_def Let_def split: if_splits prod.splits sum.splits)

lemma enforce_retention_durable_frame:
  assumes "enforce_retention_durable env t now e = (res, t', e')"
  shows "engine_frame e e'"
proof -
  obtain hd e1 where h: "(if harden_due now t then log_evict_watermark env (t_topic_id t) (plan_retention now t) now e else (Inr (), e)) = (hd, e1)"
    by fastforce
  have "engine_frame e e1"
    using h log_evict_watermark_frame(1) by (auto split: if_splits)
  moreover have "e' = e1 \<or> (\<exists>n. e' = release_total_bytes n e1) \<or> (\<exists>n. e' = release_total_bytes n e)"
    using assms unfolding enforce_retention_durable_def h by (auto simp: split: prod.splits sum.splits if_splits)
  ultimately show ?thesis
    using release_frame engine_frame_trans by blast
qed

lemma engine_frame_routers: "engine_frame e e' \<Longrightarrow> e_routers e' = e_routers e"
  by (simp add: engine_frame_def)

lemma put_topic_keeps:
  assumes "put_topic env name cfg now e = (res, e')"
  shows "e_limits e' = e_limits e" "e_routers e' = e_routers e"
proof -
  have u: "e_limits e2 = e_limits e \<and> e_routers e2 = e_routers e" if "update_topic env t c now e = (r, e2)" for t c r e2
    using that by (auto simp: update_topic_def put_state_def engine_frame_def split: prod.splits sum.splits
        dest!: wal_commit_frame(1) enforce_retention_durable_frame)
  have c: "e_limits e2 = e_limits e \<and> e_routers e2 = e_routers e" if "create_topic env name c now e = (r, e2)" for c r e2
    using that by (auto simp: create_topic_def put_state_def reserve_topic_slot_def alloc_topic_id_def engine_frame_def
        split: prod.splits sum.splits if_splits dest!: wal_commit_frame(1))
  show "e_limits e' = e_limits e" "e_routers e' = e_routers e"
    using assms u c by (auto simp: put_topic_def Let_def split: if_splits prod.splits sum.splits option.splits)
qed

lemma resolve_topic_ok:
  assumes ok: "engine_ok e" and room: "engine_room e" and out: "resolve_topic env name create cfg now e = (res, e')"
  shows "engine_ok e'" "m \<noteq> name \<Longrightarrow> get_topic m e' = get_topic m e"
    "res = Inr (t, created) \<Longrightarrow> get_topic name e' = Some t \<and> topic_room t \<and> quota e' < u64_max \<and> view t = log_of name e \<and>
       tail t = next_of name e \<and> (created \<longleftrightarrow> get_topic name e = None)"
    "res = Inl err \<Longrightarrow> get_topic name e = None \<and> get_topic name e' = None"
proof -
  have "engine_ok e' \<and> (\<forall>m. m \<noteq> name \<longrightarrow> get_topic m e' = get_topic m e) \<and>
    (\<forall>t created. res = Inr (t, created) \<longrightarrow> get_topic name e' = Some t \<and> topic_room t \<and> quota e' < u64_max \<and> view t = log_of name e \<and>
       tail t = next_of name e \<and> (created \<longleftrightarrow> get_topic name e = None)) \<and>
    (\<forall>err. res = Inl err \<longrightarrow> get_topic name e = None \<and> get_topic name e' = None)"
  proof (cases "get_topic name e")
    case (Some t)
    then show ?thesis
      using out ok engine_roomD[OF room Some] by (auto simp: resolve_topic_def log_of_def next_of_def)
  next
    case None
    let ?cfg = "case cfg of Some c \<Rightarrow> c | None \<Rightarrow> default_config"
    obtain r e1 where p: "put_topic env name ?cfg now e = (r, e1)" by fastforce
    note q = put_topic_ok[OF ok p] put_topic_keeps(1)[OF p]
    consider err where "res = Inl err" "e' = e" | err where "r = Inl err" "res = Inl err" "e' = e1"
      | c cfg' t where "r = Inr (c, cfg')" "get_topic name e1 = Some t" "res = Inr (t, c)" "e' = e1"
      | c cfg' where "r = Inr (c, cfg')" "get_topic name e1 = None"
      using out None p unfolding resolve_topic_def Let_def by (auto split: if_splits sum.splits option.splits prod.splits)
    then show ?thesis
    proof cases
      case 3
      then obtain tid where f: "t = fresh_topic env name tid cfg' 1 e1" "c"
        using put_topic_created[OF ok None p[unfolded \<open>r = Inr (c, cfg')\<close>]] by auto
      have "quota e < u64_max"
        using room by (simp add: engine_room_def)
      then show ?thesis
        using 3 q f None fresh_topic_ok(7) fresh_topic_room fresh_topic_tail by (auto simp: log_of_def next_of_def)
    next
      case 4
      then show ?thesis
        using put_topic_created[OF ok None p[unfolded \<open>r = Inr (c, cfg')\<close>]] by auto
    qed (use q ok None in auto)
  qed
  then show "engine_ok e'" "m \<noteq> name \<Longrightarrow> get_topic m e' = get_topic m e"
    "res = Inr (t, created) \<Longrightarrow> get_topic name e' = Some t \<and> topic_room t \<and> quota e' < u64_max \<and> view t = log_of name e \<and>
       tail t = next_of name e \<and> (created \<longleftrightarrow> get_topic name e = None)"
    "res = Inl err \<Longrightarrow> get_topic name e = None \<and> get_topic name e' = None"
    by simp_all
qed

lemma mark_topic_dirty_spec:
  assumes "mark_topic_dirty t now e = (t', e')"
  shows "\<exists>d. t' = t\<lparr>t_sched_dirty := d\<rparr>" "\<exists>r. e' = e\<lparr>e_ready_set := r\<rparr>"
  using assms by (auto simp: mark_topic_dirty_def split: prod.splits)

lemma mark_unless:
  assumes "(if d then (t, e) else mark_topic_dirty t now e) = (t', e')"
  obtains x y where "t' = t\<lparr>t_sched_dirty := x\<rparr>" "e' = e\<lparr>e_ready_set := y\<rparr>"
proof (cases d)
  case True
  then have "t' = t\<lparr>t_sched_dirty := t_sched_dirty t\<rparr>" "e' = e\<lparr>e_ready_set := e_ready_set e\<rparr>"
    using assms by simp_all
  then show ?thesis by (rule that)
next
  case False
  then show ?thesis
    using assms mark_topic_dirty_spec[of t now e t' e'] that by (metis (full_types))
qed

lemma ready_set_upd [simp]:
  "engine_ok (e\<lparr>e_ready_set := r\<rparr>) = engine_ok e" "get_topic n (e\<lparr>e_ready_set := r\<rparr>) = get_topic n e"
  "put_state t (e\<lparr>e_ready_set := r\<rparr>) = (put_state t e)\<lparr>e_ready_set := r\<rparr>" "quota_step t e t' (e'\<lparr>e_ready_set := r\<rparr>) = quota_step t e t' e'"
  by (simp_all add: engine_ok_def get_topic_def put_state_def quota_step_def)

text \<open>The engine after a request on one topic.\<close>

definition only_topic :: "string \<Rightarrow> engine \<Rightarrow> engine \<Rightarrow> bool" where
  "only_topic name e e' \<longleftrightarrow> (\<forall>m. m \<noteq> name \<longrightarrow> get_topic m e' = get_topic m e)"

definition write_published :: "string \<Rightarrow> stored_record list \<Rightarrow> engine \<Rightarrow> engine \<Rightarrow> bool" where
  "write_published name stored e e' \<longleftrightarrow> (\<exists>t'. get_topic name e' = Some t' \<and> t_head_seq t' = next_of name e + length stored - 1 \<and>
     view t' = above_floor t' (log_of name e @ zip [next_of name e..<next_of name e + length stored] (map erase stored)))"

definition log_trimmed :: "string \<Rightarrow> engine \<Rightarrow> engine \<Rightarrow> bool" where
  "log_trimmed name e e' \<longleftrightarrow>
     (case get_topic name e' of None \<Rightarrow> log_of name e = [] | Some t' \<Rightarrow> view t' = above_floor t' (log_of name e))"

lemma upt_first: "0 < n \<Longrightarrow> (case [a..<a + n] of s # _ \<Rightarrow> s | [] \<Rightarrow> 0) = a"
  by (simp add: upt_conv_Cons)

lemma kept_view_room: "engine_ok e \<Longrightarrow> engine_room e \<Longrightarrow> get_topic n e = Some t \<Longrightarrow> above_floor t (view t) = view t"
  using engine_roomD[of e n t] by (intro kept_view) (auto simp: topic_roomD(1) engine_ok_topic(1))

lemma write_answer_fields [simp]:
  "wp_first_seq (write_answer rs seqs head created d) = (case seqs of s # _ \<Rightarrow> s | [] \<Rightarrow> 0)"
  "wp_last_seq (write_answer rs seqs head created d) = (if seqs = [] then 0 else last seqs)"
  "wp_head_seq (write_answer rs seqs head created d) = head" "wp_count (write_answer rs seqs head created d) = length seqs"
  "wp_created (write_answer rs seqs head created d) = created" "wp_deduped (write_answer rs seqs head created d) = d"
  by (simp_all add: write_answer_def)

lemma engine_write_cases:
  assumes "engine_write env name req return_seqs now e = (res, e')"
  obtains (bad) err where "check_write env req now = Inl err" "res = Inl err" "e' = e"
  | (unresolved) stored err where "check_write env req now = Inr stored"
      "resolve_topic env name (wq_create req) (wq_config req) now e = (Inl err, e')" "res = Inl err"
  | (failed) stored t created e1 err t' e2 where "check_write env req now = Inr stored"
      "resolve_topic env name (wq_create req) (wq_config req) now e = (Inr (t, created), e1)"
      "write_topic env (wq_idempotency_key req) stored now t e1 = (Inl err, t', e2)" "res = Inl err" "e' = put_state t' e2"
  | (complete) stored t created e1 seqs head d t' e2 t3 e3 where "check_write env req now = Inr stored"
      "resolve_topic env name (wq_create req) (wq_config req) now e = (Inr (t, created), e1)"
      "write_topic env (wq_idempotency_key req) stored now t e1 = (Inr (seqs, head, d), t', e2)"
      "(if d then (t', e2) else mark_topic_dirty t' now e2) = (t3, e3)" "e' = put_state t3 e3"
      "res = Inr (write_answer return_seqs seqs head (created \<and> \<not> d) d)"
proof (cases "check_write env req now")
  case (Inl err)
  then show ?thesis
    using assms bad by (simp add: engine_write_def)
next
  case (Inr stored)
  obtain r1 e1 where r1: "resolve_topic env name (wq_create req) (wq_config req) now e = (r1, e1)" by fastforce
  show ?thesis
  proof (cases r1)
    case (Inl err)
    then show ?thesis
      using assms unresolved Inr r1 by (simp add: engine_write_def)
  next
    case (Inr x)
    obtain t created where x: "x = (t, created)" by fastforce
    obtain r2 t' e2 where w: "write_topic env (wq_idempotency_key req) stored now t e1 = (r2, t', e2)" by (metis prod_cases3)
    show ?thesis
    proof (cases r2)
      case Inl
      then show ?thesis
        using assms failed \<open>check_write env req now = Inr stored\<close> r1 \<open>r1 = Inr x\<close> x w by (simp add: engine_write_def)
    next
      case (Inr y)
      obtain seqs head d where y: "y = (seqs, head, d)" by (metis prod_cases3)
      obtain t3 e3 where m: "(if d then (t', e2) else mark_topic_dirty t' now e2) = (t3, e3)" by fastforce
      show ?thesis
        using assms complete[OF \<open>check_write env req now = Inr stored\<close> r1[unfolded \<open>r1 = Inr x\<close> x] w[unfolded Inr y] m]
          \<open>check_write env req now = Inr stored\<close> r1 \<open>r1 = Inr x\<close> x w Inr y m by (simp add: engine_write_def)
    qed
  qed
qed

lemma engine_write_ok:
  assumes ok: "engine_ok e" and room: "engine_room e" and out: "engine_write env name req return_seqs now e = (res, e')"
  shows "engine_ok e'" "only_topic name e e'"
    "res = Inr resp \<Longrightarrow> \<not> wp_deduped resp \<Longrightarrow> check_write env req now = Inr stored \<Longrightarrow>
       write_published name stored e e' \<and> wp_first_seq resp = next_of name e \<and> wp_last_seq resp = next_of name e + length stored - 1 \<and>
       wp_head_seq resp = wp_last_seq resp \<and> wp_count resp = length stored \<and> (wp_created resp \<longleftrightarrow> get_topic name e = None)"
    "res = Inl err \<Longrightarrow> log_trimmed name e e' \<or> (\<exists>stored. check_write env req now = Inr stored \<and> write_published name stored e e')"
    "res = Inr resp \<Longrightarrow> \<not> wp_deduped resp \<Longrightarrow> \<exists>t' seqs. get_topic name e' = Some t' \<and>
       recorded (wq_idempotency_key req) seqs (wp_head_seq resp) now t' \<and>
       resp = write_answer return_seqs seqs (wp_head_seq resp) (wp_created resp) False"
proof -
  have "engine_ok e' \<and> only_topic name e e' \<and>
    (\<forall>resp stored. res = Inr resp \<and> \<not> wp_deduped resp \<and> check_write env req now = Inr stored \<longrightarrow>
       write_published name stored e e' \<and> wp_first_seq resp = next_of name e \<and> wp_last_seq resp = next_of name e + length stored - 1 \<and>
       wp_head_seq resp = wp_last_seq resp \<and> wp_count resp = length stored \<and> (wp_created resp \<longleftrightarrow> get_topic name e = None)) \<and>
    (\<forall>err. res = Inl err \<longrightarrow>
       log_trimmed name e e' \<or> (\<exists>stored. check_write env req now = Inr stored \<and> write_published name stored e e')) \<and>
    (\<forall>resp. res = Inr resp \<and> \<not> wp_deduped resp \<longrightarrow> (\<exists>t' seqs. get_topic name e' = Some t' \<and>
       recorded (wq_idempotency_key req) seqs (wp_head_seq resp) now t' \<and>
       resp = write_answer return_seqs seqs (wp_head_seq resp) (wp_created resp) False))"
  proof -
    have mid: "engine_ok (put_state t' e2) \<and> only_topic name e (put_state t' e2) \<and> get_topic name (put_state t' e2) = Some t' \<and>
        engine_ok (put_state (t'\<lparr>t_sched_dirty := x\<rparr>) e2) \<and> only_topic name e (put_state (t'\<lparr>t_sched_dirty := x\<rparr>) e2) \<and>
        get_topic name (put_state (t'\<lparr>t_sched_dirty := x\<rparr>) e2) = Some (t'\<lparr>t_sched_dirty := x\<rparr>) \<and>
        view t = log_of name e \<and> tail t = next_of name e \<and> (created \<longleftrightarrow> get_topic name e = None) \<and>
        (\<forall>seqs head. r = Inr (seqs, head, False) \<longrightarrow> seqs = [tail t..<tail t + length stored] \<and>
           head = tail t + length stored - 1 \<and> wrote t stored t' \<and> stored \<noteq> [] \<and>
           recorded (wq_idempotency_key req) seqs head now t') \<and>
        (\<forall>err. r = Inl err \<longrightarrow> trims t t' \<or> wrote t stored t')"
      if chk: "check_write env req now = Inr stored"
        and r1: "resolve_topic env name (wq_create req) (wq_config req) now e = (Inr (t, created), e1)"
        and w: "write_topic env (wq_idempotency_key req) stored now t e1 = (r, t', e2)" for stored t created e1 r t' e2 x
    proof -
      note c = check_write_ok[OF chk] and q = resolve_topic_ok[OF ok room r1]
      have t: "get_topic name e1 = Some t" and rm: "topic_room t" "quota e1 < u64_max"
        and vt: "view t = log_of name e" "tail t = next_of name e" "created \<longleftrightarrow> get_topic name e = None"
        using q(3) by auto
      note tk = engine_ok_topic[OF q(1) t]
      have bounds: "t_bytes_retained t + slot_bytes stored \<le> u64_max" "tail t + length stored \<le> u64_max"
        using topic_roomD[OF rm(1)] c(2,5) by simp_all
      note s = write_topic_ok[OF tk(1,4) c(4,1) bounds rm(2) w]
      have id: "t_name t' = t_name t" "t_topic_id t' = t_topic_id t"
        using s(2) by (simp_all add: same_topic_def)
      note p = put_state_ok[OF q(1) t s(1) id s(3,4)]
      have p': "engine_ok (put_state (t'\<lparr>t_sched_dirty := x\<rparr>) e2)" "m \<noteq> name \<Longrightarrow> get_topic m (put_state (t'\<lparr>t_sched_dirty := x\<rparr>) e2) = get_topic m e1"
          "get_topic name (put_state (t'\<lparr>t_sched_dirty := x\<rparr>) e2) = Some (t'\<lparr>t_sched_dirty := x\<rparr>)" for m
        using put_state_ok[OF q(1) t _ _ _ s(3), of "t'\<lparr>t_sched_dirty := x\<rparr>"] s(1,4) id by simp_all
      have "only_topic name e (put_state t' e2)" "only_topic name e (put_state (t'\<lparr>t_sched_dirty := x\<rparr>) e2)"
        using p(3) p'(2) q(2) by (simp_all add: only_topic_def)
      then show ?thesis
        using p(1,2) p'(1,3) s(5,7) vt c(1) by blast
    qed
    show ?thesis
      using out
    proof (cases rule: engine_write_cases)
      case bad
      then show ?thesis
        using ok kept_view_room[OF ok room, of name] by (auto simp: only_topic_def log_trimmed_def log_of_def split: option.split)
    next
      case (unresolved stored err)
      then show ?thesis
        using resolve_topic_ok[OF ok room unresolved(2)] by (auto simp: only_topic_def log_trimmed_def log_of_def)
    next
      case (failed stored t created e1 err t' e2)
      then show ?thesis
        using mid[OF failed(1,2,3), of True] by (auto simp: trims_def wrote_def log_trimmed_def write_published_def)
    next
      case (complete stored t created e1 seqs head d t' e2 t3 e3)
      obtain x y where xy: "t3 = t'\<lparr>t_sched_dirty := x\<rparr>" "e3 = e2\<lparr>e_ready_set := y\<rparr>"
        using complete(4) by (rule mark_unless)
      have m: "engine_ok e' \<and> only_topic name e e' \<and> get_topic name e' = Some t3"
        using mid[OF complete(1,2,3), of x] by (simp add: complete(5) xy only_topic_def)
      have k: "write_published name stored e e' \<and> seqs = [next_of name e..<next_of name e + length stored] \<and> stored \<noteq> [] \<and>
          head = next_of name e + length stored - 1 \<and> (created \<longleftrightarrow> get_topic name e = None) \<and>
          recorded (wq_idempotency_key req) seqs head now t3" if "\<not> d"
        using mid[OF complete(1,2,3), of True] m that by (simp add: xy write_published_def wrote_def above_floor_def recorded_def)
      show ?thesis
      proof (cases d)
        case True
        then show ?thesis
          using m complete(6) by simp
      next
        case False
        have "recorded (wq_idempotency_key req) seqs head now t3 \<and> write_answer return_seqs seqs head created False =
            write_answer return_seqs seqs head created False"
          using k[OF False] by blast
        then show ?thesis
          using m k[OF False] complete(1,6) False by (simp add: upt_first last_upt) blast
      qed
    qed
  qed
  then show "engine_ok e'" "only_topic name e e'"
    "res = Inr resp \<Longrightarrow> \<not> wp_deduped resp \<Longrightarrow> check_write env req now = Inr stored \<Longrightarrow>
       write_published name stored e e' \<and> wp_first_seq resp = next_of name e \<and> wp_last_seq resp = next_of name e + length stored - 1 \<and>
       wp_head_seq resp = wp_last_seq resp \<and> wp_count resp = length stored \<and> (wp_created resp \<longleftrightarrow> get_topic name e = None)"
    "res = Inl err \<Longrightarrow> log_trimmed name e e' \<or> (\<exists>stored. check_write env req now = Inr stored \<and> write_published name stored e e')"
    "res = Inr resp \<Longrightarrow> \<not> wp_deduped resp \<Longrightarrow> \<exists>t' seqs. get_topic name e' = Some t' \<and>
       recorded (wq_idempotency_key req) seqs (wp_head_seq resp) now t' \<and>
       resp = write_answer return_seqs seqs (wp_head_seq resp) (wp_created resp) False"
    by blast+
qed

section \<open>Retries\<close>

lemma map_of_filter_hit: "map_of xs k = Some v \<Longrightarrow> P (k, v) \<Longrightarrow> map_of (filter P xs) k = Some v"
  by (induction xs) (auto split: if_splits)

text \<open>The entry of a key is still in force.\<close>

definition in_window :: "i64 \<Rightarrow> i64 \<Rightarrow> string \<Rightarrow> engine \<Rightarrow> bool" where
  "in_window created now name e =
     (case get_topic name e of
        Some t \<Rightarrow> i64_sat_sub now created \<le> as_i64 (cfg_idempotency_window_ms (t_config t))
      | None \<Rightarrow> False)"

lemma engine_write_retry:
  assumes ok: "engine_ok e" and room: "engine_room e" and key: "wq_idempotency_key req = Some k" "wq_idempotency_key req' = Some k"
    and out: "engine_write env name req rs now e = (Inr resp, e1)" "\<not> wp_deduped resp"
    and chk: "check_write env req' now' = Inr stored'" and win: "in_window now now' name e1"
  shows "\<exists>e2. engine_write env name req' rs now' e1 = (Inr (resp\<lparr>wp_created := False, wp_deduped := True\<rparr>), e2) \<and>
    log_of name e2 = log_of name e1 \<and> only_topic name e1 e2 \<and> e_wal e2 = e_wal e1"
proof -
  obtain t1 seqs where t1: "get_topic name e1 = Some t1" and rec: "map_of (t_dedupe t1) k = Some \<lparr>de_seqs = seqs, de_head_seq = wp_head_seq resp, de_created_ms = now\<rparr>"
    and resp: "resp = write_answer rs seqs (wp_head_seq resp) (wp_created resp) False"
    using engine_write_ok(5)[OF ok room out(1) refl out(2)] key(1) by (auto simp: recorded_def)
  have ok1: "engine_ok e1"
    by (rule engine_write_ok(1)[OF ok room out(1)])
  let ?t = "prune_dedupe now' t1"
  have "map_of (t_dedupe ?t) k = Some \<lparr>de_seqs = seqs, de_head_seq = wp_head_seq resp, de_created_ms = now\<rparr>"
    using win t1 unfolding prune_dedupe_def in_window_def by (auto intro!: map_of_filter_hit rec)
  then have w: "write_topic env (Some k) stored' now' t1 e1 = (Inr (seqs, wp_head_seq resp, True), ?t, e1)"
    by (simp add: write_topic_def dedupe_check_def Let_def)
  have e2: "engine_write env name req' rs now' e1 = (Inr (write_answer rs seqs (wp_head_seq resp) False True), put_state ?t e1)"
    by (simp add: engine_write_def chk resolve_topic_def t1 key(2) w)
  have "resp\<lparr>wp_created := False, wp_deduped := True\<rparr> = write_answer rs seqs (wp_head_seq resp) False True"
    by (subst resp) (simp add: write_answer_def)
  moreover have "log_of name (put_state ?t e1) = log_of name e1 \<and> only_topic name e1 (put_state ?t e1) \<and> e_wal (put_state ?t e1) = e_wal e1"
    using put_state_ok(2,3)[OF ok1 t1, of ?t e1] engine_ok_topic(1)[OF ok1 t1] t1
    by (auto simp: log_of_def only_topic_def prune_dedupe_def) (simp add: put_state_def)
  ultimately show ?thesis
    using e2 by auto
qed

section \<open>What a delete does to the engine\<close>

lemma log_delete_frame:
  assumes "log_delete env t before sel bound now e = (res, e')"
  shows "engine_frame e e'" "e_total_bytes_live e' = e_total_bytes_live e"
  using assms by (auto simp: log_delete_def engine_frame_def split: option.splits prod.splits sum.splits if_splits)

text \<open>The readable log after a delete: retention first, then the selected records and no others.\<close>

definition log_deleted :: "string \<Rightarrow> seq option \<Rightarrow> tag_filter option \<Rightarrow> engine \<Rightarrow> engine \<Rightarrow> bool" where
  "log_deleted name before sel e e' \<longleftrightarrow> (\<exists>tr head. (case get_topic name e of Some t \<Rightarrow> t_head_seq t = head | None \<Rightarrow> False) \<and>
     log_of name e' =
       filter (\<lambda>x. \<not> selected sel (case before of Some b \<Rightarrow> min b (head + 1) | None \<Rightarrow> head + 1) x) (above_floor tr (log_of name e)))"

lemma delete_after_trim:
  assumes ok: "topic_ok t1" and h: "tail t1 \<le> u64_max" and tr: "trims t t1" and id1: "t_seq_base t1 = t_seq_base t" "t_head_seq t1 = t_head_seq t"
    and d: "apply_delete_stats before sel (Some (sat_add (t_head_seq t1) 1)) now t1 = (t3, st)"
  shows "\<exists>tr. view t3 = filter (\<lambda>x. \<not> selected sel (case before of Some b \<Rightarrow> min b (t_head_seq t + 1) | None \<Rightarrow> t_head_seq t + 1) x) (above_floor tr (view t))"
proof -
  have h1: "t_head_seq t1 < u64_max"
    using topic_okD(5)[OF ok] h by simp
  have pit: "pit_bound (Some (sat_add (t_head_seq t1) 1)) t1 \<le> Suc (t_head_seq t1)"
    by (simp add: pit_bound_def sat_add_def)
  obtain t2 ra where ret: "enforce_retention now t1 = (t2, ra)" by fastforce
  note r = enforce_retention_hardenedD[OF ret]
  have tr2: "trims t1 t2"
    by (rule enforce_retention_trims[OF ok h r])
  have "floor_earliest t1 \<le> floor_earliest t2"
    using enforce_retention_fields(2,4)[OF topic_okD(1)[OF ok] r] by (intro trims_floor[OF tr2]) simp_all
  then have "view t2 = above_floor t2 (view t)"
    using tr tr2 by (simp add: trims_def kept_kept)
  moreover have "delete_bound before (Some (sat_add (t_head_seq t1) 1)) t1 = (case before of Some b \<Rightarrow> min b (t_head_seq t + 1) | None \<Rightarrow> t_head_seq t + 1)"
    using h1 id1(2) by (simp add: delete_bound_def pit_bound_def sat_add_def split: option.split)
  ultimately show ?thesis
    using apply_delete_spec(2)[OF topic_okD(1)[OF ok] h1 pit ret d] by auto
qed

lemma engine_delete_ok:
  assumes ok: "engine_ok e" and room: "engine_room e" and out: "engine_delete env name before sel now e = (res, e')"
  shows "engine_ok e'" "only_topic name e e'" "res = Inr resp \<Longrightarrow> log_deleted name before sel e e'" "res = Inl err \<Longrightarrow> log_trimmed name e e'"
proof -
  have "engine_ok e' \<and> only_topic name e e' \<and> (\<forall>resp. res = Inr resp \<longrightarrow> log_deleted name before sel e e') \<and>
      (\<forall>err. res = Inl err \<longrightarrow> log_trimmed name e e')"
  proof (cases "(before = None \<and> sel = None) \<or> get_topic name e = None")
    case True
    then have "e' = e \<and> (\<exists>err. res = Inl err)"
      using out by (auto simp: engine_delete_def split: if_splits)
    then show ?thesis
      using ok kept_view_room[OF ok room, of name] by (auto simp: only_topic_def log_trimmed_def log_of_def split: option.split)
  next
    case False
    then obtain t where t: "get_topic name e = Some t" by auto
    note tk = engine_ok_topic[OF ok t]
    have tl: "tail t \<le> u64_max"
      using engine_roomD[OF room t] by (simp add: topic_roomD(1))
    obtain r1 t1 e1 where r: "enforce_retention_durable env t now e = (r1, t1, e1)" by (metis prod_cases3)
    note f = enforce_retention_durable_ok(1-6)[OF tk(1,4) r] and tr = enforce_retention_durable_trims[OF tk(1) tl r]
    have h1: "t_head_seq t1 < u64_max" "tail t1 \<le> u64_max"
      using f(3) topic_okD(5)[OF f(1)] tl by simp_all
    let ?b = "sat_add (t_head_seq t1) 1"
    obtain r2 e2 where l: "log_delete env t1 before sel ?b now e1 = (r2, e2)" by fastforce
    obtain t3 st where d: "apply_delete_stats before sel (Some ?b) now t1 = (t3, st)" by fastforce
    have pit: "pit_bound (Some ?b) t1 \<le> Suc (t_head_seq t1)"
      by (simp add: pit_bound_def sat_add_def)
    note a = apply_delete_ok[OF f(1) h1(1) pit d]
    have e2: "engine_frame e e2" "quota_step t e t1 e2"
      using engine_frame_trans[OF f(5) log_delete_frame(1)[OF l]] quota_step_trans[OF f(6) quota_step_same[OF log_delete_frame(2)[OF l] refl]]
        engine_frame_limits[OF f(5)] by simp_all
    have c2: "covered t1 e2"
      using quota_step_covered[OF e2(2) engine_frame_limits[OF e2(1)] tk(4)] .
    have e3: "engine_frame e (release_total_bytes (ds_bytes_freed st) e2)" "quota_step t e t3 (release_total_bytes (ds_bytes_freed st) e2)"
      using engine_frame_trans[OF e2(1) release_frame] quota_step_trans[OF e2(2) release_quota[OF a(4) c2]] engine_frame_limits[OF e2(1)] by simp_all
    have v3: "\<exists>tr. view t3 = filter (\<lambda>x. \<not> selected sel (case before of Some b \<Rightarrow> min b (t_head_seq t + 1) | None \<Rightarrow> t_head_seq t + 1) x) (above_floor tr (view t))"
      using f(2) by (intro delete_after_trim[OF f(1) h1(2) tr _ f(4) d]) (simp add: same_id_def)
    consider err where "e' = put_state t1 e1" "res = Inl err" | err where "e' = put_state t1 e2" "res = Inl err"
      | resp where "e' = put_state t3 (release_total_bytes (ds_bytes_freed st) e2)" "res = Inr resp"
      using out False t r l d by (auto simp: engine_delete_def Let_def split: sum.splits)
    then show ?thesis
    proof cases
      case 1
      then show ?thesis
        using put_state_frame[OF ok t f(1,2,5,6)] tr t by (simp add: only_topic_def log_trimmed_def log_of_def trims_def)
    next
      case 2
      then show ?thesis
        using put_state_frame[OF ok t f(1,2) e2] tr t by (simp add: only_topic_def log_trimmed_def log_of_def trims_def)
    next
      case 3
      note p = put_state_frame[OF ok t a(1) same_id_trans[OF f(2) a(2)] e3]
      have "log_deleted name before sel e e'"
        using v3 p(2) t by (simp add: log_deleted_def log_of_def 3(1))
      then show ?thesis
        using p 3 by (simp add: only_topic_def)
    qed
  qed
  then show "engine_ok e'" "only_topic name e e'" "res = Inr resp \<Longrightarrow> log_deleted name before sel e e'" "res = Inl err \<Longrightarrow> log_trimmed name e e'"
    by simp_all
qed

end
