(* ===== verification/Router_Forward.thy ===== *)
theory Router_Forward
  imports Engine_Write
begin

text \<open>
  Forwarding along routers (\<open>engine/mod.rs\<close>): one bounded pass of a router, the catch-up before a
  read, the background drain, and the control plane of routers. A destination record is derived
  from the source log, so a pass appends without a log frame and moves the router's cursor only
  over what it has consumed.
\<close>

section \<open>Provenance of a forwarded record\<close>

definition MAX_ROUTER_HOPS :: nat where
  "MAX_ROUTER_HOPS = 8"

definition ROUTER_BATCH :: nat where
  "ROUTER_BATCH = 1024"

definition ROUTER_META_KEY :: string where
  "ROUTER_META_KEY = ''_topics_router''"

definition digit :: "nat \<Rightarrow> char" where
  "digit d = char_of (48 + d)"

fun decimal :: "nat \<Rightarrow> string" where
  "decimal n = (if n < 10 then [digit n] else decimal (n div 10) @ [digit (n mod 10)])"

declare decimal.simps [simp del]

definition router_idempotency_key :: "router \<Rightarrow> topic_state \<Rightarrow> seq \<Rightarrow> string" where
  "router_idempotency_key r source s =
     ''router:'' @ r_name r @ '':'' @ decimal (t_topic_id source) @ '':'' @ decimal (t_epoch source) @ '':'' @ decimal s"

definition router_meta :: "string \<Rightarrow> router \<Rightarrow> topic_state \<Rightarrow> seq \<Rightarrow> json" where
  "router_meta key r source s =
     JObject (fold (\<lambda>(k, v). bt_insert k v)
       [(''idempotency_key'', JString key), (''router'', JString (r_name r)), (''source_topic'', JString (t_name source)),
        (''source_topic_id'', JNumber (decimal (t_topic_id source))), (''source_epoch'', JNumber (decimal (t_epoch source))),
        (''source_seq'', JNumber (decimal s))] [])"

definition with_router_idempotency_meta ::
  "json option \<Rightarrow> string \<Rightarrow> router \<Rightarrow> topic_state \<Rightarrow> seq \<Rightarrow> json option" where
  "with_router_idempotency_meta meta key r source s =
     (let rm = router_meta key r source s in
      case meta of
        Some (JObject obj) \<Rightarrow>
          if map_of obj ROUTER_META_KEY \<noteq> None \<or> length obj < MAX_META_KEYS
          then Some (JObject (bt_insert ROUTER_META_KEY rm obj))
          else Some (JObject (bt_insert ''_topics_original_meta'' (JObject obj) (bt_insert ROUTER_META_KEY rm [])))
      | Some v \<Rightarrow> Some (JObject (bt_insert ''_topics_original_meta'' v (bt_insert ROUTER_META_KEY rm [])))
      | None \<Rightarrow> Some (JObject (bt_insert ROUTER_META_KEY rm [])))"

definition object_get :: "json \<Rightarrow> string \<Rightarrow> json option" where
  "object_get v k = (case v of JObject obj \<Rightarrow> map_of obj k | _ \<Rightarrow> None)"

definition router_meta_idempotency_key :: "json option \<Rightarrow> string option" where
  "router_meta_idempotency_key meta =
     do { m \<leftarrow> meta; rm \<leftarrow> object_get m ROUTER_META_KEY; k \<leftarrow> object_get rm ''idempotency_key'';
          (case k of JString s \<Rightarrow> Some s | _ \<Rightarrow> None) }"

fun collect_keys :: "env \<Rightarrow> seq list \<Rightarrow> topic_state \<Rightarrow> string list \<times> topic_state" where
  "collect_keys env [] dest = ([], dest)"
| "collect_keys env (s # ss) dest =
     (let (slot, dest) = (case forward_lookup env s dest of (dest, slot) \<Rightarrow> (slot, dest));
          (ks, dest) = collect_keys env ss dest
      in case slot of
           Some (rec, True) \<Rightarrow> (case router_meta_idempotency_key (sr_meta rec) of Some k \<Rightarrow> (k # ks, dest) | None \<Rightarrow> (ks, dest))
         | _ \<Rightarrow> (ks, dest))"

definition router_dest_idempotency_keys :: "env \<Rightarrow> topic_state \<Rightarrow> string list \<times> topic_state" where
  "router_dest_idempotency_keys env dest = collect_keys env [earliest_seq dest..<Suc (t_head_seq dest)] dest"

section \<open>One pass of a router\<close>

text \<open>What the pass does with one live source record.\<close>

datatype forward_step = Consume | Present | Defer | Send stored_record

definition tag_passes :: "router \<Rightarrow> stored_record \<Rightarrow> bool" where
  "tag_passes r rec =
     (case r_filter r of
        None \<Rightarrow> True
      | Some f \<Rightarrow> (case sr_tag rec of Some tag \<Rightarrow> filter_matches f tag | None \<Rightarrow> False))"

definition forward_record ::
  "env \<Rightarrow> router \<Rightarrow> topic_state \<Rightarrow> string list \<Rightarrow> i64 \<Rightarrow> seq \<Rightarrow> stored_record \<Rightarrow> forward_step" where
  "forward_record env r source keys now s rec =
     (if sr_hops rec \<ge> MAX_ROUTER_HOPS then Consume
      else if \<not> tag_passes r rec then Consume
      else
        let fwd_node = (if r_preserve_node r then sr_node rec else None);
            fwd_tag = (if r_preserve_tag r then sr_tag rec else None);
            once = (r_guarantee r = ExactlyOnce);
            key = router_idempotency_key r source s
        in if once \<and> key \<in> set keys then Present
           else
             let meta = (if once then with_router_idempotency_meta (sr_meta rec) key r source s else sr_meta rec)
             in case build_stored_owned env (sr_data rec) fwd_tag fwd_node meta now of
                  Inl _ \<Rightarrow> if once then Defer else Consume
                | Inr sr \<Rightarrow> Send (sr\<lparr>sr_hops := min 255 (sr_hops rec + 1)\<rparr>))"

record forward_acc =
  fa_append :: "stored_record list"
  fa_consumed :: nat
  fa_forwarded :: nat
  fa_deferred :: bool

definition acc_new :: forward_acc where
  "acc_new = \<lparr>fa_append = [], fa_consumed = 0, fa_forwarded = 0, fa_deferred = False\<rparr>"

definition consume :: "forward_acc \<Rightarrow> forward_acc" where
  "consume a = a\<lparr>fa_consumed := fa_consumed a + 1\<rparr>"

definition back_pressure :: "topic_state \<Rightarrow> forward_acc \<Rightarrow> stored_record \<Rightarrow> bool" where
  "back_pressure dest a sr =
     (let cfg = t_config dest in
      cfg_discard cfg = Reject \<and>
      admit Reject (cfg_cap_records cfg) (cfg_cap_bytes cfg) (t_live_count dest + length (fa_append a))
        (t_bytes_retained dest + sum_list (map sr_bytes (fa_append a))) 1 (sr_bytes sr) = AdmitReject)"

fun forward_walk ::
  "env \<Rightarrow> router \<Rightarrow> topic_state \<Rightarrow> string list \<Rightarrow> i64 \<Rightarrow> seq list \<Rightarrow> forward_acc \<Rightarrow> topic_state \<Rightarrow> forward_acc \<times> topic_state" where
  "forward_walk env r dest keys now [] a source = (a, source)"
| "forward_walk env r dest keys now (s # ss) a source =
     (case forward_lookup env s source of
        (source, None) \<Rightarrow> forward_walk env r dest keys now ss (consume a) source
      | (source, Some (rec, alive)) \<Rightarrow>
          if \<not> alive then forward_walk env r dest keys now ss (consume a) source
          else (case forward_record env r source keys now s rec of
                  Consume \<Rightarrow> forward_walk env r dest keys now ss (consume a) source
                | Present \<Rightarrow>
                    forward_walk env r dest keys now ss (consume (a\<lparr>fa_forwarded := fa_forwarded a + 1\<rparr>)) source
                | Defer \<Rightarrow> (a\<lparr>fa_deferred := True\<rparr>, source)
                | Send sr \<Rightarrow>
                    if back_pressure dest a sr then (a\<lparr>fa_deferred := True\<rparr>, source)
                    else forward_walk env r dest keys now ss
                           (consume (a\<lparr>fa_append := fa_append a @ [sr], fa_forwarded := fa_forwarded a + 1\<rparr>)) source))"

definition on_topic :: "string \<Rightarrow> (topic_state \<Rightarrow> topic_state) \<Rightarrow> engine \<Rightarrow> engine" where
  "on_topic name f e = (case get_topic name e of Some t \<Rightarrow> put_state (f t) e | None \<Rightarrow> e)"

definition mark_named :: "string \<Rightarrow> i64 \<Rightarrow> engine \<Rightarrow> engine" where
  "mark_named name now e =
     (case get_topic name e of
        Some t \<Rightarrow> let (t, e) = mark_topic_dirty t now e in put_state t e
      | None \<Rightarrow> e)"

text \<open>Retention on a topic of the registry; an error leaves the floor where it was.\<close>

definition retain_named :: "env \<Rightarrow> string \<Rightarrow> i64 \<Rightarrow> engine \<Rightarrow> unit result \<times> engine" where
  "retain_named env name now e =
     (case get_topic name e of
        Some t \<Rightarrow> let (res, t, e) = enforce_retention_durable env t now e in (res, put_state t e)
      | None \<Rightarrow> (Inr (), e))"

text \<open>Source records that are gone become a gap of the destination.\<close>

definition surface_trim :: "env \<Rightarrow> router \<Rightarrow> seq \<Rightarrow> topic_state \<Rightarrow> engine \<Rightarrow> seq \<times> engine" where
  "surface_trim env r cursor source e =
     (let earliest = evict_earliest_seq source in
      if earliest > cursor + 1 then
        let trimmed = (earliest - 1) - cursor;
            e = on_topic (r_dest r) (note_source_trim env ^^ trimmed) e;
            cursor = earliest - 1
        in (cursor, e\<lparr>e_routers := note_forwarded (r_name r) cursor trimmed (set_cursor (r_name r) cursor (e_routers e))\<rparr>)
      else (cursor, e))"

text \<open>The derived append with the steps after it; on failure the cursor stays.\<close>

definition commit_forward :: "env \<Rightarrow> router \<Rightarrow> stored_record list \<Rightarrow> i64 \<Rightarrow> engine \<Rightarrow> bool \<times> engine" where
  "commit_forward env r rs now e =
     (if rs = [] then (True, e)
      else case get_topic (r_dest r) e of
             None \<Rightarrow> (False, e)
           | Some dest \<Rightarrow>
               (case derived_append env dest rs now e of
                  (Inl _, dest, e) \<Rightarrow> (False, mark_named (r_source r) now (put_state dest e))
                | (Inr _, dest, e) \<Rightarrow>
                    (True, mark_named (r_dest r) now (snd (retain_named env (r_dest r) now (put_state dest e))))))"

definition forward_batch :: "env \<Rightarrow> router \<Rightarrow> seq \<Rightarrow> seq \<Rightarrow> i64 \<Rightarrow> engine \<Rightarrow> nat \<times> engine" where
  "forward_batch env r cursor src_head now e =
     (case (get_topic (r_source r) e, get_topic (r_dest r) e) of
        (Some source, Some dest) \<Rightarrow>
          let batch_end = min src_head (cursor + ROUTER_BATCH);
              (keys, dest) = (if r_guarantee r = ExactlyOnce then router_dest_idempotency_keys env dest else ([], dest));
              e = put_state dest e;
              (a, source) = forward_walk env r dest keys now [cursor + 1..<Suc batch_end] acc_new source;
              (ok, e) = commit_forward env r (fa_append a) now (put_state source e)
          in if \<not> ok then (0, e)
             else
               let e = (if fa_consumed a > 0
                        then e\<lparr>e_routers := note_forwarded (r_name r) (cursor + fa_consumed a) (fa_forwarded a) (e_routers e)\<rparr> else e)
               in (fa_consumed a, if fa_deferred a \<or> batch_end < src_head then mark_named (r_source r) now e else e)
      | _ \<Rightarrow> (0, e))"

definition advance_router :: "env \<Rightarrow> string \<Rightarrow> i64 \<Rightarrow> engine \<Rightarrow> nat \<times> engine" where
  "advance_router env name now e =
     (case map_of (rg_routers (e_routers e)) name of
        None \<Rightarrow> (0, e)
      | Some r \<Rightarrow>
          let cursor = router_cursor name (e_routers e) in
          if get_topic (r_source r) e = None \<or> get_topic (r_dest r) e = None then (0, e)
          else
            (case retain_named env (r_source r) now e of
               (Inl _, e) \<Rightarrow> (0, e)
             | (Inr _, e) \<Rightarrow>
                 (case get_topic (r_source r) e of
                    None \<Rightarrow> (0, e)
                  | Some source \<Rightarrow>
                      if cursor \<ge> t_head_seq source then (0, e)
                      else
                        let (cursor, e) = surface_trim env r cursor source e;
                            reject = (case get_topic (r_dest r) e of Some d \<Rightarrow> cfg_discard (t_config d) = Reject | None \<Rightarrow> False)
                        in case (if reject then retain_named env (r_dest r) now e else (Inr (), e)) of
                             (Inl _, e) \<Rightarrow> (0, e)
                           | (Inr _, e) \<Rightarrow> forward_batch env r cursor (t_head_seq source) now e)))"

section \<open>Draining\<close>

definition CATCH_UP_PASSES :: nat where
  "CATCH_UP_PASSES = 1000001"

fun advance_until_idle :: "nat \<Rightarrow> env \<Rightarrow> string \<Rightarrow> i64 \<Rightarrow> engine \<Rightarrow> engine" where
  "advance_until_idle passes env name now e =
     (if passes = 0 then e
      else let (n, e) = advance_router env name now e
           in if n > 0 then advance_until_idle (passes - 1) env name now e else e)"

declare advance_until_idle.simps [simp del]

definition catch_up_dest :: "env \<Rightarrow> string \<Rightarrow> i64 \<Rightarrow> engine \<Rightarrow> engine" where
  "catch_up_dest env dest now e =
     (let feeders = map (\<lambda>(_, r). r_name r) (filter (\<lambda>(_, r). r_dest r = dest) (rg_routers (e_routers e)))
      in fold (\<lambda>name e. advance_until_idle CATCH_UP_PASSES env name now e) feeders e)"

fun advance_all :: "env \<Rightarrow> string list \<Rightarrow> i64 \<Rightarrow> engine \<Rightarrow> nat \<times> engine" where
  "advance_all env [] now e = (0, e)"
| "advance_all env (name # names) now e =
     (let (n, e) = advance_router env name now e; (m, e) = advance_all env names now e in (n + m, e))"

fun drain_topics :: "env \<Rightarrow> string list \<Rightarrow> i64 \<Rightarrow> engine \<Rightarrow> nat \<times> engine" where
  "drain_topics env [] now e = (0, e)"
| "drain_topics env (topic # topics) now e =
     (let (n, e) = advance_all env (map r_name (routers_for_source topic (e_routers e))) now e;
          (m, e) = drain_topics env topics now e
      in (n + m, e))"

definition drain_router_sources :: "env \<Rightarrow> i64 \<Rightarrow> engine \<Rightarrow> nat \<times> engine" where
  "drain_router_sources env now e =
     (let (drained, ready) = drain_order (e_ready_set e);
          e = fold (\<lambda>name. on_topic name (\<lambda>t. t\<lparr>t_sched_dirty := False\<rparr>)) drained (e\<lparr>e_ready_set := ready\<rparr>)
      in drain_topics env drained now e)"

section \<open>The control plane\<close>

record router_create_request =
  rq_source :: string
  rq_dest :: string
  rq_preserve_node :: bool
  rq_preserve_tag :: bool
  rq_create_dest :: bool
  rq_filter :: "tag_filter option"
  rq_allow_cycle :: bool
  rq_guarantee :: router_guarantee

definition create_missing :: "env \<Rightarrow> string \<Rightarrow> i64 \<Rightarrow> engine \<Rightarrow> unit result \<times> engine" where
  "create_missing env name now e =
     (if get_topic name e \<noteq> None then (Inr (), e)
      else case put_topic env name default_config now e of
             (Inl err, e) \<Rightarrow> (Inl err, e)
           | (Inr _, e) \<Rightarrow> (Inr (), e))"

definition ensure_router_topics :: "env \<Rightarrow> router_create_request \<Rightarrow> i64 \<Rightarrow> engine \<Rightarrow> unit result \<times> engine" where
  "ensure_router_topics env req now e =
     (case create_missing env (rq_source req) now e of
        (Inl err, e) \<Rightarrow> (Inl err, e)
      | (Inr _, e) \<Rightarrow> create_missing env (rq_dest req) now e)"

definition fan_in :: "string \<Rightarrow> router_create_request \<Rightarrow> router_graph \<Rightarrow> bool" where
  "fan_in name req g =
     list_ex (\<lambda>rn. rn \<noteq> name \<and>
         (case map_of (rg_routers g) rn of Some r \<Rightarrow> r_dest r = rq_dest req \<and> r_source r \<noteq> rq_source req | None \<Rightarrow> False))
       (routers_touching_topic (rq_dest req) g)"

definition repointed :: "string \<Rightarrow> router_create_request \<Rightarrow> router_graph \<Rightarrow> bool" where
  "repointed name req g =
     (case map_of (rg_routers g) name of
        Some r \<Rightarrow> r_source r \<noteq> rq_source req \<or> r_dest r \<noteq> rq_dest req
      | None \<Rightarrow> False)"

definition request_router :: "string \<Rightarrow> router_create_request \<Rightarrow> router" where
  "request_router name req =
     \<lparr>r_name = name, r_source = rq_source req, r_dest = rq_dest req, r_preserve_node = rq_preserve_node req,
      r_preserve_tag = rq_preserve_tag req, r_create_dest = rq_create_dest req, r_filter = rq_filter req,
      r_allow_cycle = rq_allow_cycle req, r_guarantee = rq_guarantee req\<rparr>"

definition router_frame :: "string \<Rightarrow> router_create_request \<Rightarrow> i64 \<Rightarrow> router_graph \<Rightarrow> wal_record" where
  "router_frame name req now g =
     RouterCreate \<lparr>rop_name = name, rop_source = rq_source req, rop_dest = rq_dest req, rop_preserve_node = rq_preserve_node req,
       rop_preserve_tag = rq_preserve_tag req, rop_create_dest = rq_create_dest req, rop_allow_cycle = rq_allow_cycle req,
       rop_exactly_once = (rq_guarantee req = ExactlyOnce), rop_filter = map_option filter_to_matchsel (rq_filter req),
       rop_initial_cursor = router_cursor name g, rop_initial_dest_base = dest_base name g\<rparr> (as_ts now)"

definition head_or_zero :: "string \<Rightarrow> engine \<Rightarrow> seq" where
  "head_or_zero name e = (case get_topic name e of Some t \<Rightarrow> t_head_seq t | None \<Rightarrow> 0)"

definition map_router_err :: "router_error \<Rightarrow> api_error" where
  "map_router_err err =
     (case err of RouterCycle p \<Rightarrow> CycleError p | RouterThrottled \<Rightarrow> Throttled | RouterInvalid \<Rightarrow> InvalidRequest)"

definition undo_create :: "bool \<Rightarrow> string \<Rightarrow> engine \<Rightarrow> engine" where
  "undo_create created name e = (if created then e\<lparr>e_routers := graph_remove name (e_routers e)\<rparr> else e)"

definition wire_router :: "env \<Rightarrow> string \<Rightarrow> router_create_request \<Rightarrow> bool \<Rightarrow> i64 \<Rightarrow> engine \<Rightarrow> bool result \<times> engine" where
  "wire_router env name req created now e =
     (case ensure_router_topics env req now e of
        (Inl err, e) \<Rightarrow> (Inl err, undo_create created name e)
      | (Inr _, e) \<Rightarrow>
          let e = (if created then e\<lparr>e_routers := seed_dest_base name (head_or_zero (rq_dest req) e) (e_routers e)\<rparr> else e)
          in case wal_commit env (router_frame name req now (e_routers e)) True e of
               (Inl err, e) \<Rightarrow> (Inl err, undo_create created name e)
             | (Inr _, e) \<Rightarrow> (Inr created, e))"

definition put_router :: "env \<Rightarrow> string \<Rightarrow> router_create_request \<Rightarrow> i64 \<Rightarrow> engine \<Rightarrow> bool result \<times> engine" where
  "put_router env name req now e =
     (if \<not> is_valid_router_name name then (Inl InvalidRequest, e)
      else if validate_router (rq_source req) (rq_dest req) \<noteq> None then (Inl InvalidRequest, e)
      else if get_topic (rq_dest req) e = None \<and> \<not> rq_create_dest req then (Inl TopicNotFound, e)
      else if fan_in name req (e_routers e) then (Inl TopicExistsIncompatible, e)
      else if repointed name req (e_routers e) then (Inl TopicExistsIncompatible, e)
      else
        let src_head = head_or_zero (rq_source req) e in
        case upsert_capped (request_router name req) (lim_max_routers (e_limits e)) (e_routers e) of
          Inl err \<Rightarrow> (Inl (map_router_err err), e)
        | Inr (created, g) \<Rightarrow>
            wire_router env name req created now (e\<lparr>e_routers := (if created then note_forwarded name src_head 0 g else g)\<rparr>))"

definition get_router :: "env \<Rightarrow> string \<Rightarrow> i64 \<Rightarrow> engine \<Rightarrow> (router \<times> nat) result \<times> engine" where
  "get_router env name now e =
     (let e = advance_until_idle CATCH_UP_PASSES env name now e
      in case map_of (rg_routers (e_routers e)) name of
           None \<Rightarrow> (Inl RouterNotFound, e)
         | Some r \<Rightarrow> (Inr (r, forwarded_total name (e_routers e)), e))"

definition router_endpoints :: "string \<Rightarrow> engine \<Rightarrow> (string \<times> string) option" where
  "router_endpoints name e = map_option (\<lambda>r. (r_source r, r_dest r)) (map_of (rg_routers (e_routers e)) name)"

definition delete_router :: "env \<Rightarrow> string \<Rightarrow> i64 \<Rightarrow> engine \<Rightarrow> bool result \<times> engine" where
  "delete_router env name now e =
     (if map_of (rg_routers (e_routers e)) name = None then (Inr False, e)
      else case wal_commit env (RouterDelete name (as_ts now)) True e of
             (Inl err, e) \<Rightarrow> (Inl err, e)
           | (Inr _, e) \<Rightarrow> (Inr True, e\<lparr>e_routers := graph_remove name (e_routers e)\<rparr>))"

section \<open>The walk over the source\<close>

lemma segwriter_upd [simp]:
  "t_segwriter_update (\<lambda>_. w) (t_segwriter_update (\<lambda>_. v) t) = t\<lparr>t_segwriter := w\<rparr>"
  "router_idempotency_key r (t\<lparr>t_segwriter := w\<rparr>) s = router_idempotency_key r t s"
  "with_router_idempotency_meta m k r (t\<lparr>t_segwriter := w\<rparr>) s = with_router_idempotency_meta m k r t s"
  by (simp_all add: router_idempotency_key_def with_router_idempotency_meta_def router_meta_def)

lemma forward_record_segwriter [simp]:
  "forward_record env r (t\<lparr>t_segwriter := w\<rparr>) keys now s rec = forward_record env r t keys now s rec"
  by (simp add: forward_record_def Let_def)

lemma topic_sim_segwriter [simp]: "topic_sim t (t\<lparr>t_segwriter := w\<rparr>)"
  by (simp add: topic_sim_def)

lemma resolve_payload_segwriter: "\<exists>w. fst (resolve_payload env s r t) = t\<lparr>t_segwriter := w\<rparr>"
proof -
  have "\<exists>w. t = t\<lparr>t_segwriter := w\<rparr>"
    by (rule exI[of _ "t_segwriter t"]) simp
  then show ?thesis
    by (auto simp: resolve_payload_def split: option.splits sealed_resolve.splits)
qed

lemma forward_lookup_segwriter: "\<exists>w. fst (forward_lookup env s t) = t\<lparr>t_segwriter := w\<rparr>"
proof -
  have "\<exists>w. t = t\<lparr>t_segwriter := w\<rparr>"
    by (rule exI[of _ "t_segwriter t"]) simp
  then show ?thesis
    using resolve_payload_segwriter[of env s _ t] by (auto simp: forward_lookup_def Let_def split_beta split: option.splits)
qed

lemma forward_lookup_slot:
  assumes "forward_lookup env s t = (t', Some (rec, alive))"
  shows "alive = is_live (t_index t) s" "erase rec = erase (records (t_index t) ! (s - base_seq (t_index t)))"
  using assms by (auto simp: forward_lookup_def is_live_def erase_def ix_get_def Let_def split: option.splits if_splits prod.splits)

lemma forward_lookup_None: "forward_lookup env s t = (t', None) \<Longrightarrow> \<not> is_live (t_index t) s"
  by (auto simp: forward_lookup_def is_live_def Let_def split: option.splits if_splits prod.splits)

text \<open>A live source record as a pass reads it, its payload taken from memory or from its segment.\<close>

definition looked_up :: "env \<Rightarrow> topic_state \<Rightarrow> seq \<times> stored_record \<Rightarrow> bool" where
  "looked_up env source = (\<lambda>(s, rec). \<exists>w. snd (forward_lookup env s (source\<lparr>t_segwriter := w\<rparr>)) = Some (rec, True))"

definition sent :: "env \<Rightarrow> router \<Rightarrow> topic_state \<Rightarrow> string list \<Rightarrow> i64 \<Rightarrow> (seq \<times> stored_record) list \<Rightarrow> stored_record list" where
  "sent env r source keys now recs =
     concat (map (\<lambda>(s, rec). case forward_record env r source keys now s rec of Send sr \<Rightarrow> [sr] | _ \<Rightarrow> []) recs)"

lemma sent_simps [simp]:
  "sent env r source keys now [] = []"
  "sent env r source keys now ((s, rec) # recs) =
     (case forward_record env r source keys now s rec of Send sr \<Rightarrow> sr # sent env r source keys now recs | _ \<Rightarrow> sent env r source keys now recs)"
  by (simp_all add: sent_def split: forward_step.split)

lemma forward_record_ok:
  "forward_record env r source keys now s rec = Send sr \<Longrightarrow> \<not> sr_deleted sr \<and> sr_bytes sr \<le> MAX_RECORD_BYTES \<and> 0 < sr_hops sr"
  by (auto simp: forward_record_def build_stored_owned_def Let_def split: if_splits sum.splits)

lemma sent_ok:
  "list_all (\<lambda>r. \<not> sr_deleted r) (sent env r source keys now recs)"
  "list_all (\<lambda>r. sr_bytes r \<le> MAX_RECORD_BYTES) (sent env r source keys now recs)"
  "length (sent env r source keys now recs) \<le> length recs"
proof -
  have "list_all (\<lambda>r. \<not> sr_deleted r) (sent env r source keys now recs) \<and> list_all (\<lambda>r. sr_bytes r \<le> MAX_RECORD_BYTES) (sent env r source keys now recs) \<and>
    length (sent env r source keys now recs) \<le> length recs"
    by (induction recs) (auto split: forward_step.splits dest: forward_record_ok)
  then show "list_all (\<lambda>r. \<not> sr_deleted r) (sent env r source keys now recs)"
    "list_all (\<lambda>r. sr_bytes r \<le> MAX_RECORD_BYTES) (sent env r source keys now recs)"
    "length (sent env r source keys now recs) \<le> length recs" by simp_all
qed

lemma forward_walk_spec:
  assumes "forward_walk env r dest keys now ss a source = (a', source')"
  shows "\<exists>w n recs. source' = source\<lparr>t_segwriter := w\<rparr> \<and> n \<le> length ss \<and> fa_consumed a' = fa_consumed a + n \<and>
    map fst recs = filter (is_live (t_index source)) (take n ss) \<and> list_all (looked_up env source) recs \<and>
    fa_append a' = fa_append a @ sent env r source keys now recs \<and> (n = length ss \<or> fa_deferred a')"
  using assms
proof (induction ss arbitrary: a source)
  case Nil
  then have "source' = source\<lparr>t_segwriter := t_segwriter source\<rparr> \<and> a' = a" by simp
  then show ?case
    by (intro exI[of _ "t_segwriter source"] exI[of _ 0] exI[of _ "[]"]) simp
next
  case (Cons s ss)
  obtain src1 slot where l: "forward_lookup env s source = (src1, slot)" by fastforce
  then obtain w1 where w1: "src1 = source\<lparr>t_segwriter := w1\<rparr>"
    using forward_lookup_segwriter[of env s source] by auto
  have step: ?case
    if live: "\<not> is_live (t_index source) s \<or> (\<exists>rec. slot = Some (rec, True))"
      and next_walk: "forward_walk env r dest keys now ss b src1 = (a', source')" and cons: "fa_consumed b = fa_consumed a + 1"
      and app: "fa_append b = fa_append a @ (case slot of Some (rec, True) \<Rightarrow> sent env r source keys now [(s, rec)] | _ \<Rightarrow> [])"
      and dead: "(case slot of Some (_, alive) \<Rightarrow> alive = is_live (t_index source) s | None \<Rightarrow> \<not> is_live (t_index source) s)" for b
  proof -
    from Cons.IH[OF next_walk] obtain w n recs where i: "source' = src1\<lparr>t_segwriter := w\<rparr>" "n \<le> length ss" "fa_consumed a' = fa_consumed b + n"
      "map fst recs = filter (is_live (t_index src1)) (take n ss)" "list_all (looked_up env src1) recs"
      "fa_append a' = fa_append b @ sent env r src1 keys now recs" "n = length ss \<or> fa_deferred a'"
      by blast
    have lk: "looked_up env src1 = looked_up env source" "sent env r src1 keys now = sent env r source keys now"
      by (simp_all add: w1 looked_up_def sent_def fun_eq_iff)
    define recs' where "recs' = (case slot of Some (rec, True) \<Rightarrow> (s, rec) # recs | _ \<Rightarrow> recs)"
    have self: "source = source\<lparr>t_segwriter := t_segwriter source\<rparr>" by simp
    have hit: "looked_up env source (s, rec)" if "slot = Some (rec, True)" for rec
      using l that unfolding looked_up_def by (auto intro!: exI[of _ "t_segwriter source"])
    have facts: "map fst recs' = filter (is_live (t_index source)) (take (Suc n) (s # ss))" "list_all (looked_up env source) recs'"
        "fa_append a' = fa_append a @ sent env r source keys now recs'"
      using i(4-6) app dead hit lk w1 by (auto simp: recs'_def split: option.splits bool.splits forward_step.splits)
    show ?case
      using i(1-3,7) facts cons w1 by (intro exI[of _ w] exI[of _ "Suc n"] exI[of _ recs']) auto
  qed
  show ?case
  proof (cases slot)
    case None
    then show ?thesis
      using Cons.prems l forward_lookup_None[OF l[unfolded None]] by (intro step[of "consume a"]) (simp_all add: consume_def)
  next
    case (Some p)
    obtain rec alive where p: "p = (rec, alive)" by fastforce
    note sl = forward_lookup_slot[OF l[unfolded Some p]]
    show ?thesis
    proof (cases alive)
      case False
      then show ?thesis
        using Cons.prems l Some p sl by (intro step[of "consume a"]) (simp_all add: consume_def)
    next
      case True
      have fr: "forward_record env r src1 keys now s rec = forward_record env r source keys now s rec"
        by (simp add: w1)
      have stop: ?thesis if "a' = a\<lparr>fa_deferred := True\<rparr>" "source' = src1"
        using that w1 by (intro exI[of _ w1] exI[of _ 0] exI[of _ "[]"]) simp
      show ?thesis
      proof (cases "forward_record env r source keys now s rec")
        case Consume
        then show ?thesis
          using Cons.prems l Some p sl True fr by (intro step[of "consume a"]) (simp_all add: consume_def)
      next
        case Present
        then show ?thesis
          using Cons.prems l Some p sl True fr by (intro step[of "consume (a\<lparr>fa_forwarded := fa_forwarded a + 1\<rparr>)"]) (simp_all add: consume_def)
      next
        case Defer
        then show ?thesis
          using Cons.prems l Some p True fr by (intro stop) simp_all
      next
        case (Send sr)
        show ?thesis
        proof (cases "back_pressure dest a sr")
          case True
          then show ?thesis
            using Cons.prems l Some p Send fr \<open>alive\<close> by (intro stop) simp_all
        next
          case False
          then show ?thesis
            using Cons.prems l Some p sl \<open>alive\<close> fr Send
            by (intro step[of "consume (a\<lparr>fa_append := fa_append a @ [sr], fa_forwarded := fa_forwarded a + 1\<rparr>)"]) (simp_all add: consume_def)
        qed
      qed
    qed
  qed
qed

section \<open>Engines that agree on the logs\<close>

lemma routers_upd [simp]:
  "engine_ok (e\<lparr>e_routers := g\<rparr>) = engine_ok e" "get_topic n (e\<lparr>e_routers := g\<rparr>) = get_topic n e"
  by (simp_all add: engine_ok_def get_topic_def)

text \<open>Two states of a topic that differ in the read cache and the scheduling flag only.\<close>

definition topic_like :: "topic_state \<Rightarrow> topic_state \<Rightarrow> bool" where
  "topic_like t t' \<longleftrightarrow> (\<exists>w d. t' = t\<lparr>t_segwriter := w, t_sched_dirty := d\<rparr>)"

lemma topic_like_refl [simp]: "topic_like t t"
  unfolding topic_like_def by (intro exI[of _ "t_segwriter t"] exI[of _ "t_sched_dirty t"]) simp

lemma topic_like_trans: "topic_like a b \<Longrightarrow> topic_like b c \<Longrightarrow> topic_like a c"
proof -
  assume "topic_like a b" "topic_like b c"
  then obtain w d w' d' where "b = a\<lparr>t_segwriter := w, t_sched_dirty := d\<rparr>" "c = b\<lparr>t_segwriter := w', t_sched_dirty := d'\<rparr>"
    by (auto simp: topic_like_def)
  then have "c = a\<lparr>t_segwriter := w', t_sched_dirty := d'\<rparr>" by simp
  then show ?thesis
    unfolding topic_like_def by blast
qed

lemma topic_like_upd [simp]: "topic_like t (t\<lparr>t_segwriter := w\<rparr>)" "topic_like t (t\<lparr>t_sched_dirty := d\<rparr>)"
  unfolding topic_like_def by (intro exI[of _ w] exI[of _ "t_sched_dirty t"], simp)
    (intro exI[of _ "t_segwriter t"] exI[of _ d], simp)

lemma topic_likeD:
  assumes "topic_like t t'"
  shows "topic_ok t' = topic_ok t" "tail t' = tail t" "view t' = view t" "floor_earliest t' = floor_earliest t" "t_head_seq t' = t_head_seq t"
    "t_bytes_retained t' = t_bytes_retained t" "t_name t' = t_name t" "t_topic_id t' = t_topic_id t" "t_index t' = t_index t"
    "t_seq_base t' = t_seq_base t" "above_floor t' v = above_floor t v" "t_config t' = t_config t" "t_epoch t' = t_epoch t" "t_floors t' = t_floors t"
proof -
  obtain w d where t': "t' = t\<lparr>t_segwriter := w, t_sched_dirty := d\<rparr>"
    using assms by (auto simp: topic_like_def)
  have sim: "topic_sim t (t\<lparr>t_segwriter := w\<rparr>)" by simp
  have t'': "t' = (t\<lparr>t_segwriter := w\<rparr>)\<lparr>t_sched_dirty := d\<rparr>"
    by (simp add: t')
  show "topic_ok t' = topic_ok t" "tail t' = tail t" "view t' = view t" "t_index t' = t_index t" "t_epoch t' = t_epoch t"
    unfolding t'' using topic_ok_sim[OF sim] tail_sim[OF sim] view_sim[OF sim] by simp_all
  show "floor_earliest t' = floor_earliest t" "t_head_seq t' = t_head_seq t" "t_bytes_retained t' = t_bytes_retained t" "t_name t' = t_name t"
    "t_topic_id t' = t_topic_id t" "t_seq_base t' = t_seq_base t" "above_floor t' v = above_floor t v" "t_config t' = t_config t" "t_floors t' = t_floors t"
    by (simp_all add: t' floor_earliest_def above_floor_def)
qed

definition agrees :: "engine \<Rightarrow> engine \<Rightarrow> bool" where
  "agrees e e' \<longleftrightarrow> engine_ok e' \<and> e_routers e' = e_routers e \<and> e_limits e' = e_limits e \<and>
     (\<forall>m. rel_option topic_like (get_topic m e) (get_topic m e'))"

lemma agrees_refl: "engine_ok e \<Longrightarrow> agrees e e"
  by (simp add: agrees_def option.rel_refl)

lemma agrees_trans: "agrees a b \<Longrightarrow> agrees b c \<Longrightarrow> agrees a c"
proof -
  assume ab: "agrees a b" and bc: "agrees b c"
  have "rel_option topic_like (get_topic m a) (get_topic m c)" for m
  proof -
    have "rel_option topic_like (get_topic m a) (get_topic m b)" "rel_option topic_like (get_topic m b) (get_topic m c)"
      using ab bc by (simp_all add: agrees_def)
    then show ?thesis
      by (cases "get_topic m a"; cases "get_topic m b"; cases "get_topic m c") (auto intro: topic_like_trans)
  qed
  then show ?thesis
    using ab bc by (simp add: agrees_def)
qed

lemma agrees_topic: "agrees e e' \<Longrightarrow> get_topic m e = Some t \<Longrightarrow> \<exists>t'. get_topic m e' = Some t' \<and> topic_like t t'"
  unfolding agrees_def by (metis option_rel_Some1)

lemma put_like:
  assumes ok: "engine_ok e" and t: "get_topic n e = Some t" and like: "topic_like t t'"
  shows "agrees e (put_state t' e)"
proof -
  note d = topic_likeD[OF like] and tk = engine_ok_topic[OF ok t]
  note p = put_state_ok[OF ok t _ _ _ engine_frame_refl quota_step_same[OF refl d(6)]]
  have "e_routers (put_state t' e) = e_routers e" "e_limits (put_state t' e) = e_limits e"
    by (simp_all add: put_state_def)
  moreover have "rel_option topic_like (get_topic m e) (get_topic m (put_state t' e))" for m
    using p(2,3) tk d t like by (cases "m = n") (auto simp: option.rel_refl)
  ultimately show ?thesis
    using p(1) tk d by (simp add: agrees_def)
qed

lemma agrees_ready: "agrees e (e'\<lparr>e_ready_set := r\<rparr>) = agrees e e'"
  by (simp add: agrees_def)

lemma mark_named_agrees: "engine_ok e \<Longrightarrow> agrees e (mark_named n now e)"
proof (cases "get_topic n e")
  case (Some t)
  assume ok: "engine_ok e"
  obtain t' e' where m: "mark_topic_dirty t now e = (t', e')" by fastforce
  obtain d r where "t' = t\<lparr>t_sched_dirty := d\<rparr>" "e' = e\<lparr>e_ready_set := r\<rparr>"
    using mark_topic_dirty_spec[OF m] by blast
  then show ?thesis
    using Some m put_like[OF ok Some, of "t\<lparr>t_sched_dirty := d\<rparr>"] by (simp add: mark_named_def agrees_ready)
qed (simp add: mark_named_def agrees_refl)

lemma collect_keys_segwriter: "\<exists>w. snd (collect_keys env ss t) = t\<lparr>t_segwriter := w\<rparr>"
proof (induction ss arbitrary: t)
  case Nil
  then show ?case
    by (intro exI[of _ "t_segwriter t"]) simp
next
  case (Cons s ss)
  obtain t1 slot where l: "forward_lookup env s t = (t1, slot)" by fastforce
  then obtain w where t1: "t1 = t\<lparr>t_segwriter := w\<rparr>"
    using forward_lookup_segwriter[of env s t] by auto
  obtain ks t2 where c: "collect_keys env ss t1 = (ks, t2)" by fastforce
  then have "\<exists>w. t2 = t\<lparr>t_segwriter := w\<rparr>"
    using Cons.IH[of t1] by (simp add: t1)
  then show ?case
    using l c by (auto split: option.splits prod.splits bool.splits)
qed

text \<open>Retention by name.\<close>

lemma retain_named_ok:
  assumes ok: "engine_ok e" and t: "get_topic n e = Some t" and tl: "tail t \<le> u64_max" and out: "retain_named env n now e = (res, e')"
  shows "engine_ok e'" "only_topic n e e'" "e_routers e' = e_routers e" "e_limits e' = e_limits e"
    "\<exists>t'. get_topic n e' = Some t' \<and> topic_ok t' \<and> trims t t' \<and> same_id t t' \<and> tail t' = tail t \<and> t_head_seq t' = t_head_seq t"
proof -
  note tk = engine_ok_topic[OF ok t]
  obtain t' e1 where r: "enforce_retention_durable env t now e = (res, t', e1)" and e': "e' = put_state t' e1"
    using out t by (auto simp: retain_named_def split: prod.splits)
  note f = enforce_retention_durable_ok(1-6)[OF tk(1,4) r]
  note p = put_state_frame[OF ok t f(1,2,5,6)]
  show "engine_ok e'" "only_topic n e e'" "e_routers e' = e_routers e" "e_limits e' = e_limits e"
    using p f(5) by (simp_all add: e' only_topic_def put_state_def engine_frame_def)
  show "\<exists>t'. get_topic n e' = Some t' \<and> topic_ok t' \<and> trims t t' \<and> same_id t t' \<and> tail t' = tail t \<and> t_head_seq t' = t_head_seq t"
    using p(2) f enforce_retention_durable_trims[OF tk(1) tl r] by (auto simp: e')
qed

section \<open>What a pass does\<close>

definition others_like :: "string \<Rightarrow> engine \<Rightarrow> engine \<Rightarrow> bool" where
  "others_like n e e' \<longleftrightarrow> (\<forall>m. m \<noteq> n \<longrightarrow> rel_option topic_like (get_topic m e) (get_topic m e'))"

lemma others_only: "only_topic n e e' \<Longrightarrow> others_like n e e'"
  by (simp add: only_topic_def others_like_def option.rel_refl)

lemma others_agrees: "agrees e e' \<Longrightarrow> others_like n e e'"
  by (simp add: agrees_def others_like_def)

lemma others_trans: "others_like n a b \<Longrightarrow> others_like n b c \<Longrightarrow> others_like n a c"
proof -
  assume ab: "others_like n a b" and bc: "others_like n b c"
  have "rel_option topic_like (get_topic m a) (get_topic m c)" if "m \<noteq> n" for m
  proof -
    have "rel_option topic_like (get_topic m a) (get_topic m b)" "rel_option topic_like (get_topic m b) (get_topic m c)"
      using ab bc that by (simp_all add: others_like_def)
    then show ?thesis
      by (cases "get_topic m a"; cases "get_topic m b"; cases "get_topic m c") (auto intro: topic_like_trans)
  qed
  then show ?thesis
    by (simp add: others_like_def)
qed

definition forwarded_to :: "topic_state \<Rightarrow> stored_record list \<Rightarrow> topic_state \<Rightarrow> bool" where
  "forwarded_to d rs d' \<longleftrightarrow> view d' = above_floor d' (view d @ zip [tail d..<tail d + length rs] (map erase rs)) \<and> tail d' = tail d + length rs \<and>
     floor_earliest d \<le> floor_earliest d'"

lemma forwarded_to_like: "topic_like d d1 \<Longrightarrow> forwarded_to d1 rs d2 \<Longrightarrow> topic_like d2 d3 \<Longrightarrow> forwarded_to d rs d3"
  by (simp add: forwarded_to_def topic_likeD)

lemma commit_forward_ok:
  assumes ok: "engine_ok e" and d: "get_topic (r_dest r) e = Some dest" and live: "list_all (\<lambda>r. \<not> sr_deleted r) rs"
    and room: "t_bytes_retained dest + slot_bytes rs \<le> u64_max" "tail dest + length rs \<le> u64_max" "quota e < u64_max"
    and out: "commit_forward env r rs now e = (fin, e')"
  shows "engine_ok e'" "e_routers e' = e_routers e" "e_limits e' = e_limits e" "others_like (r_dest r) e e'"
    "fin \<Longrightarrow> \<exists>d'. get_topic (r_dest r) e' = Some d' \<and> forwarded_to dest rs d'"
    "\<not> fin \<Longrightarrow> agrees e e'"
proof -
  note tk = engine_ok_topic[OF ok d]
  have "engine_ok e' \<and> e_routers e' = e_routers e \<and> e_limits e' = e_limits e \<and> others_like (r_dest r) e e' \<and>
    (fin \<longrightarrow> (\<exists>d'. get_topic (r_dest r) e' = Some d' \<and> forwarded_to dest rs d')) \<and> (\<not> fin \<longrightarrow> agrees e e')"
  proof (cases "rs = []")
    case True
    have "above_floor dest (view dest) = view dest"
      using room(2) by (intro kept_view[OF tk(1)]) simp
    then show ?thesis
      using out True ok d agrees_refl[OF ok] others_agrees[OF agrees_refl[OF ok]] by (simp add: commit_forward_def forwarded_to_def)
  next
    case False
    obtain res d1 e1 where a: "derived_append env dest rs now e = (res, d1, e1)" by (metis prod_cases3)
    note f = derived_append_ok[OF tk(1) live room a]
    show ?thesis
    proof (cases res)
      case (Inl err)
      then have "d1 = dest" "e1 = e" "\<not> fin" "e' = mark_named (r_source r) now (put_state dest e)"
        using f(6) out False d a by (simp_all add: commit_forward_def)
      moreover have "agrees e (put_state dest e)"
        by (rule put_like[OF ok d topic_like_refl])
      ultimately have "agrees e e'" "\<not> fin"
        using mark_named_agrees agrees_trans by (auto simp: agrees_def)
      then show ?thesis
        using others_agrees[of e e'] by (simp add: agrees_def)
    next
      case (Inr seqs)
      note ad = f(5)[OF Inr False, THEN conjunct2]
      note p = put_state_frame[OF ok d f(1,2,3,4)]
      obtain r2 e2 where ret: "retain_named env (r_dest r) now (put_state d1 e1) = (r2, e2)" by fastforce
      have e': "e' = mark_named (r_dest r) now e2" "fin"
        using out False d a Inr ret by (simp_all add: commit_forward_def)
      have tl: "tail d1 \<le> u64_max"
        using ad room(2) by (simp add: append_done_def)
      note q = retain_named_ok[OF p(1,2) tl ret]
      obtain d2 where d2: "get_topic (r_dest r) e2 = Some d2" "trims d1 d2" "tail d2 = tail d1" "same_id d1 d2" "t_head_seq d2 = t_head_seq d1"
        using q(5) by blast
      have m: "agrees e2 e'"
        unfolding e'(1) by (rule mark_named_agrees[OF q(1)])
      obtain d3 where d3: "get_topic (r_dest r) e' = Some d3" "topic_like d2 d3"
        using agrees_topic[OF m d2(1)] by blast
      have "floor_earliest dest \<le> floor_earliest d1"
        using ad f(2) topic_okD(5)[OF tk(1)] False unfolding floor_earliest_def append_done_def same_id_def
        by (auto intro!: floors_earliest_seq_mono simp: neq_Nil_conv)
      also have "\<dots> \<le> floor_earliest d2"
        using d2(4,5) by (intro trims_floor[OF d2(2)]) (simp_all add: same_id_def)
      finally have fw: "forwarded_to dest rs d3"
        using d2(2,3) ad topic_likeD[OF d3(2)] by (simp add: forwarded_to_def trims_def append_done_def)
      have o1: "others_like (r_dest r) e (put_state d1 e1)"
        by (rule others_only) (simp add: only_topic_def p(3))
      have "others_like (r_dest r) e e'"
        using others_trans[OF o1 others_trans[OF others_only[OF q(2)] others_agrees[OF m]]] .
      moreover have "e_routers e' = e_routers e" "e_limits e' = e_limits e" "engine_ok e'"
        using m q(3,4) f(3) by (simp_all add: agrees_def put_state_def engine_frame_def)
      ultimately show ?thesis
        using e'(2) d3(1) fw by blast
    qed
  qed
  then show "engine_ok e'" "e_routers e' = e_routers e" "e_limits e' = e_limits e" "others_like (r_dest r) e e'"
    "fin \<Longrightarrow> \<exists>d'. get_topic (r_dest r) e' = Some d' \<and> forwarded_to dest rs d'" "\<not> fin \<Longrightarrow> agrees e e'"
    by simp_all
qed

text \<open>A pass without a guarantee to defer for and without back pressure takes its whole batch.\<close>

lemma forward_walk_no_defer:
  assumes "r_guarantee r = AtLeastOnce" "cfg_discard (t_config dest) = Old"
  shows "fa_deferred (fst (forward_walk env r dest keys now ss a source)) = fa_deferred a"
proof -
  have "forward_record env r src keys now s rec \<noteq> Defer" "\<not> back_pressure dest b sr" for src s rec b sr
    using assms by (auto simp: forward_record_def back_pressure_def Let_def split: sum.splits)
  then show ?thesis
    by (induction env r dest keys now ss a source rule: forward_walk.induct)
      (auto simp: consume_def split: option.splits prod.splits forward_step.splits)
qed

lemma sent_bytes: "slot_bytes (sent env r source keys now recs) \<le> length recs * MAX_RECORD_BYTES"
  using slot_bytes_le[OF sent_ok(2)] sent_ok(3) by (meson le_trans mult_le_mono1)

text \<open>The source records of a pass from its cursor: every live one in the window, in order.\<close>

definition window_records :: "env \<Rightarrow> topic_state \<Rightarrow> seq \<Rightarrow> nat \<Rightarrow> (seq \<times> stored_record) list \<Rightarrow> bool" where
  "window_records env source cursor n recs \<longleftrightarrow>
     map fst recs = filter (is_live (t_index source)) [cursor + 1..<cursor + 1 + n] \<and> list_all (looked_up env source) recs"

definition dest_room :: "topic_state \<Rightarrow> engine \<Rightarrow> bool" where
  "dest_room d e \<longleftrightarrow> tail d + ROUTER_BATCH \<le> u64_max \<and> t_bytes_retained d + ROUTER_BATCH * MAX_RECORD_BYTES \<le> u64_max \<and> quota e < u64_max"

lemma forward_batch_ok:
  assumes ok: "engine_ok e" and src: "get_topic (r_source r) e = Some source" and d: "get_topic (r_dest r) e = Some dest"
    and ne: "r_source r \<noteq> r_dest r" and room: "dest_room dest e" and out: "forward_batch env r cursor src_head now e = (n, e')"
  shows "engine_ok e'" "e_limits e' = e_limits e" "others_like (r_dest r) e e'"
    "\<exists>keys recs d'. n \<le> ROUTER_BATCH \<and> cursor + n \<le> max cursor src_head \<and> window_records env source cursor n recs \<and>
       get_topic (r_dest r) e' = Some d' \<and> forwarded_to dest (sent env r source keys now recs) d' \<and> (r_guarantee r = AtLeastOnce \<longrightarrow> keys = [])"
    "\<exists>f. e_routers e' = (if n = 0 then e_routers e else note_forwarded (r_name r) (cursor + n) f (e_routers e))"
    "r_guarantee r = AtLeastOnce \<Longrightarrow> cfg_discard (t_config dest) = Old \<Longrightarrow> quota e = 0 \<Longrightarrow> n = min src_head (cursor + ROUTER_BATCH) - cursor"
proof -
  let ?be = "min src_head (cursor + ROUTER_BATCH)"
  let ?ss = "[cursor + 1..<Suc ?be]"
  define kd where "kd = (if r_guarantee r = ExactlyOnce then router_dest_idempotency_keys env dest else ([], dest))"
  obtain keys d0 where kd2: "kd = (keys, d0)" by fastforce
  have like0: "topic_like dest d0"
  proof (cases "r_guarantee r = ExactlyOnce")
    case True
    then have "d0 = snd (collect_keys env [earliest_seq dest..<Suc (t_head_seq dest)] dest)"
      using kd2 by (simp add: kd_def router_dest_idempotency_keys_def)
    then show ?thesis
      using collect_keys_segwriter[of env "[earliest_seq dest..<Suc (t_head_seq dest)]" dest] by auto
  qed (use kd2 in \<open>simp add: kd_def\<close>)
  have keys0: "r_guarantee r = AtLeastOnce \<Longrightarrow> keys = []"
    using kd2 by (auto simp: kd_def)
  let ?e0 = "put_state d0 e"
  have ag0: "agrees e ?e0"
    by (rule put_like[OF ok d like0])
  obtain src0 where src0: "get_topic (r_source r) ?e0 = Some src0" "topic_like source src0"
    using agrees_topic[OF ag0 src] by blast
  have src0_eq: "src0 = source"
    using src0(1) src ne engine_ok_topic(2)[OF ok d] topic_likeD(7)[OF like0] by (simp add: put_state_def get_topic_def update_conv)
  obtain a source' where w: "forward_walk env r d0 keys now ?ss acc_new source = (a, source')" by fastforce
  obtain wr m recs where sp: "source' = source\<lparr>t_segwriter := wr\<rparr>" "m \<le> length ?ss" "fa_consumed a = m"
      "map fst recs = filter (is_live (t_index source)) (take m ?ss)" "list_all (looked_up env source) recs"
      "fa_append a = sent env r source keys now recs" "m = length ?ss \<or> fa_deferred a"
    using forward_walk_spec[OF w] by (auto simp: acc_new_def)
  have mle: "m \<le> ROUTER_BATCH" "cursor + m \<le> max cursor src_head" "m \<le> ?be - cursor"
    using sp(2) by (auto simp del: upt_Suc)
  have "take m ?ss = [cursor + 1..<cursor + 1 + m]"
  proof (cases "m = 0")
    case False
    then have "cursor + 1 + m \<le> Suc ?be"
      using mle(3) by linarith
    then show ?thesis
      by (rule take_upt)
  qed simp
  then have win: "window_records env source cursor m recs"
    using sp(4,5) by (simp add: window_records_def del: upt_Suc)
  have len: "length recs \<le> m"
    using arg_cong[OF sp(4), of length] length_filter_le[of _ "take m ?ss"] sp(2) by (simp del: upt_Suc)
  let ?e1 = "put_state source' ?e0"
  have ok0: "engine_ok ?e0" using ag0 by (simp add: agrees_def)
  have ag1: "agrees ?e0 ?e1"
    using src0(1) unfolding src0_eq by (rule put_like[OF ok0]) (simp add: sp(1))
  have ag: "agrees e ?e1"
    by (rule agrees_trans[OF ag0 ag1])
  obtain d1 where d1: "get_topic (r_dest r) ?e1 = Some d1" "topic_like dest d1"
    using agrees_topic[OF ag d] by blast
  have ok1: "engine_ok ?e1" and lim1: "e_limits ?e1 = e_limits e"
    using ag by (simp_all add: agrees_def)
  have rm: "t_bytes_retained d1 + slot_bytes (fa_append a) \<le> u64_max" "tail d1 + length (fa_append a) \<le> u64_max" "quota ?e1 < u64_max"
  proof -
    have "length (fa_append a) \<le> ROUTER_BATCH"
      using sent_ok(3)[of env r source keys now recs] len mle(1) by (simp add: sp(6))
    then show "tail d1 + length (fa_append a) \<le> u64_max"
      using room topic_likeD(2)[OF d1(2)] by (simp add: dest_room_def)
    have "slot_bytes (fa_append a) \<le> ROUTER_BATCH * MAX_RECORD_BYTES"
      unfolding sp(6) using sent_bytes[of env r source keys now recs] len mle(1) by (meson le_trans mult_le_mono1)
    then show "t_bytes_retained d1 + slot_bytes (fa_append a) \<le> u64_max"
      using room topic_likeD(6)[OF d1(2)] by (simp add: dest_room_def)
    show "quota ?e1 < u64_max"
      using room lim1 by (simp add: dest_room_def)
  qed
  obtain fin e2 where c: "commit_forward env r (fa_append a) now ?e1 = (fin, e2)" by fastforce
  note cf = commit_forward_ok[OF ok1 d1(1) _ rm c] 
  have live: "list_all (\<lambda>r. \<not> sr_deleted r) (fa_append a)"
    by (simp add: sp(6) sent_ok(1))
  note cf = cf[OF live]
  have res: "forward_batch env r cursor src_head now e =
      (if \<not> fin then (0, e2)
       else (m, let e3 = (if m > 0 then e2\<lparr>e_routers := note_forwarded (r_name r) (cursor + m) (fa_forwarded a) (e_routers e2)\<rparr> else e2)
                in if fa_deferred a \<or> ?be < src_head then mark_named (r_source r) now e3 else e3))"
    using src d kd2 w c sp(3) unfolding forward_batch_def kd_def by (simp add: Let_def)
  have eq: "e_routers e2 = e_routers e" "e_limits e2 = e_limits e"
    using cf(2,3) ag by (simp_all add: agrees_def)
  have oth: "others_like (r_dest r) e e2"
    by (rule others_trans[OF others_agrees[OF ag] cf(4)])
  have none: "window_records env source cursor 0 []"
    by (simp add: window_records_def)
  have main: "engine_ok e' \<and> e_limits e' = e_limits e \<and> others_like (r_dest r) e e' \<and>
    (\<exists>keys recs d'. n \<le> ROUTER_BATCH \<and> cursor + n \<le> max cursor src_head \<and> window_records env source cursor n recs \<and>
       get_topic (r_dest r) e' = Some d' \<and> forwarded_to dest (sent env r source keys now recs) d' \<and> (r_guarantee r = AtLeastOnce \<longrightarrow> keys = [])) \<and>
    (\<exists>f. e_routers e' = (if n = 0 then e_routers e else note_forwarded (r_name r) (cursor + n) f (e_routers e))) \<and> (fin \<longrightarrow> n = m)"
  proof (cases fin)
    case False
    then have e': "n = 0" "e' = e2"
      using res out by simp_all
    have ag2: "agrees e e2"
      by (rule agrees_trans[OF ag cf(6)[OF False]])
    obtain d2 where d2: "get_topic (r_dest r) e2 = Some d2" "topic_like dest d2"
      using agrees_topic[OF ag2 d] by blast
    have "above_floor dest (view dest) = view dest"
      using room by (intro kept_view engine_ok_topic(1)[OF ok d]) (simp add: dest_room_def)
    then have "forwarded_to dest (sent env r source keys now []) d2"
      using topic_likeD[OF d2(2)] by (simp add: forwarded_to_def)
    then have "\<exists>keys recs d'. 0 \<le> ROUTER_BATCH \<and> cursor + 0 \<le> max cursor src_head \<and> window_records env source cursor 0 recs \<and>
       get_topic (r_dest r) e2 = Some d' \<and> forwarded_to dest (sent env r source keys now recs) d' \<and> (r_guarantee r = AtLeastOnce \<longrightarrow> keys = [])"
      using none d2(1) keys0 by (intro exI[of _ keys] exI[of _ "[]"] exI[of _ d2]) simp
    then show ?thesis
      unfolding e' using False ag2 oth by (simp add: agrees_def)
  next
    case True
    let ?e3 = "if m > 0 then e2\<lparr>e_routers := note_forwarded (r_name r) (cursor + m) (fa_forwarded a) (e_routers e2)\<rparr> else e2"
    have e': "n = m" "e' = (if fa_deferred a \<or> ?be < src_head then mark_named (r_source r) now ?e3 else ?e3)"
      using res out True by (simp_all add: Let_def split del: if_split)
    have ok3: "engine_ok ?e3" and lim3: "e_limits ?e3 = e_limits e" and get3: "get_topic x ?e3 = get_topic x e2" for x
      using cf(1) eq by simp_all
    have ag3: "agrees ?e3 e'"
      unfolding e'(2) using mark_named_agrees[OF ok3] agrees_refl[OF ok3] by presburger
    obtain d2 where d2: "get_topic (r_dest r) e2 = Some d2" "forwarded_to d1 (fa_append a) d2"
      using cf(5)[OF True] by blast
    then obtain d3 where d3: "get_topic (r_dest r) e' = Some d3" "topic_like d2 d3"
      using agrees_topic[OF ag3] get3 by metis
    have fw: "forwarded_to dest (sent env r source keys now recs) d3"
      using forwarded_to_like[OF d1(2) d2(2) d3(2)] by (simp add: sp(6))
    have "others_like (r_dest r) e2 ?e3"
      by (simp add: others_like_def get3 option.rel_refl del: if_split)
    then have o3: "others_like (r_dest r) e e'"
      using others_trans[OF oth] others_trans others_agrees[OF ag3] by blast
    have "e_routers e' = e_routers ?e3" "e_limits e' = e_limits e" "engine_ok e'"
      using ag3 lim3 unfolding agrees_def by simp_all
    moreover have "e_routers ?e3 = (if m = 0 then e_routers e else note_forwarded (r_name r) (cursor + m) (fa_forwarded a) (e_routers e))"
      using eq(1) by simp
    ultimately show ?thesis
      using o3 win d3(1) fw keys0 mle(1,2) e'(1) by auto
  qed
  then show "engine_ok e'" "e_limits e' = e_limits e" "others_like (r_dest r) e e'"
    "\<exists>keys recs d'. n \<le> ROUTER_BATCH \<and> cursor + n \<le> max cursor src_head \<and> window_records env source cursor n recs \<and>
       get_topic (r_dest r) e' = Some d' \<and> forwarded_to dest (sent env r source keys now recs) d' \<and> (r_guarantee r = AtLeastOnce \<longrightarrow> keys = [])"
    "\<exists>f. e_routers e' = (if n = 0 then e_routers e else note_forwarded (r_name r) (cursor + n) f (e_routers e))"
    by simp_all
  show "n = min src_head (cursor + ROUTER_BATCH) - cursor"
    if g: "r_guarantee r = AtLeastOnce" and o: "cfg_discard (t_config dest) = Old" and q: "quota e = 0"
  proof -
    have "\<not> fa_deferred a"
      using forward_walk_no_defer[OF g, of d0 env keys now ?ss acc_new source] topic_likeD(12)[OF like0] o w by (simp add: acc_new_def)
    then have "m = length ?ss" using sp(7) by simp
    moreover have fin
      using c d1(1) q lim1 by (auto simp: commit_forward_def derived_append_def reserve_incoming_def try_reserve_total_bytes_def split: prod.splits if_splits)
    ultimately show ?thesis
      using main by (simp del: upt_Suc)
  qed
qed

section \<open>Trimmed sources\<close>

lemma note_source_trims_ok:
  assumes "topic_ok t"
  shows "topic_ok ((note_source_trim env ^^ k) t)" "same_id t ((note_source_trim env ^^ k) t)"
    "tail ((note_source_trim env ^^ k) t) = tail t + k" "t_bytes_retained ((note_source_trim env ^^ k) t) = t_bytes_retained t"
proof -
  have "topic_ok ((note_source_trim env ^^ k) t) \<and> same_id t ((note_source_trim env ^^ k) t) \<and>
    tail ((note_source_trim env ^^ k) t) = tail t + k \<and> t_bytes_retained ((note_source_trim env ^^ k) t) = t_bytes_retained t"
  proof (induction k)
    case (Suc k)
    then show ?case
      using note_source_trim_ok[of "(note_source_trim env ^^ k) t" env] same_id_trans by auto
  qed (simp add: assms)
  then show "topic_ok ((note_source_trim env ^^ k) t)" "same_id t ((note_source_trim env ^^ k) t)"
    "tail ((note_source_trim env ^^ k) t) = tail t + k" "t_bytes_retained ((note_source_trim env ^^ k) t) = t_bytes_retained t"
    by simp_all
qed

text \<open>The floor of a surfaced gap stands above every earlier record of the destination, forwarded or written.\<close>

lemma note_source_trim_hides:
  assumes ok: "topic_ok t" and tl: "tail t < u64_max"
  shows "view (note_source_trim env t) = []"
proof -
  let ?t = "note_source_trim env t"
  note n = note_source_trim_ok[OF ok, of env]
  have h: "t_head_seq ?t < u64_max"
    using n(5) tl by simp
  have "Suc (t_head_seq ?t) \<le> floor_earliest ?t"
    using n(5,6) tl unfolding floor_earliest_def floors_earliest_seq_def Let_def by (simp add: sat_add_def)
  then have "\<not> visible ?t s" for s
    using visible_floor[OF h, of s] by auto
  then show ?thesis
    by (simp add: view_def)
qed

lemma cursor_note [simp]: "router_cursor n (note_forwarded n c f g) = c" "router_cursor n (set_cursor n c g) = c"
  by (simp_all add: router_cursor_def note_forwarded_def set_cursor_def get_or_zero_def update_conv)

lemma rg_routers_note [simp]: "rg_routers (note_forwarded n c f g) = rg_routers g" "rg_routers (set_cursor n c g) = rg_routers g"
  by (simp_all add: note_forwarded_def set_cursor_def)

lemma put_state_fields [simp]:
  "e_routers (put_state t e) = e_routers e" "e_limits (put_state t e) = e_limits e" "e_wal (put_state t e) = e_wal e"
  by (simp_all add: put_state_def)

lemma surface_trim_ok:
  assumes ok: "engine_ok e" and d: "get_topic (r_dest r) e = Some dest" and out: "surface_trim env r cursor source e = (c, e')"
  shows "engine_ok e'" "e_limits e' = e_limits e" "only_topic (r_dest r) e e'" "c = max cursor (evict_earliest_seq source - 1)"
    "\<exists>d'. get_topic (r_dest r) e' = Some d' \<and> tail d' = tail dest + (c - cursor) \<and> t_bytes_retained d' = t_bytes_retained dest \<and>
       (c = cursor \<longrightarrow> d' = dest) \<and> (cursor < c \<and> tail d' \<le> u64_max \<longrightarrow> view d' = []) \<and> topic_ok d' \<and> t_config d' = t_config dest"
    "c = cursor \<Longrightarrow> e' = e" "cursor < c \<Longrightarrow> router_cursor (r_name r) (e_routers e') = c"
    "rg_routers (e_routers e') = rg_routers (e_routers e)"
proof -
  note tk = engine_ok_topic[OF ok d]
  let ?ee = "evict_earliest_seq source"
  have "engine_ok e' \<and> e_limits e' = e_limits e \<and> only_topic (r_dest r) e e' \<and> c = max cursor (?ee - 1) \<and>
    (\<exists>d'. get_topic (r_dest r) e' = Some d' \<and> tail d' = tail dest + (c - cursor) \<and> t_bytes_retained d' = t_bytes_retained dest \<and>
       (c = cursor \<longrightarrow> d' = dest) \<and> (cursor < c \<and> tail d' \<le> u64_max \<longrightarrow> view d' = []) \<and> topic_ok d' \<and> t_config d' = t_config dest) \<and>
    (c = cursor \<longrightarrow> e' = e) \<and> (cursor < c \<longrightarrow> router_cursor (r_name r) (e_routers e') = c) \<and>
    rg_routers (e_routers e') = rg_routers (e_routers e)"
  proof (cases "?ee > cursor + 1")
    case False
    then show ?thesis
      using out ok d tk by (auto simp: surface_trim_def only_topic_def)
  next
    case True
    define k where "k = ?ee - 1 - cursor"
    let ?d = "(note_source_trim env ^^ k) dest"
    note t = note_source_trims_ok[OF tk(1), where env=env and k=k]
    note p = put_state_frame[OF ok d t(1,2) engine_frame_refl quota_step_same[OF refl t(4)]]
    have e': "c = ?ee - 1" "e' = (put_state ?d e)\<lparr>e_routers := note_forwarded (r_name r) c k (set_cursor (r_name r) c (e_routers (put_state ?d e)))\<rparr>"
      using out True d by (auto simp: surface_trim_def on_topic_def Let_def k_def)
    have "0 < k" using True by (simp add: k_def)
    then obtain j where j: "k = Suc j" by (cases k) auto
    have "view ?d = []" if "tail ?d \<le> u64_max"
      using that note_source_trims_ok[OF tk(1), where env=env and k=j] t(3) j
      by (simp add: note_source_trim_hides)
    moreover have "t_config ?d = t_config dest" "c - cursor = k" "cursor < c"
      using t(2) True by (simp_all add: same_id_def e'(1) k_def)
    ultimately show ?thesis
      using p t e' by (auto simp: only_topic_def)
  qed
  then show "engine_ok e'" "e_limits e' = e_limits e" "only_topic (r_dest r) e e'" "c = max cursor (evict_earliest_seq source - 1)"
    "\<exists>d'. get_topic (r_dest r) e' = Some d' \<and> tail d' = tail dest + (c - cursor) \<and> t_bytes_retained d' = t_bytes_retained dest \<and>
       (c = cursor \<longrightarrow> d' = dest) \<and> (cursor < c \<and> tail d' \<le> u64_max \<longrightarrow> view d' = []) \<and> topic_ok d' \<and> t_config d' = t_config dest"
    "c = cursor \<Longrightarrow> e' = e" "cursor < c \<Longrightarrow> router_cursor (r_name r) (e_routers e') = c"
    "rg_routers (e_routers e') = rg_routers (e_routers e)"
    by blast+
qed

section \<open>What a call of the router does\<close>

text \<open>The routers of the registry stand under their own names and join two different topics.\<close>

definition routers_ok :: "router_graph \<Rightarrow> bool" where
  "routers_ok g \<longleftrightarrow> list_all (\<lambda>(n, r). r_name r = n \<and> r_source r \<noteq> r_dest r) (rg_routers g)"

lemma routers_okD: "routers_ok g \<Longrightarrow> map_of (rg_routers g) n = Some r \<Longrightarrow> r_name r = n \<and> r_source r \<noteq> r_dest r"
  by (auto simp: routers_ok_def list_all_iff dest!: map_of_SomeD)

lemma advance_router_cases:
  assumes out: "advance_router env name now e = (n, e')"
  obtains (gone) "n = 0" "e' = e"
  | (deferred) r res where "map_of (rg_routers (e_routers e)) name = Some r" "get_topic (r_source r) e \<noteq> None" "get_topic (r_dest r) e \<noteq> None"
      "retain_named env (r_source r) now e = (res, e')" "n = 0"
  | (blocked) r res e1 source cursor e2 res' where "map_of (rg_routers (e_routers e)) name = Some r" "get_topic (r_source r) e \<noteq> None"
      "get_topic (r_dest r) e \<noteq> None" "retain_named env (r_source r) now e = (res, e1)" "get_topic (r_source r) e1 = Some source"
      "surface_trim env r (router_cursor name (e_routers e)) source e1 = (cursor, e2)" "retain_named env (r_dest r) now e2 = (res', e')" "n = 0"
  | (forward) r res e1 source cursor e2 e3 where "map_of (rg_routers (e_routers e)) name = Some r" "get_topic (r_source r) e \<noteq> None"
      "get_topic (r_dest r) e \<noteq> None" "retain_named env (r_source r) now e = (res, e1)" "get_topic (r_source r) e1 = Some source"
      "router_cursor name (e_routers e) < t_head_seq source" "surface_trim env r (router_cursor name (e_routers e)) source e1 = (cursor, e2)"
      "e3 = e2 \<or> (\<exists>res'. retain_named env (r_dest r) now e2 = (res', e3))" "forward_batch env r cursor (t_head_seq source) now e3 = (n, e')"
proof (cases "map_of (rg_routers (e_routers e)) name")
  case None
  then show ?thesis
    using out gone by (simp add: advance_router_def)
next
  case (Some r)
  show ?thesis
  proof (cases "get_topic (r_source r) e = None \<or> get_topic (r_dest r) e = None")
    case True
    then show ?thesis
      using out gone Some by (simp add: advance_router_def)
  next
    case both: False
    obtain res e1 where r1: "retain_named env (r_source r) now e = (res, e1)" by fastforce
    have nn: "get_topic (r_source r) e \<noteq> None" "get_topic (r_dest r) e \<noteq> None"
      using both by simp_all
    show ?thesis
    proof (cases "\<exists>source. res = Inr () \<and> get_topic (r_source r) e1 = Some source \<and> router_cursor name (e_routers e) < t_head_seq source")
      case False
      then have "n = 0" "e' = e1"
        using out Some both r1 by (cases res; cases "get_topic (r_source r) e1"; simp add: advance_router_def Let_def not_less)+
      then show ?thesis
        using deferred[OF Some nn] r1 by simp
    next
      case True
      then obtain source where src: "res = Inr ()" "get_topic (r_source r) e1 = Some source" "router_cursor name (e_routers e) < t_head_seq source"
        by blast
      obtain cursor e2 where tr: "surface_trim env r (router_cursor name (e_routers e)) source e1 = (cursor, e2)" by fastforce
      define rej where "rej = (case get_topic (r_dest r) e2 of Some d \<Rightarrow> cfg_discard (t_config d) = Reject | None \<Rightarrow> False)"
      obtain r2 e3 where r2: "(if rej then retain_named env (r_dest r) now e2 else (Inr (), e2)) = (r2, e3)" by fastforce
      have eq: "(n, e') = (case r2 of Inl _ \<Rightarrow> (0, e3) | Inr _ \<Rightarrow> forward_batch env r cursor (t_head_seq source) now e3)"
        using out Some both r1 src tr r2 unfolding advance_router_def rej_def
        by (simp add: Let_def split del: if_split)
      show ?thesis
      proof (cases r2)
        case (Inl err)
        then have "rej" using r2 by (auto split: if_splits)
        then show ?thesis
          using blocked[OF Some nn r1 src(2) tr] r2 eq Inl by simp
      next
        case (Inr u)
        then show ?thesis
          using forward[OF Some nn r1 src(2,3) tr] r2 eq by (auto split: if_splits)
      qed
    qed
  qed
qed

text \<open>A step on the engine that may only touch the logs of two topics by retention, trimming and forwarding.\<close>

lemma topic_room_trims: "topic_room t \<Longrightarrow> trims t t' \<Longrightarrow> tail t' = tail t \<Longrightarrow> topic_room t'"
  by (auto simp: topic_room_def trims_def)

lemma room_dest: "topic_room d \<Longrightarrow> quota e < u64_max \<Longrightarrow> tail d' \<le> tail d + ROOM \<Longrightarrow> t_bytes_retained d' \<le> t_bytes_retained d \<Longrightarrow> dest_room d' e"
  by (simp add: dest_room_def topic_room_def ROOM_def ROUTER_BATCH_def MAX_RECORD_BYTES_def u64_max_def)

definition log_trims :: "string \<Rightarrow> engine \<Rightarrow> engine \<Rightarrow> bool" where
  "log_trims m e e' \<longleftrightarrow> (\<exists>t t'. get_topic m e = Some t \<and> get_topic m e' = Some t' \<and> trims t t' \<and> tail t' = tail t \<and> t_head_seq t' = t_head_seq t)"

lemma retain_named_trims:
  assumes "engine_ok e" "engine_room e" "get_topic n e = Some t" "retain_named env n now e = (res, e')"
  shows "\<exists>t'. get_topic n e' = Some t' \<and> topic_ok t' \<and> trims t t' \<and> same_id t t' \<and> tail t' = tail t \<and> t_head_seq t' = t_head_seq t \<and> topic_room t'"
  using retain_named_ok(5)[OF assms(1,3) _ assms(4)] engine_roomD[OF assms(2,3)] topic_room_trims topic_roomD(1) by blast

lemma evict_earliest_bound: "evict_earliest_seq t \<le> t_head_seq t + 1"
proof -
  have "evict_earliest_seq t \<le> sat_add (t_head_seq t) 1"
    by (simp add: evict_earliest_seq_def floors_evict_earliest_def Let_def)
  then show ?thesis
    by (simp add: sat_add_def)
qed

text \<open>The state in which a pass starts to walk: retention has run on the source and trimmed records are a gap of the destination.\<close>

lemma prepare_forward:
  assumes ok: "engine_ok e" and room: "engine_room e" and rok: "routers_ok (e_routers e)" and r: "map_of (rg_routers (e_routers e)) name = Some r"
    and t: "get_topic (r_source r) e = Some t" and d: "get_topic (r_dest r) e = Some d"
    and ret: "retain_named env (r_source r) now e = (res, e1)" and src: "get_topic (r_source r) e1 = Some source"
    and tr: "surface_trim env r c0 source e1 = (cursor, e2)"
  shows "engine_ok e2" "e_limits e2 = e_limits e" "rg_routers (e_routers e2) = rg_routers (e_routers e)" "get_topic (r_source r) e2 = Some source"
    "trims t source" "same_id t source" "t_head_seq source = t_head_seq t" "cursor = max c0 (evict_earliest_seq source - 1)"
    "r_source r \<noteq> r_dest r" "r_name r = name"
    "\<exists>d2. get_topic (r_dest r) e2 = Some d2 \<and> tail d2 = tail d + (cursor - c0) \<and> t_bytes_retained d2 = t_bytes_retained d \<and>
       dest_room d2 e2 \<and> tail d2 \<le> u64_max \<and> t_config d2 = t_config d \<and> (cursor = c0 \<longrightarrow> d2 = d) \<and> (c0 < cursor \<longrightarrow> view d2 = []) \<and> topic_ok d2"
    "cursor = c0 \<Longrightarrow> e2 = e1" "only_topic (r_source r) e e1" "e_routers e1 = e_routers e" "tail source = tail t"
    "c0 < cursor \<Longrightarrow> router_cursor name (e_routers e2) = cursor"
proof -
  show ne: "r_source r \<noteq> r_dest r" "r_name r = name"
    using routers_okD[OF rok r] by simp_all
  have rd: "topic_room d" "quota e < u64_max" and rt: "topic_room t"
    using engine_roomD[OF room d] engine_roomD[OF room t] by simp_all
  note r1 = retain_named_ok[OF ok t topic_roomD(1)[OF rt] ret]
  show "only_topic (r_source r) e e1" "e_routers e1 = e_routers e"
    by (rule r1)+
  have e1: "get_topic (r_dest r) e1 = Some d"
    using r1(2) d ne by (simp add: only_topic_def)
  show src': "trims t source" "same_id t source" "t_head_seq source = t_head_seq t" "tail source = tail t"
    using r1(5) src by auto
  note st = surface_trim_ok[OF r1(1) e1 tr]
  show "engine_ok e2" "e_limits e2 = e_limits e" "rg_routers (e_routers e2) = rg_routers (e_routers e)" "cursor = max c0 (evict_earliest_seq source - 1)"
    "cursor = c0 \<Longrightarrow> e2 = e1" "c0 < cursor \<Longrightarrow> router_cursor name (e_routers e2) = cursor"
    using st r1 ne by simp_all
  show "get_topic (r_source r) e2 = Some source"
    using st(3) ne src by (simp add: only_topic_def)
  obtain d2 where d2: "get_topic (r_dest r) e2 = Some d2" "tail d2 = tail d + (cursor - c0)" "t_bytes_retained d2 = t_bytes_retained d"
      "cursor = c0 \<longrightarrow> d2 = d" "c0 < cursor \<and> tail d2 \<le> u64_max \<longrightarrow> view d2 = []" "topic_ok d2" "t_config d2 = t_config d"
    using st(5) by blast
  have "evict_earliest_seq source - 1 \<le> tail t"
    using evict_earliest_bound[of source] src'(3) topic_okD(5)[OF engine_ok_topic(1)[OF ok t]] by simp
  then have "cursor - c0 \<le> ROOM"
    using st(4) rt by (auto simp: topic_room_def)
  moreover have "quota e2 < u64_max"
    using rd(2) st(2) r1(4) by simp
  ultimately have "dest_room d2 e2" "tail d2 \<le> u64_max"
    using room_dest[OF rd(1), of e2 d2] topic_roomD(2)[OF rd(1)] d2(2,3) by simp_all
  then show "\<exists>d2. get_topic (r_dest r) e2 = Some d2 \<and> tail d2 = tail d + (cursor - c0) \<and> t_bytes_retained d2 = t_bytes_retained d \<and>
       dest_room d2 e2 \<and> tail d2 \<le> u64_max \<and> t_config d2 = t_config d \<and> (cursor = c0 \<longrightarrow> d2 = d) \<and> (c0 < cursor \<longrightarrow> view d2 = []) \<and> topic_ok d2"
    using d2 by blast
qed

text \<open>The destination before the walk: as it was, or after its own retention.\<close>

lemma before_walk:
  assumes ok: "engine_ok e2" and d2: "get_topic (r_dest r) e2 = Some d2" "tail d2 \<le> u64_max" "dest_room d2 e2" and ne: "r_source r \<noteq> r_dest r"
    and src: "get_topic (r_source r) e2 = Some source"
    and e3: "e3 = e2 \<or> (\<exists>res'. retain_named env (r_dest r) now e2 = (res', e3))"
  shows "engine_ok e3" "e_limits e3 = e_limits e2" "e_routers e3 = e_routers e2" "get_topic (r_source r) e3 = Some source" "only_topic (r_dest r) e2 e3"
    "\<exists>d3. get_topic (r_dest r) e3 = Some d3 \<and> trims d2 d3 \<and> tail d3 = tail d2 \<and> dest_room d3 e3 \<and> t_config d3 = t_config d2 \<and>
       floor_earliest d2 \<le> floor_earliest d3"
proof -
  have "engine_ok e3 \<and> e_limits e3 = e_limits e2 \<and> e_routers e3 = e_routers e2 \<and> only_topic (r_dest r) e2 e3 \<and>
    (\<exists>d3. get_topic (r_dest r) e3 = Some d3 \<and> trims d2 d3 \<and> tail d3 = tail d2 \<and> dest_room d3 e3 \<and> t_config d3 = t_config d2 \<and>
       floor_earliest d2 \<le> floor_earliest d3)"
  proof (cases "e3 = e2")
    case True
    then show ?thesis
      using ok d2 kept_view[OF engine_ok_topic(1)[OF ok d2(1)] d2(2)] by (auto simp: only_topic_def trims_def)
  next
    case False
    then obtain res' where "retain_named env (r_dest r) now e2 = (res', e3)" using e3 by blast
    note q = retain_named_ok[OF ok d2(1,2) this]
    obtain d3 where d3: "get_topic (r_dest r) e3 = Some d3" "trims d2 d3" "tail d3 = tail d2" "same_id d2 d3" "t_head_seq d3 = t_head_seq d2"
      using q(5) by blast
    have "dest_room d3 e3" "t_config d3 = t_config d2" "floor_earliest d2 \<le> floor_earliest d3"
      using d2(3) d3 q(4) trims_floor[OF d3(2)] by (auto simp: dest_room_def trims_def same_id_def)
    then show ?thesis
      using q d3 by blast
  qed
  then show "engine_ok e3" "e_limits e3 = e_limits e2" "e_routers e3 = e_routers e2" "only_topic (r_dest r) e2 e3"
    "\<exists>d3. get_topic (r_dest r) e3 = Some d3 \<and> trims d2 d3 \<and> tail d3 = tail d2 \<and> dest_room d3 e3 \<and> t_config d3 = t_config d2 \<and>
       floor_earliest d2 \<le> floor_earliest d3"
    by simp_all
  then show "get_topic (r_source r) e3 = Some source"
    using src ne by (simp add: only_topic_def)
qed

lemma advance_router_ok:
  assumes ok: "engine_ok e" and room: "engine_room e" and rok: "routers_ok (e_routers e)"
    and out: "advance_router env name now e = (n, e')"
  shows "engine_ok e'" "e_limits e' = e_limits e" "rg_routers (e_routers e') = rg_routers (e_routers e)"
proof -
  have "engine_ok e' \<and> e_limits e' = e_limits e \<and> rg_routers (e_routers e') = rg_routers (e_routers e)"
    using out
  proof (cases rule: advance_router_cases)
    case gone
    then show ?thesis using ok by simp
  next
    case (deferred r res)
    then obtain t where t: "get_topic (r_source r) e = Some t" by blast
    then show ?thesis
      using retain_named_ok[OF ok t _ deferred(4)] engine_roomD[OF room t] topic_roomD(1) by simp
  next
    case (blocked r res e1 source cursor e2 res')
    then obtain t d where t: "get_topic (r_source r) e = Some t" and d: "get_topic (r_dest r) e = Some d" by blast
    note p = prepare_forward[OF ok room rok blocked(1) t d blocked(4,5,6)]
    obtain d2 where d2: "get_topic (r_dest r) e2 = Some d2" "tail d2 \<le> u64_max"
      using p(11) by blast
    show ?thesis
      using retain_named_ok[OF p(1) d2 blocked(7)] p(2,3) by simp
  next
    case (forward r res e1 source cursor e2 e3)
    then obtain t d where t: "get_topic (r_source r) e = Some t" and d: "get_topic (r_dest r) e = Some d" by blast
    note p = prepare_forward[OF ok room rok forward(1) t d forward(4,5,7)]
    obtain d2 where d2: "get_topic (r_dest r) e2 = Some d2" "tail d2 \<le> u64_max" "dest_room d2 e2"
      using p(11) by blast
    note b = before_walk[OF p(1) d2 p(9,4) forward(8)]
    obtain d3 where d3: "get_topic (r_dest r) e3 = Some d3" "dest_room d3 e3"
      using b(6) by blast
    note f = forward_batch_ok[OF b(1,4) d3(1) p(9) d3(2) forward(9)]
    have "rg_routers (e_routers e') = rg_routers (e_routers e3)"
      using f(5) by auto
    then show ?thesis
      using f(1,2) b(2,3) p(2,3) by simp
  qed
  then show "engine_ok e'" "e_limits e' = e_limits e" "rg_routers (e_routers e') = rg_routers (e_routers e)" by simp_all
qed

text \<open>
  The exact effect of a pass that made progress. The window starts at the cursor, or after the
  records the source has lost; the destination keeps its log in the first case and starts over
  in the second.
\<close>

definition source_now :: "env \<Rightarrow> router \<Rightarrow> i64 \<Rightarrow> engine \<Rightarrow> topic_state option" where
  "source_now env r now e = get_topic (r_source r) (snd (retain_named env (r_source r) now e))"

definition window_start :: "seq \<Rightarrow> topic_state \<Rightarrow> seq" where
  "window_start c0 source = max c0 (evict_earliest_seq source - 1)"

definition pass_result :: "env \<Rightarrow> router \<Rightarrow> i64 \<Rightarrow> nat \<Rightarrow> engine \<Rightarrow> engine \<Rightarrow> bool" where
  "pass_result env r now n e e' \<longleftrightarrow>
     (\<exists>source keys recs d'. source_now env r now e = Some source \<and>
        (let c0 = router_cursor (r_name r) (e_routers e); c = window_start c0 source; rs = sent env r source keys now recs;
             s0 = next_of (r_dest r) e + (c - c0)
         in window_records env source c n recs \<and> c + n \<le> t_head_seq source \<and>
            router_cursor (r_name r) (e_routers e') = c + n \<and> get_topic (r_dest r) e' = Some d' \<and>
            view d' = above_floor d' ((if c = c0 then log_of (r_dest r) e else []) @ zip [s0..<s0 + length rs] (map erase rs)) \<and>
            tail d' = s0 + length rs \<and> (r_guarantee r = AtLeastOnce \<longrightarrow> keys = [])))"

lemma advance_router_exact:
  assumes ok: "engine_ok e" and room: "engine_room e" and rok: "routers_ok (e_routers e)" and r: "map_of (rg_routers (e_routers e)) name = Some r"
    and out: "advance_router env name now e = (n, e')" and pos: "0 < n"
  shows "pass_result env r now n e e'" "log_trims (r_source r) e e'"
    "m \<noteq> r_dest r \<Longrightarrow> m \<noteq> r_source r \<Longrightarrow> rel_option topic_like (get_topic m e) (get_topic m e')"
proof -
  have "pass_result env r now n e e' \<and> log_trims (r_source r) e e' \<and>
      (\<forall>m. m \<noteq> r_dest r \<and> m \<noteq> r_source r \<longrightarrow> rel_option topic_like (get_topic m e) (get_topic m e'))"
    using out
  proof (cases rule: advance_router_cases)
    case (forward r' res e1 source cursor e2 e3)
    have r': "r' = r" using forward(1) r by simp
    note forward = forward[unfolded r']
    obtain t d where t: "get_topic (r_source r) e = Some t" and d: "get_topic (r_dest r) e = Some d"
      using forward(2,3) by blast
    let ?c0 = "router_cursor name (e_routers e)"
    note p = prepare_forward[OF ok room rok r t d forward(4,5,7)]
    obtain d2 where d2: "get_topic (r_dest r) e2 = Some d2" "tail d2 = tail d + (cursor - ?c0)" "dest_room d2 e2" "tail d2 \<le> u64_max"
        "cursor = ?c0 \<longrightarrow> d2 = d" "?c0 < cursor \<longrightarrow> view d2 = []"
      using p(11) by blast
    note b = before_walk[OF p(1) d2(1,4,3) p(9,4) forward(8)]
    obtain d3 where d3: "get_topic (r_dest r) e3 = Some d3" "trims d2 d3" "tail d3 = tail d2" "dest_room d3 e3" "floor_earliest d2 \<le> floor_earliest d3"
      using b(6) by blast
    note f = forward_batch_ok[OF b(1,4) d3(1) p(9) d3(4) forward(9)]
    obtain keys recs d' where k: "cursor + n \<le> max cursor (t_head_seq source)" "window_records env source cursor n recs"
        "get_topic (r_dest r) e' = Some d'" "forwarded_to d3 (sent env r source keys now recs) d'" "r_guarantee r = AtLeastOnce \<longrightarrow> keys = []"
      using f(4) by blast
    let ?rs = "sent env r source keys now recs"
    have src: "source_now env r now e = Some source"
      using forward(4,5) by (simp add: source_now_def)
    have c: "cursor = window_start ?c0 source"
      using p(8) by (simp add: window_start_def)
    have base: "view d2 = (if cursor = ?c0 then log_of (r_dest r) e else [])"
      using d2(5,6) d c by (auto simp: log_of_def window_start_def max_def split: if_splits)
    have "view d3 = above_floor d3 (view d2)"
      using d3(2) by (simp add: trims_def)
    moreover have "above_floor d' (above_floor d3 v) = above_floor d' v" for v
      using k(4) by (intro kept_kept) (simp add: forwarded_to_def)
    ultimately have v: "view d' = above_floor d' (view d2 @ zip [tail d2..<tail d2 + length ?rs] (map erase ?rs))"
      using k(4) d3(3) by (simp add: forwarded_to_def)
    have cur: "router_cursor (r_name r) (e_routers e') = cursor + n"
      using f(5) pos by auto
    have hd: "cursor + n \<le> t_head_seq source"
      using k(1) pos by (auto simp: max_def split: if_splits)
    have nx: "tail d2 = next_of (r_dest r) e + (cursor - ?c0)"
      using d2(2) d by (simp add: next_of_def)
    have res1: "pass_result env r now n e e'"
      unfolding pass_result_def Let_def p(10) c[symmetric]
      using src k(2,3,5) hd cur p(10) v k(4) d3(3) base nx c
      by (intro exI[of _ source] exI[of _ keys] exI[of _ recs] exI[of _ d']) (auto simp: forwarded_to_def)
    have o2: "others_like (r_dest r) e2 e'"
      using others_trans[OF others_only[OF b(5)]] f(3) by blast
    have o12: "others_like (r_dest r) e1 e2"
      using surface_trim_ok(3)[OF retain_named_ok(1)[OF ok t topic_roomD(1) forward(4)] _ forward(7)] engine_roomD[OF room t] p(13) d p(9)
      by (intro others_only) (auto simp: only_topic_def)
    have o1: "others_like (r_dest r) e1 e'"
      by (rule others_trans[OF o12 o2])
    obtain s' where s': "get_topic (r_source r) e' = Some s'" "topic_like source s'"
      using o1 p(9) forward(5) unfolding others_like_def by (metis option_rel_Some1)
    have "trims t s' \<and> tail s' = tail t \<and> t_head_seq s' = t_head_seq t"
      using p(5,7,15) topic_likeD[OF s'(2)] by (simp add: trims_def)
    then have lt: "log_trims (r_source r) e e'"
      using t s'(1) by (auto simp: log_trims_def)
    have oth: "rel_option topic_like (get_topic m e) (get_topic m e')" if "m \<noteq> r_dest r" "m \<noteq> r_source r" for m
      using o1 p(13) that by (auto simp: others_like_def only_topic_def)
    then show ?thesis
      using res1 lt by blast
  qed (use pos in simp_all)
  then show "pass_result env r now n e e'" "log_trims (r_source r) e e'"
    "m \<noteq> r_dest r \<Longrightarrow> m \<noteq> r_source r \<Longrightarrow> rel_option topic_like (get_topic m e) (get_topic m e')"
    by simp_all
qed

section \<open>Idempotency keys\<close>

lemma digit_inj: "a < 10 \<Longrightarrow> b < 10 \<Longrightarrow> digit a = digit b \<Longrightarrow> a = b"
  using char_of_eq_iff[of "48 + a"] by (simp add: digit_def)

lemma digit_not_colon: "d < 10 \<Longrightarrow> digit d \<noteq> CHR '':''"
  by (auto simp: digit_def char_of_eq_iff take_bit_eq_mod)

lemma decimal_no_colon: "CHR '':'' \<notin> set (decimal n)"
proof (induction n rule: decimal.induct)
  case (1 n)
  have "CHR '':'' \<noteq> digit d" if "d < 10" for d
    using digit_not_colon[OF that] by metis
  then show ?case
    using 1 by (subst decimal.simps) simp
qed

lemma decimal_nonempty: "decimal n \<noteq> []"
  by (subst decimal.simps) simp

lemma decimal_inj: "decimal m = decimal n \<Longrightarrow> m = n"
proof (induction m arbitrary: n rule: decimal.induct)
  case (1 m)
  have m: "decimal m = (if m < 10 then [digit m] else decimal (m div 10) @ [digit (m mod 10)])"
    and n: "decimal n = (if n < 10 then [digit n] else decimal (n div 10) @ [digit (n mod 10)])"
    by (subst decimal.simps, simp)+
  show ?case
  proof (cases "m < 10")
    case True
    then show ?thesis
      using 1(2) m n decimal_nonempty[of "n div 10"] digit_inj by (auto split: if_splits)
  next
    case False
    then have n10: "\<not> n < 10" and eq: "decimal (m div 10) = decimal (n div 10)" "digit (m mod 10) = digit (n mod 10)"
      using 1(2) m n decimal_nonempty[of "m div 10"] by (auto split: if_splits)
    have "m div 10 = n div 10"
      by (rule 1(1)[OF False eq(1)])
    moreover have "m mod 10 = n mod 10"
      using eq(2) by (intro digit_inj) simp_all
    ultimately show ?thesis
      by (metis div_mult_mod_eq)
  qed
qed

lemma last_field: "c \<notin> set y \<Longrightarrow> c \<notin> set y' \<Longrightarrow> x @ c # y = x' @ c # y' \<Longrightarrow> x = x' \<and> y = y'"
proof -
  assume c: "c \<notin> set y" "c \<notin> set y'" and eq: "x @ c # y = x' @ c # y'"
  have f: "takeWhile (\<lambda>z. z \<noteq> c) (rev (u @ c # v)) = rev v" if "c \<notin> set v" for u v
  proof -
    have "takeWhile (\<lambda>z. z \<noteq> c) (rev v @ c # rev u) = rev v @ takeWhile (\<lambda>z. z \<noteq> c) (c # rev u)"
      using that by (intro takeWhile_append2) auto
    then show ?thesis by simp
  qed
  have "rev y = rev y'"
    using f[OF c(1), of x] f[OF c(2), of x'] eq by simp
  then show ?thesis
    using eq by simp
qed

lemma router_key_inj:
  assumes "router_idempotency_key r src s = router_idempotency_key r' src' s'"
  shows "r_name r = r_name r'" "t_topic_id src = t_topic_id src'" "t_epoch src = t_epoch src'" "s = s'"
proof -
  let ?k = "\<lambda>n a b c. ((((''router:'' @ n) @ CHR '':'' # decimal a) @ CHR '':'' # decimal b) @ CHR '':'' # decimal c)"
  have eq: "?k (r_name r) (t_topic_id src) (t_epoch src) s = ?k (r_name r') (t_topic_id src') (t_epoch src') s'"
    using assms by (simp add: router_idempotency_key_def)
  note l = last_field[OF decimal_no_colon decimal_no_colon]
  have 1: "decimal s = decimal s'" and e1: "(((''router:'' @ r_name r) @ CHR '':'' # decimal (t_topic_id src)) @ CHR '':'' # decimal (t_epoch src)) =
      (((''router:'' @ r_name r') @ CHR '':'' # decimal (t_topic_id src')) @ CHR '':'' # decimal (t_epoch src'))"
    using l[OF eq] by simp_all
  have 2: "decimal (t_epoch src) = decimal (t_epoch src')" and e2: "((''router:'' @ r_name r) @ CHR '':'' # decimal (t_topic_id src)) =
      ((''router:'' @ r_name r') @ CHR '':'' # decimal (t_topic_id src'))"
    using l[OF e1] by simp_all
  have 3: "decimal (t_topic_id src) = decimal (t_topic_id src')" and e3: "''router:'' @ r_name r = ''router:'' @ r_name r'"
    using l[OF e2] by simp_all
  show "r_name r = r_name r'" "t_topic_id src = t_topic_id src'" "t_epoch src = t_epoch src'" "s = s'"
    using 1 2 3 e3 decimal_inj by simp_all
qed

lemma bt_insert_self: "map_of (bt_insert k v m) k = Some v"
  by (induction k v m rule: bt_insert.induct) auto

lemma bt_insert_other: "j \<noteq> k \<Longrightarrow> map_of (bt_insert k v m) j = map_of m j"
  by (induction k v m rule: bt_insert.induct) auto

lemma router_meta_key: "object_get (router_meta key r source s) ''idempotency_key'' = Some (JString key)"
  by (simp add: router_meta_def object_get_def bt_insert_self bt_insert_other)

lemma key_round_trip: "router_meta_idempotency_key (with_router_idempotency_meta meta key r source s) = Some key"
proof -
  have "object_get (JObject (bt_insert ''_topics_original_meta'' v (bt_insert ROUTER_META_KEY rm []))) ROUTER_META_KEY = Some rm" for v rm
    by (simp add: object_get_def bt_insert_self bt_insert_other ROUTER_META_KEY_def)
  moreover have "object_get (JObject (bt_insert ROUTER_META_KEY rm obj)) ROUTER_META_KEY = Some rm" for rm obj
    by (simp add: object_get_def bt_insert_self)
  ultimately show ?thesis
    by (auto simp: with_router_idempotency_meta_def router_meta_idempotency_key_def Let_def router_meta_key simp del: bt_insert.simps
        split: option.split json.split)
qed

text \<open>An exactly-once pass sends no key twice and none that the destination already holds.\<close>

lemma forward_record_key:
  assumes "r_guarantee r = ExactlyOnce" "forward_record env r source keys now s rec = Send sr"
  shows "router_meta_idempotency_key (sr_meta sr) = Some (router_idempotency_key r source s)" "router_idempotency_key r source s \<notin> set keys"
  using assms key_round_trip[of "sr_meta rec"] by (auto simp: forward_record_def build_stored_owned_def Let_def split: if_splits sum.splits)

lemma sent_mem:
  "sr \<in> set (sent env r source keys now recs) \<Longrightarrow> \<exists>s rec. (s, rec) \<in> set recs \<and> forward_record env r source keys now s rec = Send sr"
  by (auto simp: sent_def split: forward_step.splits) blast

lemma sent_keys:
  assumes "r_guarantee r = ExactlyOnce" "distinct (map fst recs)"
  shows "distinct (map (router_meta_idempotency_key \<circ> sr_meta) (sent env r source keys now recs))"
    "list_all (\<lambda>sr. case router_meta_idempotency_key (sr_meta sr) of Some k \<Rightarrow> k \<notin> set keys | None \<Rightarrow> False) (sent env r source keys now recs)"
proof -
  have from_rec: "\<exists>s rec. (s, rec) \<in> set xs \<and> router_meta_idempotency_key (sr_meta sr) = Some (router_idempotency_key r source s) \<and>
      router_idempotency_key r source s \<notin> set keys" if "sr \<in> set (sent env r source keys now xs)" for sr xs
    using sent_mem[OF that] forward_record_key[OF assms(1)] by blast
  show "list_all (\<lambda>sr. case router_meta_idempotency_key (sr_meta sr) of Some k \<Rightarrow> k \<notin> set keys | None \<Rightarrow> False) (sent env r source keys now recs)"
    using from_rec by (fastforce simp: list_all_iff)
  show "distinct (map (router_meta_idempotency_key \<circ> sr_meta) (sent env r source keys now recs))"
    using assms(2)
  proof (induction recs)
    case (Cons x recs)
    obtain s rec where x: "x = (s, rec)" by fastforce
    have notin: "Some (router_idempotency_key r source s) \<notin> (router_meta_idempotency_key \<circ> sr_meta) ` set (sent env r source keys now recs)"
    proof
      assume "Some (router_idempotency_key r source s) \<in> (router_meta_idempotency_key \<circ> sr_meta) ` set (sent env r source keys now recs)"
      then obtain s' rec' where "(s', rec') \<in> set recs" "router_idempotency_key r source s = router_idempotency_key r source s'"
        using from_rec[of _ recs] by fastforce
      then show False
        using router_key_inj(4) Cons.prems x by (force simp: image_iff)
    qed
    show ?case
      using Cons notin forward_record_key(1)[OF assms(1)] by (auto simp: x split: forward_step.split)
  qed simp
qed

section \<open>Creating and deleting routers\<close>

lemma create_missing_ok:
  assumes ok: "engine_ok e" and out: "create_missing env name now e = (res, e')"
  shows "engine_ok e'" "e_routers e' = e_routers e" "e_limits e' = e_limits e" "m \<noteq> name \<Longrightarrow> get_topic m e' = get_topic m e"
    "get_topic name e = Some t \<Longrightarrow> e' = e"
    "res = Inr () \<Longrightarrow> get_topic name e' \<noteq> None"
proof -
  have "engine_ok e' \<and> e_routers e' = e_routers e \<and> e_limits e' = e_limits e \<and> (\<forall>m. m \<noteq> name \<longrightarrow> get_topic m e' = get_topic m e) \<and>
    (get_topic name e \<noteq> None \<longrightarrow> e' = e) \<and> (res = Inr () \<longrightarrow> get_topic name e' \<noteq> None)"
  proof (cases "get_topic name e")
    case (Some t)
    then show ?thesis
      using ok out by (auto simp: create_missing_def)
  next
    case None
    obtain r e1 where p: "put_topic env name default_config now e = (r, e1)" by fastforce
    note q = put_topic_ok[OF ok p] put_topic_keeps[OF p]
    have "e' = e1" "res = Inr () \<Longrightarrow> \<exists>c cfg. r = Inr (c, cfg)"
      using out None p by (auto simp: create_missing_def split: sum.splits)
    then show ?thesis
      using q None by fastforce
  qed
  then show "engine_ok e'" "e_routers e' = e_routers e" "e_limits e' = e_limits e" "m \<noteq> name \<Longrightarrow> get_topic m e' = get_topic m e"
    "get_topic name e = Some t \<Longrightarrow> e' = e" "res = Inr () \<Longrightarrow> get_topic name e' \<noteq> None"
    by auto
qed

lemma ensure_router_topics_ok:
  assumes ok: "engine_ok e" and out: "ensure_router_topics env req now e = (res, e')"
  shows "engine_ok e'" "e_routers e' = e_routers e" "e_limits e' = e_limits e" "get_topic m e = Some t \<Longrightarrow> get_topic m e' = Some t"
proof -
  obtain r1 e1 where c1: "create_missing env (rq_source req) now e = (r1, e1)" by fastforce
  note a = create_missing_ok[OF ok c1]
  obtain r2 e2 where c2: "create_missing env (rq_dest req) now e1 = (r2, e2)" by fastforce
  note b = create_missing_ok[OF a(1) c2]
  have e': "e' = e1 \<or> e' = e2"
    using out c1 c2 by (auto simp: ensure_router_topics_def split: sum.splits)
  then show "engine_ok e'" "e_routers e' = e_routers e" "e_limits e' = e_limits e"
    using a b by auto
  have k: "get_topic m e1 = Some t" if "get_topic m e = Some t" for m t
    using a(4,5) that by (cases "m = rq_source req") auto
  have "get_topic m e2 = Some t" if "get_topic m e1 = Some t" for m t
    using b(4,5) that by (cases "m = rq_dest req") auto
  then show "get_topic m e' = Some t" if "get_topic m e = Some t"
    using k e' that by blast
qed

text \<open>What a request to create a router leaves of the registry.\<close>

lemma routers_ok_update: "routers_ok g \<Longrightarrow> r_source r \<noteq> r_dest r \<Longrightarrow> routers_ok (g\<lparr>rg_routers := AList.update (r_name r) r (rg_routers g), rg_cursors := a, rg_forwarded_total := b, rg_dest_base := c\<rparr>)"
proof -
  assume g: "routers_ok g" "r_source r \<noteq> r_dest r"
  have "set (AList.update k v m) \<subseteq> insert (k, v) (set m)" for k v and m :: "(string \<times> router) list"
    by (induction m) auto
  then show ?thesis
    using g by (fastforce simp: routers_ok_def list_all_iff)
qed

lemma routers_ok_remove: "routers_ok g \<Longrightarrow> routers_ok (graph_remove n g)"
  by (auto simp: routers_ok_def list_all_iff graph_remove_def AList.delete_eq)

lemma routers_ok_note [simp]: "routers_ok (note_forwarded n c f g) = routers_ok g" "routers_ok (seed_dest_base n b g) = routers_ok g"
  by (simp_all add: routers_ok_def seed_dest_base_def)

lemma rg_routers_remove [simp]: "rg_routers (graph_remove n g) = AList.delete n (rg_routers g)"
  by (simp add: graph_remove_def)

lemma wire_router_ok:
  assumes ok: "engine_ok e" and rok: "routers_ok (e_routers e)" and out: "wire_router env name req created now e = (res, e')"
  shows "engine_ok e'" "routers_ok (e_routers e')" "e_limits e' = e_limits e" "get_topic m e = Some t \<Longrightarrow> get_topic m e' = Some t"
    "res = Inr c \<Longrightarrow> c = created \<and> rg_routers (e_routers e') = rg_routers (e_routers e) \<and> rg_cursors (e_routers e') = rg_cursors (e_routers e)"
    "res = Inl err \<Longrightarrow> rg_routers (e_routers e') = (if created then AList.delete name (rg_routers (e_routers e)) else rg_routers (e_routers e))"
proof -
  obtain r1 e1 where t: "ensure_router_topics env req now e = (r1, e1)" by fastforce
  note a = ensure_router_topics_ok[OF ok t]
  let ?e2 = "if created then e1\<lparr>e_routers := seed_dest_base name (head_or_zero (rq_dest req) e1) (e_routers e1)\<rparr> else e1"
  obtain r3 e3 where w: "wal_commit env (router_frame name req now (e_routers ?e2)) True ?e2 = (r3, e3)" by fastforce
  note f = wal_commit_frame[OF w]
  have seed: "rg_routers (seed_dest_base n b g) = rg_routers g" "rg_cursors (seed_dest_base n b g) = rg_cursors g" for n b g
    by (simp_all add: seed_dest_base_def)
  have ok2: "engine_ok ?e2" using a(1) by simp
  have ok3: "engine_ok e3"
    by (rule engine_ok_frame[OF ok2 f])
  have r3: "e_routers e3 = e_routers ?e2" "e_limits e3 = e_limits e" and g3: "get_topic m e3 = get_topic m e1" for m
    using f(1) a(3) get_topic_frame[OF f(1), of m] by (simp_all add: engine_frame_def)
  consider err where "r1 = Inl err" "res = Inl err" "e' = undo_create created name e1"
    | err where "r3 = Inl err" "res = Inl err" "e' = undo_create created name e3" | "res = Inr created" "e' = e3"
    using out t w by (auto simp: wire_router_def Let_def split: sum.splits)
  then have "engine_ok e' \<and> routers_ok (e_routers e') \<and> e_limits e' = e_limits e \<and> (\<forall>m t. get_topic m e = Some t \<longrightarrow> get_topic m e' = Some t) \<and>
    (\<forall>c. res = Inr c \<longrightarrow> c = created \<and> rg_routers (e_routers e') = rg_routers (e_routers e) \<and> rg_cursors (e_routers e') = rg_cursors (e_routers e)) \<and>
    (\<forall>err. res = Inl err \<longrightarrow> rg_routers (e_routers e') = (if created then AList.delete name (rg_routers (e_routers e)) else rg_routers (e_routers e)))"
  proof cases
    case 1
    then show ?thesis
      using a rok routers_ok_remove by (auto simp: undo_create_def)
  next
    case 2
    then show ?thesis
      using a rok ok3 r3 g3 routers_ok_remove by (auto simp: undo_create_def seed)
  next
    case 3
    then show ?thesis
      using a rok ok3 r3 g3 by (auto simp: seed)
  qed
  then show "engine_ok e'" "routers_ok (e_routers e')" "e_limits e' = e_limits e" "get_topic m e = Some t \<Longrightarrow> get_topic m e' = Some t"
    "res = Inr c \<Longrightarrow> c = created \<and> rg_routers (e_routers e') = rg_routers (e_routers e) \<and> rg_cursors (e_routers e') = rg_cursors (e_routers e)"
    "res = Inl err \<Longrightarrow> rg_routers (e_routers e') = (if created then AList.delete name (rg_routers (e_routers e)) else rg_routers (e_routers e))"
    by blast+
qed

lemma upsert_capped_spec:
  assumes "upsert_capped r cap g = Inr (created, g')"
  shows "created = (map_of (rg_routers g) (r_name r) = None)" "rg_routers g' = AList.update (r_name r) r (rg_routers g)"
    "routers_ok g \<Longrightarrow> r_source r \<noteq> r_dest r \<Longrightarrow> routers_ok g'"
    "cap = 0 \<or> created \<longrightarrow> length (rg_routers g) < cap \<or> cap = 0"
    "\<not> created \<Longrightarrow> rg_cursors g' = or_insert (r_name r) 0 (rg_cursors g)"
  using assms routers_ok_update[of g r] by (auto simp: upsert_capped_def upsert_def Let_def split: if_splits option.splits)

lemma put_router_ok:
  assumes ok: "engine_ok e" and rok: "routers_ok (e_routers e)" and out: "put_router env name req now e = (res, e')"
  shows "engine_ok e'" "routers_ok (e_routers e')" "e_limits e' = e_limits e" "get_topic m e = Some t \<Longrightarrow> get_topic m e' = Some t"
    "res = Inr True \<Longrightarrow> map_of (rg_routers (e_routers e')) name = Some (request_router name req) \<and>
       router_cursor name (e_routers e') = head_or_zero (rq_source req) e"
    "res = Inl err \<Longrightarrow> map_of (rg_routers (e_routers e)) name = None \<Longrightarrow> map_of (rg_routers (e_routers e')) = map_of (rg_routers (e_routers e))"
proof -
  have "engine_ok e' \<and> routers_ok (e_routers e') \<and> e_limits e' = e_limits e \<and> (\<forall>m t. get_topic m e = Some t \<longrightarrow> get_topic m e' = Some t) \<and>
    (res = Inr True \<longrightarrow> map_of (rg_routers (e_routers e')) name = Some (request_router name req) \<and>
       router_cursor name (e_routers e') = head_or_zero (rq_source req) e) \<and>
    (\<forall>err. res = Inl err \<and> map_of (rg_routers (e_routers e)) name = None \<longrightarrow> map_of (rg_routers (e_routers e')) = map_of (rg_routers (e_routers e)))"
  proof (cases "\<exists>err. res = Inl err \<and> e' = e")
    case True
    then show ?thesis
      using ok rok by auto
  next
    case False
    let ?rr = "request_router name req"
    have ne: "rq_source req \<noteq> rq_dest req"
      using out False by (auto simp: put_router_def validate_router_def split: if_splits)
    obtain created g where u: "upsert_capped ?rr (lim_max_routers (e_limits e)) (e_routers e) = Inr (created, g)"
      and w: "wire_router env name req created now (e\<lparr>e_routers := (if created then note_forwarded name (head_or_zero (rq_source req) e) 0 g else g)\<rparr>) = (res, e')"
      using out False by (auto simp: put_router_def Let_def split: if_splits sum.splits)
    have rn: "r_name ?rr = name" "r_source ?rr \<noteq> r_dest ?rr"
      using ne by (simp_all add: request_router_def)
    note us = upsert_capped_spec[OF u, unfolded rn(1)]
    let ?g = "if created then note_forwarded name (head_or_zero (rq_source req) e) 0 g else g"
    let ?e0 = "e\<lparr>e_routers := ?g\<rparr>"
    have ok0: "engine_ok ?e0" and rok0: "routers_ok (e_routers ?e0)" and rg: "rg_routers ?g = AList.update name ?rr (rg_routers (e_routers e))"
      using ok us(3)[OF rok] rn(2) us(2) by simp_all
    note x = wire_router_ok[OF ok0 rok0 w]
    have "map_of (rg_routers (e_routers e')) = map_of (rg_routers (e_routers e))" if "res = Inl err" "map_of (rg_routers (e_routers e)) name = None" for err
      using x(6)[OF that(1)] us(1) that(2) rg by (auto simp: fun_eq_iff delete_conv update_conv)
    moreover have "map_of (rg_routers (e_routers e')) name = Some ?rr \<and> router_cursor name (e_routers e') = head_or_zero (rq_source req) e" if "res = Inr True"
    proof -
      have c: "created" "rg_routers (e_routers e') = rg_routers ?g" "rg_cursors (e_routers e') = rg_cursors ?g"
        using x(5)[OF that] by simp_all
      then have "router_cursor name (e_routers e') = router_cursor name ?g"
        by (simp add: router_cursor_def)
      then show ?thesis
        using c rg by (simp add: update_conv)
    qed
    ultimately show ?thesis
      using x(1-4) by auto
  qed
  then show "engine_ok e'" "routers_ok (e_routers e')" "e_limits e' = e_limits e" "get_topic m e = Some t \<Longrightarrow> get_topic m e' = Some t"
    "res = Inr True \<Longrightarrow> map_of (rg_routers (e_routers e')) name = Some (request_router name req) \<and>
       router_cursor name (e_routers e') = head_or_zero (rq_source req) e"
    "res = Inl err \<Longrightarrow> map_of (rg_routers (e_routers e)) name = None \<Longrightarrow> map_of (rg_routers (e_routers e')) = map_of (rg_routers (e_routers e))"
    by blast+
qed

lemma delete_router_ok:
  assumes ok: "engine_ok e" and rok: "routers_ok (e_routers e)" and out: "delete_router env name now e = (res, e')"
  shows "engine_ok e'" "routers_ok (e_routers e')" "get_topic m e' = get_topic m e" "e_limits e' = e_limits e"
    "res = Inr b \<Longrightarrow> map_of (rg_routers (e_routers e')) name = None" "res = Inl err \<Longrightarrow> e_routers e' = e_routers e"
proof -
  obtain r1 e1 where w: "wal_commit env (RouterDelete name (as_ts now)) True e = (r1, e1)" by fastforce
  note f = wal_commit_frame[OF w]
  have e1: "engine_ok e1" "e_routers e1 = e_routers e" "e_limits e1 = e_limits e" "get_topic m e1 = get_topic m e" for m
    using engine_ok_frame[OF ok f] f(1) get_topic_frame[OF f(1)] by (simp_all add: engine_frame_def)
  consider "e' = e" "res = Inr False" "map_of (rg_routers (e_routers e)) name = None" | err where "e' = e1" "res = Inl err"
    | "e' = e1\<lparr>e_routers := graph_remove name (e_routers e1)\<rparr>" "res = Inr True"
    using out w by (auto simp: delete_router_def split: if_splits sum.splits)
  then have "engine_ok e' \<and> routers_ok (e_routers e') \<and> (\<forall>m. get_topic m e' = get_topic m e) \<and> e_limits e' = e_limits e \<and>
    (\<forall>b. res = Inr b \<longrightarrow> map_of (rg_routers (e_routers e')) name = None) \<and> (\<forall>err. res = Inl err \<longrightarrow> e_routers e' = e_routers e)"
    using ok rok routers_ok_remove[OF rok, of name] e1 by cases (simp_all add: delete_conv)
  then show "engine_ok e'" "routers_ok (e_routers e')" "get_topic m e' = get_topic m e" "e_limits e' = e_limits e"
    "res = Inr b \<Longrightarrow> map_of (rg_routers (e_routers e')) name = None" "res = Inl err \<Longrightarrow> e_routers e' = e_routers e"
    by blast+
qed

end
