(* ===== verification/Queue_Engine.thy ===== *)
theory Queue_Engine
  imports Router_Forward Diff
begin

text \<open>
  The queue operations of the engine (\<open>engine/queue.rs\<close>): the batched claim pass with its
  dead-lettering, \<open>ack\<close>, \<open>nack\<close> and \<open>extend\<close> with lease fencing, and the release of a lost work
  connection. The jobs are the records of the topic; who holds them is the lease projection.
\<close>

section \<open>Counters and the leases log\<close>

definition MAX_CLAIM :: nat where
  "MAX_CLAIM = 1000"

definition MAX_NACK_DELAY_MS :: nat where
  "MAX_NACK_DELAY_MS = 86400000"

definition get_queue :: "string \<Rightarrow> engine \<Rightarrow> (topic_state \<times> queue_projection) result" where
  "get_queue name e =
     (case get_topic name e of
        None \<Rightarrow> Inl TopicNotFound
      | Some t \<Rightarrow> (case t_queue t of None \<Rightarrow> Inl NotAQueue | Some q \<Rightarrow> Inr (t, q)))"

definition set_queue :: "queue_projection \<Rightarrow> topic_state \<Rightarrow> topic_state" where
  "set_queue q t = t\<lparr>t_queue := Some q\<rparr>"

definition reclaim_seq :: "seq \<Rightarrow> topic_state \<Rightarrow> topic_state" where
  "reclaim_seq s t = (case t_queue t of Some q \<Rightarrow> set_queue (push_reclaim s q) t | None \<Rightarrow> t)"

definition ready_in_flight :: "i64 \<Rightarrow> topic_state \<Rightarrow> queue_projection \<Rightarrow> nat \<times> nat" where
  "ready_in_flight now t q =
     (let live = is_live (t_index t);
          in_flight = length (filter (\<lambda>(s, l). now \<le> ls_deadline_ms l \<and> live s) (leases q));
          leased_live = length (filter (\<lambda>(s, _). live s) (leases q));
          delayed_live = length (filter (\<lambda>(ready_at, s). ready_at > now \<and> live s) (delayed q))
      in (t_live_count t - leased_live - delayed_live, in_flight))"

definition queue_counters :: "env \<Rightarrow> topic_state \<Rightarrow> i64 \<Rightarrow> engine \<Rightarrow> (nat \<times> nat \<times> nat) \<times> topic_state \<times> engine" where
  "queue_counters env t now e =
     (case t_queue t of
        None \<Rightarrow> ((0, 0, 0), t, e)
      | Some q \<Rightarrow>
          let (_, t, e) = enforce_retention_durable env t now e;
              q = sweep_expired now q;
              (ready, in_flight) = ready_in_flight now t q
          in ((ready, in_flight, dead_lettered q), set_queue q t, e))"

definition counters_named :: "env \<Rightarrow> string \<Rightarrow> i64 \<Rightarrow> engine \<Rightarrow> (nat \<times> nat) \<times> engine" where
  "counters_named env name now e =
     (case get_topic name e of
        None \<Rightarrow> ((0, 0), e)
      | Some t \<Rightarrow> let ((ready, in_flight, _), t, e) = queue_counters env t now e in ((ready, in_flight), put_state t e))"

definition leases_durable :: "topic_state \<Rightarrow> bool" where
  "leases_durable t = (cfg_leases_durable (t_config t) \<and> uses_persistent_record_store (t_config t))"

definition log_lease_event ::
  "env \<Rightarrow> topic_state \<Rightarrow> seq \<Rightarrow> u8 \<Rightarrow> string \<Rightarrow> u64 \<Rightarrow> i64 \<Rightarrow> u64 \<Rightarrow> i64 \<Rightarrow> engine \<Rightarrow> engine" where
  "log_lease_event env t s event node lease_id deadline n now e =
     (if \<not> leases_durable t then e
      else wal_log_best_effort env (Lease (t_topic_id t) s event node lease_id (as_ts deadline) n (as_ts now)) True e)"

section \<open>Deleting a finished job\<close>

definition drop_seq :: "seq \<Rightarrow> topic_state \<Rightarrow> engine \<Rightarrow> topic_state \<times> engine" where
  "drop_seq s t e = (let (t, st) = delete_seqs_stats [s] t in (t, release_total_bytes (ds_bytes_freed st) e))"

definition delete_one_seq :: "env \<Rightarrow> seq \<Rightarrow> i64 \<Rightarrow> topic_state \<Rightarrow> engine \<Rightarrow> unit result \<times> topic_state \<times> engine" where
  "delete_one_seq env s now t e =
     (if durability_class (t_config t) = Fsync then
        (case wal_commit env (Delete (t_topic_id t) None None [s] None (as_ts now)) True e of
           (Inl err, e) \<Rightarrow> (Inl err, t, e)
         | (Inr _, e) \<Rightarrow> let (t, e) = drop_seq s t e in (Inr (), t, e))
      else let (t, e) = drop_seq s t e in (Inr (), t, wal_log_delete_seqs env (t_topic_id t) [s] now False e))"

definition delete_named :: "env \<Rightarrow> string \<Rightarrow> seq \<Rightarrow> i64 \<Rightarrow> engine \<Rightarrow> unit result \<times> engine" where
  "delete_named env name s now e =
     (case get_topic name e of
        None \<Rightarrow> (Inr (), e)
      | Some t \<Rightarrow> let (res, t, e) = delete_one_seq env s now t e in (res, put_state t e))"

section \<open>The claim pass\<close>

record leased_job =
  lj_seq :: seq
  lj_lease_id :: u64
  lj_deadline :: i64
  lj_ts :: i64
  lj_tag :: "string option"
  lj_deliveries :: u64
  lj_data :: json
  lj_meta :: "json option"

record claim_ctx =
  cc_index :: topic_index
  cc_head :: seq
  cc_now :: i64
  cc_deadline :: i64
  cc_claimers :: "claimer list"
  cc_max_deliveries :: u64
  cc_dead_letter :: "string option"

record claim_state =
  cs_queue :: queue_projection
  cs_remaining :: "nat list"
  cs_total :: nat
  cs_rr :: nat
  cs_out :: "leased_job list list"
  cs_dead :: "seq list"
  cs_events :: "(nat \<times> seq \<times> u64 \<times> u64) list"
  cs_resolve :: "(nat \<times> nat \<times> seq) list"

fun find_claimer :: "nat \<Rightarrow> nat list \<Rightarrow> nat \<Rightarrow> nat" where
  "find_claimer tries remaining rr =
     (if tries = 0 \<or> remaining ! rr \<noteq> 0 then rr
      else find_claimer (tries - 1) remaining ((rr + 1) mod length remaining))"

declare find_claimer.simps [simp del]

definition job_of :: "claim_ctx \<Rightarrow> seq \<Rightarrow> u64 \<Rightarrow> u64 \<Rightarrow> leased_job \<times> bool" where
  "job_of ctx s lease_id n =
     (case ix_get (cc_index ctx) s of
        Some r \<Rightarrow> (\<lparr>lj_seq = s, lj_lease_id = lease_id, lj_deadline = cc_deadline ctx, lj_ts = sr_ts r, lj_tag = sr_tag r,
                    lj_deliveries = n, lj_data = sr_data r, lj_meta = sr_meta r\<rparr>, sr_payload_resident r)
      | None \<Rightarrow> (\<lparr>lj_seq = s, lj_lease_id = lease_id, lj_deadline = cc_deadline ctx, lj_ts = cc_now ctx, lj_tag = None,
                 lj_deliveries = n, lj_data = JNull, lj_meta = None\<rparr>, True))"

definition delivered :: "queue_projection \<Rightarrow> seq \<Rightarrow> nat" where
  "delivered q s = (case map_of (deliveries q) s of Some n \<Rightarrow> n | None \<Rightarrow> 0)"

definition over_limit :: "claim_ctx \<Rightarrow> queue_projection \<Rightarrow> seq \<Rightarrow> bool" where
  "over_limit ctx q s =
     (cc_max_deliveries ctx > 0 \<and> delivered q s + 1 > cc_max_deliveries ctx \<and> cc_dead_letter ctx \<noteq> None)"

definition divert :: "seq \<Rightarrow> claim_state \<Rightarrow> claim_state" where
  "divert s cs =
     (let q = cs_queue cs in
      cs\<lparr>cs_queue := q\<lparr>deliveries := AList.delete s (deliveries q), dead_lettered := dead_lettered q + 1\<rparr>,
         cs_dead := cs_dead cs @ [s]\<rparr>)"

definition lease_to :: "claim_ctx \<Rightarrow> nat \<Rightarrow> seq \<Rightarrow> claim_state \<Rightarrow> claim_state" where
  "lease_to ctx rr s cs =
     (let c = cc_claimers ctx ! rr;
          n = delivered (cs_queue cs) s + 1;
          (lease_id, q) = alloc_lease_id (cs_queue cs);
          q = q\<lparr>deliveries := AList.update s n (deliveries q)\<rparr>;
          q = add_lease s \<lparr>ls_node = cl_node c, ls_lease_id = lease_id, ls_deadline_ms = cc_deadline ctx,
                 ls_by_work_conn = cl_work_conn c\<rparr> q;
          (job, resident) = job_of ctx s lease_id n
      in cs\<lparr>cs_queue := q,
            cs_resolve := (if resident then cs_resolve cs else cs_resolve cs @ [(rr, length (cs_out cs ! rr), s)]),
            cs_out := (cs_out cs)[rr := cs_out cs ! rr @ [job]],
            cs_events := cs_events cs @ [(rr, s, lease_id, n)],
            cs_remaining := (cs_remaining cs)[rr := cs_remaining cs ! rr - 1],
            cs_total := cs_total cs - 1, cs_rr := (rr + 1) mod length (cc_claimers ctx)\<rparr>)"

definition claim_one :: "claim_ctx \<Rightarrow> nat \<Rightarrow> seq \<Rightarrow> claim_state \<Rightarrow> claim_state" where
  "claim_one ctx rr s cs = (if over_limit ctx (cs_queue cs) s then divert s cs else lease_to ctx rr s cs)"

definition claim_work :: "seq \<Rightarrow> queue_projection \<Rightarrow> nat" where
  "claim_work head q = length (reclaim q) + (Suc head - claim_cursor q)"

lemma next_reclaimed_work: "next_reclaimed ix q = (r, q') \<Longrightarrow>
   claim_cursor q' = claim_cursor q \<and> length (reclaim q') \<le> length (reclaim q) \<and> (r \<noteq> None \<longrightarrow> length (reclaim q') < length (reclaim q))"
proof (induction ix q rule: next_reclaimed.induct)
  case (1 ix q)
  show ?case
  proof (cases "pop_reclaim q")
    case None
    then show ?thesis
      using 1(3) by (subst (asm) next_reclaimed.simps) simp
  next
    case (Some p)
    obtain s q1 where p: "p = (s, q1)" by fastforce
    have pop: "claim_cursor q1 = claim_cursor q \<and> length (reclaim q1) < length (reclaim q)"
      using Some p by (auto simp: pop_reclaim_def split: option.splits elim!: heap_pop.elims)
    show ?thesis
      using 1(3) 1(1)[OF Some p[symmetric]] 1(2)[OF Some p[symmetric]] pop Some p
      by (subst (asm) next_reclaimed.simps) (auto split: if_splits)
  qed
qed

lemma next_fresh_work: "next_fresh ix head q = (Some s, q') \<Longrightarrow>
   reclaim q' = reclaim q \<and> claim_cursor q < claim_cursor q' \<and> claim_cursor q \<le> head"
proof (induction ix head q rule: next_fresh.induct)
  case (1 ix head q)
  show ?case
  proof (cases "claim_cursor q \<le> head")
    case True
    let ?q = "q\<lparr>claim_cursor := claim_cursor q + 1\<rparr>"
    show ?thesis
      using 1(3) 1(1)[OF True refl refl] 1(2)[OF True refl refl] True
      by (subst (asm) next_fresh.simps) (auto simp: Let_def split: if_splits)
  next
    case False
    then show ?thesis
      using 1(3) by (subst (asm) next_fresh.simps) simp
  qed
qed

lemma next_claimable_work: "next_claimable ix head q = (Some s, q') \<Longrightarrow> claim_work head q' < claim_work head q"
  using next_reclaimed_work[of ix q] next_fresh_work[of ix head _ s q']
  by (fastforce simp: next_claimable_def claim_work_def split: prod.splits option.splits)

lemma claim_one_work: "claim_work head (cs_queue (claim_one ctx rr s cs)) = claim_work head (cs_queue cs)"
  by (simp add: claim_one_def divert_def lease_to_def claim_work_def alloc_lease_id_def add_lease_def Let_def split_beta)

function claim_loop :: "claim_ctx \<Rightarrow> claim_state \<Rightarrow> claim_state" where
  "claim_loop ctx cs =
     (if cs_total cs = 0 then cs
      else
        let rr = find_claimer (length (cs_remaining cs)) (cs_remaining cs) (cs_rr cs) in
        if cs_remaining cs ! rr = 0 then cs\<lparr>cs_rr := rr\<rparr>
        else (case next_claimable (cc_index ctx) (cc_head ctx) (cs_queue cs) of
                (None, q) \<Rightarrow> cs\<lparr>cs_queue := q, cs_rr := rr\<rparr>
              | (Some s, q) \<Rightarrow> claim_loop ctx (claim_one ctx rr s (cs\<lparr>cs_queue := q, cs_rr := rr\<rparr>))))"
  by auto
termination
  by (relation "measure (\<lambda>(ctx, cs). claim_work (cc_head ctx) (cs_queue cs))") (auto simp: claim_one_work dest: next_claimable_work[OF sym])

declare claim_loop.simps [simp del]

definition claim_start :: "claimer list \<Rightarrow> queue_projection \<Rightarrow> claim_state" where
  "claim_start claimers q =
     (let demands = map (\<lambda>c. max 1 (min MAX_CLAIM (cl_max c))) claimers
      in \<lparr>cs_queue = q, cs_remaining = demands, cs_total = sum_list demands, cs_rr = 0,
          cs_out = replicate (length claimers) [], cs_dead = [], cs_events = [], cs_resolve = []\<rparr>)"

definition claim_context :: "claimer list \<Rightarrow> nat option \<Rightarrow> i64 \<Rightarrow> topic_state \<Rightarrow> claim_ctx" where
  "claim_context claimers lease_ms now t =
     (let cfg = t_config t;
          effective = max MIN_LEASE_MS (min MAX_LEASE_MS (case lease_ms of Some l \<Rightarrow> l | None \<Rightarrow> cfg_lease_ms cfg))
      in \<lparr>cc_index = t_index t, cc_head = t_head_seq t, cc_now = now, cc_deadline = i64_sat_add now (as_i64 effective),
          cc_claimers = claimers, cc_max_deliveries = cfg_max_deliveries cfg, cc_dead_letter = cfg_dead_letter cfg\<rparr>)"

definition claim_pass :: "claimer list \<Rightarrow> nat option \<Rightarrow> i64 \<Rightarrow> topic_state \<Rightarrow> queue_projection \<Rightarrow> claim_state" where
  "claim_pass claimers lease_ms now t q =
     claim_loop (claim_context claimers lease_ms now t) (claim_start claimers (sweep_expired now q))"

text \<open>The payloads of sealed jobs, read after the locks are released; an unreadable one stays as it is.\<close>

fun resolve_jobs :: "env \<Rightarrow> (nat \<times> nat \<times> seq) list \<Rightarrow> leased_job list list \<Rightarrow> topic_state \<Rightarrow> leased_job list list \<times> topic_state" where
  "resolve_jobs env [] out t = (out, t)"
| "resolve_jobs env ((rr, i, s) # ps) out t =
     (case t_segwriter t of
        None \<Rightarrow> resolve_jobs env ps out t
      | Some w \<Rightarrow>
          let (p, t) = (case resolve_sealed_fast w s of
                          Hit p \<Rightarrow> (Some p, t)
                        | Read loc \<Rightarrow>
                            (case read_locator env loc of
                               Some p \<Rightarrow> (Some p, t\<lparr>t_segwriter := Some (record_cold_read loc p w)\<rparr>)
                             | None \<Rightarrow> (None, t))
                        | NotSealed \<Rightarrow> (None, t));
              out = (case p of
                       Some p \<Rightarrow> out[rr := (out ! rr)[i := (out ! rr ! i)\<lparr>lj_data := rp_data p, lj_meta := rp_meta p\<rparr>]]
                     | None \<Rightarrow> out)
          in resolve_jobs env ps out t)"

section \<open>Dead letters\<close>

definition requeue_diverted :: "seq list \<Rightarrow> topic_state \<Rightarrow> topic_state" where
  "requeue_diverted seqs t =
     (case t_queue t of
        Some q \<Rightarrow> let q = fold push_reclaim seqs q in set_queue (q\<lparr>dead_lettered := dead_lettered q - length seqs\<rparr>) t
      | None \<Rightarrow> t)"

definition dead_letter_meta :: "string \<Rightarrow> nat \<Rightarrow> seq \<Rightarrow> json option \<Rightarrow> json" where
  "dead_letter_meta src max_deliveries s meta =
     (let m = (case meta of Some (JObject m) \<Rightarrow> m | _ \<Rightarrow> [])
      in JObject (bt_insert ''$dead_letter_src_seq'' (JString (decimal s))
           (bt_insert ''$dead_letter_deliveries'' (JString (decimal max_deliveries))
             (bt_insert ''$dead_letter_from'' (JString src) m))))"

fun dead_letter_records ::
  "env \<Rightarrow> string \<Rightarrow> nat \<Rightarrow> i64 \<Rightarrow> seq list \<Rightarrow> topic_state \<Rightarrow> stored_record list \<times> topic_state" where
  "dead_letter_records env src max_deliveries now [] t = ([], t)"
| "dead_letter_records env src max_deliveries now (s # ss) t =
     (case ix_get (t_index t) s of
        Some r \<Rightarrow>
          if sr_deleted r then dead_letter_records env src max_deliveries now ss t
          else
            let (p, t) = (if sr_payload_resident r then (slot_payload r, t)
                          else (case resolve_sealed_off_lock env s 0 t of (t, p, _) \<Rightarrow> (p, t)));
                meta = dead_letter_meta src max_deliveries s (rp_meta p);
                (rs, t) = dead_letter_records env src max_deliveries now ss t
            in (\<lparr>sr_ts = now, sr_node = sr_node r, sr_tag = sr_tag r, sr_data = rp_data p, sr_meta = Some meta,
                 sr_bytes = payload_bytes env (rp_data p) (Some meta), sr_deleted = False, sr_payload_resident = True, sr_hops = 0\<rparr> # rs, t)
      | None \<Rightarrow> dead_letter_records env src max_deliveries now ss t)"

fun delete_diverted :: "env \<Rightarrow> string \<Rightarrow> seq list \<Rightarrow> i64 \<Rightarrow> engine \<Rightarrow> engine" where
  "delete_diverted env src [] now e = e"
| "delete_diverted env src (s # ss) now e =
     (case delete_named env src s now e of
        (Inl _, e) \<Rightarrow> delete_diverted env src ss now (on_topic src (reclaim_seq s) e)
      | (Inr _, e) \<Rightarrow> delete_diverted env src ss now e)"

definition append_dead_letters :: "env \<Rightarrow> string \<Rightarrow> stored_record list \<Rightarrow> i64 \<Rightarrow> engine \<Rightarrow> bool \<times> engine" where
  "append_dead_letters env dl rs now e =
     (if rs = [] then (True, e)
      else case get_topic dl e of
             None \<Rightarrow> (False, e)
           | Some d \<Rightarrow>
               (case durable_append env d rs now e of
                  (Inl _, d, e) \<Rightarrow> (False, put_state d e)
                | (Inr _, d, e) \<Rightarrow> (True, snd (retain_named env dl now (put_state d e)))))"

definition dead_letter_jobs :: "env \<Rightarrow> string \<Rightarrow> string \<Rightarrow> seq list \<Rightarrow> nat \<Rightarrow> i64 \<Rightarrow> engine \<Rightarrow> engine" where
  "dead_letter_jobs env src dl seqs max_deliveries now e =
     (let e = (if get_topic dl e = None then snd (put_topic env dl default_config now e) else e)
      in if get_topic dl e = None then on_topic src (requeue_diverted seqs) e
         else case get_topic src e of
                None \<Rightarrow> e
              | Some t \<Rightarrow>
                  let (rs, t) = dead_letter_records env src max_deliveries now seqs t;
                      (ok, e) = append_dead_letters env dl rs now (put_state t e)
                  in if \<not> ok then on_topic src (requeue_diverted seqs) e else delete_diverted env src seqs now e)"

section \<open>The handlers\<close>

fun log_claims :: "env \<Rightarrow> topic_state \<Rightarrow> claimer list \<Rightarrow> i64 \<Rightarrow> i64 \<Rightarrow> (nat \<times> seq \<times> u64 \<times> u64) list \<Rightarrow> engine \<Rightarrow> engine" where
  "log_claims env t claimers deadline now [] e = e"
| "log_claims env t claimers deadline now ((i, s, lease_id, n) # evs) e =
     log_claims env t claimers deadline now evs
       (log_lease_event env t s 0 (cl_node (claimers ! i)) lease_id deadline n now e)"

definition run_claim_cohort ::
  "env \<Rightarrow> string \<Rightarrow> claimer list \<Rightarrow> nat option \<Rightarrow> i64 \<Rightarrow> engine \<Rightarrow> (leased_job list list \<times> nat) result \<times> engine" where
  "run_claim_cohort env name claimers lease_ms now e =
     (case get_queue name e of
        Inl err \<Rightarrow> (Inl err, e)
      | Inr (t, q) \<Rightarrow>
          (case enforce_retention_durable env t now e of
             (Inl err, t, e) \<Rightarrow> (Inl err, put_state t e)
           | (Inr _, t, e) \<Rightarrow>
               let ctx = claim_context claimers lease_ms now t;
                   cs = claim_pass claimers lease_ms now t q;
                   (out, t) = resolve_jobs env (cs_resolve cs) (cs_out cs) (set_queue (cs_queue cs) t);
                   e = put_state t e;
                   e = (case cc_dead_letter ctx of
                          Some dl \<Rightarrow> if cs_dead cs = [] then e
                                     else dead_letter_jobs env name dl (cs_dead cs) (cc_max_deliveries ctx) now e
                        | None \<Rightarrow> e);
                   e = log_claims env t claimers (cc_deadline ctx) now (cs_events cs) e;
                   ready = (case get_topic name e of
                              Some t \<Rightarrow> (case t_queue t of Some q \<Rightarrow> fst (ready_in_flight now t q) | None \<Rightarrow> 0)
                            | None \<Rightarrow> 0)
               in (Inr (out, ready), e)))"

definition claim_cohort ::
  "env \<Rightarrow> string \<Rightarrow> claimer list \<Rightarrow> nat option \<Rightarrow> i64 \<Rightarrow> engine \<Rightarrow> (leased_job list list \<times> nat) result \<times> engine" where
  "claim_cohort env name claimers lease_ms now e =
     run_claim_cohort env name claimers lease_ms now (catch_up_dest env name now e)"

definition claim ::
  "env \<Rightarrow> string \<Rightarrow> string \<Rightarrow> nat \<Rightarrow> nat option \<Rightarrow> i64 \<Rightarrow> engine \<Rightarrow> (leased_job list \<times> nat) result \<times> engine" where
  "claim env name node max_jobs lease_ms now e =
     (if node = [] then (Inl InvalidRequest, e)
      else if length node > MAX_NODE_BYTES then (Inl InvalidRequest, e)
      else
        let c = \<lparr>cl_node = node, cl_max = max 1 (min MAX_CLAIM max_jobs), cl_work_conn = None\<rparr> in
        case claim_cohort env name [c] lease_ms now e of
          (Inl err, e) \<Rightarrow> (Inl err, e)
        | (Inr (out, ready), e) \<Rightarrow> (Inr (if out = [] then [] else last out, ready), e))"

definition check_seqs :: "string \<Rightarrow> seq list \<Rightarrow> u64 option list \<Rightarrow> api_error option" where
  "check_seqs node seqs lease_ids =
     (if node = [] then Some InvalidRequest
      else if length seqs > MAX_CLAIM then Some BatchTooLarge
      else if lease_ids \<noteq> [] \<and> length lease_ids \<noteq> length seqs then Some InvalidRequest
      else None)"

definition holds :: "string \<Rightarrow> u64 option list \<Rightarrow> nat \<Rightarrow> seq \<Rightarrow> queue_projection \<Rightarrow> u64 option" where
  "holds node lease_ids i s q =
     (case lease_of q s of
        Some l \<Rightarrow> if ls_node l = node \<and> lease_token_ok lease_ids i (ls_lease_id l) then Some (ls_lease_id l) else None
      | None \<Rightarrow> None)"

fun settle_scan ::
  "(seq \<Rightarrow> queue_projection \<Rightarrow> queue_projection) \<Rightarrow> string \<Rightarrow> u64 option list \<Rightarrow> nat \<Rightarrow> seq list \<Rightarrow> queue_projection \<Rightarrow>
     (seq \<times> u64) list \<times> seq list \<times> queue_projection" where
  "settle_scan f node lease_ids i [] q = ([], [], q)"
| "settle_scan f node lease_ids i (s # ss) q =
     (case holds node lease_ids i s q of
        Some lease_id \<Rightarrow>
          let (hit, skipped, q) = settle_scan f node lease_ids (i + 1) ss (f s q) in ((s, lease_id) # hit, skipped, q)
      | None \<Rightarrow> let (hit, skipped, q) = settle_scan f node lease_ids (i + 1) ss q in (hit, s # skipped, q))"

definition ack_one :: "seq \<Rightarrow> queue_projection \<Rightarrow> queue_projection" where
  "ack_one s q = (remove_lease s q)\<lparr>deliveries := AList.delete s (deliveries q)\<rparr>"

definition nack_one :: "i64 \<Rightarrow> i64 \<Rightarrow> seq \<Rightarrow> queue_projection \<Rightarrow> queue_projection" where
  "nack_one delay now s q =
     (let q = remove_lease s q in if delay > 0 then push_delayed (i64_sat_add now delay) s q else push_reclaim s q)"

definition extend_one :: "i64 \<Rightarrow> seq \<Rightarrow> queue_projection \<Rightarrow> queue_projection" where
  "extend_one deadline s q =
     (case lease_of q s of Some l \<Rightarrow> add_lease s (l\<lparr>ls_deadline_ms := deadline\<rparr>) q | None \<Rightarrow> q)"

fun ack_deletes :: "env \<Rightarrow> string \<Rightarrow> string \<Rightarrow> (seq \<times> u64) list \<Rightarrow> i64 \<Rightarrow> engine \<Rightarrow> unit result \<times> engine" where
  "ack_deletes env name node [] now e = (Inr (), e)"
| "ack_deletes env name node ((s, lease_id) # rest) now e =
     (case delete_named env name s now e of
        (Inl err, e) \<Rightarrow> (Inl err, fold (\<lambda>(s, _). on_topic name (reclaim_seq s)) ((s, lease_id) # rest) e)
      | (Inr _, e) \<Rightarrow>
          let e = (case get_topic name e of Some t \<Rightarrow> log_lease_event env t s 3 node lease_id 0 0 now e | None \<Rightarrow> e)
          in ack_deletes env name node rest now e)"

record settle_response =
  sp_settled :: nat
  sp_skipped :: "seq list"
  sp_ready :: nat
  sp_in_flight :: nat

definition settled :: "env \<Rightarrow> string \<Rightarrow> (seq \<times> u64) list \<Rightarrow> seq list \<Rightarrow> i64 \<Rightarrow> engine \<Rightarrow> settle_response result \<times> engine" where
  "settled env name hit skipped now e =
     (let ((ready, in_flight), e) = counters_named env name now e
      in (Inr \<lparr>sp_settled = length hit, sp_skipped = skipped, sp_ready = ready, sp_in_flight = in_flight\<rparr>, e))"

definition ack_fenced ::
  "env \<Rightarrow> string \<Rightarrow> string \<Rightarrow> seq list \<Rightarrow> u64 option list \<Rightarrow> i64 \<Rightarrow> engine \<Rightarrow> settle_response result \<times> engine" where
  "ack_fenced env name node seqs lease_ids now e =
     (case check_seqs node seqs lease_ids of
        Some err \<Rightarrow> (Inl err, e)
      | None \<Rightarrow>
          (case get_queue name e of
             Inl err \<Rightarrow> (Inl err, e)
           | Inr (t, q) \<Rightarrow>
               let (hit, skipped, q) = settle_scan ack_one node lease_ids 0 seqs (sweep_expired now q)
               in case ack_deletes env name node hit now (put_state (set_queue q t) e) of
                    (Inl err, e) \<Rightarrow> (Inl err, e)
                  | (Inr _, e) \<Rightarrow> settled env name hit skipped now e))"

definition log_settled :: "env \<Rightarrow> topic_state \<Rightarrow> u8 \<Rightarrow> string \<Rightarrow> i64 \<Rightarrow> i64 \<Rightarrow> (seq \<times> u64) list \<Rightarrow> engine \<Rightarrow> engine" where
  "log_settled env t event node deadline now hit e =
     fold (\<lambda>(s, lease_id). log_lease_event env t s event node lease_id deadline 0 now) hit e"

definition nack_fenced ::
  "env \<Rightarrow> string \<Rightarrow> string \<Rightarrow> seq list \<Rightarrow> nat \<Rightarrow> u64 option list \<Rightarrow> i64 \<Rightarrow> engine \<Rightarrow> settle_response result \<times> engine" where
  "nack_fenced env name node seqs delay_ms lease_ids now e =
     (case check_seqs node seqs lease_ids of
        Some err \<Rightarrow> (Inl err, e)
      | None \<Rightarrow>
          (case get_queue name e of
             Inl err \<Rightarrow> (Inl err, e)
           | Inr (t, q) \<Rightarrow>
               let delay = as_i64 (min delay_ms MAX_NACK_DELAY_MS);
                   (hit, skipped, q) = settle_scan (nack_one delay now) node lease_ids 0 seqs (sweep_expired now q);
                   e = log_settled env t 1 node 0 now hit (put_state (set_queue q t) e)
               in settled env name hit skipped now e))"

definition extend_fenced ::
  "env \<Rightarrow> string \<Rightarrow> string \<Rightarrow> seq list \<Rightarrow> nat \<Rightarrow> u64 option list \<Rightarrow> i64 \<Rightarrow> engine \<Rightarrow> ((seq \<times> u64) list \<times> seq list \<times> i64) result \<times> engine" where
  "extend_fenced env name node seqs lease_ms lease_ids now e =
     (case check_seqs node seqs lease_ids of
        Some err \<Rightarrow> (Inl err, e)
      | None \<Rightarrow>
          (case get_queue name e of
             Inl err \<Rightarrow> (Inl err, e)
           | Inr (t, q) \<Rightarrow>
               let deadline = i64_sat_add now (as_i64 (max MIN_LEASE_MS (min MAX_LEASE_MS lease_ms)));
                   (hit, skipped, q) = settle_scan (extend_one deadline) node lease_ids 0 seqs (sweep_expired now q);
                   e = log_settled env t 2 node deadline now hit (put_state (set_queue q t) e)
               in (Inr (hit, skipped, deadline), e)))"

definition work_conn_in_flight :: "string \<Rightarrow> u64 \<Rightarrow> i64 \<Rightarrow> engine \<Rightarrow> nat" where
  "work_conn_in_flight name conn now e =
     (case get_queue name e of
        Inl _ \<Rightarrow> 0
      | Inr (_, q) \<Rightarrow> length (filter (\<lambda>(_, l). ls_by_work_conn l = Some conn \<and> now \<le> ls_deadline_ms l) (leases q)))"

definition conn_leases :: "u64 \<Rightarrow> queue_projection \<Rightarrow> (seq \<times> lease) list" where
  "conn_leases conn q = filter (\<lambda>(_, l). ls_by_work_conn l = Some conn) (leases q)"

definition release_work_conn :: "env \<Rightarrow> string \<Rightarrow> u64 \<Rightarrow> i64 \<Rightarrow> engine \<Rightarrow> engine" where
  "release_work_conn env name conn now e =
     (case get_queue name e of
        Inl _ \<Rightarrow> e
      | Inr (t, q) \<Rightarrow>
          let released = conn_leases conn q;
              q = fold (\<lambda>(s, _) q. push_reclaim s (remove_lease s q)) released q
          in fold (\<lambda>(s, l). log_lease_event env t s 1 (ls_node l) (ls_lease_id l) 0 0 now) released (put_state (set_queue q t) e))"

section \<open>The claim pass hands out each job once\<close>

lemma find_claimer_spec:
  assumes "rr < length rem"
  shows "find_claimer k rem rr < length rem"
    "rem ! find_claimer k rem rr \<noteq> 0 \<or> (\<forall>j\<le>k. rem ! ((rr + j) mod length rem) = 0)"
proof -
  have "find_claimer k rem rr < length rem \<and> (rem ! find_claimer k rem rr \<noteq> 0 \<or> (\<forall>j\<le>k. rem ! ((rr + j) mod length rem) = 0))"
    using assms
  proof (induction k arbitrary: rr)
    case 0
    then show ?case
      by (cases "rem ! rr = 0") (simp_all add: find_claimer.simps)
  next
    case (Suc k)
    let ?r = "(rr + 1) mod length rem"
    show ?case
    proof (cases "rem ! rr = 0")
      case False
      then show ?thesis
        using Suc.prems by (subst (1 2) find_claimer.simps) simp
    next
      case True
      have "?r < length rem"
        using Suc.prems by (metis length_greater_0_conv list.size(3) mod_less_divisor not_less_zero)
      note ih = Suc.IH[OF this]
      have eq: "find_claimer (Suc k) rem rr = find_claimer k rem ?r"
        using True by (subst find_claimer.simps) simp
      have "rem ! ((rr + j) mod length rem) = 0" if "\<forall>j\<le>k. rem ! ((?r + j) mod length rem) = 0" "j \<le> Suc k" for j
      proof (cases j)
        case 0
        then show ?thesis using True Suc.prems by simp
      next
        case (Suc i)
        then have "(rr + j) mod length rem = (?r + i) mod length rem"
          by (simp add: mod_add_left_eq)
        then show ?thesis
          using that Suc by simp
      qed
      then show ?thesis
        using ih unfolding eq by blast
    qed
  qed
  then show "find_claimer k rem rr < length rem"
    "rem ! find_claimer k rem rr \<noteq> 0 \<or> (\<forall>j\<le>k. rem ! ((rr + j) mod length rem) = 0)" by simp_all
qed

lemma find_claimer_hit:
  assumes "rr < length rem" "0 < sum_list rem"
  shows "rem ! find_claimer (length rem) rem rr \<noteq> 0"
proof -
  obtain i where i: "i < length rem" "rem ! i \<noteq> 0"
    using assms(2) sum_list_eq_0_iff[of rem] by (metis in_set_conv_nth less_not_refl)
  let ?n = "length rem"
  have "\<exists>j\<le>?n. (rr + j) mod ?n = i"
  proof (cases "rr \<le> i")
    case True
    then show ?thesis
      using i by (intro exI[of _ "i - rr"]) simp
  next
    case False
    then have "(rr + (?n - rr + i)) mod ?n = i"
      using assms(1) i by simp
    then show ?thesis
      using False assms(1) by (intro exI[of _ "?n - rr + i"]) simp
  qed
  then show ?thesis
    using find_claimer_spec(2)[OF assms(1), of ?n] i(2) by auto
qed

text \<open>
  What holds of the pass at each turn of its loop: the projection stays well formed and
  loses no live job except to the dead letters, every handed out job carries a new lease
  of its claimer, and what a claimer got plus what it still may get is its demand.
\<close>

definition pass_queue :: "claim_ctx \<Rightarrow> queue_projection \<Rightarrow> queue_projection \<Rightarrow> seq list \<Rightarrow> bool" where
  "pass_queue ctx q0 q dead \<longleftrightarrow>
     wf_queue q \<and> next_lease_id q0 \<le> next_lease_id q \<and>
     (\<forall>t\<in>set (reclaim q). is_live (cc_index ctx) t \<longrightarrow> t \<le> cc_head ctx) \<and>
     claim_cursor q \<le> max (claim_cursor q0) (cc_head ctx + 1) \<and>
     (\<forall>t\<in>tracked q0. is_live (cc_index ctx) t \<longrightarrow> t \<in> tracked q \<or> t \<in> set dead) \<and>
     (\<forall>t l. lease_of q0 t = Some l \<longrightarrow> lease_of q t = Some l) \<and>
     delayed q = delayed q0 \<and> list_all (is_live (cc_index ctx)) dead"

definition job_ok :: "claim_ctx \<Rightarrow> queue_projection \<Rightarrow> queue_projection \<Rightarrow> nat \<Rightarrow> leased_job \<Rightarrow> bool" where
  "job_ok ctx q0 q i j \<longleftrightarrow> lease_of q0 (lj_seq j) = None \<and> is_live (cc_index ctx) (lj_seq j) \<and> lj_seq j \<le> cc_head ctx \<and>
     next_lease_id q0 \<le> lj_lease_id j \<and>
     lease_of q (lj_seq j) = Some \<lparr>ls_node = cl_node (cc_claimers ctx ! i), ls_lease_id = lj_lease_id j,
       ls_deadline_ms = cc_deadline ctx, ls_by_work_conn = cl_work_conn (cc_claimers ctx ! i)\<rparr>"

definition pass_jobs :: "claim_ctx \<Rightarrow> queue_projection \<Rightarrow> queue_projection \<Rightarrow> leased_job list list \<Rightarrow> bool" where
  "pass_jobs ctx q0 q out \<longleftrightarrow>
     (\<forall>i<length out. \<forall>j\<in>set (out ! i). job_ok ctx q0 q i j) \<and> distinct (map lj_seq (concat out))"

definition pass_demand :: "nat list \<Rightarrow> claim_state \<Rightarrow> bool" where
  "pass_demand demands cs \<longleftrightarrow>
     length (cs_out cs) = length demands \<and> length (cs_remaining cs) = length demands \<and>
     (\<forall>i<length demands. length (cs_out cs ! i) + cs_remaining cs ! i = demands ! i) \<and>
     cs_total cs = sum_list (cs_remaining cs) \<and> (cs_rr cs < length demands \<or> demands = [])"

definition pass_inv :: "claim_ctx \<Rightarrow> queue_projection \<Rightarrow> nat list \<Rightarrow> claim_state \<Rightarrow> bool" where
  "pass_inv ctx q0 demands cs \<longleftrightarrow>
     pass_queue ctx q0 (cs_queue cs) (cs_dead cs) \<and> pass_jobs ctx q0 (cs_queue cs) (cs_out cs) \<and> pass_demand demands cs"

lemma add_lease_fields [simp]:
  "reclaim (add_lease t l q) = reclaim q" "delayed (add_lease t l q) = delayed q" "in_reclaim (add_lease t l q) = in_reclaim q"
  "claim_cursor (add_lease t l q) = claim_cursor q" "next_lease_id (add_lease t l q) = next_lease_id q"
  "deliveries (add_lease t l q) = deliveries q" "dead_lettered (add_lease t l q) = dead_lettered q"
  by (simp_all add: add_lease_def)

lemma add_lease_wf:
  assumes "wf_queue q" "lease_of q s = None" "ls_lease_id l = next_lease_id q"
  shows "wf_queue (add_lease s l (q\<lparr>next_lease_id := next_lease_id q + 1, deliveries := AList.update s n (deliveries q)\<rparr>))"
    (is "wf_queue ?q")
proof -
  have "distinct (map fst (leases ?q))" "distinct (map fst (deliveries ?q))"
    using assms(1) by (simp_all add: wf_queue_def add_lease_def distinct_update)
  moreover have lo: "lease_of ?q t = (if t = s then Some l else lease_of q t)" for t
    by simp
  moreover have "ls_lease_id k < next_lease_id q" if "lease_of q t = Some k" for t k
    using that assms(1) by (simp add: wf_queue_def)
  moreover have "next_lease_id ?q = next_lease_id q + 1" "reclaim ?q = reclaim q" "delayed ?q = delayed q" "in_reclaim ?q = in_reclaim q"
    by (simp_all add: add_lease_def)
  ultimately show ?thesis
    using assms unfolding wf_queue_def lo by (auto split: if_splits) fastforce+
qed

lemma pass_queue_next:
  assumes "pass_queue ctx q0 q dead" "next_claimable (cc_index ctx) (cc_head ctx) q = (Some s, q')"
  shows "wf_queue q'" "is_live (cc_index ctx) s" "s \<le> cc_head ctx" "lease_of q' s = None" "lease_of q' = lease_of q"
    "next_lease_id q' = next_lease_id q"
    "pass_queue ctx q0 q' (dead @ [s])"
proof -
  have pre: "wf_queue q" "\<forall>t\<in>set (reclaim q). is_live (cc_index ctx) t \<longrightarrow> t \<le> cc_head ctx"
    using assms(1) by (simp_all add: pass_queue_def)
  note n = next_claimable_Some[OF pre(1) assms(2) pre(2)]
  show lo: "lease_of q' = lease_of q"
    using n(6) by (simp add: lease_of_def fun_eq_iff)
  show "wf_queue q'" "is_live (cc_index ctx) s" "s \<le> cc_head ctx" "lease_of q' s = None" "next_lease_id q' = next_lease_id q"
    using n lo by simp_all
  show "pass_queue ctx q0 q' (dead @ [s])"
    using assms(1) n lo unfolding pass_queue_def by auto
qed

lemma pass_queue_divert:
  assumes "pass_queue ctx q0 q dead"
  shows "pass_queue ctx q0 (q\<lparr>deliveries := AList.delete s (deliveries q), dead_lettered := n\<rparr>) dead"
proof -
  have "wf_queue q"
    using assms by (simp add: pass_queue_def)
  then have "wf_queue (q\<lparr>deliveries := AList.delete s (deliveries q), dead_lettered := n\<rparr>)"
    by (simp add: wf_queue_def distinct_delete)
  moreover have "tracked (q\<lparr>deliveries := AList.delete s (deliveries q), dead_lettered := n\<rparr>) = tracked q"
    by (simp add: tracked_def)
  ultimately show ?thesis
    using assms by (simp add: pass_queue_def)
qed

lemma pass_queue_lease:
  assumes "pass_queue ctx q0 q (dead @ [s])" "lease_of q s = None" "ls_lease_id l = next_lease_id q"
  shows "pass_queue ctx q0 (add_lease s l (q\<lparr>next_lease_id := next_lease_id q + 1, deliveries := AList.update s n (deliveries q)\<rparr>)) dead"
    (is "pass_queue ctx q0 ?q dead")
proof -
  have "wf_queue ?q"
    using assms by (intro add_lease_wf) (simp_all add: pass_queue_def)
  moreover have "tracked ?q = insert s (tracked q)"
    by (subst tracked_add_lease) (simp add: tracked_def)
  moreover have "lease_of q0 s = None"
    using assms(1,2) by (cases "lease_of q0 s") (auto simp: pass_queue_def)
  ultimately show ?thesis
    using assms(1) by (auto simp: pass_queue_def)
qed

lemma distinct_concat_upd:
  assumes "i < length xs" "distinct (map f (concat xs))" "f x \<notin> f ` set (concat xs)"
  shows "distinct (map f (concat (xs[i := xs ! i @ [x]])))"
proof -
  have "concat xs = concat (take i xs) @ xs ! i @ concat (drop (Suc i) xs)"
    using arg_cong[OF id_take_nth_drop[OF assms(1)], of concat] by (simp only: concat.simps concat_append)
  then show ?thesis
    using assms by (auto simp: upd_conv_take_nth_drop)
qed

lemma pass_jobs_lease:
  assumes "pass_jobs ctx q0 q out" "rr < length out" "lease_of q s = None" "lease_of q0 s = None"
    "is_live (cc_index ctx) s" "s \<le> cc_head ctx" "next_lease_id q0 \<le> lid"
    "lj_seq j = s" "lj_lease_id j = lid"
    "\<And>t. lease_of q' t = (if t = s then Some \<lparr>ls_node = cl_node (cc_claimers ctx ! rr), ls_lease_id = lid,
       ls_deadline_ms = cc_deadline ctx, ls_by_work_conn = cl_work_conn (cc_claimers ctx ! rr)\<rparr> else lease_of q t)"
  shows "pass_jobs ctx q0 q' (out[rr := out ! rr @ [j]])"
proof -
  have leased: "lease_of q (lj_seq x) \<noteq> None" if x: "x \<in> set (concat out)" for x
  proof -
    obtain ys where "ys \<in> set out" "x \<in> set ys"
      using x by auto
    then obtain i where "i < length out" "x \<in> set (out ! i)"
      by (metis in_set_conv_nth)
    then have "job_ok ctx q0 q i x"
      using assms(1) by (simp add: pass_jobs_def)
    then show ?thesis
      by (simp add: job_ok_def)
  qed
  have "lj_seq j \<notin> lj_seq ` set (concat out)"
  proof
    assume "lj_seq j \<in> lj_seq ` set (concat out)"
    then obtain x where x: "x \<in> set (concat out)" "lj_seq x = lj_seq j"
      by (elim imageE) simp
    show False
      using leased[OF x(1)] x(2) assms(3,8) by simp
  qed
  moreover have "job_ok ctx q0 q' i x" if "i < length out" "x \<in> set (out ! i)" for i x
  proof -
    have "job_ok ctx q0 q i x"
      using that assms(1) by (simp add: pass_jobs_def)
    then show ?thesis
      using assms(3) by (auto simp: job_ok_def assms(10))
  qed
  moreover have "job_ok ctx q0 q' rr j"
    using assms by (simp add: job_ok_def)
  ultimately show ?thesis
    using assms(1,2) by (auto simp: pass_jobs_def distinct_concat_upd nth_list_update)
qed

lemma job_of_ids [simp]: "lj_seq (fst (job_of ctx s lid n)) = s" "lj_lease_id (fst (job_of ctx s lid n)) = lid"
  by (simp_all add: job_of_def split: option.splits)

lemma pass_demand_lease:
  assumes "pass_demand demands cs" "rr < length demands" "cs_remaining cs ! rr \<noteq> 0" "length (cc_claimers ctx) = length demands"
  shows "pass_demand demands (lease_to ctx rr s cs)"
proof -
  have n: "length (cs_remaining cs) = length demands" "length (cs_out cs) = length demands"
    using assms(1) by (simp_all add: pass_demand_def)
  have "sum_list ((cs_remaining cs)[rr := cs_remaining cs ! rr - 1]) = sum_list (cs_remaining cs) - 1"
    using assms(2,3) n elem_le_sum_list[of rr "cs_remaining cs"] by (subst sum_list_update) simp_all
  then show ?thesis
    using assms n by (auto simp: pass_demand_def lease_to_def Let_def split_beta nth_list_update)
qed

lemma pass_inv_step:
  assumes "pass_inv ctx q0 demands cs" "next_claimable (cc_index ctx) (cc_head ctx) (cs_queue cs) = (Some s, q)"
    "rr < length demands" "cs_remaining cs ! rr \<noteq> 0" "length (cc_claimers ctx) = length demands"
  shows "pass_inv ctx q0 demands (claim_one ctx rr s (cs\<lparr>cs_queue := q, cs_rr := rr\<rparr>))"
proof -
  have inv: "pass_queue ctx q0 (cs_queue cs) (cs_dead cs)" "pass_jobs ctx q0 (cs_queue cs) (cs_out cs)" "pass_demand demands cs"
    using assms(1) by (simp_all add: pass_inv_def)
  note n = pass_queue_next[OF inv(1) assms(2)]
  let ?cs = "cs\<lparr>cs_queue := q, cs_rr := rr\<rparr>"
  have jobs: "pass_jobs ctx q0 q (cs_out cs)" if "lease_of q = lease_of (cs_queue cs)" for q
    using inv(2) that by (simp add: pass_jobs_def job_ok_def)
  have demand: "pass_demand demands ?cs"
    using inv(3) assms(3) by (simp add: pass_demand_def)
  show ?thesis
  proof (cases "over_limit ctx q s")
    case True
    then show ?thesis
      using n demand pass_queue_divert[OF n(7)] jobs[of "q\<lparr>deliveries := AList.delete s (deliveries q), dead_lettered := dead_lettered q + 1\<rparr>"]
      by (simp add: claim_one_def divert_def pass_inv_def Let_def pass_demand_def fun_eq_iff)
  next
    case False
    let ?l = "\<lparr>ls_node = cl_node (cc_claimers ctx ! rr), ls_lease_id = next_lease_id q,
       ls_deadline_ms = cc_deadline ctx, ls_by_work_conn = cl_work_conn (cc_claimers ctx ! rr)\<rparr>"
    have "lease_of q0 s = None"
      using inv(1) n(4,5) by (cases "lease_of q0 s") (auto simp: pass_queue_def)
    moreover have "rr < length (cs_out cs)" "next_lease_id q0 \<le> next_lease_id q"
      using inv assms(3) n(6) by (simp_all add: pass_demand_def pass_queue_def)
    ultimately have "pass_jobs ctx q0 (cs_queue (lease_to ctx rr s ?cs)) (cs_out (lease_to ctx rr s ?cs))"
      using n jobs[OF n(5)]
      by (simp add: lease_to_def Let_def split_beta alloc_lease_id_def
            pass_jobs_lease[of ctx q0 q "cs_out cs" rr s "next_lease_id q"])
    moreover have "pass_queue ctx q0 (cs_queue (lease_to ctx rr s ?cs)) (cs_dead (lease_to ctx rr s ?cs))"
      using pass_queue_lease[OF n(7) n(4), of ?l]
      by (simp add: lease_to_def Let_def split_beta alloc_lease_id_def)
    moreover have "pass_demand demands (lease_to ctx rr s ?cs)"
      using demand assms(3-5) by (simp add: pass_demand_lease)
    ultimately show ?thesis
      using False by (simp add: claim_one_def pass_inv_def)
  qed
qed

text \<open>
  The loop ends in the invariant, and it ends only when the demand is met or nothing is
  left to hand out: every live job up to the head is leased or waiting out a delay.
\<close>

definition work_exhausted :: "claim_ctx \<Rightarrow> claim_state \<Rightarrow> bool" where
  "work_exhausted ctx cs \<longleftrightarrow>
     (\<forall>t\<in>tracked (cs_queue cs). is_live (cc_index ctx) t \<and> t \<le> cc_head ctx \<longrightarrow>
        lease_of (cs_queue cs) t \<noteq> None \<or> t \<in> snd ` set (delayed (cs_queue cs)))"

lemma tracked_None:
  assumes "wf_queue q" "next_claimable ix head q = (None, q')" "t \<in> tracked q'" "t \<le> head" "is_live ix t"
  shows "t \<in> tracked q"
proof -
  note n = next_claimable_None[OF assms(1,2)]
  have "lease_of q' t = lease_of q t"
    using n(2) by (simp add: lease_of_def)
  then show ?thesis
    using assms(3) n by (auto simp: tracked_def)
qed

lemma pass_inv_end:
  assumes "pass_inv ctx q0 demands cs" "next_claimable (cc_index ctx) (cc_head ctx) (cs_queue cs) = (None, q)" "rr < length demands"
  shows "pass_inv ctx q0 demands (cs\<lparr>cs_queue := q, cs_rr := rr\<rparr>)" "work_exhausted ctx (cs\<lparr>cs_queue := q, cs_rr := rr\<rparr>)"
proof -
  have inv: "pass_queue ctx q0 (cs_queue cs) (cs_dead cs)" "pass_jobs ctx q0 (cs_queue cs) (cs_out cs)" "pass_demand demands cs"
    using assms(1) by (simp_all add: pass_inv_def)
  have wf: "wf_queue (cs_queue cs)"
    using inv(1) by (simp add: pass_queue_def)
  note n = next_claimable_None[OF wf assms(2)]
  have lo: "lease_of q t = lease_of (cs_queue cs) t" for t
    using n(2) by (simp add: lease_of_def)
  have "pass_queue ctx q0 q (cs_dead cs)"
    using inv(1) n unfolding pass_queue_def lo by auto
  then show "pass_inv ctx q0 demands (cs\<lparr>cs_queue := q, cs_rr := rr\<rparr>)"
    using inv assms(3) by (simp add: pass_inv_def pass_demand_def pass_jobs_def job_ok_def lo)
  show "work_exhausted ctx (cs\<lparr>cs_queue := q, cs_rr := rr\<rparr>)"
    using n(11) tracked_None[OF wf assms(2)] by (auto simp: work_exhausted_def lo n(3))
qed

theorem claim_loop_ok:
  assumes "pass_inv ctx q0 demands cs" "length (cc_claimers ctx) = length demands"
  shows "pass_inv ctx q0 demands (claim_loop ctx cs) \<and>
    (cs_total (claim_loop ctx cs) = 0 \<or> work_exhausted ctx (claim_loop ctx cs))"
  using assms
proof (induction ctx cs rule: claim_loop.induct)
  case (1 ctx cs)
  let ?rr = "find_claimer (length (cs_remaining cs)) (cs_remaining cs) (cs_rr cs)"
  show ?case
  proof (cases "cs_total cs = 0")
    case True
    then show ?thesis
      using 1(2) by (simp add: claim_loop.simps)
  next
    case False
    then have d: "cs_rr cs < length (cs_remaining cs)" "0 < sum_list (cs_remaining cs)" "length (cs_remaining cs) = length demands"
      using 1(2) by (auto simp: pass_inv_def pass_demand_def)
    have rr: "?rr < length demands" "cs_remaining cs ! ?rr \<noteq> 0"
      using find_claimer_spec(1)[OF d(1)] find_claimer_hit[OF d(1,2)] d(3) by simp_all
    obtain r q where n: "next_claimable (cc_index ctx) (cc_head ctx) (cs_queue cs) = (r, q)" by fastforce
    show ?thesis
    proof (cases r)
      case None
      then have "claim_loop ctx cs = cs\<lparr>cs_queue := q, cs_rr := ?rr\<rparr>"
        using False rr(2) n by (simp add: claim_loop.simps Let_def)
      then show ?thesis
        using pass_inv_end[OF 1(2) _ rr(1)] n None by simp
    next
      case (Some s)
      have eq: "claim_loop ctx cs = claim_loop ctx (claim_one ctx ?rr s (cs\<lparr>cs_queue := q, cs_rr := ?rr\<rparr>))"
        using False rr(2) n Some by (subst claim_loop.simps) (simp add: Let_def)
      show ?thesis
        unfolding eq using 1(1)[OF False refl rr(2) n[symmetric] Some] pass_inv_step[OF 1(2) _ rr 1(3)] 1(3) n Some by blast
    qed
  qed
qed

lemma claim_start_inv:
  assumes "wf_queue q" "\<forall>t\<in>set (reclaim q). is_live (cc_index ctx) t \<longrightarrow> t \<le> cc_head ctx"
  shows "pass_inv ctx q (map (\<lambda>c. max 1 (min MAX_CLAIM (cl_max c))) claimers) (claim_start claimers q)"
  using assms by (auto simp: pass_inv_def pass_queue_def pass_jobs_def pass_demand_def claim_start_def Let_def)

end
