(* ===== verification/Queue_Handlers.thy ===== *)
theory Queue_Handlers
  imports Queue_Engine
begin

text \<open>
  The correctness of the queue handlers of \<open>engine/queue.rs\<close>: a lease is settled only by its holder,
  no readable job of a queue is ever stranded outside the lease projection, whatever a handler
  answers, and the invariant of the engine is kept.
\<close>

section \<open>No job is stranded\<close>

text \<open>
  A queue tracks all its jobs but \<open>S\<close>: every readable record is leased, on the freelist, delayed
  or ahead of the claim cursor. With \<open>S\<close> empty, every job will be handed out again.
\<close>

definition tracks_but :: "seq set \<Rightarrow> topic_state \<Rightarrow> bool" where
  "tracks_but S t \<longleftrightarrow> (case t_queue t of
     None \<Rightarrow> True
   | Some q \<Rightarrow> wf_queue q \<and> claim_cursor q \<le> t_head_seq t + 1 \<and> fst ` set (view t) \<subseteq> tracked q \<union> S)"

abbreviation queue_ok :: "topic_state \<Rightarrow> bool" where
  "queue_ok t \<equiv> tracks_but {} t"

lemma tracks_but_mono: "tracks_but S t \<Longrightarrow> S \<subseteq> S' \<Longrightarrow> tracks_but S' t"
  by (auto simp: tracks_but_def split: option.splits)

text \<open>An operation on the records keeps a queue in order when it only removes records or appends at the tail.\<close>

lemma tracks_but_view:
  assumes "tracks_but S t" "t_queue t' = t_queue t" "t_head_seq t \<le> t_head_seq t'"
    and "\<And>s r. (s, r) \<in> set (view t') \<Longrightarrow> (s, r) \<in> set (view t) \<or> t_head_seq t < s"
  shows "tracks_but S t'"
proof -
  have sub: "fst ` set (view t') \<subseteq> fst ` set (view t) \<union> {t_head_seq t<..}"
    using assms(4) by force
  show ?thesis
  proof (cases "t_queue t")
    case (Some q)
    then have "{t_head_seq t<..} \<subseteq> tracked q" "fst ` set (view t) \<subseteq> tracked q \<union> S"
      using assms(1) by (auto simp: tracks_but_def tracked_def)
    then have "fst ` set (view t') \<subseteq> tracked q \<union> S"
      using sub by blast
    then show ?thesis
      using Some assms(1-3) by (simp add: tracks_but_def)
  qed (simp add: tracks_but_def assms(2))
qed

lemma view_set_queue [simp]: "view (set_queue q t) = view t"
proof -
  have "visible (set_queue q t) = visible t" "slot_at (set_queue q t) = slot_at t"
    by (simp_all add: fun_eq_iff visible_def slot_at_def earliest_seq_def set_queue_def)
  then show ?thesis
    by (simp add: view_def set_queue_def)
qed

lemma set_queue_fields [simp]:
  "t_name (set_queue q t) = t_name t" "t_topic_id (set_queue q t) = t_topic_id t" "tail (set_queue q t) = tail t"
  "t_bytes_retained (set_queue q t) = t_bytes_retained t" "t_queue (set_queue q t) = Some q" "t_config (set_queue q t) = t_config t"
  "t_head_seq (set_queue q t) = t_head_seq t" "t_index (set_queue q t) = t_index t"
  "t_floors (set_queue q t) = t_floors t" "t_seq_base (set_queue q t) = t_seq_base t"
  by (simp_all add: set_queue_def tail_def)

lemma tracks_but_queue:
  assumes "tracks_but S t" "t_queue t = Some q" "wf_queue q'" "claim_cursor q' \<le> t_head_seq t + 1" "tracked q \<subseteq> tracked q' \<union> S'" "S \<subseteq> S'"
  shows "tracks_but S' (set_queue q' t)"
  using assms by (auto simp: tracks_but_def)

text \<open>The queue of one topic, all other topics as they were.\<close>

definition queue_at :: "string \<Rightarrow> seq set \<Rightarrow> engine \<Rightarrow> engine \<Rightarrow> bool" where
  "queue_at n S e0 e \<longleftrightarrow> engine_ok e \<and> only_topic n e0 e \<and> e_routers e = e_routers e0 \<and> e_limits e = e_limits e0 \<and>
     (\<exists>t. get_topic n e = Some t \<and> tail t \<le> u64_max \<and> t_queue t \<noteq> None \<and> tracks_but S t)"

lemma set_queue_topic_ok [simp]: "topic_ok (set_queue q t) = topic_ok t"
proof -
  have "wf_topic (set_queue q t) = wf_topic t"
    by (simp add: set_queue_def wf_topic_def)
  then show ?thesis
    by (simp add: topic_ok_def resting_def)
qed

lemma queue_at_put:
  assumes "queue_at n S e0 e" "get_topic n e = Some t" "topic_ok t'" "t_name t' = t_name t" "t_topic_id t' = t_topic_id t"
    "tail t' = tail t" "t_queue t' \<noteq> None" "tracks_but S' t'" "engine_frame e e'" "quota_step t e t' e'"
  shows "queue_at n S' e0 (put_state t' e')"
proof -
  have ok: "engine_ok e" using assms(1) by (simp add: queue_at_def)
  note p = put_state_ok[OF ok assms(2-5,9,10)]
  have "e_routers e' = e_routers e" "e_limits e' = e_limits e"
    using assms(9) by (simp_all add: engine_frame_def)
  then show ?thesis
    using assms(1,2,6-8) p unfolding queue_at_def only_topic_def by simp
qed

lemma queue_at_frame:
  assumes "queue_at n S e0 e" "engine_frame e e'" "e_total_bytes_live e' = e_total_bytes_live e"
  shows "queue_at n S e0 e'"
proof -
  have "engine_ok e'"
    using assms engine_ok_frame by (auto simp: queue_at_def)
  moreover have "e_routers e' = e_routers e" "e_limits e' = e_limits e" "\<And>m. get_topic m e' = get_topic m e"
    using assms(2) get_topic_frame[OF assms(2)] by (auto simp: engine_frame_def)
  ultimately show ?thesis
    using assms(1) by (auto simp: queue_at_def only_topic_def)
qed

lemma log_lease_event_frame:
  "engine_frame e (log_lease_event env t s ev node lid dl n now e)"
  "e_total_bytes_live (log_lease_event env t s ev node lid dl n now e) = e_total_bytes_live e"
  using wal_log_best_effort_frame by (simp_all add: log_lease_event_def)

lemma queue_at_log: "queue_at n S e0 e \<Longrightarrow> queue_at n S e0 (log_lease_event env t s ev node lid dl k now e)"
  by (rule queue_at_frame[OF _ log_lease_event_frame])

lemma queue_at_fold: "(\<And>x e. x \<in> set xs \<Longrightarrow> queue_at n S e0 e \<Longrightarrow> queue_at n S e0 (f x e)) \<Longrightarrow> queue_at n S e0 e \<Longrightarrow> queue_at n S e0 (fold f xs e)"
  by (induction xs arbitrary: e) auto

lemma queue_at_reclaim:
  assumes "queue_at n (insert s S) e0 e"
  shows "queue_at n S e0 (on_topic n (reclaim_seq s) e)"
proof -
  obtain t q where t: "get_topic n e = Some t" "t_queue t = Some q" "tracks_but (insert s S) t"
    using assms by (auto simp: queue_at_def)
  have ok: "topic_ok t"
    using assms t(1) engine_ok_topic(1) by (auto simp: queue_at_def)
  have wf: "wf_queue q"
    using t by (simp add: tracks_but_def)
  have "tracks_but S (set_queue (push_reclaim s q) t)"
    using t(2,3) wf push_reclaim_wf[OF wf] by (auto simp: tracks_but_def)
  then have "queue_at n S e0 (put_state (set_queue (push_reclaim s q) t) e)"
    using assms t ok by (intro queue_at_put[OF assms t(1)]) (simp_all add: quota_step_same)
  then show ?thesis
    using t by (simp add: on_topic_def reclaim_seq_def)
qed

lemma queue_at_reclaims: "queue_at n (fst ` set xs \<union> S) e0 e \<Longrightarrow> queue_at n S e0 (fold (\<lambda>(s, _). on_topic n (reclaim_seq s)) xs e)"
proof (induction xs arbitrary: e)
  case (Cons x xs)
  then show ?case
    using queue_at_reclaim[of n "fst x" "fst ` set xs \<union> S" e0 e] by (auto simp: split_beta insert_commute)
qed simp

lemma delete_dead_seq: "\<not> is_live (t_index t) s \<Longrightarrow> delete_seqs_stats [s] t = delete_seqs_stats [] t"
  by (cases "slot_idx (t_index t) s")
    (auto simp: delete_seqs_stats_def mark_deleted_def Let_def is_live_iff slot_idx_def split: if_splits)

lemma drop_seq_ok:
  assumes ok: "topic_ok t" and h: "tail t \<le> u64_max" and out: "drop_seq s t e = (t', e')"
  shows "topic_ok t'" "same_id t t'" "tail t' = tail t" "engine_frame e e'" "covered t e \<Longrightarrow> quota_step t e t' e'"
    "view t' = filter (\<lambda>(s', r). s' \<noteq> s) (view t)" "t_head_seq t' = t_head_seq t"
proof -
  obtain st where d: "delete_seqs_stats [s] t = (t', st)" and e': "e' = release_total_bytes (ds_bytes_freed st) e"
    using out by (auto simp: drop_seq_def split: prod.splits)
  have hd: "t_head_seq t < u64_max"
    using topic_okD(5)[OF ok] h by simp
  have *: "topic_ok t' \<and> same_id t t' \<and> tail t' = tail t \<and> ds_bytes_freed st + t_bytes_retained t' = t_bytes_retained t \<and>
    view t' = filter (\<lambda>(s', r). s' \<noteq> s) (view t) \<and> t_head_seq t' = t_head_seq t"
  proof (cases "is_live (t_index t) s")
    case True
    then have le: "\<forall>s'\<in>set [s]. s' \<le> t_head_seq t"
      using topic_okD(2)[OF ok] by (simp add: resting_def)
    show ?thesis
      using delete_seqs_ok[OF ok hd le d] delete_seqs_spec(2,5)[OF topic_okD(1)[OF ok] hd le d] by simp
  next
    case False
    have d2: "delete_seqs_stats [] t = (t', st)"
      using d delete_dead_seq[OF False] by simp
    have le: "\<forall>s'\<in>set []. s' \<le> t_head_seq t" by simp
    have "filter (\<lambda>(s', r). s' \<noteq> s) (view t) = view t"
      using False by (auto simp: filter_id_conv view_def visible_def)
    then show ?thesis
      using delete_seqs_ok[OF ok hd le d2] delete_seqs_spec(2,5)[OF topic_okD(1)[OF ok] hd le d2] by simp
  qed
  then show "topic_ok t'" "same_id t t'" "tail t' = tail t" "view t' = filter (\<lambda>(s', r). s' \<noteq> s) (view t)" "t_head_seq t' = t_head_seq t" by simp_all
  show "engine_frame e e'" by (simp add: e' release_frame)
  show "quota_step t e t' e'" if "covered t e"
    unfolding e' using * that by (intro release_quota) simp_all
qed

lemma delete_one_seq_ok:
  assumes ok: "topic_ok t" and h: "tail t \<le> u64_max" and cov: "covered t e" and out: "delete_one_seq env s now t e = (res, t', e')"
  shows "topic_ok t'" "same_id t t'" "tail t' = tail t" "engine_frame e e'" "quota_step t e t' e'"
    "view t' = (if res = Inr () then filter (\<lambda>(s', r). s' \<noteq> s) (view t) else view t)" "res \<noteq> Inr () \<Longrightarrow> t' = t" "t_head_seq t' = t_head_seq t"
proof -
  have *: "topic_ok t' \<and> same_id t t' \<and> tail t' = tail t \<and> engine_frame e e' \<and> quota_step t e t' e' \<and>
    view t' = (if res = Inr () then filter (\<lambda>(s', r). s' \<noteq> s) (view t) else view t) \<and> (res \<noteq> Inr () \<longrightarrow> t' = t) \<and> t_head_seq t' = t_head_seq t"
  proof (cases "durability_class (t_config t) = Fsync")
    case True
    obtain r e1 where w: "wal_commit env (Delete (t_topic_id t) None None [s] None (as_ts now)) True e = (r, e1)" by fastforce
    note f = wal_commit_frame[OF w]
    obtain t2 e2 where d: "drop_seq s t e1 = (t2, e2)" by fastforce
    have cov1: "covered t e1"
      using cov f by (simp add: covered_def engine_frame_limits)
    note dd = drop_seq_ok[OF ok h d]
    have "quota_step t e t2 e2"
      by (rule quota_step_trans[OF quota_step_same[OF f(2) refl] dd(5)[OF cov1] engine_frame_limits[OF f(1)]])
    moreover have "engine_frame e e2"
      by (rule engine_frame_trans[OF f(1) dd(4)])
    ultimately show ?thesis
      using out True w d dd ok f quota_step_same[OF f(2) refl]
      by (cases r) (auto simp: delete_one_seq_def)
  next
    case False
    obtain t2 e2 where d: "drop_seq s t e = (t2, e2)" by fastforce
    note dd = drop_seq_ok[OF ok h d]
    let ?e = "wal_log_delete_seqs env (t_topic_id t2) [s] now False e2"
    have f: "engine_frame e2 ?e" "e_total_bytes_live ?e = e_total_bytes_live e2"
      using wal_log_best_effort_frame by (simp_all add: wal_log_delete_seqs_def)
    have "quota_step t e t2 ?e"
      by (rule quota_step_trans[OF dd(5)[OF cov] quota_step_same[OF f(2) refl] engine_frame_limits[OF dd(4)]])
    then show ?thesis
      using out False d dd engine_frame_trans[OF dd(4) f(1)] by (auto simp: delete_one_seq_def)
  qed
  then show "topic_ok t'" "same_id t t'" "tail t' = tail t" "engine_frame e e'" "quota_step t e t' e'"
    "view t' = (if res = Inr () then filter (\<lambda>(s', r). s' \<noteq> s) (view t) else view t)" "res \<noteq> Inr () \<Longrightarrow> t' = t" "t_head_seq t' = t_head_seq t"
    by blast+
qed

text \<open>A deleted job needs no tracking; a job whose delete failed is still a job.\<close>

lemma delete_named_ok:
  assumes q: "queue_at n (insert s S) e0 e" and out: "delete_named env n s now e = (res, e')"
  shows "res = Inr () \<Longrightarrow> queue_at n S e0 e'" "res \<noteq> Inr () \<Longrightarrow> queue_at n (insert s S) e0 e'"
    "log_of n e' = (if res = Inr () then filter (\<lambda>(s', r). s' \<noteq> s) (log_of n e) else log_of n e)"
proof -
  obtain t where t: "get_topic n e = Some t" "tail t \<le> u64_max" "t_queue t \<noteq> None" "tracks_but (insert s S) t" and ok: "engine_ok e"
    using q by (auto simp: queue_at_def)
  note tk = engine_ok_topic[OF ok t(1)]
  obtain t' e1 where d: "delete_one_seq env s now t e = (res, t', e1)" and e': "e' = put_state t' e1"
    using out t(1) by (auto simp: delete_named_def split: prod.splits)
  note dd = delete_one_seq_ok[OF tk(1) t(2) tk(4) d]
  have id: "t_name t' = t_name t" "t_topic_id t' = t_topic_id t" "t_queue t' = t_queue t"
    using dd(2) by (simp_all add: same_id_def)
  have "fst ` set (filter (\<lambda>(s', r). s' \<noteq> s) (view t)) = fst ` set (view t) - {s}"
    by force
  then have "tracks_but S t'" if "res = Inr ()"
    using that t(3,4) dd(6,8) id by (force simp: tracks_but_def)
  then show "res = Inr () \<Longrightarrow> queue_at n S e0 e'"
    unfolding e' using t(3) id dd by (intro queue_at_put[OF q t(1)]) simp_all
  show "res \<noteq> Inr () \<Longrightarrow> queue_at n (insert s S) e0 e'"
    unfolding e' using t id dd by (intro queue_at_put[OF q t(1)]) simp_all
  have "get_topic n e' = Some t'"
    unfolding e' by (rule put_state_ok(2)[OF ok t(1) dd(1) id(1,2) dd(4,5)])
  then show "log_of n e' = (if res = Inr () then filter (\<lambda>(s', r). s' \<noteq> s) (log_of n e) else log_of n e)"
    using t(1) dd(6) by (simp add: log_of_def)
qed

section \<open>Fencing\<close>

lemma settle_scan_ConsE:
  assumes "settle_scan f node ids i (s # ss) q = (hit, skipped, q')"
  obtains (skip) sk1 where "holds node ids i s q = None" "settle_scan f node ids (i + 1) ss q = (hit, sk1, q')" "skipped = s # sk1"
  | (hit) lid hit1 where "holds node ids i s q = Some lid" "settle_scan f node ids (i + 1) ss (f s q) = (hit1, skipped, q')" "hit = (s, lid) # hit1"
proof (cases "holds node ids i s q")
  case None
  obtain h k p where sc: "settle_scan f node ids (i + 1) ss q = (h, k, p)" by (metis prod_cases3)
  then show ?thesis
    using assms None by (intro skip[of k]) (simp_all add: Let_def)
next
  case (Some lid)
  obtain h k p where sc: "settle_scan f node ids (i + 1) ss (f s q) = (h, k, p)" by (metis prod_cases3)
  then show ?thesis
    using assms Some by (intro hit[of lid h]) (simp_all add: Let_def)
qed

text \<open>
  What \<open>ack\<close>, \<open>nack\<close> and \<open>extend\<close> do to one held lease: the other leases stay, a lease that
  remains keeps its holder and its id, and the job stays tracked unless the operation frees it.
\<close>

locale settle_op =
  fixes f :: "seq \<Rightarrow> queue_projection \<Rightarrow> queue_projection" and frees :: bool
  assumes op_wf: "wf_queue q \<Longrightarrow> wf_queue (f s q)"
    and op_cursor: "claim_cursor (f s q) = claim_cursor q"
    and op_tracked: "wf_queue q \<Longrightarrow> tracked q \<subseteq> tracked (f s q) \<union> (if frees then {s} else {})"
    and op_other: "t \<noteq> s \<Longrightarrow> lease_of (f s q) t = lease_of q t"
    and op_same: "lease_of (f s q) s = Some l \<Longrightarrow> \<exists>l'. lease_of q s = Some l' \<and> ls_node l' = ls_node l \<and> ls_lease_id l' = ls_lease_id l"
begin

lemma holds_op: "holds node ids i t (f s q) = Some lid \<Longrightarrow> holds node ids i t q = Some lid"
  using op_other[of t s q] op_same[of s q] by (cases "t = s") (fastforce simp: holds_def split: option.splits if_splits)+

lemma holds_other: "t \<noteq> s \<Longrightarrow> holds node ids i t (f s q) = holds node ids i t q"
  using op_other[of t s q] by (simp add: holds_def)

lemma scan_wf:
  assumes "wf_queue q" "settle_scan f node ids i ss q = (hit, skipped, q')"
  shows "wf_queue q'" "claim_cursor q' = claim_cursor q" "tracked q \<subseteq> tracked q' \<union> (if frees then fst ` set hit else {})"
proof -
  have "wf_queue q' \<and> claim_cursor q' = claim_cursor q \<and> tracked q \<subseteq> tracked q' \<union> (if frees then fst ` set hit else {})"
    using assms
  proof (induction ss arbitrary: i q hit skipped)
    case (Cons s ss)
    from Cons.prems(2) show ?case
    proof (cases rule: settle_scan_ConsE)
      case (skip sk1)
      then show ?thesis
        using Cons.IH[OF Cons.prems(1) skip(2)] by simp
    next
      case sc: (hit lid hit1)
      show ?thesis
        using Cons.IH[OF op_wf[OF Cons.prems(1)] sc(2)] op_tracked[OF Cons.prems(1), of s] op_cursor[of s q] sc(3)
        by (auto split: if_splits)
    qed
  qed simp
  then show "wf_queue q'" "claim_cursor q' = claim_cursor q" "tracked q \<subseteq> tracked q' \<union> (if frees then fst ` set hit else {})"
    by simp_all
qed

lemma scan_hits:
  assumes "settle_scan f node ids i ss q = (hit, skipped, q')"
  shows "(s, lid) \<in> set hit \<Longrightarrow> \<exists>j<length ss. ss ! j = s \<and> holds node ids (i + j) s q = Some lid"
    "set ss = fst ` set hit \<union> set skipped" "t \<notin> fst ` set hit \<Longrightarrow> lease_of q' t = lease_of q t"
proof -
  have "((s, lid) \<in> set hit \<longrightarrow> (\<exists>j<length ss. ss ! j = s \<and> holds node ids (i + j) s q = Some lid)) \<and>
    set ss = fst ` set hit \<union> set skipped \<and> (t \<notin> fst ` set hit \<longrightarrow> lease_of q' t = lease_of q t)"
    using assms
  proof (induction ss arbitrary: i q hit skipped)
    case (Cons a ss)
    have shift: "\<exists>j<length (a # ss). (a # ss) ! j = s \<and> holds node ids (i + j) s q = Some lid"
      if ex: "\<exists>j<length ss. ss ! j = s \<and> holds node ids (i + 1 + j) s q = Some lid"
    proof -
      obtain j where "j < length ss" "ss ! j = s" "holds node ids (i + 1 + j) s q = Some lid"
        using ex by blast
      then show ?thesis
        by (intro exI[of _ "Suc j"]) simp
    qed
    from Cons.prems show ?case
    proof (cases rule: settle_scan_ConsE)
      case (skip sk1)
      show ?thesis
        using Cons.IH[OF skip(2)] shift skip(3) by auto
    next
      case sc: (hit l hit1)
      note ih = Cons.IH[OF sc(2)]
      have "\<exists>j<length (a # ss). (a # ss) ! j = s \<and> holds node ids (i + j) s q = Some lid" if "(s, lid) \<in> set hit"
      proof (cases "s = a \<and> lid = l")
        case True
        then show ?thesis using sc(1) by (intro exI[of _ 0]) simp
      next
        case False
        then have "\<exists>j<length ss. ss ! j = s \<and> holds node ids (i + 1 + j) s (f a q) = Some lid"
          using that ih sc(3) by auto
        then show ?thesis
          using shift holds_op by blast
      qed
      moreover have "set (a # ss) = fst ` set hit \<union> set skipped" "t \<notin> fst ` set hit \<Longrightarrow> lease_of q' t = lease_of q t"
        using ih sc(3) op_other[of t a q] by auto
      ultimately show ?thesis by blast
    qed
  qed simp
  then show "(s, lid) \<in> set hit \<Longrightarrow> \<exists>j<length ss. ss ! j = s \<and> holds node ids (i + j) s q = Some lid"
    "set ss = fst ` set hit \<union> set skipped" "t \<notin> fst ` set hit \<Longrightarrow> lease_of q' t = lease_of q t"
    by blast+
qed

lemma scan_complete:
  assumes "settle_scan f node ids i ss q = (hit, skipped, q')" "distinct ss" "j < length ss"
  shows "holds node ids (i + j) (ss ! j) q = Some lid \<longrightarrow> (ss ! j, lid) \<in> set hit"
    and "holds node ids (i + j) (ss ! j) q = None \<longrightarrow> ss ! j \<in> set skipped"
proof -
  have "(holds node ids (i + j) (ss ! j) q = Some lid \<longrightarrow> (ss ! j, lid) \<in> set hit) \<and>
    (holds node ids (i + j) (ss ! j) q = None \<longrightarrow> ss ! j \<in> set skipped)"
    using assms
  proof (induction ss arbitrary: i j q hit skipped)
    case (Cons a ss)
    have d: "distinct ss" "a \<notin> set ss"
      using Cons.prems(2) by simp_all
    show ?case
    proof (cases j)
      case 0
      from Cons.prems(1) show ?thesis
        by (cases rule: settle_scan_ConsE) (simp_all add: 0)
    next
      case (Suc k)
      then have k: "k < length ss" "ss ! k \<noteq> a"
        using Cons.prems(3) d by auto
      from Cons.prems(1) show ?thesis
      proof (cases rule: settle_scan_ConsE)
        case (skip sk1)
        show ?thesis
          using Cons.IH[OF skip(2) d(1) k(1)] skip(3) Suc by auto
      next
        case sc: (hit l hit1)
        show ?thesis
          using Cons.IH[OF sc(2) d(1) k(1)] holds_other[OF k(2)] sc(3) Suc by auto
      qed
    qed
  qed simp
  then show "holds node ids (i + j) (ss ! j) q = Some lid \<longrightarrow> (ss ! j, lid) \<in> set hit"
    and "holds node ids (i + j) (ss ! j) q = None \<longrightarrow> ss ! j \<in> set skipped" by simp_all
qed

end

lemma deliveries_delete_wf: "wf_queue q \<Longrightarrow> wf_queue (q\<lparr>deliveries := AList.delete s (deliveries q)\<rparr>)"
  by (simp add: wf_queue_def distinct_delete)

interpretation ack: settle_op ack_one True
proof
  fix q :: queue_projection and s
  assume "wf_queue q"
  then show "wf_queue (ack_one s q)"
    using deliveries_delete_wf[OF remove_lease_wf, of q s s] by (simp add: ack_one_def)
next
  fix q :: queue_projection and s
  show "tracked q \<subseteq> tracked (ack_one s q) \<union> (if True then {s} else {})"
    by (auto simp: tracked_def ack_one_def)
qed (simp_all add: ack_one_def)

interpretation nack: settle_op "nack_one delay now" False for delay now
proof
  fix q :: queue_projection and s
  assume "wf_queue q"
  then have "wf_queue (remove_lease s q)" by (rule remove_lease_wf)
  then show "wf_queue (nack_one delay now s q)" "tracked q \<subseteq> tracked (nack_one delay now s q) \<union> (if False then {s} else {})"
    using tracked_remove_lease(1)[of q s] by (simp_all add: nack_one_def Let_def push_delayed_wf push_reclaim_wf)
next
  fix q :: queue_projection and s
  show "claim_cursor (nack_one delay now s q) = claim_cursor q"
    by (simp add: nack_one_def Let_def push_delayed_def)
next
  fix s t :: seq and q
  show "t \<noteq> s \<Longrightarrow> lease_of (nack_one delay now s q) t = lease_of q t"
    by (simp add: nack_one_def Let_def)
  fix l
  show "lease_of (nack_one delay now s q) s = Some l \<Longrightarrow> \<exists>l'. lease_of q s = Some l' \<and> ls_node l' = ls_node l \<and> ls_lease_id l' = ls_lease_id l"
    by (simp add: nack_one_def Let_def split: if_splits)
qed

lemma extend_one_lease:
  "lease_of (extend_one deadline s q) t =
     (if t = s then map_option (\<lambda>l. l\<lparr>ls_deadline_ms := deadline\<rparr>) (lease_of q s) else lease_of q t)"
  by (simp add: extend_one_def split: option.split)

interpretation extend: settle_op "extend_one deadline" False for deadline
proof
  fix q :: queue_projection and s
  assume wf: "wf_queue q"
  show "wf_queue (extend_one deadline s q)"
  proof (cases "lease_of q s")
    case (Some l)
    have "distinct (map fst (leases (extend_one deadline s q)))"
      using wf Some by (simp add: wf_queue_def extend_one_def add_lease_def distinct_update)
    moreover have "reclaim (extend_one deadline s q) = reclaim q" "delayed (extend_one deadline s q) = delayed q"
      "in_reclaim (extend_one deadline s q) = in_reclaim q" "deliveries (extend_one deadline s q) = deliveries q"
      "next_lease_id (extend_one deadline s q) = next_lease_id q"
      by (simp_all add: extend_one_def split: option.split)
    ultimately show ?thesis
      using wf Some unfolding wf_queue_def extend_one_lease by (auto split: if_splits)
  qed (simp add: extend_one_def wf)
  show "tracked q \<subseteq> tracked (extend_one deadline s q) \<union> (if False then {s} else {})"
    by (auto simp: extend_one_def tracked_add_lease split: option.split)
next
  fix q :: queue_projection and s
  show "claim_cursor (extend_one deadline s q) = claim_cursor q"
    by (simp add: extend_one_def split: option.split)
next
  fix s t :: seq and q
  show "t \<noteq> s \<Longrightarrow> lease_of (extend_one deadline s q) t = lease_of q t"
    by (simp add: extend_one_lease)
  fix l
  show "lease_of (extend_one deadline s q) s = Some l \<Longrightarrow> \<exists>l'. lease_of q s = Some l' \<and> ls_node l' = ls_node l \<and> ls_lease_id l' = ls_lease_id l"
    by (auto simp: extend_one_lease)
qed

section \<open>The handlers keep every queue in order\<close>

lemma log_of_frame: "engine_frame e e' \<Longrightarrow> log_of n e' = log_of n e"
  using get_topic_frame[of e e' n] by (simp add: log_of_def)

lemma queue_atD:
  assumes "queue_at n S e0 e"
  shows "engine_ok e" "only_topic n e0 e" "e_routers e = e_routers e0" "e_limits e = e_limits e0"
    "\<exists>t q. get_topic n e = Some t \<and> tail t \<le> u64_max \<and> t_queue t = Some q \<and> tracks_but S t"
  using assms by (auto simp: queue_at_def)

lemma queue_at_refl:
  assumes "engine_ok e" "engine_room e" "get_topic n e = Some t" "t_queue t = Some q" "queue_ok t"
  shows "queue_at n {} e e"
  using assms engine_roomD[OF assms(2,3)] topic_roomD(1) by (auto simp: queue_at_def only_topic_def)

lemma queue_at_set:
  assumes "queue_at n S e0 e" "get_topic n e = Some t" "t_queue t = Some q" "wf_queue q'" "claim_cursor q' \<le> t_head_seq t + 1"
    "tracked q \<subseteq> tracked q' \<union> S'" "S \<subseteq> S'"
  shows "queue_at n S' e0 (put_state (set_queue q' t) e)" "get_topic n (put_state (set_queue q' t) e) = Some (set_queue q' t)"
    "log_of n (put_state (set_queue q' t) e) = log_of n e"
proof -
  have ok: "engine_ok e" and tb: "tracks_but S t"
    using assms(1,2) by (auto simp: queue_at_def)
  have tk: "topic_ok (set_queue q' t)"
    using engine_ok_topic(1)[OF ok assms(2)] by simp
  show "queue_at n S' e0 (put_state (set_queue q' t) e)"
    using tracks_but_queue[OF tb assms(3-7)] tk
    by (intro queue_at_put[OF assms(1,2)]) (simp_all add: quota_step_same)
  show g: "get_topic n (put_state (set_queue q' t) e) = Some (set_queue q' t)"
    using tk by (intro put_state_ok(2)[OF ok assms(2)]) (simp_all add: quota_step_same)
  show "log_of n (put_state (set_queue q' t) e) = log_of n e"
    using g assms(2) by (simp add: log_of_def)
qed

lemma reclaim_log:
  assumes "queue_at n S e0 e"
  shows "log_of n (on_topic n (reclaim_seq s) e) = log_of n e"
proof -
  obtain t q where t: "get_topic n e = Some t" "t_queue t = Some q" "tracks_but S t"
    using assms by (auto simp: queue_at_def)
  then have wf: "wf_queue q" "claim_cursor q \<le> t_head_seq t + 1" by (simp_all add: tracks_but_def)
  show ?thesis
    using queue_at_set(3)[OF assms t(1,2), of "push_reclaim s q" S] wf t
    by (auto simp: on_topic_def reclaim_seq_def push_reclaim_wf)
qed

lemma reclaims_log: "queue_at n (fst ` set xs \<union> S) e0 e \<Longrightarrow> log_of n (fold (\<lambda>(s, _). on_topic n (reclaim_seq s)) xs e) = log_of n e"
proof (induction xs arbitrary: e)
  case (Cons x xs)
  then show ?case
    using queue_at_reclaim[of n "fst x" "fst ` set xs \<union> S" e0 e] reclaim_log[OF Cons.prems, of "fst x"]
    by (auto simp: split_beta insert_commute)
qed simp

lemma ack_deletes_ok:
  assumes "queue_at n (fst ` set hit) e0 e" "ack_deletes env n node hit now e = (res, e')"
  shows "queue_at n {} e0 e'"
    "\<exists>k. log_of n e' = filter (\<lambda>(s, r). s \<notin> fst ` set (take k hit)) (log_of n e) \<and> (res = Inr () \<longrightarrow> k = length hit)"
proof -
  have "queue_at n {} e0 e' \<and>
    (\<exists>k. log_of n e' = filter (\<lambda>(s, r). s \<notin> fst ` set (take k hit)) (log_of n e) \<and> (res = Inr () \<longrightarrow> k = length hit))"
    using assms
  proof (induction hit arbitrary: e)
    case Nil
    then show ?case by (auto simp: case_prod_unfold)
  next
    case (Cons x hit)
    obtain s lid where x: "x = (s, lid)" by fastforce
    obtain r e1 where d: "delete_named env n s now e = (r, e1)" by fastforce
    have q: "queue_at n (insert s (fst ` set hit)) e0 e"
      using Cons.prems(1) by (simp add: x)
    note dn = delete_named_ok[OF q d]
    show ?case
    proof (cases r)
      case (Inl err)
      then have q1: "queue_at n (fst ` set (x # hit) \<union> {}) e0 e1"
        using dn(2) by (simp add: x)
      have "e' = fold (\<lambda>(s, _). on_topic n (reclaim_seq s)) (x # hit) e1" "res = Inl err"
        using Cons.prems(2) d Inl by (simp_all add: x)
      then show ?thesis
        using queue_at_reclaims[OF q1] reclaims_log[OF q1] dn(3) Inl
        by (intro conjI exI[of _ 0]) (simp_all add: case_prod_unfold)
    next
      case (Inr u)
      then have r: "r = Inr ()" by simp
      have q1: "queue_at n (fst ` set hit) e0 e1"
        by (rule dn(1)[OF r])
      obtain t1 where t1: "get_topic n e1 = Some t1"
        using queue_atD(5)[OF q1] by blast
      let ?e = "log_lease_event env t1 s 3 node lid 0 0 now e1"
      have ad: "ack_deletes env n node hit now ?e = (res, e')"
        using Cons.prems(2) d r t1 by (simp add: x Let_def)
      obtain k where k: "log_of n e' = filter (\<lambda>(s, r). s \<notin> fst ` set (take k hit)) (log_of n ?e)" "res = Inr () \<longrightarrow> k = length hit"
          and q2: "queue_at n {} e0 e'"
        using Cons.IH[OF queue_at_log[OF q1] ad] by blast
      have "log_of n ?e = filter (\<lambda>(s', r). s' \<noteq> s) (log_of n e)"
        using log_of_frame[OF log_lease_event_frame(1)] dn(3) r by simp
      then have "log_of n e' = filter (\<lambda>(s', r). s' \<notin> fst ` set (take (Suc k) (x # hit))) (log_of n e)"
        using k(1) by (simp add: x case_prod_unfold conj_commute)
      then show ?thesis
        using q2 k(2) by (intro conjI exI[of _ "Suc k"]) simp_all
    qed
  qed
  then show "queue_at n {} e0 e'"
    "\<exists>k. log_of n e' = filter (\<lambda>(s, r). s \<notin> fst ` set (take k hit)) (log_of n e) \<and> (res = Inr () \<longrightarrow> k = length hit)"
    by blast+
qed

lemma trims_view: "trims t t' \<Longrightarrow> (s, r) \<in> set (view t') \<Longrightarrow> (s, r) \<in> set (view t)"
  by (auto simp: trims_def above_floor_def)

lemma counters_named_ok:
  assumes q: "queue_at n S e0 e" and out: "counters_named env n now e = (c, e')"
  shows "queue_at n S e0 e'" "\<exists>t'. get_topic n e' = Some t' \<and> view t' = above_floor t' (log_of n e)"
proof -
  obtain t p where t: "get_topic n e = Some t" "tail t \<le> u64_max" "t_queue t = Some p" "tracks_but S t" and ok: "engine_ok e"
    using q by (auto simp: queue_at_def)
  note tk = engine_ok_topic[OF ok t(1)]
  obtain res t1 e1 where r: "enforce_retention_durable env t now e = (res, t1, e1)" by (metis prod_cases3)
  note f = enforce_retention_durable_ok(1-6)[OF tk(1,4) r] and tr = enforce_retention_durable_trims[OF tk(1) t(2) r]
  let ?t = "set_queue (sweep_expired now p) t1"
  have e': "e' = put_state ?t e1"
    using out t(1,3) r by (auto simp: counters_named_def queue_counters_def Let_def split: prod.splits)
  have tq: "t_queue t1 = Some p" "t_name t1 = t_name t" "t_topic_id t1 = t_topic_id t"
    using f(2) t(3) by (simp_all add: same_id_def)
  have tb1: "tracks_but S t1"
    by (rule tracks_but_view[OF t(4)]) (simp_all add: tq(1) t(3) f(4) trims_view[OF tr])
  then have wf: "wf_queue p" "claim_cursor p \<le> t_head_seq t1 + 1"
    using tq(1) by (simp_all add: tracks_but_def)
  have "tracks_but S ?t"
    using sweep_expired_spec(1-3)[OF wf(1) refl] wf by (intro tracks_but_queue[OF tb1 tq(1)]) auto
  moreover have "quota_step t e ?t e1"
    using f(6) by (simp add: quota_step_def)
  ultimately show "queue_at n S e0 e'"
    unfolding e' by (intro queue_at_put[OF q t(1) _ _ _ _ _ _ f(5)]) (simp_all add: f(1,3) tq)
  have "get_topic n e' = Some ?t"
    unfolding e' by (rule put_state_ok(2)[OF ok t(1) _ _ _ f(5) \<open>quota_step t e ?t e1\<close>]) (simp_all add: f(1) tq)
  moreover have "view ?t = above_floor ?t (log_of n e)"
    using tr t(1) by (simp add: trims_def log_of_def above_floor_def floor_earliest_def)
  ultimately show "\<exists>t'. get_topic n e' = Some t' \<and> view t' = above_floor t' (log_of n e)" by blast
qed

lemma settled_ok:
  assumes q: "queue_at n S e0 e" and out: "settled env n hit skipped now e = (res, e')"
  shows "queue_at n S e0 e'" "\<exists>t'. get_topic n e' = Some t' \<and> view t' = above_floor t' (log_of n e)"
    "\<exists>r. res = Inr r \<and> sp_settled r = length hit \<and> sp_skipped r = skipped"
proof -
  obtain c e1 where c: "counters_named env n now e = (c, e1)" by fastforce
  then have e': "e' = e1"
    using out by (auto simp: settled_def Let_def split: prod.splits)
  show "queue_at n S e0 e'" "\<exists>t'. get_topic n e' = Some t' \<and> view t' = above_floor t' (log_of n e)"
    using counters_named_ok[OF q c] by (simp_all add: e')
  show "\<exists>r. res = Inr r \<and> sp_settled r = length hit \<and> sp_skipped r = skipped"
    using out by (auto simp: settled_def Let_def split: prod.splits)
qed

lemma get_queue_Inr: "get_queue n e = Inr (t, q) \<longleftrightarrow> get_topic n e = Some t \<and> t_queue t = Some q"
  by (auto simp: get_queue_def split: option.splits)

text \<open>The jobs of a request that its sender still holds, at a time.\<close>

definition held :: "string \<Rightarrow> u64 option list \<Rightarrow> seq list \<Rightarrow> i64 \<Rightarrow> queue_projection \<Rightarrow> seq set" where
  "held node ids seqs now q = {s. \<exists>j<length seqs. seqs ! j = s \<and> holds node ids j s (sweep_expired now q) \<noteq> None}"

lemma held_iff:
  assumes "wf_queue q"
  shows "s \<in> held node ids seqs now q \<longleftrightarrow> (\<exists>j<length seqs. seqs ! j = s \<and> (\<exists>l. lease_of q s = Some l \<and> now \<le> ls_deadline_ms l \<and>
     ls_node l = node \<and> lease_token_ok ids j (ls_lease_id l)))"
proof -
  have "lease_of (sweep_expired now q) s = (case lease_of q s of Some l \<Rightarrow> if now > ls_deadline_ms l then None else Some l | None \<Rightarrow> None)" for s
    by (rule sweep_expired_spec(7)[OF assms refl])
  then show ?thesis
    by (auto simp: held_def holds_def split: option.splits if_splits)
qed

theorem ack_fenced_ok:
  assumes ok: "engine_ok e" "engine_room e" and t: "get_topic n e = Some t" "t_queue t = Some q" "queue_ok t"
    and out: "ack_fenced env n node seqs ids now e = (res, e')"
  shows "queue_at n {} e e'"
    "\<exists>t'. get_topic n e' = Some t' \<and> (\<forall>(s, r)\<in>set (log_of n e) - set (view t'). s \<in> held node ids seqs now q \<or> s < floor_earliest t')"
    "set (log_of n e') \<subseteq> set (log_of n e)"
    "res = Inr resp \<Longrightarrow> distinct seqs \<Longrightarrow> s \<in> held node ids seqs now q \<Longrightarrow> s \<notin> fst ` set (log_of n e')"
proof -
  note q0 = queue_at_refl[OF ok t]
  have keep: "above_floor t (view t) = view t"
    by (rule kept_view_room[OF ok t(1)])
  have "queue_at n {} e e' \<and> (\<exists>t'. get_topic n e' = Some t' \<and>
      (\<forall>(s, r)\<in>set (log_of n e) - set (view t'). s \<in> held node ids seqs now q \<or> s < floor_earliest t')) \<and>
    set (log_of n e') \<subseteq> set (log_of n e) \<and>
    (\<forall>resp s. res = Inr resp \<longrightarrow> distinct seqs \<longrightarrow> s \<in> held node ids seqs now q \<longrightarrow> s \<notin> fst ` set (log_of n e'))"
  proof (cases "check_seqs node seqs ids")
    case (Some err)
    then have "e' = e" "res = Inl err"
      using out by (simp_all add: ack_fenced_def)
    then show ?thesis
      using q0 t(1) by (auto simp: log_of_def)
  next
    case None
    let ?q = "sweep_expired now q"
    have wf: "wf_queue q" "claim_cursor q \<le> t_head_seq t + 1"
      using t by (simp_all add: tracks_but_def)
    note sw = sweep_expired_spec(1-3)[OF wf(1) refl, of now]
    obtain hit skipped q1 where sc: "settle_scan ack_one node ids 0 seqs ?q = (hit, skipped, q1)" by (metis prod_cases3)
    note sf = ack.scan_wf[OF sw(1) sc] and sh = ack.scan_hits[OF sc]
    have hits: "fst ` set hit \<subseteq> held node ids seqs now q"
      using sh(1) by (fastforce simp: held_def)
    let ?e1 = "put_state (set_queue q1 t) e"
    have tr: "tracked q \<subseteq> tracked q1 \<union> fst ` set hit" "claim_cursor q1 \<le> t_head_seq t + 1"
      using sf(2,3) sw(2,3) wf(2) by simp_all
    note q1 = queue_at_set[OF q0 t(1,2) sf(1) tr(2,1) empty_subsetI]
    obtain r e2 where ad: "ack_deletes env n node hit now ?e1 = (r, e2)" by fastforce
    note a = ack_deletes_ok[OF q1(1) ad]
    obtain k where k: "log_of n e2 = filter (\<lambda>(s, r). s \<notin> fst ` set (take k hit)) (log_of n e)" "r = Inr () \<longrightarrow> k = length hit"
      using a(2) q1(3) by auto
    have gone: "s \<in> held node ids seqs now q" if "(s, x) \<in> set (log_of n e)" "(s, x) \<notin> set (log_of n e2)" for s x
      using that hits in_set_takeD[of _ k hit] by (force simp: k(1))
    have sub: "set (log_of n e2) \<subseteq> set (log_of n e)"
      by (auto simp: k(1))
    show ?thesis
    proof (cases r)
      case (Inl err)
      then have e': "e' = e2" "res = Inl err"
        using out None t sc ad by (simp_all add: ack_fenced_def get_queue_def Let_def)
      obtain t' where "get_topic n e2 = Some t'"
        using queue_atD(5)[OF a(1)] by blast
      then show ?thesis
        using a(1) gone sub by (auto simp: e' log_of_def)
    next
      case (Inr u)
      then have st: "settled env n hit skipped now e2 = (res, e')"
        using out None t sc ad by (simp add: ack_fenced_def get_queue_def Let_def)
      note s = settled_ok[OF a(1) st]
      obtain t' where t': "get_topic n e' = Some t'" "view t' = above_floor t' (log_of n e2)"
        using s(2) by blast
      have "s \<notin> fst ` set (view t')" if h: "distinct seqs" "s \<in> held node ids seqs now q" for s
      proof -
        obtain j lid where "j < length seqs" "seqs ! j = s" "holds node ids j s ?q = Some lid"
          using h(2) by (auto simp: held_def)
        then have "s \<in> fst ` set hit"
          using ack.scan_complete(1)[OF sc h(1), of j lid] by force
        then show ?thesis
          using k Inr by (force simp: t'(2) above_floor_def)
      qed
      moreover have "log_of n e' = view t'"
        by (simp add: log_of_def t'(1))
      moreover have "s \<in> held node ids seqs now q \<or> s < floor_earliest t'" if "(s, x) \<in> set (log_of n e)" "(s, x) \<notin> set (view t')" for s x
        using that gone[of s x] by (auto simp: t'(2) above_floor_def)
      moreover have "set (view t') \<subseteq> set (log_of n e)"
        using sub by (auto simp: t'(2) above_floor_def)
      ultimately show ?thesis
        using s(1) t'(1) by auto
    qed
  qed
  then show "queue_at n {} e e'"
    "\<exists>t'. get_topic n e' = Some t' \<and> (\<forall>(s, r)\<in>set (log_of n e) - set (view t'). s \<in> held node ids seqs now q \<or> s < floor_earliest t')"
    "set (log_of n e') \<subseteq> set (log_of n e)"
    "res = Inr resp \<Longrightarrow> distinct seqs \<Longrightarrow> s \<in> held node ids seqs now q \<Longrightarrow> s \<notin> fst ` set (log_of n e')"
    by blast+
qed

lemma queue_at_logs: "queue_at n S e0 e \<Longrightarrow> queue_at n S e0 (log_settled env t ev node dl now hit e)"
  unfolding log_settled_def by (rule queue_at_fold) (auto simp: split_beta intro: queue_at_log)

lemma log_settled_frame: "engine_frame e (log_settled env t ev node dl now hit e)"
proof -
  have "engine_frame e (fold (\<lambda>(s, lid). log_lease_event env t s ev node lid dl 0 now) hit e)" for e
    by (induction hit arbitrary: e) (auto simp: split_beta intro: engine_frame_trans[OF log_lease_event_frame(1)])
  then show ?thesis by (simp add: log_settled_def)
qed

text \<open>\<open>nack\<close> and \<open>extend\<close> lose no job and change the leases of the sender only.\<close>

lemma settle_keeps:
  assumes op: "settle_op f False" and ok: "engine_ok e" "engine_room e"
    and t: "get_topic n e = Some t" "t_queue t = Some q" "queue_ok t"
    and sc: "settle_scan f node ids 0 seqs (sweep_expired now q) = (hit, skipped, q1)"
  shows "queue_at n {} e (put_state (set_queue q1 t) e)" "log_of n (put_state (set_queue q1 t) e) = log_of n e"
    "fst ` set hit \<subseteq> held node ids seqs now q"
    "s \<notin> held node ids seqs now q \<Longrightarrow> lease_of q1 s = lease_of (sweep_expired now q) s"
proof -
  note q0 = queue_at_refl[OF ok t]
  have wf: "wf_queue q" "claim_cursor q \<le> t_head_seq t + 1"
    using t by (simp_all add: tracks_but_def)
  note sw = sweep_expired_spec(1-3)[OF wf(1) refl, of now]
  note sf = settle_op.scan_wf[OF op sw(1) sc] and sh = settle_op.scan_hits[OF op sc]
  have tr: "tracked q \<subseteq> tracked q1 \<union> {}" "claim_cursor q1 \<le> t_head_seq t + 1"
    using sf(2,3) sw(2,3) wf(2) by simp_all
  show "queue_at n {} e (put_state (set_queue q1 t) e)" "log_of n (put_state (set_queue q1 t) e) = log_of n e"
    using queue_at_set[OF q0 t(1,2) sf(1) tr(2,1) empty_subsetI] by simp_all
  show h: "fst ` set hit \<subseteq> held node ids seqs now q"
    using sh(1) by (fastforce simp: held_def)
  show "s \<notin> held node ids seqs now q \<Longrightarrow> lease_of q1 s = lease_of (sweep_expired now q) s"
    using sh(3)[of s] h by blast
qed

theorem nack_fenced_ok:
  assumes ok: "engine_ok e" "engine_room e" and t: "get_topic n e = Some t" "t_queue t = Some q" "queue_ok t"
    and out: "nack_fenced env n node seqs delay ids now e = (res, e')"
  shows "queue_at n {} e e'" "\<exists>t'. get_topic n e' = Some t' \<and> view t' = above_floor t' (log_of n e)"
proof -
  have "queue_at n {} e e' \<and> (\<exists>t'. get_topic n e' = Some t' \<and> view t' = above_floor t' (log_of n e))"
  proof (cases "check_seqs node seqs ids")
    case (Some err)
    then have "e' = e"
      using out by (simp add: nack_fenced_def)
    then show ?thesis
      using queue_at_refl[OF ok t] t(1) kept_view_room[OF ok t(1)] by (simp add: log_of_def)
  next
    case None
    let ?f = "nack_one (as_i64 (min delay MAX_NACK_DELAY_MS)) now"
    obtain hit skipped q1 where sc: "settle_scan ?f node ids 0 seqs (sweep_expired now q) = (hit, skipped, q1)" by (metis prod_cases3)
    note k = settle_keeps[OF nack.settle_op_axioms ok t sc]
    have st: "settled env n hit skipped now (log_settled env t 1 node 0 now hit (put_state (set_queue q1 t) e)) = (res, e')"
      using out None t sc by (simp add: nack_fenced_def get_queue_def Let_def)
    show ?thesis
      using settled_ok(1,2)[OF queue_at_logs[OF k(1)] st] log_of_frame[OF log_settled_frame] k(2) by simp
  qed
  then show "queue_at n {} e e'" "\<exists>t'. get_topic n e' = Some t' \<and> view t' = above_floor t' (log_of n e)" by simp_all
qed

theorem extend_fenced_ok:
  assumes ok: "engine_ok e" "engine_room e" and t: "get_topic n e = Some t" "t_queue t = Some q" "queue_ok t"
    and out: "extend_fenced env n node seqs lease_ms ids now e = (res, e')"
  shows "queue_at n {} e e'" "log_of n e' = log_of n e"
    "res = Inr (hit, skipped, dl) \<Longrightarrow> fst ` set hit \<subseteq> held node ids seqs now q"
proof -
  have "queue_at n {} e e' \<and> log_of n e' = log_of n e \<and> (\<forall>hit skipped dl. res = Inr (hit, skipped, dl) \<longrightarrow> fst ` set hit \<subseteq> held node ids seqs now q)"
  proof (cases "check_seqs node seqs ids")
    case (Some err)
    then have "e' = e" "res = Inl err"
      using out by (simp_all add: extend_fenced_def)
    then show ?thesis
      using queue_at_refl[OF ok t] by simp
  next
    case None
    define dl where "dl = i64_sat_add now (as_i64 (max MIN_LEASE_MS (min MAX_LEASE_MS lease_ms)))"
    obtain hit skipped q1 where sc: "settle_scan (extend_one dl) node ids 0 seqs (sweep_expired now q) = (hit, skipped, q1)" by (metis prod_cases3)
    note k = settle_keeps[OF extend.settle_op_axioms ok t sc]
    have e': "e' = log_settled env t 2 node dl now hit (put_state (set_queue q1 t) e)" "res = Inr (hit, skipped, dl)"
      using out None t sc by (simp_all add: extend_fenced_def get_queue_def Let_def dl_def)
    show ?thesis
      using queue_at_logs[OF k(1)] log_of_frame[OF log_settled_frame] k(2,3) by (simp add: e')
  qed
  then show "queue_at n {} e e'" "log_of n e' = log_of n e"
    "res = Inr (hit, skipped, dl) \<Longrightarrow> fst ` set hit \<subseteq> held node ids seqs now q" by blast+
qed

lemma release_spec:
  assumes "wf_queue q"
  shows "wf_queue (fold (\<lambda>(s, _) q. push_reclaim s (remove_lease s q)) xs q)"
    "claim_cursor (fold (\<lambda>(s, _) q. push_reclaim s (remove_lease s q)) xs q) = claim_cursor q"
    "tracked q \<subseteq> tracked (fold (\<lambda>(s, _) q. push_reclaim s (remove_lease s q)) xs q)"
    "lease_of (fold (\<lambda>(s, _) q. push_reclaim s (remove_lease s q)) xs q) s = (if s \<in> fst ` set xs then None else lease_of q s)"
proof -
  have "wf_queue (fold (\<lambda>(s, _) q. push_reclaim s (remove_lease s q)) xs q) \<and>
    claim_cursor (fold (\<lambda>(s, _) q. push_reclaim s (remove_lease s q)) xs q) = claim_cursor q \<and>
    tracked q \<subseteq> tracked (fold (\<lambda>(s, _) q. push_reclaim s (remove_lease s q)) xs q) \<and>
    lease_of (fold (\<lambda>(s, _) q. push_reclaim s (remove_lease s q)) xs q) s = (if s \<in> fst ` set xs then None else lease_of q s)"
    using assms
  proof (induction xs arbitrary: q)
    case (Cons x xs)
    have wf: "wf_queue (remove_lease (fst x) q)"
      using Cons.prems by (rule remove_lease_wf)
    show ?case
      using Cons.IH[OF push_reclaim_wf[OF wf], of "fst x"] tracked_push_reclaim[OF wf, of "fst x"] tracked_remove_lease(1)[of q "fst x"]
      by (auto simp: split_beta)
  qed simp
  then show "wf_queue (fold (\<lambda>(s, _) q. push_reclaim s (remove_lease s q)) xs q)"
    "claim_cursor (fold (\<lambda>(s, _) q. push_reclaim s (remove_lease s q)) xs q) = claim_cursor q"
    "tracked q \<subseteq> tracked (fold (\<lambda>(s, _) q. push_reclaim s (remove_lease s q)) xs q)"
    "lease_of (fold (\<lambda>(s, _) q. push_reclaim s (remove_lease s q)) xs q) s = (if s \<in> fst ` set xs then None else lease_of q s)"
    by simp_all
qed

theorem release_work_conn_ok:
  assumes ok: "engine_ok e" "engine_room e" and t: "get_topic n e = Some t" "t_queue t = Some q" "queue_ok t"
  shows "queue_at n {} e (release_work_conn env n conn now e)" "log_of n (release_work_conn env n conn now e) = log_of n e"
    "\<exists>t' q'. get_topic n (release_work_conn env n conn now e) = Some t' \<and> t_queue t' = Some q' \<and>
       (\<forall>s. lease_of q' s = (case lease_of q s of Some l \<Rightarrow> if ls_by_work_conn l = Some conn then None else Some l | None \<Rightarrow> None))"
proof -
  let ?xs = "conn_leases conn q"
  define q' where "q' = fold (\<lambda>(s, _) q. push_reclaim s (remove_lease s q)) ?xs q"
  let ?log = "\<lambda>e. fold (\<lambda>(s, l). log_lease_event env t s 1 (ls_node l) (ls_lease_id l) 0 0 now) ?xs e"
  have wf: "wf_queue q" "claim_cursor q \<le> t_head_seq t + 1"
    using t by (simp_all add: tracks_but_def)
  note r = release_spec[OF wf(1), of ?xs, folded q'_def]
  have tr: "tracked q \<subseteq> tracked q' \<union> {}" "claim_cursor q' \<le> t_head_seq t + 1"
    using r wf by simp_all
  note p = queue_at_set[OF queue_at_refl[OF ok t] t(1,2) r(1) tr(2,1) empty_subsetI]
  have rel: "release_work_conn env n conn now e = ?log (put_state (set_queue q' t) e)"
    using t by (simp add: release_work_conn_def get_queue_def Let_def q'_def)
  have "engine_frame e (fold (\<lambda>(s, l). log_lease_event env t s 1 (ls_node l) (ls_lease_id l) 0 0 now) xs e)" for xs e
    by (induction xs arbitrary: e) (auto simp: split_beta intro: engine_frame_trans[OF log_lease_event_frame(1)])
  note fr = this[of _ ?xs]
  show "queue_at n {} e (release_work_conn env n conn now e)"
    unfolding rel by (rule queue_at_fold[OF _ p(1)]) (auto simp: split_beta intro: queue_at_log)
  show "log_of n (release_work_conn env n conn now e) = log_of n e"
    unfolding rel using log_of_frame[OF fr] p(3) by simp
  have dist: "distinct (map fst (leases q))"
    using wf(1) by (simp add: wf_queue_def)
  have "s \<in> fst ` set ?xs \<longleftrightarrow> (\<exists>l. lease_of q s = Some l \<and> ls_by_work_conn l = Some conn)" for s
    using dist by (force simp: conn_leases_def lease_of_def map_of_eq_Some_iff)
  then have "lease_of q' s = (case lease_of q s of Some l \<Rightarrow> if ls_by_work_conn l = Some conn then None else Some l | None \<Rightarrow> None)" for s
    unfolding r(4) by (auto split: option.split)
  then show "\<exists>t' q'. get_topic n (release_work_conn env n conn now e) = Some t' \<and> t_queue t' = Some q' \<and>
       (\<forall>s. lease_of q' s = (case lease_of q s of Some l \<Rightarrow> if ls_by_work_conn l = Some conn then None else Some l | None \<Rightarrow> None))"
    unfolding rel using get_topic_frame[OF fr] p(2) by (intro exI[of _ "set_queue q' t"] exI[of _ q']) simp
qed

section \<open>Dead letters\<close>

lemma topic_like_queue: "topic_like t t' \<Longrightarrow> t_queue t' = t_queue t"
  by (auto simp: topic_like_def)

lemma topic_like_tracks: "topic_like t t' \<Longrightarrow> tracks_but S t' = tracks_but S t"
  using topic_likeD(3,5)[of t t'] topic_like_queue[of t t'] by (simp add: tracks_but_def split: option.split)

lemma queue_at_rebase: "queue_at n S e0 e \<Longrightarrow> queue_at n S e e"
  by (simp add: queue_at_def only_topic_def)

lemma queue_at_weaken: "queue_at n S e0 e \<Longrightarrow> S \<subseteq> S' \<Longrightarrow> queue_at n S' e0 e"
  using tracks_but_mono by (auto simp: queue_at_def)

text \<open>A step on any topic that only removes records or appends behind the head, seen from the queue \<open>n\<close>.\<close>

lemma queue_at_other:
  assumes q: "queue_at n S e e" and d: "get_topic m e = Some d" and d': "topic_ok d'" "same_id d d'" "t_head_seq d \<le> t_head_seq d'" "tail d' \<le> u64_max"
    and v: "\<And>s r. (s, r) \<in> set (view d') \<Longrightarrow> (s, r) \<in> set (view d) \<or> t_head_seq d < s"
    and fr: "engine_frame e e'" "quota_step d e d' e'"
  shows "queue_at n S (put_state d' e') (put_state d' e')" "\<And>k. k \<noteq> m \<Longrightarrow> get_topic k (put_state d' e') = get_topic k e"
    "e_limits (put_state d' e') = e_limits e" "e_routers (put_state d' e') = e_routers e"
proof -
  have ok: "engine_ok e" using q by (simp add: queue_at_def)
  note p = put_state_frame[OF ok d d'(1,2) fr]
  show fr': "e_limits (put_state d' e') = e_limits e" "e_routers (put_state d' e') = e_routers e"
    using fr(1) by (simp_all add: engine_frame_def)
  show "\<And>k. k \<noteq> m \<Longrightarrow> get_topic k (put_state d' e') = get_topic k e"
    using p(3) by simp
  obtain t p1 where t: "get_topic n e = Some t" "tail t \<le> u64_max" "t_queue t = Some p1" "tracks_but S t"
    using queue_atD(5)[OF q] by blast
  have "\<exists>t'. get_topic n (put_state d' e') = Some t' \<and> tail t' \<le> u64_max \<and> t_queue t' \<noteq> None \<and> tracks_but S t'"
  proof (cases "n = m")
    case True
    then have "t = d" using t(1) d by simp
    moreover have "t_queue d' = t_queue d" using d'(2) by (simp add: same_id_def)
    ultimately show ?thesis
      using True p(2) t d'(4) tracks_but_view[OF t(4), of d'] d'(3) v by simp
  next
    case False
    then show ?thesis
      using p(3)[OF False] t by simp
  qed
  then show "queue_at n S (put_state d' e') (put_state d' e')"
    using p(1) by (simp add: queue_at_def only_topic_def)
qed

lemma resolve_off_lock_like: "topic_like t (fst (resolve_sealed_off_lock env s k t))"
  by (simp add: resolve_sealed_off_lock_def Let_def split: option.split sealed_resolve.split)

lemma dead_letter_records_ok:
  assumes "dead_letter_records env src k now ss t = (rs, t')"
  shows "topic_like t t'" "list_all (\<lambda>r. \<not> sr_deleted r) rs" "length rs \<le> length ss"
proof -
  have "topic_like t t' \<and> list_all (\<lambda>r. \<not> sr_deleted r) rs \<and> length rs \<le> length ss"
    using assms
  proof (induction env src k now ss t arbitrary: rs t' rule: dead_letter_records.induct)
    case (2 env src k now s ss t)
    show ?case
    proof (cases "ix_get (t_index t) s")
      case None
      then show ?thesis
        using 2(1)[OF None] 2(4) None by fastforce
    next
      case (Some r)
      show ?thesis
      proof (cases "sr_deleted r")
        case True
        then show ?thesis
          using 2(2)[OF Some True] 2(4) Some True by fastforce
      next
        case False
        let ?pt = "if sr_payload_resident r then (slot_payload r, t) else (case resolve_sealed_off_lock env s 0 t of (t, p, _) \<Rightarrow> (p, t))"
        obtain p1 t1 where pt: "?pt = (p1, t1)" by fastforce
        have l1: "topic_like t t1"
          using pt resolve_off_lock_like[of t env s 0] by (auto split: if_splits prod.splits)
        obtain rs1 t2 where d: "dead_letter_records env src k now ss t1 = (rs1, t2)" by fastforce
        have ih: "topic_like t1 t2 \<and> list_all (\<lambda>r. \<not> sr_deleted r) rs1 \<and> length rs1 \<le> length ss"
          by (rule 2(3)[OF Some False pt[symmetric] refl refl d])
        show ?thesis
          using 2(4) Some False pt d ih topic_like_trans[OF l1] by (auto simp: Let_def)
      qed
    qed
  qed simp
  then show "topic_like t t'" "list_all (\<lambda>r. \<not> sr_deleted r) rs" "length rs \<le> length ss" by simp_all
qed

text \<open>Counters and log of the letters fit their 64 bits.\<close>

definition letters_fit :: "env \<Rightarrow> string \<Rightarrow> nat \<Rightarrow> i64 \<Rightarrow> seq list \<Rightarrow> topic_state \<Rightarrow> bool" where
  "letters_fit env src k now seqs t \<longleftrightarrow>
     (let rs = fst (dead_letter_records env src k now seqs t) in slot_bytes rs \<le> ROOM \<and> length rs \<le> ROOM)"

lemma appended_view:
  assumes "append_done env d rs d'" "t_head_seq d < tail d" "(s, r) \<in> set (view d')"
  shows "(s, r) \<in> set (view d) \<or> t_head_seq d < s"
  using assms by (auto simp: append_done_def dest!: set_zip_leftD)

lemma retain_named_queue:
  assumes q: "queue_at n S e e" and d: "get_topic m e = Some d" "tail d \<le> u64_max" and out: "retain_named env m now e = (res, e')"
  shows "queue_at n S e' e'" "\<And>k. k \<noteq> m \<Longrightarrow> get_topic k e' = get_topic k e" "e_limits e' = e_limits e" "e_routers e' = e_routers e"
proof -
  have ok: "engine_ok e" using q by (simp add: queue_at_def)
  note tk = engine_ok_topic[OF ok d(1)]
  obtain d' e1 where r: "enforce_retention_durable env d now e = (res, d', e1)" and e': "e' = put_state d' e1"
    using out d(1) by (auto simp: retain_named_def split: prod.splits)
  note f = enforce_retention_durable_ok(1-6)[OF tk(1,4) r] and tr = enforce_retention_durable_trims[OF tk(1) d(2) r]
  have h: "t_head_seq d \<le> t_head_seq d'" "tail d' \<le> u64_max"
    using f(3,4) d(2) by simp_all
  have v: "(s, r) \<in> set (view d) \<or> t_head_seq d < s" if "(s, r) \<in> set (view d')" for s r
    using trims_view[OF tr that] by simp
  note o = queue_at_other[OF q d(1) f(1,2) h v f(5,6)]
  show "queue_at n S e' e'" "\<And>k. k \<noteq> m \<Longrightarrow> get_topic k e' = get_topic k e" "e_limits e' = e_limits e" "e_routers e' = e_routers e"
    using o by (simp_all add: e')
qed

lemma append_dead_letters_ok:
  assumes q: "queue_at n S e e" and room: "quota e < u64_max" "\<And>d. get_topic dl e = Some d \<Longrightarrow> topic_room d"
    and rs: "list_all (\<lambda>r. \<not> sr_deleted r) rs" "slot_bytes rs \<le> ROOM" "length rs \<le> ROOM"
    and out: "append_dead_letters env dl rs now e = (b, e')"
  shows "queue_at n S e' e'" "\<And>k. k \<noteq> dl \<Longrightarrow> get_topic k e' = get_topic k e" "e_limits e' = e_limits e" "e_routers e' = e_routers e"
proof -
  have ok: "engine_ok e" using q by (simp add: queue_at_def)
  have "queue_at n S e' e' \<and> (\<forall>k. k \<noteq> dl \<longrightarrow> get_topic k e' = get_topic k e) \<and> e_limits e' = e_limits e \<and> e_routers e' = e_routers e"
  proof (cases "rs = [] \<or> get_topic dl e = None")
    case True
    then have "e' = e"
      using out by (auto simp: append_dead_letters_def split: if_splits)
    then show ?thesis using q by simp
  next
    case False
    then obtain d where d: "get_topic dl e = Some d" and ne: "rs \<noteq> []" by blast
    note tk = engine_ok_topic[OF ok d]
    have rm: "t_bytes_retained d + slot_bytes rs \<le> u64_max" "tail d + length rs \<le> u64_max"
      using room(2)[OF d] rs(2,3) by (simp_all add: topic_room_def ROOM_def u64_max_def)
    obtain res d' e1 where a: "durable_append env d rs now e = (res, d', e1)" by (metis prod_cases3)
    note f = durable_append_ok[OF tk(1) rs(1) rm room(1) a]
    have hd: "t_head_seq d < tail d" by (rule topic_okD(5)[OF tk(1)])
    have h: "t_head_seq d \<le> t_head_seq d'" "tail d' \<le> u64_max"
    proof -
      show "t_head_seq d \<le> t_head_seq d'"
        using f(5,6) ne hd by (cases res) (auto simp: append_done_def append_refused_def)
      show "tail d' \<le> u64_max"
        using f(7) rm(2) by simp
    qed
    have v: "(s, r) \<in> set (view d) \<or> t_head_seq d < s" if "(s, r) \<in> set (view d')" for s r
    proof (cases res)
      case (Inl err)
      then show ?thesis using f(6) that by (simp add: append_refused_def)
    next
      case (Inr seqs)
      then show ?thesis using f(5)[OF Inr ne] appended_view[OF _ hd that] by blast
    qed
    note o = queue_at_other[OF q d f(1,2) h v f(3,4)]
    have g: "get_topic dl (put_state d' e1) = Some d'"
      by (rule put_state_frame(2)[OF ok d f(1-4)])
    show ?thesis
    proof (cases res)
      case (Inl err)
      then have "e' = put_state d' e1"
        using out d ne a by (simp add: append_dead_letters_def)
      then show ?thesis using o by simp
    next
      case (Inr seqs)
      obtain x e2 where r: "retain_named env dl now (put_state d' e1) = (x, e2)" by fastforce
      have e': "e' = e2"
        using out d ne a r Inr by (simp add: append_dead_letters_def)
      show ?thesis
        using retain_named_queue[OF o(1) g h(2) r] o(2-4) by (simp add: e')
    qed
  qed
  then show "queue_at n S e' e'" "\<And>k. k \<noteq> dl \<Longrightarrow> get_topic k e' = get_topic k e" "e_limits e' = e_limits e" "e_routers e' = e_routers e"
    by blast+
qed

lemma push_reclaims_spec:
  assumes "wf_queue q"
  shows "wf_queue (fold push_reclaim ss q)" "tracked (fold push_reclaim ss q) = set ss \<union> tracked q" "claim_cursor (fold push_reclaim ss q) = claim_cursor q"
proof -
  have "wf_queue (fold push_reclaim ss q) \<and> tracked (fold push_reclaim ss q) = set ss \<union> tracked q \<and> claim_cursor (fold push_reclaim ss q) = claim_cursor q"
    using assms by (induction ss arbitrary: q) (auto simp: push_reclaim_wf)
  then show "wf_queue (fold push_reclaim ss q)" "tracked (fold push_reclaim ss q) = set ss \<union> tracked q" "claim_cursor (fold push_reclaim ss q) = claim_cursor q"
    by simp_all
qed

lemma requeue_diverted_ok:
  assumes q: "queue_at n (set ss) e0 e"
  shows "queue_at n {} e0 (on_topic n (requeue_diverted ss) e)"
proof -
  obtain t p where t: "get_topic n e = Some t" "t_queue t = Some p" "tracks_but (set ss) t"
    using queue_atD(5)[OF q] by blast
  let ?p = "fold push_reclaim ss p" and ?d = "dead_lettered (fold push_reclaim ss p) - length ss"
  have wf: "wf_queue p" using t by (simp add: tracks_but_def)
  note r = push_reclaims_spec[OF wf, of ss]
  have "wf_queue (?p\<lparr>dead_lettered := ?d\<rparr>)"
    using r(1) by (simp add: wf_queue_def)
  moreover have "tracked (?p\<lparr>dead_lettered := ?d\<rparr>) = set ss \<union> tracked p"
    unfolding r(2)[symmetric] by (simp add: tracked_def)
  ultimately have tb: "tracks_but {} (set_queue (?p\<lparr>dead_lettered := ?d\<rparr>) t)"
    using t(2,3) r(3) by (auto simp: tracks_but_def)
  have "topic_ok t"
    using q t(1) engine_ok_topic(1) by (auto simp: queue_at_def)
  then have "queue_at n {} e0 (put_state (set_queue (?p\<lparr>dead_lettered := ?d\<rparr>) t) e)"
    using tb by (intro queue_at_put[OF q t(1)]) (simp_all add: quota_step_same)
  then show ?thesis
    using t by (simp add: on_topic_def requeue_diverted_def Let_def)
qed

lemma delete_diverted_ok: "queue_at n (set ss) e0 e \<Longrightarrow> queue_at n {} e0 (delete_diverted env n ss now e)"
proof (induction ss arbitrary: e)
  case (Cons s ss)
  obtain res e1 where d: "delete_named env n s now e = (res, e1)" by fastforce
  have q: "queue_at n (insert s (set ss)) e0 e" using Cons.prems by simp
  note dn = delete_named_ok(1,2)[OF q d]
  show ?case
  proof (cases res)
    case (Inl err)
    then have "queue_at n (insert s (set ss)) e0 e1" using dn(2) by simp
    then show ?thesis
      using Cons.IH[OF queue_at_reclaim] d Inl by simp
  next
    case (Inr u)
    then show ?thesis
      using Cons.IH[OF dn(1)] d by simp
  qed
qed simp

lemma dead_letter_jobs_ok:
  assumes q: "queue_at n (set ss) e e" and room: "engine_room e" and t: "get_topic n e = Some t"
    and fit: "letters_fit env n k now ss t" and out: "e' = dead_letter_jobs env n dl ss k now e"
  shows "queue_at n {} e' e'" "\<And>m. m \<noteq> n \<Longrightarrow> m \<noteq> dl \<Longrightarrow> get_topic m e' = get_topic m e" "e_limits e' = e_limits e" "e_routers e' = e_routers e"
proof -
  have ok: "engine_ok e" using q by (simp add: queue_at_def)
  define e1 where "e1 = (if get_topic dl e = None then snd (put_topic env dl default_config now e) else e)"
  have p1: "engine_ok e1 \<and> (\<forall>m. m \<noteq> dl \<longrightarrow> get_topic m e1 = get_topic m e) \<and> e_limits e1 = e_limits e \<and> e_routers e1 = e_routers e \<and>
    (\<forall>d. get_topic dl e1 = Some d \<longrightarrow> topic_room d) \<and> get_topic n e1 = Some t"
  proof (cases "get_topic dl e")
    case (Some d)
    then show ?thesis
      using ok t engine_roomD[OF room Some] by (simp add: e1_def)
  next
    case None
    obtain r e2 where p: "put_topic env dl default_config now e = (r, e2)" by fastforce
    note po = put_topic_ok[OF ok p] and pk = put_topic_keeps[OF p]
    have "dl \<noteq> n" using None t by auto
    moreover have "topic_room d" if d: "get_topic dl e2 = Some d" for d
    proof (cases r)
      case (Inl err)
      then show ?thesis using po(4)[OF Inl None] d by simp
    next
      case (Inr x)
      obtain c cfg where "x = (c, cfg)" by fastforce
      then show ?thesis
        using put_topic_created[OF ok None, of env default_config now c cfg e2] p Inr d fresh_topic_room by auto
    qed
    ultimately show ?thesis
      using po(1,2) pk t None p by (auto simp: e1_def)
  qed
  then have t1: "get_topic n e1 = Some t" and lim: "e_limits e1 = e_limits e" "e_routers e1 = e_routers e" by simp_all
  have q1: "queue_at n (set ss) e1 e1"
    using q p1 t by (auto simp: queue_at_def only_topic_def)
  show "queue_at n {} e' e'" "\<And>m. m \<noteq> n \<Longrightarrow> m \<noteq> dl \<Longrightarrow> get_topic m e' = get_topic m e" "e_limits e' = e_limits e" "e_routers e' = e_routers e"
  proof -
    obtain rs t2 where d: "dead_letter_records env n k now ss t = (rs, t2)" by fastforce
    note dr = dead_letter_records_ok[OF d]
    have fit': "slot_bytes rs \<le> ROOM" "length rs \<le> ROOM"
      using fit d by (simp_all add: letters_fit_def)
    let ?e2 = "put_state t2 e1"
    have ag: "agrees e1 ?e2"
      using p1 by (intro put_like[OF _ t1 dr(1)]) simp
    have t2: "get_topic n ?e2 = Some t2" "\<And>m. m \<noteq> n \<Longrightarrow> get_topic m ?e2 = get_topic m e1"
    proof -
      note tk = engine_ok_topic[OF conjunct1[OF p1] t1] and l = topic_likeD[OF dr(1)]
      have id: "topic_ok t2" "t_name t2 = t_name t" "t_topic_id t2 = t_topic_id t"
        using tk l by simp_all
      note p = put_state_ok(2,3)[OF conjunct1[OF p1] t1 id engine_frame_refl quota_step_same[OF refl l(6)]]
      show "get_topic n ?e2 = Some t2" "\<And>m. m \<noteq> n \<Longrightarrow> get_topic m ?e2 = get_topic m e1"
        using p by blast+
    qed
    have q2: "queue_at n (set ss) ?e2 ?e2"
    proof -
      have "tail t2 \<le> u64_max" "t_queue t2 \<noteq> None" "tracks_but (set ss) t2"
        using q1 t1 topic_likeD(2)[OF dr(1)] topic_like_queue[OF dr(1)] topic_like_tracks[OF dr(1)] by (auto simp: queue_at_def)
      then show ?thesis
        using ag t2(1) by (simp add: queue_at_def only_topic_def agrees_def)
    qed
    have lim2: "e_limits ?e2 = e_limits e" "e_routers ?e2 = e_routers e"
      using lim by simp_all
    have rm: "topic_room d" if "get_topic dl ?e2 = Some d" for d
    proof (cases "dl = n")
      case True
      then have "topic_room t" using p1 t1 by simp
      then show ?thesis
        using True that t2(1) topic_likeD(2,6)[OF dr(1)] by (simp add: topic_room_def)
    next
      case False
      then show ?thesis using that t2(2) p1 by simp
    qed
    obtain b e3 where a: "append_dead_letters env dl rs now ?e2 = (b, e3)" by fastforce
    have qt: "quota ?e2 < u64_max"
      using room lim2 by (simp add: engine_room_def)
    note ap = append_dead_letters_ok[OF q2 qt rm dr(2) fit' a]
    have fr: "get_topic m e' = get_topic m e" if "queue_at n {} e3 e'" "m \<noteq> n" "m \<noteq> dl" for m
      using that queue_atD(2)[OF that(1)] ap(2)[of m] t2(2)[of m] p1 by (simp add: only_topic_def)
    have gone: "get_topic dl e1 = None \<Longrightarrow> e' = on_topic n (requeue_diverted ss) e1"
      using out by (simp add: dead_letter_jobs_def e1_def Let_def)
    have go: "get_topic dl e1 \<noteq> None \<Longrightarrow> e' = (if b then delete_diverted env n ss now e3 else on_topic n (requeue_diverted ss) e3)"
      using out t1 d a by (simp add: dead_letter_jobs_def e1_def Let_def split: if_splits)
    have "queue_at n {} e1 e' \<and> get_topic dl e1 = None \<or> queue_at n {} e3 e'"
      using gone go requeue_diverted_ok[OF q1] requeue_diverted_ok[OF ap(1)] delete_diverted_ok[OF ap(1)]
      by (cases "get_topic dl e1 = None"; cases b) simp_all
    then show "queue_at n {} e' e'" "\<And>m. m \<noteq> n \<Longrightarrow> m \<noteq> dl \<Longrightarrow> get_topic m e' = get_topic m e" "e_limits e' = e_limits e" "e_routers e' = e_routers e"
      using fr queue_at_rebase lim lim2 ap(3,4) p1 queue_atD(2-4)[of n "{}" e1 e'] queue_atD(3,4)[of n "{}" e3 e']
      by (auto simp: only_topic_def)
  qed
qed

section \<open>Claiming\<close>

lemma resolve_jobs_like:
  "resolve_jobs env ps out t = (out', t') \<Longrightarrow>
     topic_like t t' \<and> map (map lj_seq) out' = map (map lj_seq) out \<and> map (map lj_lease_id) out' = map (map lj_lease_id) out"
proof (induction env ps out t rule: resolve_jobs.induct)
  case (2 env rr i s ps out t)
  show ?case
  proof (cases "t_segwriter t")
    case None
    then show ?thesis using 2(1)[OF None] 2(3) by simp
  next
    case (Some w)
    let ?pt = "case resolve_sealed_fast w s of Hit p \<Rightarrow> (Some p, t)
       | Read loc \<Rightarrow> (case read_locator env loc of Some p \<Rightarrow> (Some p, t\<lparr>t_segwriter := Some (record_cold_read loc p w)\<rparr>) | None \<Rightarrow> (None, t))
       | NotSealed \<Rightarrow> (None, t)"
    obtain p1 t1 where pt: "?pt = (p1, t1)" by fastforce
    have l1: "topic_like t t1"
      using pt by (auto split: sealed_resolve.splits option.splits)
    define out1 where "out1 = (case p1 of Some p \<Rightarrow> out[rr := (out ! rr)[i := (out ! rr ! i)\<lparr>lj_data := rp_data p, lj_meta := rp_meta p\<rparr>]] | None \<Rightarrow> out)"
    have upd: "map (map f) (out[rr := (out ! rr)[i := x]]) = map (map f) out" if "f x = f (out ! rr ! i)" for f :: "leased_job \<Rightarrow> nat" and x
    proof (cases "rr < length out")
      case True
      have "map f ((out ! rr)[i := x]) = map f (out ! rr)"
        using that by (cases "i < length (out ! rr)") (simp_all add: map_update list_update_same_conv list_update_beyond)
      then show ?thesis
        using True by (simp add: map_update list_update_same_conv)
    qed (simp add: list_update_beyond)
    have ids: "map (map lj_seq) out1 = map (map lj_seq) out" "map (map lj_lease_id) out1 = map (map lj_lease_id) out"
      using upd by (auto simp: out1_def split: option.split)
    have r: "resolve_jobs env ps out1 t1 = (out', t')"
      using 2(3) Some pt by (simp add: out1_def Let_def)
    have "topic_like t1 t' \<and> map (map lj_seq) out' = map (map lj_seq) out1 \<and> map (map lj_lease_id) out' = map (map lj_lease_id) out1"
      by (rule 2(2)[OF Some pt[symmetric] refl out1_def r])
    then show ?thesis
      using topic_like_trans[OF l1] ids by simp
  qed
qed simp

lemma log_claims_frame: "engine_frame e (log_claims env t cs dl now evs e) \<and> e_total_bytes_live (log_claims env t cs dl now evs e) = e_total_bytes_live e"
proof (induction evs arbitrary: e)
  case (Cons x evs)
  obtain i s lid n where x: "x = (i, s, lid, n)" by (metis prod_cases4)
  show ?case
    using Cons[of "log_lease_event env t s 0 (cl_node (cs ! i)) lid dl n now e"] log_lease_event_frame(2)
    by (auto simp: x intro: engine_frame_trans[OF log_lease_event_frame(1)])
qed simp

text \<open>The letters of a claim fit their counters.\<close>

definition claim_fits :: "env \<Rightarrow> string \<Rightarrow> claimer list \<Rightarrow> nat option \<Rightarrow> i64 \<Rightarrow> engine \<Rightarrow> bool" where
  "claim_fits env name claimers lease_ms now e \<longleftrightarrow>
     (case get_queue name e of
        Inl _ \<Rightarrow> True
      | Inr (t, q) \<Rightarrow>
          (case enforce_retention_durable env t now e of
             (_, t, _) \<Rightarrow>
               let cs = claim_pass claimers lease_ms now t q;
                   (_, t) = resolve_jobs env (cs_resolve cs) (cs_out cs) (set_queue (cs_queue cs) t)
               in letters_fit env name (cfg_max_deliveries (t_config t)) now (cs_dead cs) t))"

definition demand_of :: "claimer \<Rightarrow> nat" where
  "demand_of c = max 1 (min MAX_CLAIM (cl_max c))"

definition not_held :: "i64 \<Rightarrow> queue_projection \<Rightarrow> seq \<Rightarrow> bool" where
  "not_held now q s \<longleftrightarrow> (case lease_of q s of Some l \<Rightarrow> now > ls_deadline_ms l | None \<Rightarrow> True)"

definition handed_out :: "queue_projection \<Rightarrow> i64 \<Rightarrow> claimer list \<Rightarrow> leased_job list list \<Rightarrow> bool" where
  "handed_out q now claimers out \<longleftrightarrow>
     length out = length claimers \<and> list_all2 (\<lambda>c js. length js \<le> demand_of c) claimers out \<and>
     distinct (map lj_seq (concat out)) \<and> distinct (map lj_lease_id (concat out)) \<and>
     list_all (\<lambda>j. not_held now q (lj_seq j) \<and> next_lease_id q \<le> lj_lease_id j) (concat out)"

lemma pass_job_mem:
  assumes "pass_jobs ctx q0 q out" "j \<in> set (concat out)"
  shows "\<exists>i. job_ok ctx q0 q i j"
proof -
  obtain js where "js \<in> set out" "j \<in> set js" using assms(2) by auto
  then obtain i where "i < length out" "j \<in> set (out ! i)" by (metis in_set_conv_nth)
  then show ?thesis using assms(1) by (auto simp: pass_jobs_def)
qed

lemma pass_lease_ids:
  assumes wf: "wf_queue q" and jobs: "pass_jobs ctx q0 q out"
  shows "distinct (map lj_lease_id (concat out))"
proof -
  have d: "distinct (map lj_seq (concat out))" using jobs by (simp add: pass_jobs_def)
  have "lj_seq a = lj_seq b" if ab: "a \<in> set (concat out)" "b \<in> set (concat out)" "lj_lease_id a = lj_lease_id b" for a b
  proof -
    obtain la lb where "lease_of q (lj_seq a) = Some la" "ls_lease_id la = lj_lease_id a" "lease_of q (lj_seq b) = Some lb" "ls_lease_id lb = lj_lease_id b"
      using pass_job_mem[OF jobs ab(1)] pass_job_mem[OF jobs ab(2)] by (auto simp: job_ok_def)
    then show ?thesis
      using wf ab(3) unfolding wf_queue_def by metis
  qed
  then have "inj_on lj_lease_id (set (concat out))"
    using d unfolding distinct_map inj_on_def by metis
  then show ?thesis
    using d unfolding distinct_map by simp
qed

lemma handed_out_ids:
  assumes "map (map lj_seq) out' = map (map lj_seq) out" "map (map lj_lease_id) out' = map (map lj_lease_id) out" "handed_out q now cs out"
  shows "handed_out q now cs out'"
proof -
  have c: "map lj_seq (concat out') = map lj_seq (concat out)" "map lj_lease_id (concat out') = map lj_lease_id (concat out)"
    using arg_cong[OF assms(1), of concat] arg_cong[OF assms(2), of concat] by (simp_all add: map_concat)
  have l: "map length out' = map length out"
    using arg_cong[OF assms(1), of "map length"] by (simp add: comp_def)
  have "list_all (\<lambda>j. not_held now q (lj_seq j) \<and> next_lease_id q \<le> lj_lease_id j) xs \<longleftrightarrow>
    list_all (not_held now q) (map lj_seq xs) \<and> list_all (\<lambda>i. next_lease_id q \<le> i) (map lj_lease_id xs)" for xs
    by (induction xs) auto
  note la = this
  have "list_all2 (\<lambda>c js. length js \<le> demand_of c) cs xs \<longleftrightarrow> list_all2 (\<lambda>c n. n \<le> demand_of c) cs (map length xs)" for xs :: "leased_job list list"
    by (simp add: list_all2_map2)
  then show ?thesis
    using assms(3) l c unfolding handed_out_def la by (metis length_map)
qed

lemma claim_pass_inv:
  assumes ok: "topic_ok t" and tb: "queue_ok t" and q: "t_queue t = Some q"
    and cs: "cs = claim_pass claimers lease_ms now t q"
  shows "pass_inv (claim_context claimers lease_ms now t) (sweep_expired now q) (map demand_of claimers) cs"
    "cs_total cs = 0 \<or> work_exhausted (claim_context claimers lease_ms now t) cs"
proof -
  let ?ctx = "claim_context claimers lease_ms now t" and ?q = "sweep_expired now q"
  have wf: "wf_queue q" using tb q by (simp add: tracks_but_def)
  note sw = sweep_expired_spec[OF wf refl, of now]
  have ctx: "cc_index ?ctx = t_index t" "cc_head ?ctx = t_head_seq t" "cc_claimers ?ctx = claimers"
    by (simp_all add: claim_context_def Let_def)
  have "\<forall>s\<in>set (reclaim ?q). is_live (cc_index ?ctx) s \<longrightarrow> s \<le> cc_head ?ctx"
    using topic_okD(2)[OF ok] by (simp add: ctx resting_def)
  from claim_start_inv[OF sw(1) this] have "pass_inv ?ctx ?q (map demand_of claimers) (claim_start claimers ?q)"
    by (simp add: demand_of_def[abs_def])
  from claim_loop_ok[OF this] show "pass_inv ?ctx ?q (map demand_of claimers) cs" "cs_total cs = 0 \<or> work_exhausted ?ctx cs"
    by (simp_all add: ctx cs claim_pass_def)
qed

lemma claim_pass_ok:
  assumes ok: "topic_ok t" and tb: "queue_ok t" and q: "t_queue t = Some q"
    and cs: "cs = claim_pass claimers lease_ms now t q"
  shows "tracks_but (set (cs_dead cs)) (set_queue (cs_queue cs) t)" "handed_out q now claimers (cs_out cs)"
    "cs_total cs = 0 \<or> work_exhausted (claim_context claimers lease_ms now t) cs"
proof -
  let ?ctx = "claim_context claimers lease_ms now t" and ?q = "sweep_expired now q"
  have wf: "wf_queue q" using tb q by (simp add: tracks_but_def)
  note sw = sweep_expired_spec[OF wf refl, of now]
  have ctx: "cc_index ?ctx = t_index t" "cc_head ?ctx = t_head_seq t" "cc_claimers ?ctx = claimers"
    by (simp_all add: claim_context_def Let_def)
  note inv = claim_pass_inv[OF ok tb q cs]
  then show "cs_total cs = 0 \<or> work_exhausted ?ctx cs" by simp
  have pq: "pass_queue ?ctx ?q (cs_queue cs) (cs_dead cs)" and pj: "pass_jobs ?ctx ?q (cs_queue cs) (cs_out cs)" and pd: "pass_demand (map demand_of claimers) cs"
    using inv(1) by (simp_all add: pass_inv_def)
  have live: "is_live (t_index t) s" if "s \<in> fst ` set (view t)" for s
    using that by (auto simp: view_def visible_def simp del: upt_Suc)
  have sub: "fst ` set (view t) \<subseteq> tracked q"
    using tb q by (simp add: tracks_but_def)
  have "claim_cursor (cs_queue cs) \<le> t_head_seq t + 1"
    using pq tb q sw(3) by (auto simp: pass_queue_def ctx tracks_but_def)
  moreover have "s \<in> tracked (cs_queue cs) \<union> set (cs_dead cs)" if "s \<in> fst ` set (view t)" for s
    using pq live[OF that] sub that unfolding pass_queue_def ctx sw(2) by blast
  moreover have "wf_queue (cs_queue cs)" using pq by (simp add: pass_queue_def)
  ultimately show "tracks_but (set (cs_dead cs)) (set_queue (cs_queue cs) t)"
    by (auto simp: tracks_but_def)
  have "not_held now q (lj_seq j) \<and> next_lease_id q \<le> lj_lease_id j" if "j \<in> set (concat (cs_out cs))" for j
    using pass_job_mem[OF pj that] sw(5) sw(7)[of "lj_seq j"]
    by (auto simp: job_ok_def not_held_def split: option.splits if_splits)
  moreover have "list_all2 (\<lambda>c js. length js \<le> demand_of c) claimers (cs_out cs)"
  proof (rule list_all2_all_nthI)
    show "length claimers = length (cs_out cs)" using pd by (simp add: pass_demand_def)
    show "length (cs_out cs ! i) \<le> demand_of (claimers ! i)" if "i < length claimers" for i
      using pd that unfolding pass_demand_def by (metis le_add1 length_map nth_map)
  qed
  ultimately show "handed_out q now claimers (cs_out cs)"
    using pass_lease_ids[OF \<open>wf_queue (cs_queue cs)\<close> pj] pj pd
    by (simp add: handed_out_def list_all_iff pass_jobs_def pass_demand_def del: set_concat)
qed

lemma claim_pass_work:
  assumes ok: "topic_ok t" and tb: "queue_ok t" and q: "t_queue t = Some q"
  shows "list_all2 (\<lambda>c js. length js = demand_of c) claimers (cs_out (claim_pass claimers lease_ms now t q)) \<or>
    list_all (\<lambda>(s, r). lease_of (cs_queue (claim_pass claimers lease_ms now t q)) s \<noteq> None \<or>
        s \<in> snd ` set (delayed (cs_queue (claim_pass claimers lease_ms now t q))) \<or>
        s \<in> set (cs_dead (claim_pass claimers lease_ms now t q))) (view t)"
proof -
  define cs where "cs = claim_pass claimers lease_ms now t q"
  note c = claim_pass_ok[OF ok tb q cs_def]
  have pd: "pass_demand (map demand_of claimers) cs"
    using claim_pass_inv[OF ok tb q cs_def] by (simp add: pass_inv_def)
  from c(3) show ?thesis
  proof
    assume "cs_total cs = 0"
    then have "\<forall>i<length claimers. cs_remaining cs ! i = 0"
      using pd unfolding pass_demand_def by (metis length_map nth_mem sum_list_eq_0_iff)
    then have "list_all2 (\<lambda>c js. length js = demand_of c) claimers (cs_out cs)"
      using pd unfolding pass_demand_def by (intro list_all2_all_nthI) auto
    then show ?thesis by (simp add: cs_def)
  next
    assume "work_exhausted (claim_context claimers lease_ms now t) cs"
    then have w: "lease_of (cs_queue cs) s \<noteq> None \<or> s \<in> snd ` set (delayed (cs_queue cs))" if "s \<in> tracked (cs_queue cs)" "is_live (t_index t) s" "s \<le> t_head_seq t" for s
      using that by (simp add: work_exhausted_def claim_context_def Let_def)
    have "lease_of (cs_queue cs) s \<noteq> None \<or> s \<in> snd ` set (delayed (cs_queue cs)) \<or> s \<in> set (cs_dead cs)" if "(s, r) \<in> set (view t)" for s r
    proof -
      have v: "is_live (t_index t) s" "s \<le> t_head_seq t"
        using that by (auto simp: view_def visible_def simp del: upt_Suc)
      have "s \<in> tracked (cs_queue cs) \<union> set (cs_dead cs)"
        using c(1) that by (force simp: tracks_but_def)
      then show ?thesis using w v by blast
    qed
    then show ?thesis by (auto simp: list_all_iff cs_def)
  qed
qed

lemma claim_loop_dead: "cc_dead_letter ctx = None \<Longrightarrow> cs_dead (claim_loop ctx cs) = cs_dead cs"
proof (induction ctx cs rule: claim_loop.induct)
  case (1 ctx cs)
  let ?rr = "find_claimer (length (cs_remaining cs)) (cs_remaining cs) (cs_rr cs)"
  obtain r q where n: "next_claimable (cc_index ctx) (cc_head ctx) (cs_queue cs) = (r, q)" by fastforce
  show ?case
  proof (cases "cs_total cs = 0 \<or> cs_remaining cs ! ?rr = 0 \<or> r = None")
    case True
    then show ?thesis
      using n by (subst claim_loop.simps) (auto simp: Let_def)
  next
    case False
    then obtain s where s: "r = Some s" by blast
    have "cs_dead (claim_one ctx ?rr s (cs\<lparr>cs_queue := q, cs_rr := ?rr\<rparr>)) = cs_dead cs"
      using 1(2) by (simp add: claim_one_def over_limit_def lease_to_def Let_def split_beta)
    then show ?thesis
      using 1(1)[OF _ refl _ n[symmetric] s 1(2)] False n s by (subst claim_loop.simps) (simp add: Let_def)
  qed
qed

theorem run_claim_cohort_ok:
  assumes ok: "engine_ok e" "engine_room e" and t: "get_topic n e = Some t" "t_queue t = Some q" "queue_ok t"
    and fits: "claim_fits env n claimers lease_ms now e"
    and out: "run_claim_cohort env n claimers lease_ms now e = (res, e')"
  shows "queue_at n {} e' e'" "\<And>m. m \<noteq> n \<Longrightarrow> cfg_dead_letter (t_config t) \<noteq> Some m \<Longrightarrow> get_topic m e' = get_topic m e"
    "e_limits e' = e_limits e" "e_routers e' = e_routers e" "res = Inr (out, ready) \<Longrightarrow> handed_out q now claimers out"
proof -
  note q0 = queue_at_refl[OF ok t] and tk = engine_ok_topic[OF ok(1) t(1)]
  have tl: "tail t \<le> u64_max"
    using engine_roomD[OF ok(2) t(1)] topic_roomD(1) by simp
  obtain rr t1 e1 where r: "enforce_retention_durable env t now e = (rr, t1, e1)" by (metis prod_cases3)
  note f = enforce_retention_durable_ok[OF tk(1,4) r] and tr = enforce_retention_durable_trims[OF tk(1) tl r]
  have id: "t_name t1 = t_name t" "t_topic_id t1 = t_topic_id t" "t_queue t1 = Some q" "t_config t1 = t_config t"
    using f(2) t(2) by (simp_all add: same_id_def)
  have tb1: "queue_ok t1"
    by (rule tracks_but_view[OF t(3)]) (simp_all add: id t(2) f(4) trims_view[OF tr])
  have room1: "topic_room t1"
    using topic_room_trims[OF _ tr f(3)] engine_roomD[OF ok(2) t(1)] by simp
  have "queue_at n {} e' e' \<and> (\<forall>m. m \<noteq> n \<longrightarrow> cfg_dead_letter (t_config t) \<noteq> Some m \<longrightarrow> get_topic m e' = get_topic m e) \<and>
    e_limits e' = e_limits e \<and> e_routers e' = e_routers e \<and> (\<forall>out ready. res = Inr (out, ready) \<longrightarrow> handed_out q now claimers out)"
  proof (cases rr)
    case (Inl err)
    then have "e' = put_state t1 e1" "res = Inl err"
      using out t r by (simp_all add: run_claim_cohort_def get_queue_def)
    moreover have "queue_at n {} e (put_state t1 e1)"
      using f(1,3) id tb1 by (intro queue_at_put[OF q0 t(1) _ _ _ _ _ _ f(5,6)]) simp_all
    ultimately show ?thesis
      using queue_at_rebase queue_atD(2-4)[of n "{}" e e'] by (auto simp: only_topic_def)
  next
    case (Inr u)
    define cs where "cs = claim_pass claimers lease_ms now t1 q"
    note cp = claim_pass_ok[OF f(1) tb1 id(3) cs_def]
    let ?t2 = "set_queue (cs_queue cs) t1"
    obtain o3 t3 where rj: "resolve_jobs env (cs_resolve cs) (cs_out cs) ?t2 = (o3, t3)" by fastforce
    note l3 = conjunct1[OF resolve_jobs_like[OF rj]]
    note d3 = topic_likeD[OF l3]
    have tb3: "tracks_but (set (cs_dead cs)) t3"
      using cp(1) topic_like_tracks[OF l3] by simp
    let ?e3 = "put_state t3 e1"
    have qs: "quota_step t e t3 e1"
      using f(6) d3(6) by (simp add: quota_step_def)
    have tq3: "t_queue t3 \<noteq> None"
      using topic_like_queue[OF l3] by simp
    have ok3: "topic_ok t3" using f(1) d3(1) by simp
    have q3: "queue_at n (set (cs_dead cs)) e ?e3"
      using d3 f(3) id tb3 ok3 tq3 by (intro queue_at_put[OF q0 t(1) _ _ _ _ _ _ f(5) qs]) simp_all
    have g3: "get_topic n ?e3 = Some t3"
      using d3 id ok3 by (intro put_state_ok(2)[OF ok(1) t(1) _ _ _ f(5) qs]) simp_all
    have room3: "engine_room ?e3"
    proof -
      have "topic_room t'" if "(m, t') \<in> set (e_topics ?e3)" for m t'
      proof (cases "m = n")
        case True
        have "distinct (map fst (e_topics ?e3))"
          using q3 by (simp add: queue_at_def engine_ok_def)
        then have "get_topic n ?e3 = Some t'"
          using that True by (simp add: get_topic_def)
        then show ?thesis
          using g3 room1 d3(2,6) by (simp add: topic_room_def)
      next
        case False
        have "distinct (map fst (e_topics ?e3))"
          using q3 by (simp add: queue_at_def engine_ok_def)
        then have "get_topic m ?e3 = Some t'"
          using that by (simp add: get_topic_def)
        then have "get_topic m e = Some t'"
          using False queue_atD(2)[OF q3] by (simp add: only_topic_def)
        then show ?thesis using engine_roomD[OF ok(2)] by simp
      qed
      then show ?thesis
        using ok(2) queue_atD(4)[OF q3] by (auto simp: engine_room_def list_all_iff)
    qed
    let ?ctx = "claim_context claimers lease_ms now t1"
    have ctx: "cc_dead_letter ?ctx = cfg_dead_letter (t_config t)" "cc_max_deliveries ?ctx = cfg_max_deliveries (t_config t)"
      by (simp_all add: claim_context_def Let_def id)
    have fit: "letters_fit env n (cfg_max_deliveries (t_config t)) now (cs_dead cs) t3"
      using fits t r rj d3(12) id(4) unfolding claim_fits_def by (simp add: get_queue_def cs_def[symmetric])
    define e4 where "e4 = (case cc_dead_letter ?ctx of
        Some dl \<Rightarrow> if cs_dead cs = [] then ?e3 else dead_letter_jobs env n dl (cs_dead cs) (cc_max_deliveries ?ctx) now ?e3
      | None \<Rightarrow> ?e3)"
    have dead: "cs_dead cs = [] \<or> cfg_dead_letter (t_config t) \<noteq> None"
      using claim_loop_dead[of ?ctx] by (cases "cfg_dead_letter (t_config t)") (simp_all add: ctx cs_def claim_pass_def claim_start_def Let_def)
    have q4: "queue_at n {} e4 e4 \<and> (\<forall>m. m \<noteq> n \<longrightarrow> cfg_dead_letter (t_config t) \<noteq> Some m \<longrightarrow> get_topic m e4 = get_topic m e) \<and>
      e_limits e4 = e_limits e \<and> e_routers e4 = e_routers e"
    proof (cases "cs_dead cs = []")
      case True
      then have "e4 = ?e3" by (simp add: e4_def split: option.split)
      then show ?thesis
        using True q3 queue_at_rebase[OF q3] queue_atD(2-4)[OF q3] by (simp add: only_topic_def)
    next
      case False
      then obtain dl where dl: "cfg_dead_letter (t_config t) = Some dl" using dead by blast
      then have e4: "e4 = dead_letter_jobs env n dl (cs_dead cs) (cfg_max_deliveries (t_config t)) now ?e3"
        using False by (simp add: e4_def ctx)
      note dj = dead_letter_jobs_ok[OF queue_at_rebase[OF q3] room3 g3 fit e4]
      show ?thesis
        using dj queue_atD(2-4)[OF q3] dl by (auto simp: only_topic_def)
    qed
    have e': "e' = log_claims env t3 claimers (cc_deadline ?ctx) now (cs_events cs) e4"
      unfolding e4_def cs_def using out t r Inr rj[unfolded cs_def] by (auto simp: run_claim_cohort_def get_queue_def Let_def)
    have res: "\<exists>ready. res = Inr (o3, ready)"
      using out t r Inr rj by (auto simp: run_claim_cohort_def get_queue_def Let_def cs_def[symmetric])
    note fr = log_claims_frame[of e4 env t3 claimers "cc_deadline ?ctx" now "cs_events cs", folded e']
    have "queue_at n {} e4 e'"
      using queue_at_frame[OF conjunct1[OF q4]] fr by blast
    then show ?thesis
      using q4 queue_at_rebase queue_atD(3,4)[of n "{}" e4 e'] get_topic_frame[OF conjunct1[OF fr]] res
        handed_out_ids[OF _ _ cp(2)] resolve_jobs_like[OF rj] by auto
  qed
  then show "queue_at n {} e' e'" "\<And>m. m \<noteq> n \<Longrightarrow> cfg_dead_letter (t_config t) \<noteq> Some m \<Longrightarrow> get_topic m e' = get_topic m e"
    "e_limits e' = e_limits e" "e_routers e' = e_routers e" "res = Inr (out, ready) \<Longrightarrow> handed_out q now claimers out"
    by blast+
qed

end
