(* ===== verification/Samples_Engine.thy ===== *)
theory Samples_Engine
  imports Samples Queue_Handlers
begin

text \<open>A small engine, its requests and the states they lead to, on which the properties of the handlers are instantiated.\<close>

definition demo_config :: "topic_type \<Rightarrow> topic_config" where
  "demo_config k = default_config\<lparr>cfg_type := k, cfg_durability := Some Disk\<rparr>"

definition demo_routers :: router_graph where
  "demo_routers = graph_new\<lparr>rg_routers := [(''sd'', demo_router ''s'' ''d'')]\<rparr>"

definition demo_topics :: "(string \<times> topic_state) list" where
  "demo_topics = [(''s'', topic_new ''s'' 1 (demo_config Log) 1 1), (''d'', topic_new ''d'' 2 (demo_config Log) 1 1),
     (''q'', topic_new ''q'' 3 (demo_config Queue) 1 1),
     (''c'', topic_new ''c'' 4 ((demo_config Log)\<lparr>cfg_cap_records := 1, cfg_discard := Reject\<rparr>) 1 1)]"

definition demo_engine :: engine where
  "demo_engine = \<lparr>e_topics = demo_topics, e_routers = demo_routers, e_next_topic_id = 5, e_topic_count = 4, e_total_bytes_live = 0,
     e_wal = None, e_open_writer = (\<lambda>_. None), e_config_to_vec = (\<lambda>_. []), e_config_from_slice = (\<lambda>_. None),
     e_limits = \<lparr>lim_max_total_bytes = 0, lim_max_topics = 0, lim_max_routers = 0\<rparr>, e_ready_set = ready_empty, e_recency = (\<lambda>_. 0)\<rparr>"

definition demo_request :: "string option \<Rightarrow> write_request" where
  "demo_request key = \<lparr>wq_records = [\<lparr>ri_data = JBool True, ri_tag = Some ''a'', ri_node = None, ri_meta = None\<rparr>,
       \<lparr>ri_data = JNull, ri_tag = None, ri_node = None, ri_meta = None\<rparr>],
     wq_node = Some ''n'', wq_idempotency_key = key, wq_create = None, wq_config = None\<rparr>"

definition demo_stored :: "stored_record list" where
  "demo_stored = [\<lparr>sr_ts = 1000, sr_node = Some ''n'', sr_tag = Some ''a'', sr_data = JBool True, sr_meta = None, sr_bytes = 0,
      sr_deleted = False, sr_payload_resident = True, sr_hops = 0\<rparr>,
     \<lparr>sr_ts = 1000, sr_node = Some ''n'', sr_tag = None, sr_data = JNull, sr_meta = None, sr_bytes = 0,
      sr_deleted = False, sr_payload_resident = True, sr_hops = 0\<rparr>]"

lemma topic_new_fields:
  "t_name (topic_new n i c b ep) = n" "t_topic_id (topic_new n i c b ep) = i" "t_bytes_retained (topic_new n i c b ep) = 0"
  "tail (topic_new n i c b ep) = b"
  by (simp_all add: topic_new_def tail_def index_new_def)

lemma demo_engine_ok: "engine_ok demo_engine" "engine_room demo_engine" "routers_ok (e_routers demo_engine)"
  by (simp_all add: demo_engine_def demo_topics_def engine_ok_def engine_room_def u64_max_def routers_ok_def demo_routers_def topics_bytes_def topic_ok_new
      topic_room_def topic_new_fields ROOM_def demo_router_def)

text \<open>The definitions a handler runs through, to evaluate it on a concrete engine.\<close>

lemmas engine_eval =
  SEQ_BASE_def DISK_HEAD_RESERVE_AHEAD_def get_topic_def put_state_def as_ts_def total_bytes_def try_reserve_total_bytes_def
  release_total_bytes_def shard_for_topic_def submit_batch_def map_wal_submit_err_def wal_commit_def wal_log_best_effort_def
  wal_log_delete_seqs_def log_evict_watermark_def ensure_disk_head_reserved_def harden_due_def enforce_retention_durable_def
  encode_record_payload_def append_frames_def wal_enqueue_batch_def reserve_incoming_def release_incoming_def publish_and_seal_def
  durable_append_def derived_append_def MIN_LEASE_MS_def MAX_LEASE_MS_def MAX_CLAIM_JITTER_MS_def normalize_config_def validate_config_def
  config_frame_def alloc_topic_id_def reserve_topic_slot_def fresh_topic_def update_topic_def create_topic_def put_topic_def
  remove_topic_def delete_topic_def topics_bytes_def MAX_BATCH_RECORDS_def MAX_RECORD_BYTES_def MAX_META_BYTES_def MAX_META_KEYS_def
  MAX_TAG_BYTES_def MAX_NODE_BYTES_def MAX_IDEMPOTENCY_KEY_LEN_def payload_bytes_def build_stored_owned_def build_stored_def or_else_def
  read_ts_def effective_priority_def mark_topic_dirty_def prune_dedupe_def dedupe_check_def dedupe_record_def admission_def append_topic_def
  write_topic_def resolve_topic_def check_write_def write_answer_def engine_write_def log_delete_def engine_delete_def ROOM_def
  topic_room_def engine_room_def TS_NEVER_def topic_new_def deleted_hole_def publish_head_seq_def set_reserved_head_def pad_holes_def
  restore_head_watermark_def next_seq_def earliest_seq_def evict_earliest_seq_def involuntary_floor_def attach_segwriter_def
  free_payload_def materialize_segment_def seam_admit_def materialize_published_def empty_stage_def staged_seqs_def publish_head_def
  stage_append_def publish_staged_no_seal_def publish_staged_def append_records_def rollback_staged_def rollback_staged_by_seqs_def
  note_source_trim_def slot_payload_def resolve_payload_def forward_lookup_def subtract_live_count_def subtract_bytes_retained_def
  front_drop_def reclaim_front_def reclaim_segments_def flag_sealed_deletes_def no_advance_def plan_retention_def commit_floors_def
  enforce_retention_hardened_def enforce_retention_def live_range_def apply_delete_stats_def apply_delete_def delete_seqs_stats_def
  apply_ondisk_segment_deletes_on_recovery_def reclaim_segments_on_recovery_def binary_search_def vec_remove_def index_new_def ix_get_def
  slot_idx_def is_dead_def matching_live_seqs_def tags_push_def tags_drop_def index_tag_def unindex_tag_def drain_front_def mark_deleted_def
  posting_entry_def tags_ok_def slot_ok_def wf_index_def dead_slot_def live_slots_def slot_bytes_def push_back_def pop_back_def
  default_floors_def floors_earliest_seq_def floors_evict_earliest_def reason_for_gap_def admit_def build_tombstone_def floors_le_def
  default_config_def is_queue_def durability_class_def is_durable_def uses_persistent_record_store_def normalize_durability_def
  bt_remove_def bt_range_from_def bt_last_upto_def bt_invar_def u64_max_def i64_max_def i64_min_def sat_add_def sat_mul_def i64_sat_sub_def
  i64_sat_add_def as_i64_def PRIORITY_MIN_def PRIORITY_MAX_def AUTO_FLOOR_MS_def effective_priority_at_def band_of_def less_eq_band_def
  less_band_def ready_empty_def mark_dirty_def mark_dirty_fast_def drain_order_def ready_names_def first_seen_def mark_topics_def bands_def

lemmas demo_eval = engine_eval demo_engine_def demo_topics_def demo_env_def demo_config_def upt_rec projection_new_def

lemma demo_check: "check_write demo_env (demo_request None) 1000 = Inr demo_stored" "check_write demo_env (demo_request (Some ''k'')) 1000 = Inr demo_stored"
  by (simp_all add: check_write_def demo_request_def build_stored_def build_stored_owned_def demo_env_def payload_bytes_def demo_stored_def
    MAX_BATCH_RECORDS_def MAX_RECORD_BYTES_def MAX_TAG_BYTES_def MAX_NODE_BYTES_def MAX_IDEMPOTENCY_KEY_LEN_def or_else_def)

definition demo_answer :: write_response where
  "demo_answer = \<lparr>wp_first_seq = 1, wp_last_seq = 2, wp_seqs = Some [1, 2], wp_head_seq = 2, wp_count = 2, wp_created = False, wp_deduped = False\<rparr>"

definition demo_written :: engine where
  "demo_written = snd (engine_write demo_env ''s'' (demo_request (Some ''k'')) True 1000 demo_engine)"

lemma demo_write: "engine_write demo_env ''s'' (demo_request (Some ''k'')) True 1000 demo_engine = (Inr demo_answer, demo_written)"
proof -
  have "fst (engine_write demo_env ''s'' (demo_request (Some ''k'')) True 1000 demo_engine) = Inr demo_answer"
    by (simp add: demo_eval demo_request_def demo_answer_def)
  then show ?thesis
    by (simp add: demo_written_def prod_eq_iff)
qed

lemma demo_window: "in_window 1000 2000 ''s'' demo_written" "\<exists>ss. check_write demo_env (demo_request (Some ''k'')) 2000 = Inr ss"
  by (simp_all add: in_window_def demo_written_def demo_eval demo_request_def)

lemma demo_full: "fst (engine_write demo_env ''c'' (demo_request None) True 1000 demo_engine) = Inl RecordTooLarge"
  by (simp add: demo_eval demo_request_def)

definition demo_queued :: engine where
  "demo_queued = snd (engine_write demo_env ''q'' (demo_request None) True 1000 demo_engine)"

definition demo_claimer :: claimer where
  "demo_claimer = \<lparr>cl_node = ''w'', cl_max = 1, cl_work_conn = Some 9\<rparr>"

definition demo_claimed :: engine where
  "demo_claimed = snd (run_claim_cohort demo_env ''q'' [demo_claimer, demo_claimer] None 1000 demo_queued)"

definition demo_q :: topic_state where
  "demo_q = (topic_new ''q'' 3 (demo_config Queue) 1 1)\<lparr>t_index := \<lparr>base_seq = 1, records = demo_stored, tag_index = [(''a'', [1])], delete_below = 0\<rparr>,
     t_head_seq := 2, t_live_count := 2, t_last_write_ms := 1000, t_sched_dirty := True\<rparr>"

lemma demo_queued_state: "get_topic ''q'' demo_queued = Some demo_q" "e_wal demo_queued = None" "e_limits demo_queued = e_limits demo_engine"
  by (simp_all add: demo_queued_def demo_eval demo_request_def demo_stored_def demo_q_def)

lemma demo_q_fields: "t_queue demo_q = Some (projection_new 1)" "t_head_seq demo_q = 2" "t_config demo_q = demo_config Queue"
  "t_index demo_q = \<lparr>base_seq = 1, records = demo_stored, tag_index = [(''a'', [1])], delete_below = 0\<rparr>" "t_segwriter demo_q = None"
  by (simp_all add: demo_q_def topic_new_def demo_config_def is_queue_def)

definition demo_job :: "seq \<Rightarrow> leased_job" where
  "demo_job s = fst (job_of (claim_context [demo_claimer, demo_claimer] None 1000 demo_q) s s 1)"

lemma demo_pass: "cs_out (claim_pass [demo_claimer, demo_claimer] None 1000 demo_q (projection_new 1)) = [[demo_job 1], [demo_job 2]]"
  "cs_dead (claim_pass [demo_claimer, demo_claimer] None 1000 demo_q (projection_new 1)) = []"
  "cs_resolve (claim_pass [demo_claimer, demo_claimer] None 1000 demo_q (projection_new 1)) = []"
  by (simp_all add: claim_pass_def claim_loop.simps claim_start_def claim_context_def demo_q_fields demo_claimer_def MAX_CLAIM_def
    sweep_expired_def sweep_delayed.simps projection_new_def find_claimer.simps next_claimable_def claim_one_def lease_to_def over_limit_def
    next_reclaimed.simps next_fresh.simps pop_reclaim_def demo_config_def default_config_def alloc_lease_id_def add_lease_def lease_of_def is_live_def
    ix_get_def slot_idx_def demo_stored_def job_of_def delivered_def demo_job_def Let_def)

lemma demo_q_retain: "enforce_retention_durable demo_env demo_q 1000 demo_queued = (Inr (), demo_q, demo_queued)"
  by (simp add: demo_q_def topic_new_def demo_eval demo_queued_state(3)[unfolded demo_engine_def] demo_stored_def)

lemma demo_claim: "\<exists>ready. fst (run_claim_cohort demo_env ''q'' [demo_claimer, demo_claimer] None 1000 demo_queued) = Inr ([[demo_job 1], [demo_job 2]], ready)"
  by (simp add: run_claim_cohort_def get_queue_def demo_queued_state demo_q_fields demo_q_retain demo_pass[unfolded One_nat_def] Let_def)

lemma demo_queued_ok: "engine_ok demo_queued" "engine_room demo_queued" "queue_ok demo_q" "topic_ok demo_q"
proof -
  obtain res where w: "engine_write demo_env ''q'' (demo_request None) True 1000 demo_engine = (res, demo_queued)"
    by (metis demo_queued_def prod.collapse)
  show ok: "engine_ok demo_queued"
    by (rule engine_write_ok(1)[OF demo_engine_ok(1,2) w])
  show "topic_ok demo_q"
    by (rule engine_ok_topic(1)[OF ok demo_queued_state(1)])
  show "engine_room demo_queued"
    by (simp add: engine_room_def topic_room_def tail_def ROOM_def demo_queued_def demo_eval demo_request_def)
  have "(1::nat) \<le> s" if "(s, r) \<in> set (view demo_q)" for s r
    using that by (auto simp: view_def visible_def is_live_def ix_get_def slot_idx_def demo_q_fields simp del: upt_Suc split: if_splits)
  then show "queue_ok demo_q"
    by (auto simp: tracks_but_def demo_q_fields tracked_new projection_new_def[of 1, THEN arg_cong[of _ _ claim_cursor], simplified])
qed

lemma demo_q_tail: "tail demo_q = 3"
  by (simp add: tail_def demo_q_fields demo_stored_def)

lemma demo_q_view: "view demo_q \<noteq> []"
proof -
  have "visible demo_q 1"
    by (simp add: visible_def earliest_seq_def floors_earliest_seq_def demo_q_fields is_live_def ix_get_def slot_idx_def demo_stored_def sat_add_def
      u64_max_def demo_q_def topic_new_def default_floors_def)
  moreover have "1 \<in> set [0..<Suc (t_head_seq demo_q)]"
    by (simp add: demo_q_fields)
  ultimately have "(1, slot_at demo_q 1) \<in> set (view demo_q)"
    by (auto simp: view_def simp del: upt_Suc)
  then show ?thesis by auto
qed

lemma demo_fits: "claim_fits demo_env ''q'' [demo_claimer, demo_claimer] None 1000 demo_queued"
  by (simp add: claim_fits_def get_queue_def demo_queued_state demo_q_fields demo_q_retain demo_pass[unfolded One_nat_def] Let_def letters_fit_def slot_bytes_def)

lemma log_claims_off: "\<not> leases_durable t \<Longrightarrow> log_claims env t cs dl now evs e = e"
  by (induction evs arbitrary: e) (auto simp: log_lease_event_def)

lemma engine_room_put: "engine_room e \<Longrightarrow> topic_room t \<Longrightarrow> engine_room (put_state t e)"
proof -
  assume e: "engine_room e" and t: "topic_room t"
  have "list_all (\<lambda>(n, t). topic_room t) (AList.update k t m)" if "list_all (\<lambda>(n, t). topic_room t) m" for k and m :: "(string \<times> topic_state) list"
    using that t by (induction m) auto
  then show ?thesis
    using e by (simp add: engine_room_def put_state_def)
qed

lemma demo_claimed_ok: "engine_ok demo_claimed" "engine_room demo_claimed"
  "\<exists>t q. get_topic ''q'' demo_claimed = Some t \<and> t_queue t = Some q \<and> queue_ok t"
proof -
  obtain res where r: "run_claim_cohort demo_env ''q'' [demo_claimer, demo_claimer] None 1000 demo_queued = (res, demo_claimed)"
    by (metis demo_claimed_def prod.collapse)
  note c = run_claim_cohort_ok(1)[OF demo_queued_ok(1,2) demo_queued_state(1) demo_q_fields(1) demo_queued_ok(3) demo_fits r]
  show "engine_ok demo_claimed" "\<exists>t q. get_topic ''q'' demo_claimed = Some t \<and> t_queue t = Some q \<and> queue_ok t"
    using queue_atD(1,5)[OF c] by blast+
  have eq: "demo_claimed = put_state (set_queue (cs_queue (claim_pass [demo_claimer, demo_claimer] None 1000 demo_q (projection_new 1))) demo_q) demo_queued"
    by (simp add: demo_claimed_def run_claim_cohort_def get_queue_def demo_queued_state demo_q_fields demo_q_retain demo_pass[unfolded One_nat_def] Let_def
      log_claims_off leases_durable_def demo_config_def default_config_def claim_context_def)
  have "t_bytes_retained demo_q = 0"
    by (simp add: demo_q_def topic_new_def)
  then show "engine_room demo_claimed"
    unfolding eq by (intro engine_room_put[OF demo_queued_ok(2)]) (simp add: topic_room_def demo_q_tail ROOM_def)
qed

lemma demo_starved: "\<not> list_all2 (\<lambda>c js. length js = demand_of c) [demo_claimer\<lparr>cl_max := 5\<rparr>]
      (cs_out (claim_pass [demo_claimer\<lparr>cl_max := 5\<rparr>] None 1000 demo_q (projection_new 1)))"
  by (simp_all add: demand_of_def claim_pass_def claim_loop.simps claim_start_def claim_context_def demo_q_fields demo_claimer_def MAX_CLAIM_def
    sweep_expired_def sweep_delayed.simps projection_new_def find_claimer.simps next_claimable_def claim_one_def lease_to_def over_limit_def
    next_reclaimed.simps next_fresh.simps pop_reclaim_def demo_config_def default_config_def alloc_lease_id_def add_lease_def lease_of_def is_live_def
    ix_get_def slot_idx_def demo_stored_def job_of_def delivered_def Let_def)

definition demo_s :: topic_state where
  "demo_s = (topic_new ''s'' 1 (demo_config Log) 1 1)\<lparr>t_index := \<lparr>base_seq = 1, records = demo_stored, tag_index = [(''a'', [1])], delete_below = 0\<rparr>,
     t_head_seq := 2, t_live_count := 2, t_last_write_ms := 1000, t_sched_dirty := True,
     t_dedupe := [(''k'', \<lparr>de_seqs = [1, 2], de_head_seq = 2, de_created_ms = 1000\<rparr>)]\<rparr>"

lemma demo_written_state: "get_topic ''s'' demo_written = Some demo_s" "get_topic ''d'' demo_written = Some (topic_new ''d'' 2 (demo_config Log) 1 1)"
  "e_wal demo_written = None" "e_limits demo_written = e_limits demo_engine" "e_routers demo_written = demo_routers"
  by (simp_all add: demo_written_def demo_eval demo_request_def demo_stored_def demo_s_def)

lemma put_state_same: "get_topic (t_name t) e = Some t \<Longrightarrow> put_state t e = e"
  using update_split[of "e_topics e" "t_name t" t t] by (auto simp: get_topic_def put_state_def)

lemma demo_s_retain: "retain_named demo_env ''s'' 1000 demo_written = (Inr (), demo_written)"
proof -
  have "enforce_retention_durable demo_env demo_s 1000 demo_written = (Inr (), demo_s, demo_written)"
    by (simp add: demo_s_def topic_new_def demo_eval demo_written_state(4)[unfolded demo_engine_def] demo_stored_def)
  moreover have "put_state demo_s demo_written = demo_written"
    by (rule put_state_same) (simp add: demo_s_def topic_new_def demo_written_state(1)[unfolded demo_s_def topic_new_def])
  ultimately show ?thesis
    by (simp add: retain_named_def demo_written_state(1))
qed

lemma demo_s_trim: "surface_trim demo_env (demo_router ''s'' ''d'') 0 demo_s demo_written = (0, demo_written)"
  by (simp add: surface_trim_def demo_s_def topic_new_def demo_eval)

lemma demo_written_ok: "engine_ok demo_written" "engine_room demo_written" "routers_ok (e_routers demo_written)"
proof -
  show "engine_ok demo_written"
    by (rule engine_write_ok(1)[OF demo_engine_ok(1,2) demo_write])
  show "engine_room demo_written"
    by (simp add: engine_room_def topic_room_def tail_def ROOM_def demo_written_def demo_eval demo_request_def)
  show "routers_ok (e_routers demo_written)"
    using demo_engine_ok(3) by (simp add: demo_written_state demo_engine_def)
qed

lemma demo_advance: "\<exists>e'. advance_router demo_env ''sd'' 1000 demo_written = (2, e')"
proof -
  let ?r = "demo_router ''s'' ''d''" and ?d = "topic_new ''d'' 2 (demo_config Log) 1 1"
  have c: "router_cursor ''sd'' demo_routers = 0" "map_of (rg_routers demo_routers) ''sd'' = Some ?r"
    by (simp_all add: router_cursor_def get_or_zero_def demo_routers_def graph_new_def)
  have h: "t_head_seq demo_s = 2"
    by (simp add: demo_s_def)
  have d: "cfg_discard (t_config ?d) = Old" "dest_room ?d demo_written"
    by (simp_all add: topic_new_def demo_config_def default_config_def dest_room_def tail_def index_new_def ROUTER_BATCH_def
      MAX_RECORD_BYTES_def u64_max_def demo_written_state demo_engine_def)
  have eq: "advance_router demo_env ''sd'' 1000 demo_written = forward_batch demo_env ?r 0 2 1000 demo_written"
    using demo_s_retain demo_s_trim c h d(1) by (simp add: advance_router_def demo_written_state demo_router_def)
  obtain n e' where f: "forward_batch demo_env ?r 0 2 1000 demo_written = (n, e')" by fastforce
  have "n = min 2 (0 + ROUTER_BATCH) - 0"
    by (rule forward_batch_ok(6)[OF demo_written_ok(1) _ _ _ d(2) f])
      (simp_all add: demo_router_def demo_written_state d(1)[simplified] demo_engine_def)
  then have "n = 2"
    by (simp add: ROUTER_BATCH_def)
  then show ?thesis
    using eq f by simp
qed

text \<open>A log with one shard and a topic of class \<open>fsync\<close>.\<close>

definition demo_handle :: wal_handle where
  "demo_handle = \<lparr>wh_writers = [demo_wal], wh_io = (\<lambda>_. demo_io), wh_reject = (\<lambda>_. None), wh_submits = 0\<rparr>"

definition demo_logged :: engine where
  "demo_logged = demo_engine\<lparr>e_wal := Some demo_handle\<rparr>"

definition demo_fsync :: topic_state where
  "demo_fsync = topic_new ''f'' 9 (default_config\<lparr>cfg_durability := Some Fsync\<rparr>) 1 1"

definition demo_frames :: "wal_record list" where
  "demo_frames = append_frames demo_env 9 [1, 2] demo_stored 1000"

lemma demo_handle_ok: "wal_ok demo_env demo_handle"
  using demo_wal_ok(1) by (simp add: wal_ok_def demo_handle_def demo_env_def crc_u64_def)

lemma demo_frames_ok: "list_all record_ok demo_frames"
  by (simp add: demo_frames_def append_frames_def demo_stored_def as_ts_def record_ok_def u64_ok_def opt_bytes_def short_str_ok_def valid_str_def encode_record_payload_def demo_env_def)

lemma demo_submit: "fst (submit_batch demo_env 9 demo_frames True demo_handle) = Inr CoOk"
proof -
  let ?sub = "\<lparr>sb_records = demo_frames, sb_durable = True, sb_token = 0\<rparr>"
  have len: "length (batch_bytes (\<lambda>_. 0) [?sub]) \<le> 4096"
    by (simp add: batch_bytes_def demo_frames_def append_frames_def demo_stored_def as_ts_def encode_record_payload_def demo_env_def encode_frame_def
      Let_def length_frame_body opt_bytes_def)
  have ne: "demo_frames \<noteq> []"
    by (simp add: demo_frames_def append_frames_def demo_stored_def)
  have "fst (commit_batch (\<lambda>_. 0) demo_io [?sub] True demo_wal) = CoOk"
    by (rule commit_batch_succeeds[where k = 4096])
      (use len ne in \<open>simp_all add: demo_wal_def demo_io_def open_at_with_def open_for_append_def Let_def batch_frames_def\<close>)
  then show ?thesis
    using ne by (simp add: submit_batch_def demo_handle_def shard_for_topic_def demo_env_def Let_def split_beta)
qed

lemma demo_append: "\<exists>t' e'. durable_append demo_env demo_fsync demo_stored 1000 demo_logged = (Inr [1, 2], t', e')"
proof -
  have st: "staged_seqs (snd (stage_append demo_stored demo_fsync)) = [1, 2]" "t_topic_id (fst (stage_append demo_stored demo_fsync)) = 9"
    by (simp_all add: demo_fsync_def demo_stored_def topic_new_def index_new_def staged_seqs_def stage_append_def upt_rec Let_def)
  obtain h where "submit_batch demo_env 9 (append_frames demo_env 9 [1, 2] demo_stored 1000) True demo_handle = (Inr CoOk, h)"
    using demo_submit by (cases "submit_batch demo_env 9 demo_frames True demo_handle") (simp add: demo_frames_def)
  then show ?thesis
    using st by (simp add: durable_append_def demo_logged_def demo_engine_def reserve_incoming_def try_reserve_total_bytes_def demo_fsync_def topic_new_def
      durability_class_def wal_enqueue_batch_def Let_def split_beta demo_stored_def)
qed

end
