(* ===== verification/Engine_Claims.thy ===== *)
theory Engine_Claims
  imports Samples_Engine
begin

text \<open>The properties of the handlers of the engine: writes and deletes, queues and routers. Each is an application of the lemmas of its component.\<close>

section \<open>The handlers of the engine\<close>







text \<open>
  C27. An acknowledged append is in the log: for a topic that is not ephemeral the frames of all its
  records are behind the old frames in the log of the topic's shard, in order, and for a topic of
  class \<open>fsync\<close> also in the part of it that survives a power loss.
\<close>

theorem acked_append_logged:
  assumes "rs \<noteq> []" "slot_bytes rs \<le> u64_max" "e_wal e = Some h" "wal_ok env h" "durability_class (t_config t) \<noteq> Ephemeral"
    "list_all record_ok (append_frames env (t_topic_id t) [tail t..<tail t + length rs] rs now)"
    "durable_append env t rs now e = (Inr seqs, t', e')"
  shows "\<exists>h'. e_wal e' = Some h' \<and> log_grows env (t_topic_id t) h
    (frames_of (durability_class (t_config t) = Fsync) (append_frames env (t_topic_id t) seqs rs now))
    (if durability_class (t_config t) = Fsync then frames_of True (append_frames env (t_topic_id t) seqs rs now) else []) h'"
  using durable_append_logged[OF assms] .

theorem acked_append_logged_witness:
  "\<exists>t' e' h'. durable_append demo_env demo_fsync demo_stored 1000 demo_logged = (Inr [1, 2], t', e') \<and> e_wal e' = Some h' \<and>
     log_grows demo_env 9 demo_handle (frames_of True demo_frames) (frames_of True demo_frames) h'"
proof -
  obtain t' e' where a: "durable_append demo_env demo_fsync demo_stored 1000 demo_logged = (Inr [1, 2], t', e')"
    using demo_append by blast
  have t: "t_topic_id demo_fsync = 9" "tail demo_fsync = 1" "durability_class (t_config demo_fsync) = Fsync"
    by (simp_all add: demo_fsync_def topic_new_fields durability_class_def) (simp add: topic_new_def)
  have s: "demo_stored \<noteq> []" "slot_bytes demo_stored \<le> u64_max" "length demo_stored = 2"
    by (simp_all add: demo_stored_def)
  have w: "e_wal demo_logged = Some demo_handle"
    by (simp add: demo_logged_def)
  have f: "list_all record_ok (append_frames demo_env (t_topic_id demo_fsync) [tail demo_fsync..<tail demo_fsync + length demo_stored] demo_stored 1000)"
    using demo_frames_ok by (simp add: demo_frames_def t s(3) upt_rec numeral_2_eq_2)
  show ?thesis
    using acked_append_logged[OF s(1,2) w demo_handle_ok _ f a] a by (auto simp: t demo_frames_def)
qed

text \<open>
  C28. What a write stores is well formed: a batch that passes the checks is not empty and within
  the batch limit, and each stored record is live, resident, untouched in data, tag and metadata,
  stamped with the time of the write, sized by its encoding, and within the record limit.
\<close>

theorem stored_records_well_typed:
  assumes "check_write env req now = Inr stored"
  shows "stored \<noteq> [] \<and> length stored \<le> MAX_BATCH_RECORDS \<and>
    list_all2 (stored_as env (wq_node req) now) (wq_records req) stored"
  using check_write_ok(1,2)[OF assms] check_write_stored[OF assms] by blast

theorem stored_records_well_typed_witness: "length demo_stored \<le> MAX_BATCH_RECORDS \<and> list_all (\<lambda>s. sr_bytes s \<le> MAX_RECORD_BYTES) demo_stored"
  using stored_records_well_typed[OF demo_check(1)] by (auto simp: list_all2_conv_all_nth list_all_length stored_as_def)



section \<open>Queues\<close>

text \<open>
  C30. A claim hands out each job once: the jobs of all claimers of a pass are distinct, none of
  them is under an unexpired lease, every one gets a lease id that was never used before and no two
  the same, and no claimer gets more than it asked for. Whatever the answer, every readable job of
  the queue is afterwards leased, on the freelist, delayed or still ahead of the claim cursor, also
  when jobs went to the dead-letter topic; topics other than the queue and its dead-letter topic
  are untouched.
\<close>

theorem claim_hands_out_once:
  assumes "engine_ok e" "engine_room e" "get_topic n e = Some t" "t_queue t = Some q" "queue_ok t"
    "claim_fits env n claimers lease_ms now e" "run_claim_cohort env n claimers lease_ms now e = (res, e')"
  shows "(case res of Inr (out, _) \<Rightarrow> handed_out q now claimers out | Inl _ \<Rightarrow> True) \<and>
    (\<exists>t'. get_topic n e' = Some t' \<and> t_queue t' \<noteq> None \<and> queue_ok t') \<and> engine_ok e' \<and>
    (\<forall>m. m \<noteq> n \<longrightarrow> cfg_dead_letter (t_config t) \<noteq> Some m \<longrightarrow> get_topic m e' = get_topic m e)"
  using run_claim_cohort_ok[OF assms] queue_atD(1,5)[OF run_claim_cohort_ok(1)[OF assms]] by (auto split: sum.split)

theorem claim_hands_out_once_witness:
  "handed_out (projection_new 1) 1000 [demo_claimer, demo_claimer] [[demo_job 1], [demo_job 2]]"
proof -
  obtain ready e' where r: "run_claim_cohort demo_env ''q'' [demo_claimer, demo_claimer] None 1000 demo_queued = (Inr ([[demo_job 1], [demo_job 2]], ready), e')"
    using demo_claim by (metis prod.collapse)
  show ?thesis
    using claim_hands_out_once[OF demo_queued_ok(1,2) demo_queued_state(1) demo_q_fields(1) demo_queued_ok(3) demo_fits r] by simp
qed

text \<open>
  C31. A claim pass wastes no work: it stops only when every claimer has got its demand or when
  every readable job up to the head is leased, delayed or diverted to the dead letters.
\<close>

theorem claim_pass_exhausts_work:
  assumes "topic_ok t" "queue_ok t" "t_queue t = Some q"
  shows "list_all2 (\<lambda>c js. length js = demand_of c) claimers (cs_out (claim_pass claimers lease_ms now t q)) \<or>
    list_all (\<lambda>(s, r). lease_of (cs_queue (claim_pass claimers lease_ms now t q)) s \<noteq> None \<or>
        s \<in> snd ` set (delayed (cs_queue (claim_pass claimers lease_ms now t q))) \<or>
        s \<in> set (cs_dead (claim_pass claimers lease_ms now t q))) (view t)"
  by (rule claim_pass_work[OF assms])

theorem claim_pass_exhausts_work_witness:
  "list_all (\<lambda>(s, r). lease_of (cs_queue (claim_pass [demo_claimer\<lparr>cl_max := 5\<rparr>] None 1000 demo_q (projection_new 1))) s \<noteq> None \<or>
      s \<in> snd ` set (delayed (cs_queue (claim_pass [demo_claimer\<lparr>cl_max := 5\<rparr>] None 1000 demo_q (projection_new 1)))) \<or>
      s \<in> set (cs_dead (claim_pass [demo_claimer\<lparr>cl_max := 5\<rparr>] None 1000 demo_q (projection_new 1)))) (view demo_q)"
proof -
  have "\<not> list_all2 (\<lambda>c js. length js = demand_of c) [demo_claimer\<lparr>cl_max := 5\<rparr>]
      (cs_out (claim_pass [demo_claimer\<lparr>cl_max := 5\<rparr>] None 1000 demo_q (projection_new 1)))"
    by (rule demo_starved)
  then show ?thesis
    using claim_pass_exhausts_work[OF demo_queued_ok(4,3) demo_q_fields(1), of "[demo_claimer\<lparr>cl_max := 5\<rparr>]" None 1000] by blast
qed







section \<open>Routers\<close>





text \<open>
  C37. The key of a forwarded record survives in its metadata and determines its origin: reading the
  key back from the stamped metadata gives it, whatever the metadata was, and two records with the
  same key come from the same router, the same topic, the same epoch and the same sequence.
\<close>

theorem router_key_identifies_record:
  "router_meta_idempotency_key (with_router_idempotency_meta meta key r source s) = Some key \<and>
   (router_idempotency_key r source s = router_idempotency_key r' source' s' \<longleftrightarrow>
      r_name r = r_name r' \<and> t_topic_id source = t_topic_id source' \<and> t_epoch source = t_epoch source' \<and> s = s')"
proof (intro conjI iffI)
  show "router_meta_idempotency_key (with_router_idempotency_meta meta key r source s) = Some key"
    by (rule key_round_trip)
  show "router_idempotency_key r source s = router_idempotency_key r' source' s'"
    if "r_name r = r_name r' \<and> t_topic_id source = t_topic_id source' \<and> t_epoch source = t_epoch source' \<and> s = s'"
    using that by (simp add: router_idempotency_key_def)
qed (erule router_key_inj)+

text \<open>
  C38. A trim of the source hides the whole destination: the hole that stands for lost source records
  raises a floor that applies to every earlier record, so after it the destination has no readable
  record left, also not those that were forwarded before and are not lost.
\<close>

theorem source_trim_hides_destination:
  assumes "topic_ok t" "tail t < u64_max"
  shows "view (note_source_trim env t) = [] \<and> t_head_seq (note_source_trim env t) = tail t"
  using note_source_trim_hides[OF assms] note_source_trim_ok(5)[OF assms(1)] by simp

theorem source_trim_hides_destination_witness: "view demo_q \<noteq> [] \<and> view (note_source_trim demo_env demo_q) = []"
  using source_trim_hides_destination[OF demo_queued_ok(4), of demo_env] demo_q_view by (simp add: demo_q_tail u64_max_def)

end
