(* ===== verification/Snapshot.thy ===== *)
theory Snapshot
  imports Router_Forward Diff
begin

text \<open>
  Snapshots: the captured form of the engine (\<open>storage/snapshot.rs\<close>) with its file framing, the
  choice of the newest valid file, and capture and restore (\<open>engine/snapshot.rs\<close>).

  The binary encoding of the body (the \<open>postcard\<close> crate) is a parameter of the functions that use
  it, and so is the list of the positions of the log groups left on disk by an earlier layout. Files
  are their contents; the atomic replacement of the file is the operating system's.
\<close>

section \<open>The captured form\<close>

record snapshot_record =
  sn_seq :: seq
  sn_ts :: i64
  sn_node :: "string option"
  sn_tag :: "string option"
  sn_data_json :: "u8 list"
  sn_meta_json :: "u8 list option"
  sn_bytes :: u64

record snapshot_topic =
  st_name :: string
  st_topic_id :: u64
  st_epoch :: u64
  st_config_json :: "u8 list"
  st_base_seq :: seq
  st_head_seq :: seq
  st_evict_floor :: seq
  st_expiry_floor :: seq
  st_delete_floor :: seq
  st_delete_below :: seq
  st_bytes_retained :: u64
  st_live_count :: u64
  st_records :: "snapshot_record list"
  st_source_trim_floor :: seq

record snapshot_router =
  so_name :: string
  so_source :: string
  so_dest :: string
  so_preserve_node :: bool
  so_preserve_tag :: bool
  so_create_dest :: bool
  so_allow_cycle :: bool
  so_exactly_once :: bool
  so_filter :: "(u8 \<times> string) option"
  so_forward_cursor :: seq
  so_forwarded_total :: nat
  so_dest_base :: seq

type_synonym wal_position = "nat \<times> nat"

record checkpoint =
  cp_wal_idx :: nat
  cp_wal_offset :: nat
  cp_last_checkpoint_seq :: seq
  cp_shards :: "wal_position list"
  cp_shard_keys :: "string list"

record snapshot =
  sp_id :: nat
  sp_ts :: u64
  sp_next_topic_id :: u64
  sp_checkpoint :: checkpoint
  sp_topics :: "snapshot_topic list"
  sp_routers :: "snapshot_router list"

section \<open>Positions by physical group\<close>

definition is_digit :: "char \<Rightarrow> bool" where
  "is_digit c \<longleftrightarrow> CHR ''0'' \<le> c \<and> c \<le> CHR ''9''"

definition digits_value :: "string \<Rightarrow> nat" where
  "digits_value s = fold (\<lambda>c n. 10 * n + (of_char c - 48)) s 0"

text \<open>\<open>str::parse\<close> of an unsigned integer.\<close>

definition parse_usize :: "string \<Rightarrow> nat option" where
  "parse_usize s =
     (let s = (case s of c # cs \<Rightarrow> if c = CHR ''+'' then cs else s | [] \<Rightarrow> s)
      in if s = [] \<or> \<not> list_all is_digit s \<or> digits_value s > u64_max then None else Some (digits_value s))"

definition strip_prefix :: "string \<Rightarrow> string \<Rightarrow> string option" where
  "strip_prefix p s = (if prefix p s then Some (drop (length p) s) else None)"

definition parse_shard_dir :: "string \<Rightarrow> nat option" where
  "parse_shard_dir name = Option.bind (strip_prefix ''shard-'' name) parse_usize"

definition shard_subdir :: "nat \<Rightarrow> string" where
  "shard_subdir s = ''shard-'' @ (if s < 10 then ''0'' else []) @ decimal s"

definition shard_group_key :: "nat \<Rightarrow> nat \<Rightarrow> string" where
  "shard_group_key s n = (if n \<le> 1 then [] else shard_subdir s)"

definition nth_opt :: "'a list \<Rightarrow> nat \<Rightarrow> 'a option" where
  "nth_opt xs i = (if i < length xs then Some (xs ! i) else None)"

definition shard_positions :: "checkpoint \<Rightarrow> wal_position list" where
  "shard_positions c = (if cp_shards c = [] then [(cp_wal_idx c, cp_wal_offset c)] else cp_shards c)"

fun find_index :: "('a \<Rightarrow> bool) \<Rightarrow> 'a list \<Rightarrow> nat option" where
  "find_index P [] = None"
| "find_index P (x # xs) = (if P x then Some 0 else map_option Suc (find_index P xs))"

definition position_for_key :: "checkpoint \<Rightarrow> string \<Rightarrow> wal_position option" where
  "position_for_key c key =
     (if cp_shard_keys c \<noteq> [] then
        Option.bind (find_index (\<lambda>k. k = key) (cp_shard_keys c)) (nth_opt (cp_shards c))
      else if key = [] then
        (if length (cp_shards c) \<le> 1 then Some (cp_wal_idx c, cp_wal_offset c) else None)
      else Option.bind (parse_shard_dir key) (nth_opt (cp_shards c)))"

section \<open>The file\<close>

definition SNAPSHOT_MAGIC :: "u8 list" where
  "SNAPSHOT_MAGIC = [83, 78, 80, 49]"

definition SNAPSHOT_VERSION :: nat where
  "SNAPSHOT_VERSION = 3"

definition SNAPSHOT_HEADER_LEN :: nat where
  "SNAPSHOT_HEADER_LEN = 20"

datatype snapshot_error = SnapEncode | SnapDecode | SnapFraming

definition frame_snapshot :: "(u8 list \<Rightarrow> nat) \<Rightarrow> u8 list \<Rightarrow> u8 list" where
  "frame_snapshot crc body =
     SNAPSHOT_MAGIC @ le_bytes 4 SNAPSHOT_VERSION @ le_bytes 4 (length body) @ le_bytes 8 (crc body) @ body"

definition read_snapshot_file ::
  "(u8 list \<Rightarrow> nat) \<Rightarrow> (u8 list \<Rightarrow> snapshot option) \<Rightarrow> u8 list \<Rightarrow> snapshot_error + snapshot" where
  "read_snapshot_file crc decode_body buf =
     (if length buf < SNAPSHOT_HEADER_LEN then Inl SnapFraming
      else if sub_slice 0 4 buf \<noteq> SNAPSHOT_MAGIC then Inl SnapFraming
      else if of_le (sub_slice 4 8 buf) \<noteq> SNAPSHOT_VERSION then Inl SnapFraming
      else
        let body_len = of_le (sub_slice 8 12 buf);
            stored_crc = of_le (sub_slice 12 20 buf);
            body_end = SNAPSHOT_HEADER_LEN + body_len
        in if length buf < body_end then Inl SnapFraming
           else let body = sub_slice SNAPSHOT_HEADER_LEN body_end buf in
             if crc body \<noteq> stored_crc then Inl SnapFraming
             else case decode_body body of Some s \<Rightarrow> Inr s | None \<Rightarrow> Inl SnapDecode)"

text \<open>The files of the directory by id, ascending.\<close>

type_synonym snapshot_dir = "(nat \<times> u8 list) list"

definition write_snapshot ::
  "(u8 list \<Rightarrow> nat) \<Rightarrow> (snapshot \<Rightarrow> u8 list option) \<Rightarrow> snapshot \<Rightarrow> snapshot_dir \<Rightarrow> snapshot_error option \<times> snapshot_dir" where
  "write_snapshot crc encode_body s dir =
     (case encode_body s of
        None \<Rightarrow> (Some SnapEncode, dir)
      | Some body \<Rightarrow>
          (None, filter (\<lambda>(i, _). \<not> i < sp_id s) (bt_insert (sp_id s) (frame_snapshot crc body) dir)))"

definition next_snapshot_id :: "snapshot_dir \<Rightarrow> nat" where
  "next_snapshot_id dir = (if dir = [] then 1 else fst (last dir) + 1)"

fun first_valid :: "(u8 list \<Rightarrow> nat) \<Rightarrow> (u8 list \<Rightarrow> snapshot option) \<Rightarrow> snapshot_dir \<Rightarrow> snapshot option" where
  "first_valid crc decode_body [] = None"
| "first_valid crc decode_body ((_, buf) # fs) =
     (case read_snapshot_file crc decode_body buf of
        Inr s \<Rightarrow> Some s
      | Inl _ \<Rightarrow> first_valid crc decode_body fs)"

definition load_latest :: "(u8 list \<Rightarrow> nat) \<Rightarrow> (u8 list \<Rightarrow> snapshot option) \<Rightarrow> snapshot_dir \<Rightarrow> snapshot option" where
  "load_latest crc decode_body dir = first_valid crc decode_body (rev dir)"

section \<open>Capture\<close>

fun barrier_loop :: "env \<Rightarrow> u64 \<Rightarrow> nat list \<Rightarrow> wal_handle \<Rightarrow> bool \<times> wal_handle" where
  "barrier_loop env now [] h = (True, h)"
| "barrier_loop env now (s # ss) h =
     (case wh_reject h (wh_submits h) of
        Some err \<Rightarrow> (False, h\<lparr>wh_submits := wh_submits h + 1\<rparr>)
      | None \<Rightarrow>
          let sub = \<lparr>sb_records = [CheckpointMark 0 now], sb_durable = True, sb_token = wh_submits h\<rparr>;
              (out, w) = commit_batch (env_crc env) (wh_io h s) [sub] True (wh_writers h ! s);
              (rest_ok, h) = barrier_loop env now ss
                (h\<lparr>wh_writers := (wh_writers h)[s := w], wh_submits := wh_submits h + 1\<rparr>)
          in (out = CoOk \<and> rest_ok, h))"

definition checkpoint_barrier_all :: "env \<Rightarrow> u64 \<Rightarrow> wal_handle \<Rightarrow> bool \<times> wal_handle" where
  "checkpoint_barrier_all env now h = barrier_loop env now [0..<length (wh_writers h)] h"

definition wal_position_of :: "writer_task \<Rightarrow> wal_position" where
  "wal_position_of w = (wm_active_idx (wt_metrics w), wm_active_len (wt_metrics w))"

definition keyed_positions :: "wal_handle \<Rightarrow> (string \<times> wal_position) list" where
  "keyed_positions h =
     (let n = length (wh_writers h) in
      map (\<lambda>(s, w). (shard_group_key s n, wal_position_of w)) (zip [0..<n] (wh_writers h)))"

text \<open>A payload that was freed after sealing is read back from its segment.\<close>

fun capture_slots :: "env \<Rightarrow> (seq \<times> stored_record) list \<Rightarrow> topic_state \<Rightarrow> topic_state \<times> snapshot_record list" where
  "capture_slots env [] t = (t, [])"
| "capture_slots env ((s, r) # slots) t =
     (let (t, p) = (if sr_payload_resident r then (t, \<lparr>rp_data = sr_data r, rp_meta = sr_meta r\<rparr>)
                    else let (t, p, _) = resolve_sealed_off_lock env s 0 t in (t, p));
          (t, recs) = capture_slots env slots t
      in (t, \<lparr>sn_seq = s, sn_ts = sr_ts r, sn_node = sr_node r, sn_tag = sr_tag r,
              sn_data_json = env_to_vec env (rp_data p), sn_meta_json = map_option (env_to_vec env) (rp_meta p),
              sn_bytes = sr_bytes r\<rparr> # recs))"

definition cap_slots :: "topic_state \<Rightarrow> (seq \<times> stored_record) list" where
  "cap_slots t =
     (let ix = t_index t in
      takeWhile (\<lambda>(s, _). s \<le> t_head_seq t)
        (filter (\<lambda>(_, r). \<not> sr_deleted r) (zip [base_seq ix..<base_seq ix + length (records ix)] (records ix))))"

definition capture_topic :: "env \<Rightarrow> (topic_config \<Rightarrow> u8 list) \<Rightarrow> topic_state \<Rightarrow> topic_state \<times> snapshot_topic" where
  "capture_topic env to_vec t =
     (let sb = \<lparr>st_name = t_name t, st_topic_id = t_topic_id t, st_epoch = t_epoch t, st_config_json = to_vec (t_config t),
                st_base_seq = sat_add (t_head_seq t) 1, st_head_seq = t_head_seq t, st_evict_floor = 0, st_expiry_floor = 0,
                st_delete_floor = 0, st_delete_below = 0, st_bytes_retained = 0, st_live_count = 0, st_records = [],
                st_source_trim_floor = 0\<rparr>
      in if \<not> uses_persistent_record_store (t_config t) then (t, sb)
         else
           let fl = t_floors t;
               (t', recs) = capture_slots env (cap_slots t) t
           in (t', sb\<lparr>st_base_seq := base_seq (t_index t), st_evict_floor := evict_floor fl, st_expiry_floor := expiry_floor fl,
                      st_delete_floor := delete_floor fl, st_delete_below := delete_below (t_index t),
                      st_bytes_retained := t_bytes_retained t, st_live_count := t_live_count t, st_records := recs,
                      st_source_trim_floor := source_trim_floor fl\<rparr>))"

definition router_to_snapshot :: "router \<times> seq \<times> nat \<times> seq \<Rightarrow> snapshot_router" where
  "router_to_snapshot x =
     (case x of (r, cursor, tot, base) \<Rightarrow>
        \<lparr>so_name = r_name r, so_source = r_source r, so_dest = r_dest r, so_preserve_node = r_preserve_node r,
         so_preserve_tag = r_preserve_tag r, so_create_dest = r_create_dest r, so_allow_cycle = r_allow_cycle r,
         so_exactly_once = (r_guarantee r = ExactlyOnce),
         so_filter = map_option (\<lambda>f. (case flt_op f of Eq \<Rightarrow> 0 | Glob \<Rightarrow> 1, flt_value f)) (r_filter r),
         so_forward_cursor = cursor, so_forwarded_total = tot, so_dest_base = base\<rparr>)"

text \<open>The topics of the registry one after the other; \<open>None\<close> when a floor could not be hardened.\<close>

fun capture_topics :: "env \<Rightarrow> string list \<Rightarrow> i64 \<Rightarrow> engine \<Rightarrow> snapshot_topic list option \<times> engine" where
  "capture_topics env [] now e = (Some [], e)"
| "capture_topics env (n # ns) now e =
     (case get_topic n e of
        None \<Rightarrow> capture_topics env ns now e
      | Some t \<Rightarrow>
          (case enforce_retention_durable env t now e of
             (Inl _, t, e) \<Rightarrow> (None, put_state t e)
           | (Inr _, t, e) \<Rightarrow>
               let (t, sb) = capture_topic env (e_config_to_vec e) t;
                   (rest, e) = capture_topics env ns now (put_state t e)
               in (map_option (Cons sb) rest, e)))"

definition capture ::
  "env \<Rightarrow> (string \<times> wal_position) list \<Rightarrow> nat \<Rightarrow> i64 \<Rightarrow> engine \<Rightarrow> snapshot option \<times> engine" where
  "capture env group_tails snap_id now e =
     (case e_wal e of
        None \<Rightarrow> (None, e)
      | Some h \<Rightarrow>
          let (ok, h) = checkpoint_barrier_all env (as_ts now) h;
              e = e\<lparr>e_wal := Some h\<rparr>
          in if \<not> ok then (None, e)
             else
               let own = keyed_positions h;
                   keyed = own @ filter (\<lambda>(k, _). k \<notin> set (map fst own)) group_tails;
                   pos = map snd keyed;
                   (wal_idx, wal_offset) = (case pos of p # _ \<Rightarrow> p | [] \<Rightarrow> (0, 0));
                   (topics, e) = capture_topics env (map fst (e_topics e)) now e
               in case topics of
                    None \<Rightarrow> (None, e)
                  | Some ts \<Rightarrow>
                      (Some \<lparr>sp_id = snap_id, sp_ts = as_ts now, sp_next_topic_id = e_next_topic_id e,
                         sp_checkpoint = \<lparr>cp_wal_idx = wal_idx, cp_wal_offset = wal_offset,
                           cp_last_checkpoint_seq = fold (\<lambda>sb m. max m (st_head_seq sb)) ts 0,
                           cp_shards = pos, cp_shard_keys = map fst keyed\<rparr>,
                         sp_topics = ts, sp_routers = map router_to_snapshot (snapshot_all (e_routers e))\<rparr>, e))"

section \<open>Restore\<close>

fun restore_records :: "env \<Rightarrow> seq \<Rightarrow> snapshot_record list \<Rightarrow> topic_index \<Rightarrow> topic_index" where
  "restore_records env nxt [] ix = ix"
| "restore_records env nxt (r # rs) ix =
     (let ix = ix\<lparr>records := records ix @ replicate (sn_seq r - nxt) deleted_hole\<rparr>;
          ix = (case sn_tag r of Some tag \<Rightarrow> index_tag (sn_seq r) tag ix | None \<Rightarrow> ix);
          data = (case env_from_slice env (sn_data_json r) of Some d \<Rightarrow> d | None \<Rightarrow> JNull);
          meta = Option.bind (sn_meta_json r) (env_from_slice env)
      in restore_records env (sn_seq r + 1) rs
           (ix\<lparr>records := records ix @ [\<lparr>sr_ts = sn_ts r, sr_node = sn_node r, sr_tag = sn_tag r, sr_data = data,
              sr_meta = meta, sr_bytes = sn_bytes r, sr_deleted = False, sr_payload_resident = True, sr_hops = 0\<rparr>]\<rparr>))"

definition restore_topic :: "env \<Rightarrow> snapshot_topic \<Rightarrow> topic_config \<Rightarrow> topic_state" where
  "restore_topic env sb cfg =
     (let t = topic_new (st_name sb) (st_topic_id sb) cfg SEQ_BASE (st_epoch sb);
          ix = restore_records env (st_base_seq sb) (st_records sb)
                 ((t_index t)\<lparr>base_seq := st_base_seq sb, delete_below := st_delete_below sb\<rparr>);
          t = t\<lparr>t_index := ix,
                t_floors := (t_floors t)\<lparr>evict_floor := st_evict_floor sb, expiry_floor := st_expiry_floor sb,
                  delete_floor := st_delete_floor sb, source_trim_floor := st_source_trim_floor sb\<rparr>,
                t_head_seq := st_head_seq sb\<rparr>
      in (set_reserved_head (st_head_seq sb) t)\<lparr>t_bytes_retained := st_bytes_retained sb, t_live_count := st_live_count sb\<rparr>)"

definition restored :: "env \<Rightarrow> engine \<Rightarrow> snapshot_topic \<Rightarrow> topic_state" where
  "restored env e sb =
     (let cfg = (case e_config_from_slice e (st_config_json sb) of Some c \<Rightarrow> c | None \<Rightarrow> default_config);
          t = restore_topic env sb cfg
      in if uses_persistent_record_store cfg
         then (case e_open_writer e (st_topic_id sb) of Some w \<Rightarrow> attach_segwriter env w t | None \<Rightarrow> t)
         else t)"

definition restore_one :: "env \<Rightarrow> snapshot_topic \<Rightarrow> engine \<Rightarrow> engine" where
  "restore_one env sb e =
     (let t = restored env e sb;
          n = (if get_topic (t_name t) e = None then e_topic_count e + 1 else e_topic_count e)
      in put_state t (e\<lparr>e_topic_count := n, e_total_bytes_live := e_total_bytes_live e + t_bytes_retained t\<rparr>))"

definition router_from_snapshot :: "snapshot_router \<Rightarrow> router \<times> seq \<times> nat \<times> seq" where
  "router_from_snapshot s =
     (\<lparr>r_name = so_name s, r_source = so_source s, r_dest = so_dest s, r_preserve_node = so_preserve_node s,
       r_preserve_tag = so_preserve_tag s, r_create_dest = so_create_dest s,
       r_filter = map_option (\<lambda>(op, v). \<lparr>flt_op = (if op = 0 then Eq else Glob), flt_value = v\<rparr>) (so_filter s),
       r_allow_cycle = so_allow_cycle s, r_guarantee = (if so_exactly_once s then ExactlyOnce else AtLeastOnce)\<rparr>,
      so_forward_cursor s, so_forwarded_total s, so_dest_base s)"

definition restore :: "env \<Rightarrow> snapshot \<Rightarrow> engine \<Rightarrow> checkpoint \<times> engine" where
  "restore env snap e =
     (let e = fold (restore_one env) (sp_topics snap) (e\<lparr>e_next_topic_id := sp_next_topic_id snap\<rparr>);
          g = fold graph_restore (map router_from_snapshot (sp_routers snap)) (e_routers e)
      in (sp_checkpoint snap, e\<lparr>e_routers := g\<rparr>))"

section \<open>A topic through a snapshot\<close>

text \<open>The slots up to the last live one.\<close>

fun strip_dead :: "stored_record list \<Rightarrow> stored_record list" where
  "strip_dead [] = []"
| "strip_dead (r # rs) = (if list_all sr_deleted (r # rs) then [] else r # strip_dead rs)"

definition live_zip :: "seq \<Rightarrow> stored_record list \<Rightarrow> (seq \<times> stored_record) list" where
  "live_zip b rs = filter (\<lambda>(_, r). \<not> sr_deleted r) (zip [b..<b + length rs] rs)"

definition captured_as :: "env \<Rightarrow> seq \<times> stored_record \<Rightarrow> snapshot_record \<Rightarrow> bool" where
  "captured_as env x q \<longleftrightarrow> (case x of (s, r) \<Rightarrow> sn_seq q = s \<and> sn_ts q = sr_ts r \<and> sn_node q = sr_node r \<and> sn_tag q = sr_tag r \<and>
     sn_bytes q = sr_bytes r \<and> (sr_payload_resident r \<longrightarrow>
       sn_data_json q = env_to_vec env (sr_data r) \<and> sn_meta_json q = map_option (env_to_vec env) (sr_meta r)))"

text \<open>The JSON codec gives a value, the payload of a record, the configuration of a topic back.\<close>

definition json_codes :: "env \<Rightarrow> json \<Rightarrow> bool" where
  "json_codes env v \<longleftrightarrow> env_from_slice env (env_to_vec env v) = Some v"

definition record_codes :: "env \<Rightarrow> stored_record \<Rightarrow> bool" where
  "record_codes env r \<longleftrightarrow> json_codes env (sr_data r) \<and> (case sr_meta r of Some m \<Rightarrow> json_codes env m | None \<Rightarrow> True)"

definition topic_codes :: "env \<Rightarrow> engine \<Rightarrow> engine \<Rightarrow> topic_state \<Rightarrow> bool" where
  "topic_codes env e r t \<longleftrightarrow> list_all (record_codes env) (records (t_index t)) \<and>
     e_config_from_slice r (e_config_to_vec e (t_config t)) = Some (t_config t)"

definition revive :: "env \<Rightarrow> snapshot_record \<Rightarrow> stored_record" where
  "revive env q = \<lparr>sr_ts = sn_ts q, sr_node = sn_node q, sr_tag = sn_tag q,
     sr_data = (case env_from_slice env (sn_data_json q) of Some d \<Rightarrow> d | None \<Rightarrow> JNull),
     sr_meta = Option.bind (sn_meta_json q) (env_from_slice env), sr_bytes = sn_bytes q, sr_deleted = False,
     sr_payload_resident = True, sr_hops = 0\<rparr>"

fun expand :: "env \<Rightarrow> seq \<Rightarrow> snapshot_record list \<Rightarrow> stored_record list" where
  "expand env n [] = []"
| "expand env n (q # qs) = replicate (sn_seq q - n) deleted_hole @ revive env q # expand env (sn_seq q + 1) qs"

fun ascending_from :: "seq \<Rightarrow> snapshot_record list \<Rightarrow> bool" where
  "ascending_from n [] = True"
| "ascending_from n (q # qs) = (n \<le> sn_seq q \<and> ascending_from (sn_seq q + 1) qs)"

definition slot_restored :: "stored_record \<Rightarrow> stored_record \<Rightarrow> bool" where
  "slot_restored r y \<longleftrightarrow> sr_deleted y = sr_deleted r \<and> (\<not> sr_deleted r \<longrightarrow> erase y = (erase r)\<lparr>sr_hops := 0\<rparr> \<and>
     (sr_payload_resident r \<longrightarrow> y = r\<lparr>sr_hops := 0\<rparr>))"

lemma live_zip_Cons: "live_zip b (r # rs) = (if sr_deleted r then live_zip (Suc b) rs else (b, r) # live_zip (Suc b) rs)"
  by (simp add: live_zip_def upt_conv_Cons del: upt_Suc)

lemma live_zip_dead: "list_all sr_deleted rs \<longleftrightarrow> live_zip b rs = []"
proof (induction rs arbitrary: b)
  case Nil
  show ?case by (simp add: live_zip_def)
qed (simp add: live_zip_Cons)

lemma capture_slots_as: "list_all2 (captured_as env) slots (snd (capture_slots env slots t))"
proof (induction slots arbitrary: t)
  case (Cons x slots)
  obtain s r where x: "x = (s, r)" by fastforce
  show ?case
    using Cons by (auto simp: x captured_as_def Let_def split_beta)
qed simp

lemma capture_slots_sims: "topic_sim t (fst (capture_slots env slots t)) \<and> t_index (fst (capture_slots env slots t)) = t_index t"
proof (induction slots arbitrary: t)
  case (Cons x slots)
  obtain s r where x: "x = (s, r)" by fastforce
  let ?t = "if sr_payload_resident r then t else fst (resolve_sealed_off_lock env s 0 t)"
  have t: "fst (capture_slots env (x # slots) t) = fst (capture_slots env slots ?t)"
    by (simp add: x Let_def split_beta)
  have r: "topic_sim t ?t" "t_index ?t = t_index t"
    using resolve_sealed_sim by simp_all
  show ?case
    unfolding t using topic_sim_trans[OF r(1) conjunct1[OF Cons]] conjunct2[OF Cons, of ?t] r(2) by simp
qed simp

lemmas capture_slots_sim = capture_slots_sims[THEN conjunct1] capture_slots_sims[THEN conjunct2]

lemma captured_ascending: "list_all2 (captured_as env) (live_zip b rs) qs \<Longrightarrow> n \<le> b \<Longrightarrow> ascending_from n qs"
proof (induction rs arbitrary: b n qs)
  case Nil
  then show ?case by (simp add: live_zip_def)
next
  case (Cons r rs)
  show ?case
  proof (cases "sr_deleted r")
    case True
    then show ?thesis
      using Cons.IH[of "Suc b" qs n] Cons.prems by (simp add: live_zip_Cons)
  next
    case False
    then obtain q qs' where q: "qs = q # qs'" "captured_as env (b, r) q" "list_all2 (captured_as env) (live_zip (Suc b) rs) qs'"
      using Cons.prems(1) by (auto simp: live_zip_Cons list_all2_Cons1)
    moreover have "sn_seq q = b"
      using q(2) by (simp add: captured_as_def)
    ultimately show ?thesis
      using Cons.IH[of "Suc b" qs' "Suc b"] Cons.prems(2) by simp
  qed
qed

lemma push_holes: "(push_back deleted_hole ^^ k) ix = ix\<lparr>records := records ix @ replicate k deleted_hole\<rparr>"
  by (induction k) (simp_all add: push_back_def deleted_hole_def replicate_append_same)

lemma restore_records_push:
  "ascending_from n qs \<Longrightarrow> n = base_seq ix + length (records ix) \<Longrightarrow> restore_records env n qs ix = fold push_back (expand env n qs) ix"
proof (induction env n qs ix rule: restore_records.induct)
  case (2 env n q qs ix)
  define h where "h = ix\<lparr>records := records ix @ replicate (sn_seq q - n) deleted_hole\<rparr>"
  have len: "base_seq h + length (records h) = sn_seq q"
    using 2(2,3) by (simp add: h_def)
  define p where "p = push_back (revive env q) h"
  have p: "p = (case sn_tag q of Some tag \<Rightarrow> index_tag (sn_seq q) tag h | None \<Rightarrow> h)
      \<lparr>records := records (case sn_tag q of Some tag \<Rightarrow> index_tag (sn_seq q) tag h | None \<Rightarrow> h) @ [revive env q]\<rparr>"
    unfolding p_def push_back_def Let_def len by (simp add: revive_def)
  have step: "restore_records env n (q # qs) ix = restore_records env (sn_seq q + 1) qs p"
    unfolding p h_def by (simp add: Let_def revive_def)
  have "base_seq p = base_seq h" "records p = records h @ [revive env q]"
    using fold_push_back_fields(1,2)[of "[revive env q]" h] by (simp_all add: p_def)
  then have "sn_seq q + 1 = base_seq p + length (records p)"
    using len by simp
  then have "restore_records env (sn_seq q + 1) qs p = fold push_back (expand env (sn_seq q + 1) qs) p"
    using 2(1)[OF h_def refl refl refl, folded revive_def, folded p] 2(2) by simp
  then show ?case
    unfolding step by (simp add: push_holes h_def p_def)
qed simp

lemma revive_captured:
  assumes "record_codes env r" "captured_as env (s, r) q" "\<not> sr_deleted r"
  shows "slot_restored r (revive env q)"
proof -
  have "Option.bind (map_option (env_to_vec env) (sr_meta r)) (env_from_slice env) = sr_meta r"
    using assms(1) by (cases "sr_meta r") (simp_all add: record_codes_def json_codes_def)
  then show ?thesis
    using assms by (auto simp: slot_restored_def revive_def captured_as_def erase_def record_codes_def json_codes_def)
qed

lemma slot_restored_hole: "sr_deleted r \<Longrightarrow> slot_restored r deleted_hole"
  by (simp add: slot_restored_def deleted_hole_def)

lemma expand_captured:
  "list_all (record_codes env) rs \<Longrightarrow> list_all2 (captured_as env) (live_zip b rs) qs \<Longrightarrow> n \<le> b \<Longrightarrow>
     \<exists>ys. expand env n qs = (if list_all sr_deleted rs then [] else replicate (b - n) deleted_hole @ ys) \<and>
       list_all2 slot_restored (strip_dead rs) (if list_all sr_deleted rs then [] else ys)"
proof (induction rs arbitrary: b n qs)
  case Nil
  then show ?case by (simp add: live_zip_def)
next
  case (Cons r rs)
  show ?case
  proof (cases "sr_deleted r")
    case True
    then obtain ys where ys: "expand env n qs = (if list_all sr_deleted rs then [] else replicate (Suc b - n) deleted_hole @ ys)"
        "list_all2 slot_restored (strip_dead rs) (if list_all sr_deleted rs then [] else ys)"
      using Cons.IH[of "Suc b" qs n] Cons.prems by (auto simp: live_zip_Cons)
    have "replicate (Suc b - n) deleted_hole @ ys = replicate (b - n) deleted_hole @ deleted_hole # ys"
      using Cons.prems(3) by (simp add: Suc_diff_le replicate_append_same)
    then show ?thesis
      using ys True slot_restored_hole[OF True] by (intro exI[of _ "deleted_hole # ys"]) auto
  next
    case False
    then obtain q qs' where q: "qs = q # qs'" "captured_as env (b, r) q" "list_all2 (captured_as env) (live_zip (Suc b) rs) qs'"
      using Cons.prems(2) by (auto simp: live_zip_Cons list_all2_Cons1)
    then have seq: "sn_seq q = b" by (simp add: captured_as_def)
    obtain ys where ys: "expand env (Suc b) qs' = (if list_all sr_deleted rs then [] else replicate (Suc b - Suc b) deleted_hole @ ys)"
        "list_all2 slot_restored (strip_dead rs) (if list_all sr_deleted rs then [] else ys)"
      using Cons.IH[OF _ q(3), of "Suc b"] Cons.prems(1) by auto
    show ?thesis
      using ys False revive_captured[OF _ q(2) False] Cons.prems(1)
      by (intro exI[of _ "revive env q # expand env (Suc b) qs'"]) (auto simp: q(1) seq)
  qed
qed

lemma strip_dead_nil: "strip_dead rs = [] \<longleftrightarrow> list_all sr_deleted rs"
  by (cases rs) auto

lemma strip_dead_length: "length (strip_dead rs) \<le> length rs"
  by (induction rs) auto

lemma strip_dead_nth: "i < length (strip_dead rs) \<Longrightarrow> strip_dead rs ! i = rs ! i"
proof (induction rs arbitrary: i)
  case (Cons r rs)
  then show ?case by (cases i) (auto split: if_splits)
qed simp

lemma strip_dead_live: "i < length rs \<Longrightarrow> \<not> sr_deleted (rs ! i) \<Longrightarrow> i < length (strip_dead rs)"
proof (induction rs arbitrary: i)
  case (Cons r rs)
  then have "\<not> list_all sr_deleted (r # rs)"
    by (metis list_all_length)
  then show ?case
    using Cons by (cases i) auto
qed simp

lemma strip_dead_full: "rs \<noteq> [] \<Longrightarrow> length (strip_dead rs) = length rs \<longleftrightarrow> \<not> sr_deleted (last rs)"
proof (induction rs)
  case (Cons r rs)
  show ?case
  proof (cases "rs = []")
    case False
    have "length (strip_dead (r # rs)) = length (r # rs) \<longleftrightarrow> \<not> list_all sr_deleted (r # rs) \<and> length (strip_dead rs) = length rs"
      by simp
    moreover have "\<not> sr_deleted (last rs) \<Longrightarrow> \<not> list_all sr_deleted (r # rs)"
      using False by (auto simp: list_all_iff)
    ultimately show ?thesis
      using False Cons.IH by auto
  qed simp
qed simp

lemma cap_slots_published: "cap_slots t = live_zip (base_seq (t_index t)) (published (t_head_seq t) (t_index t))"
proof -
  let ?h = "t_head_seq t"
  have "takeWhile (\<lambda>(s, _). s \<le> ?h) (live_zip b rs) = live_zip b (take (Suc ?h - b) rs)" for b rs
  proof (induction rs arbitrary: b)
    case Nil
    show ?case by (simp add: live_zip_def)
  next
    case (Cons r rs)
    show ?case
    proof (cases "b \<le> ?h")
      case True
      then have "take (Suc ?h - b) (r # rs) = r # take (Suc ?h - Suc b) rs"
        by (simp add: Suc_diff_le)
      then show ?thesis
        using True Cons.IH[of "Suc b"] by (simp add: live_zip_Cons)
    next
      case False
      have "takeWhile (\<lambda>(s, _). s \<le> ?h) (live_zip b (r # rs)) = []"
      proof (cases "live_zip b (r # rs)")
        case (Cons x xs)
        then have "x \<in> set (zip [b..<b + length (r # rs)] (r # rs))"
          by (metis (no_types, lifting) filter_is_subset list.set_intros(1) live_zip_def subsetD)
        then have "fst x \<in> set [b..<b + length (r # rs)]"
          by (metis prod.collapse set_zip_leftD)
        then have "b \<le> fst x" by auto
        then show ?thesis
          using False Cons by (auto simp: split_beta)
      qed simp
      then show ?thesis
        using False by (simp add: live_zip_def)
    qed
  qed
  then show ?thesis
    by (simp add: cap_slots_def Let_def live_zip_def published_def)
qed

text \<open>
  What a restored topic shares with the captured one: identity, head, floors and counters; the
  readable log up to the hop counts; the payloads that were resident. Its window reaches the head
  exactly when the record at the head is live or the window starts behind the head.
\<close>

definition payloads_kept :: "topic_state \<Rightarrow> topic_state \<Rightarrow> bool" where
  "payloads_kept t t' \<longleftrightarrow> (\<forall>s r. ix_get (t_index t) s = Some r \<and> \<not> sr_deleted r \<and> sr_payload_resident r \<and> s \<le> t_head_seq t \<longrightarrow>
     ix_get (t_index t') s = Some (r\<lparr>sr_hops := 0\<rparr>))"

definition restored_as :: "topic_state \<Rightarrow> topic_state \<Rightarrow> bool" where
  "restored_as t t' \<longleftrightarrow> t_name t' = t_name t \<and> t_topic_id t' = t_topic_id t \<and> t_epoch t' = t_epoch t \<and> t_config t' = t_config t \<and>
     t_head_seq t' = t_head_seq t \<and>
     (uses_persistent_record_store (t_config t) \<longrightarrow>
        t_floors t' = t_floors t \<and> t_bytes_retained t' = t_bytes_retained t \<and> t_live_count t' = t_live_count t \<and>
        view t' = map (\<lambda>(s, r). (s, r\<lparr>sr_hops := 0\<rparr>)) (view t) \<and> payloads_kept t t' \<and>
        (Suc (t_head_seq t) \<le> tail t' \<longleftrightarrow> is_live (t_index t) (t_head_seq t) \<or> Suc (t_head_seq t) \<le> base_seq (t_index t)))"

lemma restore_topic_fields [simp]:
  "t_name (restore_topic env sb cfg) = st_name sb" "t_topic_id (restore_topic env sb cfg) = st_topic_id sb"
  "t_epoch (restore_topic env sb cfg) = st_epoch sb" "t_config (restore_topic env sb cfg) = cfg"
  "t_head_seq (restore_topic env sb cfg) = st_head_seq sb" "t_seq_base (restore_topic env sb cfg) = SEQ_BASE"
  "t_bytes_retained (restore_topic env sb cfg) = st_bytes_retained sb" "t_live_count (restore_topic env sb cfg) = st_live_count sb"
  "t_floors (restore_topic env sb cfg) = \<lparr>evict_floor = st_evict_floor sb, expiry_floor = st_expiry_floor sb,
     delete_floor = st_delete_floor sb, source_trim_floor = st_source_trim_floor sb\<rparr>"
  by (simp_all add: restore_topic_def Let_def set_reserved_head_def topic_new_def default_floors_def)

lemma capture_topic_fields:
  assumes "uses_persistent_record_store (t_config t)" "sb = snd (capture_topic env tv t)"
  shows "st_name sb = t_name t" "st_topic_id sb = t_topic_id t" "st_epoch sb = t_epoch t" "st_config_json sb = tv (t_config t)"
    "st_head_seq sb = t_head_seq t" "st_base_seq sb = base_seq (t_index t)" "st_bytes_retained sb = t_bytes_retained t"
    "st_live_count sb = t_live_count t" "st_delete_below sb = delete_below (t_index t)"
    "st_records sb = snd (capture_slots env (cap_slots t) t)"
    "\<lparr>evict_floor = st_evict_floor sb, expiry_floor = st_expiry_floor sb, delete_floor = st_delete_floor sb,
       source_trim_floor = st_source_trim_floor sb\<rparr> = t_floors t"
  using assms(1) by (simp_all add: assms(2) capture_topic_def Let_def split_beta)

text \<open>The window of the restored topic.\<close>

lemma restored_window:
  assumes codec: "list_all (record_codes env) (records (t_index t))" and p: "uses_persistent_record_store (t_config t)" and sb: "sb = snd (capture_topic env tv t)"
  defines "rs \<equiv> published (t_head_seq t) (t_index t)"
  shows "base_seq (t_index (restore_topic env sb cfg)) = base_seq (t_index t)"
    "list_all2 slot_restored (strip_dead rs) (records (t_index (restore_topic env sb cfg)))"
proof -
  let ?b = "base_seq (t_index t)" and ?qs = "snd (capture_slots env (cap_slots t) t)"
  let ?ix = "(index_new SEQ_BASE)\<lparr>base_seq := ?b, delete_below := delete_below (t_index t)\<rparr>"
  note f = capture_topic_fields[OF p sb]
  have cap: "list_all2 (captured_as env) (live_zip ?b rs) ?qs"
    using capture_slots_as[of env "cap_slots t" t] by (simp add: cap_slots_published rs_def)
  have "t_index (restore_topic env sb cfg) = restore_records env ?b ?qs ?ix"
    by (simp add: restore_topic_def Let_def set_reserved_head_def topic_new_def f)
  also have "\<dots> = fold push_back (expand env ?b ?qs) ?ix"
    by (rule restore_records_push[OF captured_ascending[OF cap order.refl]]) (simp add: index_new_def)
  finally have ix: "t_index (restore_topic env sb cfg) = fold push_back (expand env ?b ?qs) ?ix" .
  show "base_seq (t_index (restore_topic env sb cfg)) = ?b"
    by (simp add: ix)
  have codec: "list_all (record_codes env) rs"
    using codec by (auto simp: rs_def published_def list_all_iff dest: in_set_takeD)
  obtain ys where ys: "expand env ?b ?qs = (if list_all sr_deleted rs then [] else ys)"
      "list_all2 slot_restored (strip_dead rs) (if list_all sr_deleted rs then [] else ys)"
    using expand_captured[OF codec cap order.refl] unfolding diff_self_eq_0 replicate_0 append_Nil by blast
  have "records (t_index (restore_topic env sb cfg)) = expand env ?b ?qs"
    by (simp add: ix index_new_def)
  then show "list_all2 slot_restored (strip_dead rs) (records (t_index (restore_topic env sb cfg)))"
    using ys by simp
qed

lemma restore_topic_as:
  assumes codec: "list_all (record_codes env) (records (t_index t))" and p: "uses_persistent_record_store (t_config t)" and sb: "sb = snd (capture_topic env tv t)"
    and wf: "wf_topic t" and base: "t_seq_base t = SEQ_BASE"
  shows "restored_as t (restore_topic env sb (t_config t))"
proof -
  let ?t = "restore_topic env sb (t_config t)" and ?ix = "t_index t" and ?h = "t_head_seq t" and ?b = "base_seq (t_index t)"
  define rs where "rs = published ?h ?ix"
  note f = capture_topic_fields[OF p sb]
  note w = restored_window[OF codec p sb, of "t_config t", folded rs_def]
  have len: "length (records (t_index ?t)) = length (strip_dead rs)"
    using w(2) by (simp add: list_all2_lengthD)
  have nth: "slot_restored (rs ! i) (records (t_index ?t) ! i)" if "i < length (strip_dead rs)" for i
    using w(2) that strip_dead_nth[OF that] by (metis list_all2_nthD)
  have rs: "length rs = Suc ?h - ?b" "i < length rs \<Longrightarrow> rs ! i = records ?ix ! i" for i
    using wf_topicD(2)[OF wf] by (auto simp: rs_def published_def)
  have pos: "s - ?b < length rs" if "?b \<le> s" "s \<le> ?h" for s
    using that rs(1) by simp
  have live: "is_live (t_index ?t) s \<longleftrightarrow> is_live ?ix s" if "s \<le> ?h" for s
  proof (cases "?b \<le> s")
    case True
    let ?i = "s - ?b"
    have "?i < length (records ?ix)" "rs ! ?i = records ?ix ! ?i"
      using pos[OF True that] rs(2) by (auto simp: rs_def published_def)
    then have "is_live ?ix s \<longleftrightarrow> \<not> sr_deleted (rs ! ?i)"
      using True by (simp add: is_live_iff)
    moreover have "is_live (t_index ?t) s \<longleftrightarrow> ?i < length (strip_dead rs) \<and> \<not> sr_deleted (rs ! ?i)"
      using True nth by (auto simp: is_live_iff w(1) len slot_restored_def)
    ultimately show ?thesis
      using strip_dead_live[OF pos[OF True that]] by blast
  qed (simp add: is_live_iff w(1))
  have slot: "slot_restored (records ?ix ! (s - ?b)) (records (t_index ?t) ! (s - ?b))" if "s \<le> ?h" "is_live ?ix s" for s
    using nth[of "s - ?b"] live[OF that(1)] that rs(2)[of "s - ?b"] pos by (auto simp: is_live_iff w(1) len)
  have early: "earliest_seq ?t = earliest_seq t"
    by (simp add: earliest_seq_def w(1) f base)
  have head: "t_head_seq ?t = ?h" by (simp add: f)
  have vis: "visible ?t s \<longleftrightarrow> visible t s" for s
    using live[of s] by (auto simp: visible_def early f(5))
  have "slot_at ?t s = (slot_at t s)\<lparr>sr_hops := 0\<rparr>" if "visible t s" for s
    using slot[of s] that by (auto simp: visible_def slot_at_def slot_restored_def is_live_iff w(1))
  then have view: "view ?t = map (\<lambda>(s, r). (s, r\<lparr>sr_hops := 0\<rparr>)) (view t)"
    unfolding view_def head ext[of "visible ?t", OF vis] map_map by (intro map_cong) (auto simp del: upt_Suc)
  have kept: "payloads_kept t ?t"
    unfolding payloads_kept_def
  proof (intro allI impI)
    fix s r assume r: "ix_get ?ix s = Some r \<and> \<not> sr_deleted r \<and> sr_payload_resident r \<and> s \<le> ?h"
    then have "is_live ?ix s" "r = records ?ix ! (s - ?b)"
      by (auto simp: is_live_iff ix_get_def Let_def split: if_splits)
    then show "ix_get (t_index ?t) s = Some (r\<lparr>sr_hops := 0\<rparr>)"
      using slot[of s] live[of s] r by (auto simp: slot_restored_def is_live_iff ix_get_def w(1))
  qed
  have reach: "Suc ?h \<le> tail ?t \<longleftrightarrow> length rs \<le> length (strip_dead rs) \<or> Suc ?h \<le> ?b"
    using rs(1) by (auto simp: tail_def w(1) len)
  have full: "length rs \<le> length (strip_dead rs) \<longleftrightarrow> rs = [] \<or> \<not> sr_deleted (last rs)"
    using strip_dead_full[of rs] strip_dead_length[of rs] by (cases "rs = []") auto
  have nil: "rs = [] \<longleftrightarrow> Suc ?h \<le> ?b"
    using rs(1) by auto
  have last: "\<not> sr_deleted (last rs) \<longleftrightarrow> is_live ?ix ?h" if "\<not> Suc ?h \<le> ?b"
  proof -
    have ne: "rs \<noteq> []" and i: "length rs - 1 = ?h - ?b" "length rs - 1 < length rs"
      using rs(1) that by auto
    have "last rs = records ?ix ! (?h - ?b)"
      using last_conv_nth[OF ne] rs(2)[OF i(2)] i(1) by simp
    moreover have "?h - ?b < length (records ?ix)"
      using i by (auto simp: rs_def published_def)
    ultimately show ?thesis
      using that by (simp add: is_live_iff)
  qed
  have "Suc ?h \<le> tail ?t \<longleftrightarrow> is_live ?ix ?h \<or> Suc ?h \<le> ?b"
    using reach full nil last by (cases "Suc ?h \<le> ?b") simp_all
  then show ?thesis
    using view kept by (simp add: restored_as_def f)
qed

lemma restored_as_sim:
  assumes "restored_as t t'" "topic_sim t' t2" "t_index t2 = t_index t'" "t_epoch t2 = t_epoch t'"
  shows "restored_as t t2"
  using assms view_sim[OF assms(2)] tail_sim[OF assms(2)] by (simp add: restored_as_def topic_sim_def payloads_kept_def)

lemma restored_topic_as:
  assumes codec: "topic_codes env e r t" and sb: "sb = snd (capture_topic env (e_config_to_vec e) t)"
    and wf: "wf_topic t" and base: "t_seq_base t = SEQ_BASE"
  shows "restored_as t (restored env r sb)"
proof -
  have "st_config_json sb = e_config_to_vec e (t_config t)"
    by (simp add: sb capture_topic_def Let_def split_beta)
  moreover have c: "e_config_from_slice r (e_config_to_vec e (t_config t)) = Some (t_config t)"
    using codec by (simp add: topic_codes_def)
  ultimately have cfg: "e_config_from_slice r (st_config_json sb) = Some (t_config t)" by simp
  show ?thesis
  proof (cases "uses_persistent_record_store (t_config t)")
    case True
    have sim: "topic_sim t0 (attach_segwriter env w t0)" "t_index (attach_segwriter env w t0) = t_index t0"
        "t_epoch (attach_segwriter env w t0) = t_epoch t0" for t0 w
      by (simp_all add: attach_segwriter_def Let_def topic_sim_def)
    note a = restore_topic_as[OF _ True sb wf base]
    show ?thesis
      using a restored_as_sim[OF a sim] True codec by (auto simp: restored_def cfg Let_def topic_codes_def split: option.split)
  next
    case False
    then show ?thesis
      by (simp add: restored_def c restored_as_def sb capture_topic_def Let_def)
  qed
qed

section \<open>The engine through a snapshot\<close>

text \<open>How a captured entry relates to the topic the engine is left with.\<close>

definition entry_of :: "env \<Rightarrow> engine \<Rightarrow> string \<Rightarrow> snapshot_topic \<Rightarrow> bool" where
  "entry_of env e n sb \<longleftrightarrow> (\<exists>t t0. get_topic n e = Some t \<and> sb = snd (capture_topic env (e_config_to_vec e) t0) \<and> wf_topic t0 \<and>
     t_seq_base t0 = SEQ_BASE \<and> t = fst (capture_topic env (e_config_to_vec e) t0) \<and> t_name t0 = n)"

lemma capture_topic_sim:
  "topic_sim t (fst (capture_topic env tv t))" "t_index (fst (capture_topic env tv t)) = t_index t" "t_epoch (fst (capture_topic env tv t)) = t_epoch t"
proof -
  have "t_epoch (fst (capture_slots env slots t)) = t_epoch t" for slots
  proof (induction slots arbitrary: t)
    case (Cons x slots)
    obtain s r where x: "x = (s, r)" by fastforce
    have "t_epoch (fst (resolve_sealed_off_lock env s 0 t)) = t_epoch t"
      by (auto simp: resolve_sealed_off_lock_def Let_def split: option.splits sealed_resolve.splits)
    then show ?case
      using Cons by (simp add: x Let_def split_beta)
  qed simp
  then show "topic_sim t (fst (capture_topic env tv t))" "t_index (fst (capture_topic env tv t)) = t_index t"
    "t_epoch (fst (capture_topic env tv t)) = t_epoch t"
    using capture_slots_sim[where t=t and env=env and slots="cap_slots t"] by (simp_all add: capture_topic_def Let_def split_beta)
qed

lemma restored_as_left:
  assumes "restored_as t t'" "topic_sim t t2" "t_index t2 = t_index t" "t_epoch t2 = t_epoch t"
  shows "restored_as t2 t'"
  using assms view_sim[OF assms(2)] by (simp add: restored_as_def topic_sim_def payloads_kept_def)

lemma entry_restored:
  assumes "entry_of env e n sb" "\<And>t. get_topic n e = Some t \<Longrightarrow> topic_codes env e r t"
  shows "\<exists>t. get_topic n e = Some t \<and> restored_as t (restored env r sb)" "st_name sb = n"
proof -
  obtain t t0 where t: "get_topic n e = Some t" "sb = snd (capture_topic env (e_config_to_vec e) t0)" "wf_topic t0"
     "t_seq_base t0 = SEQ_BASE" "t = fst (capture_topic env (e_config_to_vec e) t0)" "t_name t0 = n"
    using assms(1) unfolding entry_of_def by blast
  have "topic_codes env e r t0"
    using assms(2)[OF t(1)] capture_topic_sim[where t=t0] unfolding t(5) by (simp add: topic_codes_def topic_sim_def)
  then have "restored_as t0 (restored env r sb)"
    by (rule restored_topic_as[OF _ t(2,3,4)])
  then show "\<exists>t. get_topic n e = Some t \<and> restored_as t (restored env r sb)"
    using restored_as_left[OF _ capture_topic_sim] t(1,5) by blast
  show "st_name sb = n"
    using t(2,6) by (simp add: capture_topic_def Let_def split_beta)
qed

lemma entry_of_same: "get_topic n e' = get_topic n e \<Longrightarrow> e_config_to_vec e' = e_config_to_vec e \<Longrightarrow> entry_of env e n sb \<Longrightarrow> entry_of env e' n sb"
  by (simp add: entry_of_def)

lemma capture_topics_ok:
  assumes "engine_ok e" "distinct ns" "\<And>n. n \<in> set ns \<Longrightarrow> \<exists>t. get_topic n e = Some t \<and> t_seq_base t = SEQ_BASE"
    "capture_topics env ns now e = (Some ts, e')"
  shows "list_all2 (entry_of env e') ns ts \<and> e_routers e' = e_routers e \<and> e_next_topic_id e' = e_next_topic_id e \<and>
    e_config_to_vec e' = e_config_to_vec e \<and> (\<forall>m. m \<notin> set ns \<longrightarrow> get_topic m e' = get_topic m e) \<and> engine_ok e'"
  using assms
proof (induction ns arbitrary: e ts)
  case (Cons n ns)
  obtain t where t: "get_topic n e = Some t" "t_seq_base t = SEQ_BASE"
    using Cons.prems(3)[of n] by auto
  note tk = engine_ok_topic[OF Cons.prems(1) t(1)]
  obtain res t1 e1 where ret: "enforce_retention_durable env t now e = (res, t1, e1)" by (metis prod_cases3)
  note f = enforce_retention_durable_ok(1-6)[OF tk(1,4) ret]
  let ?t2 = "fst (capture_topic env (e_config_to_vec e1) t1)" and ?sb = "snd (capture_topic env (e_config_to_vec e1) t1)"
  note sim = capture_topic_sim[where t=t1 and env=env and tv="e_config_to_vec e1"]
  have ok2: "topic_ok ?t2" "t_name ?t2 = t_name t" "t_topic_id ?t2 = t_topic_id t" "quota_step t e ?t2 e1"
    using topic_ok_sim[OF sim(1)] sim(1) f(1,2,6) by (simp_all add: topic_sim_def same_id_def quota_step_def)
  note p = put_state_ok[OF Cons.prems(1) t(1) ok2(1,2,3) f(5) ok2(4)]
  obtain rest where c: "capture_topics env ns now (put_state ?t2 e1) = (Some rest, e')" "ts = ?sb # rest"
    using Cons.prems(4) t(1) ret by (cases res) (auto simp: Let_def split_beta prod_eq_iff)
  have d: "n \<notin> set ns" "distinct ns"
    using Cons.prems(2) by auto
  have "\<exists>t. get_topic m (put_state ?t2 e1) = Some t \<and> t_seq_base t = SEQ_BASE" if "m \<in> set ns" for m
  proof -
    have "m \<noteq> n" using d(1) that by blast
    then show ?thesis
      using p(3)[of m] that Cons.prems(3)[of m] by simp
  qed
  note IH = Cons.IH[OF p(1) d(2) this c(1)]
  have tv: "e_config_to_vec e1 = e_config_to_vec e" "e_routers e1 = e_routers e" "e_next_topic_id e1 = e_next_topic_id e"
    using f(5) by (simp_all add: engine_frame_def)
  have same: "e_config_to_vec e' = e_config_to_vec e" "e_routers e' = e_routers e" "e_next_topic_id e' = e_next_topic_id e"
    using IH tv by (simp_all add: put_state_def)
  have "wf_topic t1" "t_seq_base t1 = SEQ_BASE" "t_name t1 = n"
    using f(1,2) t(2) tk(2) topic_okD(1) by (auto simp: same_id_def)
  then have "entry_of env e' n ?sb"
    unfolding entry_of_def using IH d(1) p(2) by (intro exI[of _ ?t2] exI[of _ t1]) (simp add: same tv)
  moreover have "get_topic m e' = get_topic m e" if "m \<notin> set (n # ns)" for m
    using IH p(3)[of m] that by simp
  ultimately show ?case
    using IH same c(2) by simp
qed simp

text \<open>Restoring the entries one after the other.\<close>

lemma restore_one_frame:
  "e_config_from_slice (restore_one env sb r) = e_config_from_slice r" "e_open_writer (restore_one env sb r) = e_open_writer r"
  "e_routers (restore_one env sb r) = e_routers r" "e_next_topic_id (restore_one env sb r) = e_next_topic_id r"
  "get_topic m (restore_one env sb r) = (if m = t_name (restored env r sb) then Some (restored env r sb) else get_topic m r)"
  by (simp_all add: restore_one_def Let_def put_state_def get_topic_def update_conv')

lemma restored_name: "t_name (restored env r sb) = st_name sb"
  by (simp add: restored_def Let_def attach_segwriter_def split: option.split)

lemma restored_frame: "e_config_from_slice r' = e_config_from_slice r \<Longrightarrow> e_open_writer r' = e_open_writer r \<Longrightarrow> restored env r' sb = restored env r sb"
  by (simp add: restored_def Let_def)

lemma restore_fold_topics:
  assumes "distinct (map st_name ts)"
  shows "get_topic m (fold (restore_one env) ts r) =
    (case find (\<lambda>sb. st_name sb = m) ts of Some sb \<Rightarrow> Some (restored env r sb) | None \<Rightarrow> get_topic m r) \<and>
    e_routers (fold (restore_one env) ts r) = e_routers r \<and> e_next_topic_id (fold (restore_one env) ts r) = e_next_topic_id r"
  using assms
proof (induction ts arbitrary: r)
  case (Cons sb ts)
  let ?r = "restore_one env sb r"
  have "find (\<lambda>x. st_name x = st_name sb) ts = None"
    using Cons.prems unfolding find_None_iff by (metis distinct.simps(2) image_eqI list.set_map list.simps(9))
  then show ?case
    using Cons.IH[of ?r] Cons.prems restored_frame[where r'="?r" and r=r and env=env, OF restore_one_frame(1,2)]
    by (auto simp: restore_one_frame restored_name split: option.splits)
qed simp

lemma router_snapshot_inverse: "router_from_snapshot (router_to_snapshot x) = x"
proof -
  obtain r c n b where x: "x = (r, c, n, b)" by (metis prod_cases4)
  have flt: "map_option (\<lambda>(op, v). \<lparr>flt_op = (if op = 0 then Eq else Glob), flt_value = v\<rparr>)
      (map_option (\<lambda>f. (case flt_op f of Eq \<Rightarrow> 0 :: u8 | Glob \<Rightarrow> 1, flt_value f)) m) = m" for m
    by (cases m) (auto split: filter_op.split)
  have "(if r_guarantee r = ExactlyOnce then ExactlyOnce else AtLeastOnce) = r_guarantee r"
    by (cases "r_guarantee r") simp_all
  then show ?thesis
    unfolding x router_to_snapshot_def router_from_snapshot_def by (simp add: flt)
qed

section \<open>The file through a write and a load\<close>

lemma read_framed:
  assumes "crc_u64 crc" "length body < 256 ^ 4"
  shows "read_snapshot_file crc dec (frame_snapshot crc body) = (case dec body of Some s \<Rightarrow> Inr s | None \<Rightarrow> Inl SnapDecode)"
proof -
  let ?m = SNAPSHOT_MAGIC and ?v = "le_bytes 4 SNAPSHOT_VERSION" and ?l = "le_bytes 4 (length body)" and ?c = "le_bytes 8 (crc body)"
  have len: "length ?m = 4" by (simp add: SNAPSHOT_MAGIC_def)
  have slices: "sub_slice 0 4 (frame_snapshot crc body) = ?m" "sub_slice 4 8 (frame_snapshot crc body) = ?v"
      "sub_slice 8 12 (frame_snapshot crc body) = ?l" "sub_slice 12 20 (frame_snapshot crc body) = ?c"
      "sub_slice 20 (20 + length body) (frame_snapshot crc body) = body"
    using sub_slice_mid[of "[]" ?m] sub_slice_mid[of ?m ?v] sub_slice_mid[of "?m @ ?v" ?l] sub_slice_mid[of "?m @ ?v @ ?l" ?c]
      sub_slice_mid[of "?m @ ?v @ ?l @ ?c" body "[]"]
    by (simp_all add: frame_snapshot_def len)
  have flen: "length (frame_snapshot crc body) = 20 + length body"
    by (simp add: frame_snapshot_def len)
  have "crc body < 256 ^ 8"
    using assms(1) by (simp add: crc_u64_def)
  then show ?thesis
    using assms(2) unfolding read_snapshot_file_def SNAPSHOT_HEADER_LEN_def slices
    by (simp add: Let_def slices SNAPSHOT_VERSION_def flen split: option.split)
qed

lemma load_written:
  assumes crc: "crc_u64 crc" and enc: "encode_body s = Some body" "length body < 256 ^ 4" "decode_body body = Some s"
    and newest: "\<forall>i\<in>fst ` set dir. i < sp_id s" and out: "write_snapshot crc encode_body s dir = (res, dir')"
  shows "res = None" "load_latest crc decode_body dir' = Some s" "dir' = [(sp_id s, frame_snapshot crc body)]"
proof -
  have "filter (\<lambda>(i, _). \<not> i < k) (bt_insert k v d) = [(k, v)]" if "\<forall>i\<in>fst ` set d. i < k" for k :: nat and v :: "u8 list" and d
    using that by (induction d) auto
  then show d: "res = None" "dir' = [(sp_id s, frame_snapshot crc body)]"
    using out enc(1) newest by (auto simp: write_snapshot_def)
  show "load_latest crc decode_body dir' = Some s"
    using read_framed[OF crc enc(2), of decode_body] enc(3) by (simp add: d load_latest_def)
qed

lemma capture_ok:
  assumes ok: "engine_ok e" "list_all (\<lambda>(_, t). t_seq_base t = SEQ_BASE) (e_topics e)"
    and out: "capture env tails i now e = (Some snap, e')"
  shows "list_all2 (entry_of env e') (map fst (e_topics e)) (sp_topics snap)" "sp_id snap = i"
    "sp_next_topic_id snap = e_next_topic_id e'" "sp_routers snap = map router_to_snapshot (snapshot_all (e_routers e'))"
    "e_routers e' = e_routers e" "m \<notin> fst ` set (e_topics e) \<Longrightarrow> get_topic m e' = None"
proof -
  obtain h b h1 where h: "e_wal e = Some h" "checkpoint_barrier_all env (as_ts now) h = (b, h1)"
    using out by (cases "e_wal e") (auto simp: capture_def split: prod.splits)
  let ?e = "e\<lparr>e_wal := Some h1\<rparr>"
  obtain ts e2 where c: "capture_topics env (map fst (e_topics e)) now ?e = (ts, e2)" by fastforce
  have b: "b"
    using out h by (cases b) (simp_all add: capture_def)
  obtain ts' where ts: "ts = Some ts'" "e' = e2" "sp_topics snap = ts'" "sp_id snap = i" "sp_next_topic_id snap = e_next_topic_id e2"
      "sp_routers snap = map router_to_snapshot (snapshot_all (e_routers e2))"
    using out h b c by (cases ts) (auto simp: capture_def Let_def split: prod.splits list.splits)
  have ok': "engine_ok ?e"
    using ok(1) by (auto simp: engine_ok_def)
  have d: "distinct (map fst (e_topics e))"
    using ok(1) by (simp add: engine_ok_def)
  have base: "\<exists>t. get_topic n ?e = Some t \<and> t_seq_base t = SEQ_BASE" if n: "n \<in> set (map fst (e_topics e))" for n
  proof -
    obtain t where "map_of (e_topics e) n = Some t"
      using n by (cases "map_of (e_topics e) n") (auto simp: map_of_eq_None_iff)
    then show ?thesis
      using ok(2) by (auto simp: get_topic_def list_all_iff dest: map_of_SomeD)
  qed
  note r = capture_topics_ok[OF ok' d base c[unfolded ts(1)]]
  show "list_all2 (entry_of env e') (map fst (e_topics e)) (sp_topics snap)" "sp_id snap = i"
    "sp_next_topic_id snap = e_next_topic_id e'" "sp_routers snap = map router_to_snapshot (snapshot_all (e_routers e'))"
    "e_routers e' = e_routers e"
    using r ts by simp_all
  show "m \<notin> fst ` set (e_topics e) \<Longrightarrow> get_topic m e' = None"
    using r ts(2) by (simp add: get_topic_def map_of_eq_None_iff)
qed

lemma restore_captured:
  assumes entries: "list_all2 (entry_of env e) ns (sp_topics snap)" "distinct ns" "\<And>m. m \<notin> set ns \<Longrightarrow> get_topic m e = None"
    and codes: "\<And>n t. get_topic n e = Some t \<Longrightarrow> topic_codes env e r t" and empty: "e_topics r = []"
  shows "rel_option restored_as (get_topic n e) (get_topic n (snd (restore env snap r)))"
proof -
  let ?r = "r\<lparr>e_next_topic_id := sp_next_topic_id snap\<rparr>"
  have "list_all2 (\<lambda>n sb. st_name sb = n) ns (sp_topics snap)"
    using entries(1) entry_restored(2)[OF _ codes] by (rule list_all2_mono) blast
  then have names: "map st_name (sp_topics snap) = ns"
    by (induction rule: list_all2_induct) simp_all
  have sub: "restored env ?r sb = restored env r sb" for sb
    by (rule restored_frame) simp_all
  have look: "get_topic n (snd (restore env snap r)) =
      (case find (\<lambda>sb. st_name sb = n) (sp_topics snap) of Some sb \<Rightarrow> Some (restored env r sb) | None \<Rightarrow> None)"
    using restore_fold_topics[of "sp_topics snap" n env ?r] entries(2) names empty
    by (simp add: restore_def Let_def get_topic_def sub split: option.split)
  show ?thesis
  proof (cases "find (\<lambda>sb. st_name sb = n) (sp_topics snap)")
    case None
    then have "n \<notin> set ns"
      unfolding find_None_iff names[symmetric] by auto
    then show ?thesis
      using None entries(3) look by simp
  next
    case (Some sb)
    then obtain i where i: "i < length (sp_topics snap)" "sp_topics snap ! i = sb" "st_name sb = n"
      by (auto simp: find_Some_iff)
    have "entry_of env e n sb"
      using entries(1) i names by (auto simp: list_all2_conv_all_nth)
    then obtain t where "get_topic n e = Some t" "restored_as t (restored env r sb)"
      using entry_restored(1)[of env e n sb r] codes by blast
    then show ?thesis
      using look Some by simp
  qed
qed

lemma restore_captured_routers:
  assumes "wf_graph g" "sp_routers snap = map router_to_snapshot (snapshot_all g)" "e_routers r = graph_new"
    "distinct (map st_name (sp_topics snap))"
  shows "e_routers (snd (restore env snap r)) = fold graph_restore (snapshot_all g) graph_new"
    "e_next_topic_id (snd (restore env snap r)) = sp_next_topic_id snap" "fst (restore env snap r) = sp_checkpoint snap"
  using assms(2,3) restore_fold_topics[OF assms(4), of _ env "r\<lparr>e_next_topic_id := sp_next_topic_id snap\<rparr>"]
  by (simp_all add: restore_def Let_def comp_def router_snapshot_inverse)

end
