(* ===== verification/Recovery.thy ===== *)
theory Recovery
  imports Snapshot Queue_Engine
begin

text \<open>
  Recovery (\<open>engine/recovery.rs\<close> with its helpers in \<open>engine/mod.rs\<close>): the log groups found on disk,
  the replay of their frames behind the checkpoint, the ordered replay of topics split over several
  groups, and the passes that run after the replay.

  A log directory is its listing: the files directly in it and those of its subdirectories, by name
  and content. Opening and reading a file that is listed succeeds.
\<close>

section \<open>The log on disk\<close>

record wal_dir =
  wd_flat :: "(string \<times> u8 list) list"
  wd_subdirs :: "(string \<times> (string \<times> u8 list) list) list"

record wal_group =
  wg_shard_idx :: nat
  wg_key :: string
  wg_files :: "(nat \<times> u8 list) list"

definition strip_suffix :: "string \<Rightarrow> string \<Rightarrow> string option" where
  "strip_suffix p s = (if suffix p s then Some (take (length s - length p) s) else None)"

definition wal_file_idx :: "string \<Rightarrow> nat option" where
  "wal_file_idx name =
     Option.bind (strip_prefix ''wal-'' name) (\<lambda>rest. Option.bind (strip_suffix ''.log'' rest) parse_usize)"

definition list_wal_files :: "(string \<times> u8 list) list \<Rightarrow> (nat \<times> u8 list) list" where
  "list_wal_files entries =
     sort_key fst (concat (map (\<lambda>(name, bytes). case wal_file_idx name of Some i \<Rightarrow> [(i, bytes)] | None \<Rightarrow> []) entries))"

definition discover_shard_groups :: "wal_dir \<Rightarrow> wal_group list" where
  "discover_shard_groups d =
     (let flat = list_wal_files (wd_flat d);
          groups = (if flat = [] then [] else [\<lparr>wg_shard_idx = 0, wg_key = [], wg_files = flat\<rparr>]);
          subs = concat (map (\<lambda>(name, entries). case parse_shard_dir name of
                   Some i \<Rightarrow> [\<lparr>wg_shard_idx = i, wg_key = name, wg_files = list_wal_files entries\<rparr>]
                 | None \<Rightarrow> []) (wd_subdirs d))
      in sort_key wg_shard_idx (groups @ subs))"

text \<open>The frames of a file, each with the valid length after it.\<close>

function frames_with_ends :: "(u8 list \<Rightarrow> nat) \<Rightarrow> wal_reader \<Rightarrow> (wal_frame \<times> nat) list \<times> wal_reader" where
  "frames_with_ends crc rd =
     (case wal_reader_next crc rd of
        (None, rd') \<Rightarrow> ([], rd')
      | (Some f, rd') \<Rightarrow> (let (fs, rd'') = frames_with_ends crc rd' in ((f, valid_len rd') # fs, rd'')))"
  by auto
termination
  by (relation "measure (\<lambda>(crc, rd). length (rd_buf rd) - rd_pos rd)")
     (auto simp: wal_reader_next_def dest!: decode_one_consumed split: if_splits decode_step.splits)

declare frames_with_ends.simps [simp del]

definition count_valid_len :: "(u8 list \<Rightarrow> nat) \<Rightarrow> u8 list \<Rightarrow> nat" where
  "count_valid_len crc bytes = valid_len (snd (frames_with_ends crc (wal_reader_new bytes)))"

definition discover_group_tails :: "(u8 list \<Rightarrow> nat) \<Rightarrow> wal_dir \<Rightarrow> (string \<times> wal_position) list" where
  "discover_group_tails crc d =
     concat (map (\<lambda>g. if wg_files g = [] then []
                      else let (i, bytes) = last (wg_files g) in [(wg_key g, (i, count_valid_len crc bytes))])
               (discover_shard_groups d))"

definition ckpt_for :: "checkpoint option \<Rightarrow> wal_group \<Rightarrow> wal_position" where
  "ckpt_for cp g =
     (case Option.bind cp (\<lambda>c. position_for_key c (wg_key g)) of Some p \<Rightarrow> p | None \<Rightarrow> (0, 0))"

text \<open>The frames of a file of the group that lie behind its checkpoint.\<close>

definition file_replay :: "(u8 list \<Rightarrow> nat) \<Rightarrow> wal_position \<Rightarrow> nat \<times> u8 list \<Rightarrow> wal_record list" where
  "file_replay crc ckpt file =
     (case (ckpt, file) of ((ckpt_idx, ckpt_offset), (i, bytes)) \<Rightarrow>
        if i < ckpt_idx then []
        else let start_offset = (if i = ckpt_idx then ckpt_offset else 0) in
             map (\<lambda>(f, _). wf_record f)
               (filter (\<lambda>(_, stop). stop > start_offset) (fst (frames_with_ends crc (wal_reader_new bytes)))))"

definition group_replay :: "(u8 list \<Rightarrow> nat) \<Rightarrow> checkpoint option \<Rightarrow> wal_group \<Rightarrow> wal_record list" where
  "group_replay crc cp g = concat (map (file_replay crc (ckpt_for cp g)) (wg_files g))"

definition count_replay_frames :: "(u8 list \<Rightarrow> nat) \<Rightarrow> (nat \<times> u8 list) list \<Rightarrow> wal_position \<Rightarrow> nat" where
  "count_replay_frames crc files ckpt = fold (\<lambda>file n. n + length (file_replay crc ckpt file)) files 0"

definition find_split_topics :: "(u8 list \<Rightarrow> nat) \<Rightarrow> checkpoint option \<Rightarrow> wal_group list \<Rightarrow> u64 list" where
  "find_split_topics crc cp groups =
     (let seen = map (\<lambda>g. remdups (filter (\<lambda>b. b \<noteq> 0) (map wr_topic_id (group_replay crc cp g)))) groups;
          ids = remdups (concat seen)
      in filter (\<lambda>b. length (filter (\<lambda>s. b \<in> set s) seen) > 1) ids)"

section \<open>Applying one frame\<close>

text \<open>
  A frame for a topic that was never logged creates the topic under a made-up name; the panic of the
  source when that name is taken by a topic with another id is the unchanged engine.
\<close>

definition get_topic_by_id :: "u64 \<Rightarrow> engine \<Rightarrow> topic_state option" where
  "get_topic_by_id tid e = map_option snd (find (\<lambda>(_, t). t_topic_id t = tid) (e_topics e))"

definition apply_put_topic ::
  "env \<Rightarrow> string \<Rightarrow> topic_config \<Rightarrow> u64 option \<Rightarrow> u64 option \<Rightarrow> nat \<Rightarrow> i64 \<Rightarrow> engine \<Rightarrow> (bool \<times> u64) option \<times> engine" where
  "apply_put_topic env name cfg forced_id forced_epoch cap now e =
     (case get_topic name e of
        Some t \<Rightarrow>
          (Some (False, t_topic_id t), put_state (fst (enforce_retention now (t\<lparr>t_config := cfg\<rparr>))) e)
      | None \<Rightarrow>
          if cap \<noteq> 0 \<and> e_topic_count e \<ge> cap then (None, e)
          else
            let e = e\<lparr>e_topic_count := e_topic_count e + 1\<rparr>;
                (tid, e) = (case forced_id of
                              None \<Rightarrow> alloc_topic_id e
                            | Some fid \<Rightarrow> (fid, e\<lparr>e_next_topic_id := max (e_next_topic_id e) (fid + 1)\<rparr>));
                epoch = (case forced_epoch of Some n \<Rightarrow> n | None \<Rightarrow> 1)
            in (Some (True, tid), put_state (fresh_topic env name tid cfg epoch e) e))"

definition apply_put_topic_for_recovery :: "env \<Rightarrow> string \<Rightarrow> topic_config \<Rightarrow> u64 option \<Rightarrow> i64 \<Rightarrow> engine \<Rightarrow> engine" where
  "apply_put_topic_for_recovery env name cfg forced_id now e = snd (apply_put_topic env name cfg forced_id None 0 now e)"

definition remove_topic_for_recovery :: "string \<Rightarrow> engine \<Rightarrow> engine" where
  "remove_topic_for_recovery name e =
     (let e = (if get_topic name e = None then e
               else e\<lparr>e_topics := AList.delete name (e_topics e), e_topic_count := e_topic_count e - 1\<rparr>)
      in e\<lparr>e_routers := fst (remove_touching_topic name (e_routers e))\<rparr>)"

record replay_record =
  rr_ts :: i64
  rr_node :: "string option"
  rr_tag :: "string option"
  rr_data :: json
  rr_meta :: "json option"

definition apply_append_for_recovery :: "env \<Rightarrow> replay_record \<Rightarrow> topic_state \<Rightarrow> topic_state" where
  "apply_append_for_recovery env r t =
     fst (append_records env
       [\<lparr>sr_ts = rr_ts r, sr_node = rr_node r, sr_tag = rr_tag r, sr_data = rr_data r, sr_meta = rr_meta r,
         sr_bytes = payload_bytes env (rr_data r) (rr_meta r), sr_deleted = False, sr_payload_resident = True, sr_hops = 0\<rparr>]
       (rr_ts r) t)"

definition decode_record_payload :: "env \<Rightarrow> u8 list \<Rightarrow> json \<times> json option" where
  "decode_record_payload env blob =
     (case env_from_slice env blob of
        Some (JObject obj) \<Rightarrow> ((case map_of obj ''d'' of Some d \<Rightarrow> d | None \<Rightarrow> JNull), map_of obj ''m'')
      | _ \<Rightarrow> (JNull, None))"

definition apply_router_create_for_recovery :: "router_op \<Rightarrow> engine \<Rightarrow> engine" where
  "apply_router_create_for_recovery op e =
     (let r = \<lparr>r_name = rop_name op, r_source = rop_source op, r_dest = rop_dest op, r_preserve_node = rop_preserve_node op,
               r_preserve_tag = rop_preserve_tag op, r_create_dest = rop_create_dest op,
               r_filter = map_option matchsel_to_filter (rop_filter op), r_allow_cycle = rop_allow_cycle op,
               r_guarantee = (if rop_exactly_once op then ExactlyOnce else AtLeastOnce)\<rparr>
      in case upsert r (e_routers e) of
           Inl _ \<Rightarrow> e
         | Inr (created, g) \<Rightarrow>
             e\<lparr>e_routers := (if created
                 then seed_dest_base (rop_name op) (rop_initial_dest_base op) (note_forwarded (rop_name op) (rop_initial_cursor op) 0 g)
                 else g)\<rparr>)"

definition apply_router_delete_for_recovery :: "string \<Rightarrow> engine \<Rightarrow> engine" where
  "apply_router_delete_for_recovery name e = e\<lparr>e_routers := graph_remove name (e_routers e)\<rparr>"

text \<open>An operation on the records of a topic, looked up by id; an ephemeral topic has none to replay.\<close>

definition on_records_of :: "u64 \<Rightarrow> (topic_state \<Rightarrow> topic_state) \<Rightarrow> engine \<Rightarrow> engine" where
  "on_records_of tid f e =
     (case get_topic_by_id tid e of
        Some t \<Rightarrow> if uses_persistent_record_store (t_config t) then put_state (f t) e else e
      | None \<Rightarrow> e)"

definition replay_append ::
  "env \<Rightarrow> seq \<Rightarrow> u64 \<Rightarrow> string option \<Rightarrow> string option \<Rightarrow> u8 list \<Rightarrow> topic_state \<Rightarrow> topic_state" where
  "replay_append env s ts node tag blob t =
     (let head = t_head_seq t in
      if s \<le> head then t
      else if s \<noteq> head + 1 then t
      else let (d, m) = decode_record_payload env blob in
           apply_append_for_recovery env \<lparr>rr_ts = as_i64 ts, rr_node = node, rr_tag = tag, rr_data = d, rr_meta = m\<rparr> t)"

definition restore_floors :: "seq \<Rightarrow> seq \<Rightarrow> topic_state \<Rightarrow> topic_state" where
  "restore_floors ef xf t =
     t\<lparr>t_floors := (t_floors t)\<lparr>evict_floor := max (evict_floor (t_floors t)) ef,
                                expiry_floor := max (expiry_floor (t_floors t)) xf\<rparr>\<rparr>"

definition replay_lease :: "u8 \<Rightarrow> seq \<Rightarrow> string \<Rightarrow> u64 \<Rightarrow> u64 \<Rightarrow> u64 \<Rightarrow> topic_state \<Rightarrow> topic_state" where
  "replay_lease event s node lease_id deadline n t =
     (case t_queue t of
        Some q \<Rightarrow> t\<lparr>t_queue := Some (apply_lease_event (unat event) s node lease_id (as_i64 deadline) n q)\<rparr>
      | None \<Rightarrow> t)"

fun replay_frame :: "env \<Rightarrow> i64 \<Rightarrow> wal_record \<Rightarrow> engine \<Rightarrow> engine" where
  "replay_frame env now (Append tid s ts node tag blob) e =
     on_records_of tid (replay_append env s ts node tag blob)
       (if get_topic_by_id tid e = None
        then apply_put_topic_for_recovery env (''topic-'' @ decimal tid) default_config (Some tid) now e
        else e)"
| "replay_frame env now (Delete tid before sel seqs bound ts) e =
     on_records_of tid
       (\<lambda>t. if seqs \<noteq> [] then fst (delete_seqs_stats seqs t)
            else fst (apply_delete before (map_option matchsel_to_filter sel) bound (as_i64 ts) t)) e"
| "replay_frame env now (TopicConfig tid op tombstone _) e =
     (if tombstone then remove_topic_for_recovery (tco_name op) e
      else apply_put_topic_for_recovery env (tco_name op)
             (case e_config_from_slice e (tco_config op) of Some c \<Rightarrow> c | None \<Rightarrow> default_config) (Some tid) now e)"
| "replay_frame env now (RouterCreate op _) e = apply_router_create_for_recovery op e"
| "replay_frame env now (RouterDelete name _) e = apply_router_delete_for_recovery name e"
| "replay_frame env now (EvictWatermark tid ef xf _ _) e =
     (case get_topic_by_id tid e of Some t \<Rightarrow> put_state (restore_floors ef xf t) e | None \<Rightarrow> e)"
| "replay_frame env now (Lease tid s event node lease_id deadline n _) e =
     on_records_of tid (replay_lease event s node lease_id deadline n) e"
| "replay_frame env now (HeadWatermark tid head _) e = on_records_of tid (set_reserved_head head) e"
| "replay_frame env now (CheckpointMark _ _) e = e"

definition replay_frames :: "env \<Rightarrow> i64 \<Rightarrow> wal_record list \<Rightarrow> engine \<Rightarrow> engine" where
  "replay_frames env now recs e = fold (replay_frame env now) recs e"

section \<open>Replaying all groups\<close>

text \<open>The frames of a split topic, with the order of their group and their place in it.\<close>

type_synonym split_buffer = "(u64 \<times> (nat \<times> nat \<times> wal_record) list) list"

definition buffer_frame :: "u64 \<Rightarrow> nat \<Rightarrow> nat \<Rightarrow> wal_record \<Rightarrow> split_buffer \<Rightarrow> split_buffer" where
  "buffer_frame bid go i rec buf =
     AList.update bid ((case map_of buf bid of Some fs \<Rightarrow> fs | None \<Rightarrow> []) @ [(go, i, rec)]) buf"

fun replay_group :: "env \<Rightarrow> i64 \<Rightarrow> u64 list \<Rightarrow> nat \<Rightarrow> nat \<Rightarrow> wal_record list \<Rightarrow> split_buffer \<Rightarrow> engine \<Rightarrow> split_buffer \<times> engine" where
  "replay_group env now split go i [] buf e = (buf, e)"
| "replay_group env now split go i (rec # recs) buf e =
     (if wr_topic_id rec \<in> set split
      then replay_group env now split go (i + 1) recs (buffer_frame (wr_topic_id rec) go i rec buf) e
      else replay_group env now split go (i + 1) recs buf (replay_frame env now rec e))"

definition min_append_seq :: "nat \<Rightarrow> (nat \<times> nat \<times> wal_record) list \<Rightarrow> seq option" where
  "min_append_seq go frames =
     fold (\<lambda>(g, _, rec) m.
        (case rec of
           Append _ s _ _ _ _ \<Rightarrow>
             if g = go then (case m of Some x \<Rightarrow> Some (min x s) | None \<Rightarrow> Some s) else m
         | _ \<Rightarrow> m)) frames None"

text \<open>The key is the lexicographic tuple of the source.\<close>

definition split_key :: "(nat \<times> nat \<times> wal_record) list \<Rightarrow> nat \<times> nat \<times> wal_record \<Rightarrow> nat list" where
  "split_key frames x =
     (case x of (go, i, _) \<Rightarrow>
        (case min_append_seq go frames of
           Some m \<Rightarrow> [0, m, go, i]
         | None \<Rightarrow> [1, 0, go, i]))"

definition replay_split_topics :: "env \<Rightarrow> i64 \<Rightarrow> split_buffer \<Rightarrow> engine \<Rightarrow> engine" where
  "replay_split_topics env now buf e =
     fold (\<lambda>(_, frames). replay_frames env now (map (\<lambda>(_, _, rec). rec) (sort_key (split_key frames) frames))) buf e"

fun replay_groups ::
  "env \<Rightarrow> i64 \<Rightarrow> checkpoint option \<Rightarrow> u64 list \<Rightarrow> nat \<Rightarrow> wal_group list \<Rightarrow> split_buffer \<Rightarrow> engine \<Rightarrow> split_buffer \<times> engine" where
  "replay_groups env now cp split go [] buf e = (buf, e)"
| "replay_groups env now cp split go (g # gs) buf e =
     (let (buf, e) = replay_group env now split go 0 (group_replay (env_crc env) cp g) buf e
      in replay_groups env now cp split (go + 1) gs buf e)"

definition replay_all :: "env \<Rightarrow> i64 \<Rightarrow> checkpoint option \<Rightarrow> wal_group list \<Rightarrow> engine \<Rightarrow> engine" where
  "replay_all env now cp groups e =
     (let split = (if length groups > 1 then find_split_topics (env_crc env) cp groups else []);
          (buf, e) = replay_groups env now cp split 0 groups [] e
      in replay_split_topics env now buf e)"

section \<open>The passes after the replay\<close>

definition apply_head_watermarks :: "engine \<Rightarrow> engine" where
  "apply_head_watermarks e =
     e\<lparr>e_topics := map (\<lambda>(n, t). (n, if t_reserved_head t > t_head_seq t then restore_head_watermark (t_reserved_head t) t else t))
                    (e_topics e)\<rparr>"

definition reclaim_all_on_recovery :: "env \<Rightarrow> engine \<Rightarrow> engine" where
  "reclaim_all_on_recovery env e =
     e\<lparr>e_topics := map (\<lambda>(n, t). (n, fst (reclaim_segments_on_recovery env t))) (e_topics e)\<rparr>"

fun drive_router :: "nat \<Rightarrow> env \<Rightarrow> string \<Rightarrow> i64 \<Rightarrow> engine \<Rightarrow> nat \<times> engine" where
  "drive_router k env name now e =
     (if k = 0 then (0, e)
      else let (n, e) = advance_router env name now e in
           if n = 0 then (0, e)
           else let (m, e) = drive_router (k - 1) env name now e in (n + m, e))"

declare drive_router.simps [simp del]

fun drive_all :: "env \<Rightarrow> string list \<Rightarrow> i64 \<Rightarrow> engine \<Rightarrow> nat \<times> engine" where
  "drive_all env [] now e = (0, e)"
| "drive_all env (name # names) now e =
     (let (n, e) = drive_router CATCH_UP_PASSES env name now e;
          (m, e) = drive_all env names now e
      in (n + m, e))"

definition REFORWARD_PASSES :: nat where
  "REFORWARD_PASSES = 65"

fun reforward_passes :: "nat \<Rightarrow> env \<Rightarrow> string list \<Rightarrow> i64 \<Rightarrow> engine \<Rightarrow> engine" where
  "reforward_passes k env names now e =
     (if k = 0 then e
      else let (progressed, e) = drive_all env names now e in
           if progressed = 0 then e else reforward_passes (k - 1) env names now e)"

declare reforward_passes.simps [simp del]

definition reforward_routers_on_recovery :: "env \<Rightarrow> i64 \<Rightarrow> engine \<Rightarrow> engine" where
  "reforward_routers_on_recovery env now e =
     reforward_passes REFORWARD_PASSES env (map (\<lambda>(_, r). r_name r) (rg_routers (e_routers e))) now e"

section \<open>The whole of recovery\<close>

text \<open>The torn tail of each group is cut; \<open>None\<close> is the error of opening a file that is not there.\<close>

definition group_tail :: "(u8 list \<Rightarrow> nat) \<Rightarrow> wal_position \<Rightarrow> wal_group \<Rightarrow> wal_position" where
  "group_tail crc ckpt g =
     (let (i, bytes) = last (wg_files g) in
      if i < fst ckpt then (max (fst ckpt) 1, snd ckpt) else (i, count_valid_len crc bytes))"

definition truncate_active :: "wal_position \<Rightarrow> (nat \<times> u8 list) list \<Rightarrow> (nat \<times> u8 list) list option" where
  "truncate_active pos files =
     (case map_of files (fst pos) of
        None \<Rightarrow> None
      | Some bytes \<Rightarrow> Some (map (\<lambda>(i, b). (i, if i = fst pos then take (snd pos) b @ replicate (snd pos - length b) 0 else b)) files))"

fun truncate_groups :: "(u8 list \<Rightarrow> nat) \<Rightarrow> checkpoint option \<Rightarrow> wal_group list \<Rightarrow> wal_group list option" where
  "truncate_groups crc cp [] = Some []"
| "truncate_groups crc cp (g # gs) =
     (if wg_files g = [] then map_option (Cons g) (truncate_groups crc cp gs)
      else case truncate_active (group_tail crc (ckpt_for cp g) g) (wg_files g) of
             None \<Rightarrow> None
           | Some files \<Rightarrow> map_option (Cons (g\<lparr>wg_files := files\<rparr>)) (truncate_groups crc cp gs))"

text \<open>Where the writer of a shard of the new layout resumes.\<close>

definition resume_position :: "(u8 list \<Rightarrow> nat) \<Rightarrow> nat \<Rightarrow> wal_group list \<Rightarrow> nat \<Rightarrow> wal_position" where
  "resume_position crc n_shards groups s =
     (case find (\<lambda>g. wg_key g = shard_group_key s n_shards) groups of
        Some g \<Rightarrow> (if wg_files g = [] then (1, 0)
                   else let (i, bytes) = last (wg_files g) in (i, count_valid_len crc bytes))
      | None \<Rightarrow> (1, 0))"

text \<open>The groups of the current layout replay last.\<close>

definition replay_order :: "nat \<Rightarrow> wal_group list \<Rightarrow> wal_group list" where
  "replay_order n_shards groups =
     (let current = map (\<lambda>s. shard_group_key s n_shards) [0..<n_shards] in
      sort_key (\<lambda>g. [if wg_key g \<in> set current then 1 else 0, wg_shard_idx g]) groups)"

definition recover ::
  "env \<Rightarrow> i64 \<Rightarrow> nat \<Rightarrow> snapshot option \<Rightarrow> wal_dir \<Rightarrow> engine \<Rightarrow> (engine \<times> wal_position list) option" where
  "recover env now shards snap d e =
     (let n_shards = max shards 1;
          (cp, e) = (case snap of Some s \<Rightarrow> (let (c, e) = restore env s e in (Some c, e)) | None \<Rightarrow> (None, e));
          groups = replay_order n_shards (discover_shard_groups d);
          e = replay_all env now cp groups e
      in case truncate_groups (env_crc env) cp groups of
           None \<Rightarrow> None
         | Some groups \<Rightarrow>
             let resume = map (resume_position (env_crc env) n_shards groups) [0..<n_shards];
                 e = reforward_routers_on_recovery env now (reclaim_all_on_recovery env (apply_head_watermarks e))
             in Some (e\<lparr>e_total_bytes_live := total_bytes e\<rparr>, resume))"

text \<open>After a snapshot, the files it absorbed are dropped, and those of shards the layout no longer has.\<close>

definition drop_absorbed :: "nat \<Rightarrow> (string \<times> u8 list) list \<Rightarrow> (string \<times> u8 list) list" where
  "drop_absorbed keep_from files =
     filter (\<lambda>(name, _). case wal_file_idx name of Some i \<Rightarrow> \<not> i < keep_from | None \<Rightarrow> True) files"

definition drop_absorbed_wal_files :: "wal_position list \<Rightarrow> nat \<Rightarrow> wal_dir \<Rightarrow> wal_dir" where
  "drop_absorbed_wal_files positions shard_count d =
     (let n = max shard_count 1;
          keep_from = (\<lambda>s. case nth_opt positions s of Some (i, _) \<Rightarrow> i | None \<Rightarrow> 0);
          flat = (if n = 1 then drop_absorbed (keep_from 0) (wd_flat d) else wd_flat d);
          subs = map (\<lambda>(name, files).
                   (name, case find (\<lambda>s. n > 1 \<and> shard_subdir s = name) [0..<n] of
                            Some s \<Rightarrow> drop_absorbed (keep_from s) files
                          | None \<Rightarrow> files)) (wd_subdirs d)
      in \<lparr>wd_flat = flat,
          wd_subdirs = map (\<lambda>(name, files).
            (name, case parse_shard_dir name of
                     Some i \<Rightarrow> if n > 1 \<and> i < n then files
                               else filter (\<lambda>(f, _). wal_file_idx f = None) files
                   | None \<Rightarrow> files)) subs\<rparr>)"

section \<open>Topics by id\<close>

definition registry_ok :: "engine \<Rightarrow> bool" where
  "registry_ok e \<longleftrightarrow> distinct (map fst (e_topics e)) \<and> list_all (\<lambda>(n, t). t_name t = n) (e_topics e) \<and>
     distinct (map (\<lambda>(_, t). t_topic_id t) (e_topics e))"

lemma get_by_id_map: "get_topic_by_id tid e = map_of (map (\<lambda>(_, t). (t_topic_id t, t)) (e_topics e)) tid"
proof -
  have "map_option snd (find (\<lambda>(_, t). t_topic_id t = tid) ts) = map_of (map (\<lambda>(_, t). (t_topic_id t, t)) ts) tid" for ts
    by (induction ts) auto
  then show ?thesis by (simp add: get_topic_by_id_def)
qed

lemma get_by_id_name:
  assumes "registry_ok e" "get_topic_by_id tid e = Some t"
  shows "get_topic (t_name t) e = Some t" "t_topic_id t = tid"
proof -
  have m: "(tid, t) \<in> set (map (\<lambda>(_, t). (t_topic_id t, t)) (e_topics e))"
    using assms(2) by (simp only: get_by_id_map map_of_SomeD)
  then obtain n where n: "(n, t) \<in> set (e_topics e)" "t_topic_id t = tid" by auto
  then have "t_name t = n"
    using assms(1) by (auto simp: registry_ok_def list_all_iff)
  then show "get_topic (t_name t) e = Some t" "t_topic_id t = tid"
    using n assms(1) by (auto simp: get_topic_def registry_ok_def)
qed

text \<open>Writing a topic back under its id.\<close>

lemma put_by_id:
  assumes reg: "registry_ok e" and t: "get_topic_by_id tid e = Some t" and t': "t_name t' = t_name t" "t_topic_id t' = tid"
  shows "registry_ok (put_state t' e)" "get_topic_by_id tid (put_state t' e) = Some t'"
    "i \<noteq> tid \<Longrightarrow> get_topic_by_id i (put_state t' e) = get_topic_by_id i e"
    "t_name t2 = t_name t \<Longrightarrow> put_state t2 (put_state t' e) = put_state t2 e" "put_state t e = e"
proof -
  note n = get_by_id_name[OF reg t]
  obtain a b where ab: "e_topics e = a @ (t_name t, t) # b" "t_name t \<notin> fst ` set a"
    using update_split[of "e_topics e" "t_name t" t t] n(1) by (auto simp: get_topic_def)
  have upd: "AList.update (t_name t) x (a @ (t_name t, y) # b) = a @ (t_name t, x) # b" for x y :: topic_state
    using ab(2) by (induction a) auto
  have put: "put_state x e = e\<lparr>e_topics := a @ (t_name t, x) # b\<rparr>" if "t_name x = t_name t" for x
    using that upd by (simp add: put_state_def ab)
  show "registry_ok (put_state t' e)"
    using reg t' n(2) by (auto simp: put[OF t'(1)] registry_ok_def ab)
  have key: "map fst (map (\<lambda>(_, t). (t_topic_id t, t)) ts) = map (\<lambda>(_, t). t_topic_id t) ts" for ts :: "(string \<times> topic_state) list"
    by (induction ts) auto
  have "distinct (map (\<lambda>(_, t). t_topic_id t) (a @ (t_name t, t') # b))"
    using reg t' n(2) by (simp add: registry_ok_def ab)
  then have "distinct (map fst (map (\<lambda>(_, t). (t_topic_id t, t)) (a @ (t_name t, t') # b)))"
    unfolding key .
  then show "get_topic_by_id tid (put_state t' e) = Some t'"
    unfolding get_by_id_map put[OF t'(1)] using t'(2) by (intro map_of_is_SomeI) auto
  show "get_topic_by_id i (put_state t' e) = get_topic_by_id i e" if "i \<noteq> tid"
    unfolding get_by_id_map put[OF t'(1)] using that t' n(2) by (simp add: ab map_add_def split: option.split)
  show "put_state t2 (put_state t' e) = put_state t2 e" if "t_name t2 = t_name t"
    using that put[OF t'(1)] put[OF that] upd by (simp add: put_state_def)
  show "put_state t e = e"
    using put[OF refl] by (simp add: ab(1)[symmetric])
qed

section \<open>Replaying a batch\<close>

text \<open>A record as the write path stores it.\<close>

definition written_at :: "env \<Rightarrow> i64 \<Rightarrow> stored_record \<Rightarrow> bool" where
  "written_at env now r \<longleftrightarrow> sr_ts r = now \<and> sr_bytes r = payload_bytes env (sr_data r) (sr_meta r) \<and> \<not> sr_deleted r \<and>
     sr_payload_resident r \<and> sr_hops r = 0"

definition envelope :: "stored_record \<Rightarrow> json" where
  "envelope r = JObject ((''d'', sr_data r) # (case sr_meta r of Some m \<Rightarrow> [(''m'', m)] | None \<Rightarrow> []))"

lemma decode_encode_payload:
  "json_codes env (envelope r) \<Longrightarrow> decode_record_payload env (encode_record_payload env (sr_data r) (sr_meta r)) = (sr_data r, sr_meta r)"
  by (cases "sr_meta r") (simp_all add: json_codes_def envelope_def decode_record_payload_def encode_record_payload_def)

lemma persistent_class: "uses_persistent_record_store c \<longleftrightarrow> durability_class c \<noteq> Ephemeral"
  by (simp add: uses_persistent_record_store_def)

lemma append_records_seal:
  assumes "rs \<noteq> []" "durability_class (t_config t) \<noteq> Ephemeral"
  shows "fst (append_records env rs now t) = publish_and_seal env (snd (stage_append rs t)) now
    ((fst (stage_append rs t))\<lparr>t_reserved_head := t_reserved_head (fst (stage_append rs t))\<rparr>)"
proof -
  have "sa_count (snd (stage_append rs t)) \<noteq> 0"
    using assms(1) by (simp add: stage_append_def Let_def split: prod.splits)
  then show ?thesis
    using assms(2) by (simp add: append_records_def publish_and_seal_def stage_append_frame split_beta)
qed

text \<open>One frame at the next sequence.\<close>

lemma replay_append_next:
  assumes ok: "topic_ok t" "tail t = Suc (t_head_seq t)" and p: "uses_persistent_record_store (t_config t)"
    and w: "written_at env now r" "json_codes env (envelope r)" "0 \<le> now" "now \<le> i64_max"
    and room: "t_bytes_retained t + sr_bytes r \<le> u64_max" "tail t + 1 \<le> u64_max"
    and t': "t' = replay_append env (tail t) (as_ts now) (sr_node r) (sr_tag r) (encode_record_payload env (sr_data r) (sr_meta r)) t"
  shows "topic_ok t'" "same_id t t'" "append_done env t [r] t'"
proof -
  have ts: "as_i64 (as_ts now) = now"
    using w(3,4) by (simp add: as_i64_def as_ts_def i64_max_def)
  have r: "\<lparr>sr_ts = now, sr_node = sr_node r, sr_tag = sr_tag r, sr_data = sr_data r, sr_meta = sr_meta r,
      sr_bytes = payload_bytes env (sr_data r) (sr_meta r), sr_deleted = False, sr_payload_resident = True, sr_hops = 0\<rparr> = r"
    using w(1) by (simp add: written_at_def)
  have "t' = fst (append_records env [r] now t)"
    unfolding t' using ok(2) r by (simp add: replay_append_def Let_def decode_encode_payload[OF w(2)] apply_append_for_recovery_def ts)
  then have seal: "t' = publish_and_seal env (snd (stage_append [r] t)) now
      ((fst (stage_append [r] t))\<lparr>t_reserved_head := t_reserved_head (fst (stage_append [r] t))\<rparr>)"
    using append_records_seal[of "[r]" t env now] p by (simp add: persistent_class)
  show "topic_ok t'" "same_id t t'" "append_done env t [r] t'"
    using publish_done[OF ok(1) _ _ _ _ seal] w(1) room by (simp_all add: written_at_def)
qed

lemma append_done_Cons:
  assumes "append_done env t [r] t1" "append_done env t1 rs t2"
  shows "append_done env t (r # rs) t2"
proof -
  have "zip [tail t..<tail t + length (r # rs)] (map erase (r # rs)) =
      (tail t, erase r) # zip [Suc (tail t)..<Suc (tail t) + length rs] (map erase rs)"
    by (simp add: upt_conv_Cons del: upt_Suc)
  moreover have "zip [tail t..<Suc (tail t)] [erase r] = [(tail t, erase r)]" by simp
  ultimately show ?thesis
    using assms by (simp add: append_done_def del: upt_Suc)
qed

lemma replay_frame_append:
  assumes "get_topic_by_id tid e = Some t" "uses_persistent_record_store (t_config t)"
  shows "replay_frame env now (Append tid s ts node tag blob) e = put_state (replay_append env s ts node tag blob t) e"
  using assms by (simp add: on_records_of_def)

lemma append_frames_Cons:
  "append_frames env tid [s..<s + length (r # rs)] (r # rs) now =
     Append tid s (as_ts now) (sr_node r) (sr_tag r) (encode_record_payload env (sr_data r) (sr_meta r)) #
     append_frames env tid [Suc s..<Suc s + length rs] rs now"
  by (simp add: append_frames_def upt_conv_Cons del: upt_Suc)

text \<open>The frames of a batch that starts right after the head rebuild it.\<close>

lemma replay_batch:
  assumes "registry_ok e" "get_topic_by_id tid e = Some t" "topic_ok t" "tail t = Suc (t_head_seq t)"
    "uses_persistent_record_store (t_config t)" "list_all (written_at env now) rs" "list_all (\<lambda>r. json_codes env (envelope r)) rs"
    "0 \<le> now" "now \<le> i64_max" "t_bytes_retained t + slot_bytes rs \<le> u64_max" "tail t + length rs \<le> u64_max"
  shows "\<exists>t'. replay_frames env now' (append_frames env tid [tail t..<tail t + length rs] rs now) e = put_state t' e \<and>
    topic_ok t' \<and> same_id t t' \<and> append_done env t rs t'"
  using assms
proof (induction rs arbitrary: e t)
  case Nil
  then show ?case
    using put_by_id(5)[OF Nil(1,2), of t] get_by_id_name(2)[OF Nil(1,2)]
    by (intro exI[of _ t]) (simp add: replay_frames_def append_frames_def append_done_def)
next
  case (Cons r rs)
  define t1 where "t1 = replay_append env (tail t) (as_ts now) (sr_node r) (sr_tag r) (encode_record_payload env (sr_data r) (sr_meta r)) t"
  have wr: "written_at env now r" "json_codes env (envelope r)" "t_bytes_retained t + sr_bytes r \<le> u64_max" "tail t + 1 \<le> u64_max"
    using Cons.prems(6,7,10,11) by simp_all
  note a = replay_append_next[OF Cons.prems(3,4,5) wr(1,2) Cons.prems(8,9) wr(3,4) t1_def]
  have id: "t_name t1 = t_name t" "t_topic_id t1 = tid" "t_config t1 = t_config t"
    using a(2) get_by_id_name(2)[OF Cons.prems(1,2)] by (simp_all add: same_id_def)
  note p = put_by_id[OF Cons.prems(1,2) id(1,2)]
  have tl: "tail t1 = Suc (tail t)" "t_head_seq t1 = tail t" "t_bytes_retained t1 = t_bytes_retained t + sr_bytes r"
    using a(3) by (simp_all add: append_done_def)
  have "\<exists>t'. replay_frames env now' (append_frames env tid [tail t1..<tail t1 + length rs] rs now) (put_state t1 e) =
      put_state t' (put_state t1 e) \<and> topic_ok t' \<and> same_id t1 t' \<and> append_done env t1 rs t'"
    using Cons.prems(5-11) tl id by (intro Cons.IH[OF p(1,2) a(1)]) simp_all
  then obtain t2 where t2: "replay_frames env now' (append_frames env tid [tail t1..<tail t1 + length rs] rs now) (put_state t1 e) =
      put_state t2 (put_state t1 e)" "topic_ok t2" "same_id t1 t2" "append_done env t1 rs t2" by blast
  have "replay_frames env now' (append_frames env tid [tail t..<tail t + length (r # rs)] (r # rs) now) e =
      replay_frames env now' (append_frames env tid [tail t1..<tail t1 + length rs] rs now) (put_state t1 e)"
    unfolding append_frames_Cons replay_frames_def tl(1)
    using replay_frame_append[OF Cons.prems(2,5)] by (simp add: t1_def del: replay_frame.simps)
  also have "\<dots> = put_state t2 e"
    using t2(1,3) p(4)[of t2] id(1) by (simp add: same_id_def)
  finally show ?case
    using t2 a(2) same_id_trans append_done_Cons[OF a(3) t2(4)] by blast
qed

text \<open>Frames that are not for the next sequence change nothing.\<close>

lemma replay_skips:
  assumes reg: "registry_ok e" and t: "get_topic_by_id tid e = Some t" and other: "Suc (t_head_seq t) \<notin> set seqs"
  shows "replay_frames env now' (append_frames env tid seqs rs now) e = e"
proof -
  have one: "replay_frame env now' (Append tid s ts node tag blob) e = e" if "s \<noteq> Suc (t_head_seq t)" for s ts node tag blob
    using that t put_by_id(5)[OF reg t refl get_by_id_name(2)[OF reg t]]
    by (simp add: on_records_of_def replay_append_def Let_def)
  have "fold (replay_frame env now') (map (\<lambda>(s, r). Append tid s (as_ts now) (sr_node r) (sr_tag r)
      (encode_record_payload env (sr_data r) (sr_meta r))) ps) e = e" if "\<forall>(s, r)\<in>set ps. s \<noteq> Suc (t_head_seq t)" for ps
    using that one by (induction ps) (auto simp del: replay_frame.simps)
  moreover have "\<forall>(s, r)\<in>set (zip seqs rs). s \<noteq> Suc (t_head_seq t)"
    using other by (auto dest: set_zip_leftD)
  ultimately show ?thesis
    by (simp add: replay_frames_def append_frames_def)
qed

text \<open>A recovered topic that shows what the running one shows.\<close>

definition mirrors :: "topic_state \<Rightarrow> topic_state \<Rightarrow> bool" where
  "mirrors t tr \<longleftrightarrow> topic_ok tr \<and> tail tr = Suc (t_head_seq tr) \<and> t_topic_id tr = t_topic_id t \<and>
     uses_persistent_record_store (t_config tr) \<and> t_head_seq tr = t_head_seq t \<and> view tr = view t \<and>
     t_bytes_retained tr = t_bytes_retained t"

end
