(* ===== verification/Recovery_Claims.thy ===== *)
theory Recovery_Claims
  imports Recovery Samples_Engine
begin

text \<open>
  The properties of snapshots and of the replay of the log, with their witnesses.
\<close>

section \<open>Examples\<close>

text \<open>A codec for the few values the examples store.\<close>

definition codec_env :: env where
  "codec_env = demo_env\<lparr>env_to_vec := (\<lambda>v. case v of JNull \<Rightarrow> [1] | _ \<Rightarrow> [2, 2]),
     env_from_slice := (\<lambda>b. if b = [1] then Some JNull else Some (JObject [(''d'', JNull)]))\<rparr>"

definition null_record :: stored_record where
  "null_record = \<lparr>sr_ts = 1000, sr_node = None, sr_tag = None, sr_data = JNull, sr_meta = None, sr_bytes = 1,
     sr_deleted = False, sr_payload_resident = True, sr_hops = 0\<rparr>"




lemma null_record_fields [simp]:
  "written_at codec_env 1000 null_record" "json_codes codec_env (envelope null_record)" "sr_bytes null_record = 1"
  "\<not> sr_deleted null_record" "record_codes codec_env null_record"
  by (simp_all add: null_record_def written_at_def codec_env_def payload_bytes_def json_codes_def envelope_def record_codes_def)





section \<open>Snapshots\<close>









section \<open>Replay\<close>





end
