(* ===== verification/Payloads.thy ===== *)
theory Payloads
  imports Topic_Ok
begin

text \<open>
  Where the payload of a readable record is: in its slot, in a payload cache of the segment
  writer, or in a sealed segment file. \<open>payloads env t P\<close> says that each live slot of the topic
  reads back the payload \<open>P\<close> assigns to its sequence; it is kept by every step of an append, by
  sealing and freeing, by retention and by the reads themselves.
\<close>

section \<open>What a reader is given\<close>

definition with_payload :: "resolved_payload \<Rightarrow> stored_record \<Rightarrow> stored_record" where
  "with_payload p r = r\<lparr>sr_data := rp_data p, sr_meta := rp_meta p, sr_payload_resident := True\<rparr>"

definition resolved :: "env \<Rightarrow> topic_state \<Rightarrow> seq \<Rightarrow> stored_record" where
  "resolved env t s =
     (let r = records (t_index t) ! (s - base_seq (t_index t))
      in with_payload (snd (resolve_payload env s r t)) r)"

definition full_view :: "env \<Rightarrow> topic_state \<Rightarrow> (seq \<times> stored_record) list" where
  "full_view env t = map (\<lambda>s. (s, resolved env t s)) (filter (visible t) [0..<Suc (t_head_seq t)])"

lemma erase_with_payload [simp]: "erase (with_payload p r) = erase r" "with_payload p (erase r) = with_payload p r"
  by (simp_all add: erase_def with_payload_def)

lemma with_own_payload: "sr_payload_resident r \<Longrightarrow> with_payload (slot_payload r) r = r"
  by (simp add: with_payload_def slot_payload_def)

lemma full_view_erase: "map (\<lambda>(s, r). (s, erase r)) (full_view env t) = view t"
  by (simp add: full_view_def view_def resolved_def slot_at_def Let_def)

section \<open>Sealed payloads\<close>

definition sealed_as :: "env \<Rightarrow> segment_writer \<Rightarrow> seq \<Rightarrow> resolved_payload \<Rightarrow> bool" where
  "sealed_as env w s p \<longleftrightarrow> (\<exists>g. segment_for w s = Some g \<and>
     read_locator env \<lparr>loc_tier = sw_tier w, loc_seg = g, loc_seq = s\<rparr> = Some p)"

lemma sealed_as_fun: "sealed_as env w s p \<Longrightarrow> sealed_as env w s q \<Longrightarrow> p = q"
  by (auto simp: sealed_as_def)

text \<open>A read depends on the two files of its segment only.\<close>

definition same_segment :: "seq \<Rightarrow> topic_tier \<Rightarrow> topic_tier \<Rightarrow> bool" where
  "same_segment i t t' \<longleftrightarrow> rel_option (\<lambda>a b. \<forall>p. store_file p i b = store_file p i a \<and> fs_fails b (ReadFile p i) = fs_fails a (ReadFile p i))
     (store_for t i) (store_for t' i)"

lemma read_locator_same:
  assumes "same_segment (ss_start_seq g) t t'"
  shows "read_locator env \<lparr>loc_tier = t', loc_seg = g, loc_seq = s\<rparr> = read_locator env \<lparr>loc_tier = t, loc_seg = g, loc_seq = s\<rparr>"
proof (cases "store_for t (ss_start_seq g)")
  case None
  then show ?thesis
    using assms by (simp add: same_segment_def read_locator_def)
next
  case (Some a)
  then obtain b where b: "store_for t' (ss_start_seq g) = Some b"
      "\<forall>p. store_file p (ss_start_seq g) b = store_file p (ss_start_seq g) a \<and> fs_fails b (ReadFile p (ss_start_seq g)) = fs_fails a (ReadFile p (ss_start_seq g))"
    using assms by (auto simp: same_segment_def option_rel_Some1)
  then have "store_read_range (ss_start_seq g) p off n b = store_read_range (ss_start_seq g) p off n a" for p off n
    by (simp add: store_read_range_def store_file_def[symmetric] split: option.split)
  then show ?thesis
    using Some b(1) by (simp add: read_locator_def Let_def cong: option.case_cong sum.case_cong)
qed

lemma sealed_as_mono:
  assumes "sealed_as env w s p" "registry_ok (sw_sealed w')"
    "\<And>g. segment_for w s = Some g \<Longrightarrow> g \<in> set (sw_sealed w') \<and> same_segment (ss_start_seq g) (sw_tier w) (sw_tier w')"
  shows "sealed_as env w' s p"
proof -
  obtain g where g: "segment_for w s = Some g" "read_locator env \<lparr>loc_tier = sw_tier w, loc_seg = g, loc_seq = s\<rparr> = Some p"
    using assms(1) by (auto simp: sealed_as_def)
  note m = assms(3)[OF g(1)]
  have "segment_for w' s = Some g"
    using segment_for_Some[OF g(1)] m by (intro segment_for_member[OF assms(2)]) auto
  then show ?thesis
    using g(2) m read_locator_same[of g "sw_tier w" "sw_tier w'" env s] by (auto simp: sealed_as_def)
qed

lemma store_put_other:
  assumes "store_ok st" "i \<noteq> sid"
  shows "store_file p i (fst (store_put sid d x st)) = store_file p i st" "fs_fails (fst (store_put sid d x st)) = fs_fails st"
    "store_exists i q (fst (store_put sid d x st)) = store_exists i q st"
proof -
  show f: "store_file p i (fst (store_put sid d x st)) = store_file p i st" for p
    using assms by (simp add: store_put_def Let_def store_file_write write_part_ok)
  show "fs_fails (fst (store_put sid d x st)) = fs_fails st"
    by (simp add: store_put_def Let_def)
  show "store_exists i q (fst (store_put sid d x st)) = store_exists i q st"
    using f[of q] by (simp add: store_exists_def store_file_def)
qed

lemma store_delete_other:
  assumes "i \<noteq> sid"
  shows "store_file p i (fst (store_delete sid st)) = store_file p i st" "fs_fails (fst (store_delete sid st)) = fs_fails st"
    "store_exists i q (fst (store_delete sid st)) = store_exists i q st"
proof -
  show f: "store_file p i (fst (store_delete sid st)) = store_file p i st" for p
    using assms by (simp add: store_delete_def Let_def store_file_unlink)
  show "fs_fails (fst (store_delete sid st)) = fs_fails st"
    by (simp add: store_delete_def Let_def)
  show "store_exists i q (fst (store_delete sid st)) = store_exists i q st"
    using f[of q] by (simp add: store_exists_def store_file_def)
qed

lemma same_segment_put:
  assumes "store_ok (hot t)" "i \<noteq> sid"
  shows "same_segment i t (t\<lparr>hot := fst (store_put sid d x (hot t))\<rparr>)"
    "tier_resolve (t\<lparr>hot := fst (store_put sid d x (hot t))\<rparr>) i = tier_resolve t i"
  using store_put_other[OF assms]
  by (auto simp: same_segment_def store_for_def tier_resolve_def split: option.split tier.split)

lemma same_segment_delete:
  assumes "i \<noteq> sid"
  shows "same_segment i t (delete_both sid t)" "tier_resolve (delete_both sid t) i = tier_resolve t i"
  using store_delete_other[OF assms]
  by (auto simp: same_segment_def store_for_def tier_resolve_def delete_both_def split: option.split tier.split)

lemma delete_both_gone: "tier_resolve t i = None \<Longrightarrow> tier_resolve (delete_both sid t) i = None"
proof (cases "i = sid")
  case True
  have "\<not> store_exists sid q st \<Longrightarrow> \<not> store_exists sid q (fst (store_delete sid st))" for q st
    by (auto simp: store_delete_def Let_def store_exists_def store_file_def[symmetric] store_file_unlink)
  then show "tier_resolve t i = None \<Longrightarrow> tier_resolve (delete_both sid t) i = None"
    using True by (auto simp: tier_resolve_def delete_both_def split: option.splits if_splits)
qed (simp add: same_segment_delete)

section \<open>Records a segment can hold\<close>

text \<open>
  The frame of a record stays below \<open>FRAME_MAX\<close>, which leaves room for the largest record, its
  names and the envelope around its payload; the offsets of a segment file are 32 bits wide. The
  payload of a live record survives the JSON codec.
\<close>

definition FRAME_MAX :: nat where
  "FRAME_MAX = 4194304"

definition segment_form :: "env \<Rightarrow> seq \<Rightarrow> stored_record \<Rightarrow> segment_record" where
  "segment_form env s r = \<lparr>sg_seq = s, sg_ts = nat (max (sr_ts r) 0), sg_node = sr_node r, sg_tag = sr_tag r,
     sg_data = encode_payload env (sr_data r) (sr_meta r)\<rparr>"

definition json_kept :: "env \<Rightarrow> json \<Rightarrow> json option \<Rightarrow> bool" where
  "json_kept env d m \<longleftrightarrow>
     env_from_slice env (encode_payload env d m) = Some (JObject ((''d'', d) # (case m of Some x \<Rightarrow> [(''m'', x)] | None \<Rightarrow> [])))"

definition storable :: "env \<Rightarrow> stored_record \<Rightarrow> bool" where
  "storable env r \<longleftrightarrow> seg_str_ok (sr_node r) \<and> seg_str_ok (sr_tag r) \<and> sr_ts r < 2 ^ 64 \<and>
     38 + length (str_bytes (sr_node r)) + length (str_bytes (sr_tag r)) + length (encode_payload env (sr_data r) (sr_meta r)) \<le> FRAME_MAX \<and>
     (\<not> sr_deleted r \<longrightarrow> json_kept env (sr_data r) (sr_meta r))"

lemma storable_form:
  assumes "storable env r" "s \<le> u64_max"
  shows "seg_record_ok (segment_form env s r)" "length (encode_data_frame crc (segment_form env s r)) \<le> FRAME_MAX"
    "\<not> sr_deleted r \<Longrightarrow> payload_of env (segment_form env s r) = slot_payload r"
proof -
  have ts: "nat (max (sr_ts r) 0) < 256 ^ 8"
    using assms(1) by (auto simp: storable_def max_def)
  have sq: "s < 256 ^ 8"
    using assms(2) by (simp add: u64_max_def)
  show "seg_record_ok (segment_form env s r)"
    using assms(1) ts sq by (simp add: storable_def seg_record_ok_def segment_form_def FRAME_MAX_def)
  show "length (encode_data_frame crc (segment_form env s r)) \<le> FRAME_MAX"
    using assms(1) by (simp add: storable_def segment_form_def encode_data_frame_def Let_def length_seg_body)
  show "payload_of env (segment_form env s r) = slot_payload r" if "\<not> sr_deleted r"
    using assms(1) that json_payload_roundtrip[of env "sr_data r" "sr_meta r"]
    by (simp add: storable_def json_kept_def payload_of_def segment_form_def slot_payload_def)
qed

section \<open>The payloads of a segment writer\<close>

text \<open>
  \<open>writer_holds env w n S P\<close>: everything below \<open>n\<close> has been fed; the caches and the active segment
  have the payloads \<open>P\<close> for the sequences in \<open>S\<close>; no file is there yet from the start of the active
  segment on, a file that was written can be read, and the byte limit of a segment leaves room for
  one more frame.
\<close>

definition reads_ok :: "topic_tier \<Rightarrow> bool" where
  "reads_ok t \<longleftrightarrow> (\<forall>p i. \<not> fs_fails (hot t) (ReadFile p i))"

definition seal_limit :: "segment_config \<Rightarrow> bool" where
  "seal_limit c \<longleftrightarrow> 0 < max_bytes c \<and> max_bytes c + FRAME_MAX \<le> 256 ^ 4"

definition open_from :: "segment_writer \<Rightarrow> seq \<Rightarrow> seq" where
  "open_from w n = (case sw_active w of Some b \<Rightarrow> sb_start_seq b | None \<Rightarrow> n)"

definition active_holds :: "env \<Rightarrow> segment_config \<Rightarrow> (seq \<Rightarrow> bool) \<Rightarrow> (seq \<Rightarrow> resolved_payload) \<Rightarrow> segment_builder \<Rightarrow> bool" where
  "active_holds env c S P b \<longleftrightarrow> (\<exists>recs. recs \<noteq> [] \<and> b = build (env_crc env) (builder_new (sb_start_seq b)) recs \<and>
     map sg_seq recs = [sb_start_seq b..<sb_start_seq b + length recs] \<and> length (sb_data b) < max_bytes c + FRAME_MAX \<and>
     (\<forall>x\<in>set recs. seg_record_ok x \<and> (S (sg_seq x) \<longrightarrow> payload_of env x = P (sg_seq x))))"

definition caches_hold :: "seq \<Rightarrow> (seq \<Rightarrow> bool) \<Rightarrow> (seq \<Rightarrow> resolved_payload) \<Rightarrow> segment_writer \<Rightarrow> bool" where
  "caches_hold n S P w \<longleftrightarrow> (\<forall>(s, p)\<in>set (sw_cache w) \<union> set (sw_cold_cache w). s < n \<and> (S s \<longrightarrow> p = P s))"

definition writer_holds :: "env \<Rightarrow> segment_writer \<Rightarrow> seq \<Rightarrow> (seq \<Rightarrow> bool) \<Rightarrow> (seq \<Rightarrow> resolved_payload) \<Rightarrow> bool" where
  "writer_holds env w n S P \<longleftrightarrow> writer_wf env w n \<and> reads_ok (sw_tier w) \<and> seal_limit (sw_cfg w) \<and>
     (\<forall>i\<ge>open_from w n. tier_resolve (sw_tier w) i = None) \<and> caches_hold n S P w \<and>
     (\<forall>b. sw_active w = Some b \<longrightarrow> active_holds env (sw_cfg w) S P b)"

lemma writer_holdsD:
  assumes "writer_holds env w n S P"
  shows "writer_wf env w n" "reads_ok (sw_tier w)" "seal_limit (sw_cfg w)" "open_from w n \<le> i \<Longrightarrow> tier_resolve (sw_tier w) i = None"
    "caches_hold n S P w" "sw_active w = Some b \<Longrightarrow> active_holds env (sw_cfg w) S P b"
    "registry_ok (sw_sealed w)" "tier_ok (sw_tier w)" "active_ok env w n"
  using assms by (auto simp: writer_holds_def writer_wf_def)

lemma caches_hold_mono: "caches_hold n S P w \<Longrightarrow> n \<le> m \<Longrightarrow> caches_hold m S P w"
  unfolding caches_hold_def by (auto dest!: bspec)

lemma ring_push_set: "set (ring_push cap x r) \<subseteq> insert x (set r)"
  by (auto simp: ring_push_def Let_def dest: in_set_dropD)

lemma cache_sealed_image:
  assumes crc: "crc_ok env" and im: "seg_image (env_crc env) start recs flags st"
    and data: "data = concat (flagged_frames (env_crc env) recs flags)" "idx = concat (map encode_idx_entry (idx_entries (env_crc env) 0 recs))"
    and "set ss \<subseteq> {start..<start + length recs}"
  shows "set (cache_sealed env data idx start ss cap cache) \<subseteq> set cache \<union> (\<lambda>s. (s, payload_of env (recs ! (s - start)))) ` set ss"
  using assms(5)
proof (induction ss arbitrary: cache)
  case (Cons s ss)
  obtain i where i: "s = start + i" "i < length recs"
    using Cons.prems by (auto dest: le_Suc_ex)
  let ?e = "frame_entry (env_crc env) recs i"
  have c: "\<forall>bs. env_crc env bs < 256 ^ 8"
    using crc by (simp add: crc_ok_def)
  have "idx_lookup idx start s = Some ?e" "ie_offset ?e + ie_len ?e \<le> length data"
      "decode_data_frame (env_crc env) (sub_slice (ie_offset ?e) (ie_offset ?e + ie_len ?e) data) = Inr (recs ! i)"
    using image_idx(1)[OF im i(2)] image_entry(2)[OF im i(2)] image_decode[OF im i(2) c] by (simp_all add: data i(1) decode_data_frame_def)
  then have step: "cache_sealed env data idx start (s # ss) cap cache =
      cache_sealed env data idx start ss cap (if cap = 0 then cache else ring_push cap (s, payload_of env (recs ! i)) cache)"
    by (simp add: Let_def payload_of_def split_beta)
  show ?case
    unfolding step using Cons.IH[of "if cap = 0 then cache else ring_push cap (s, payload_of env (recs ! i)) cache"] Cons.prems i(1)
      ring_push_set[of cap "(s, payload_of env (recs ! i))" cache]
    by (auto split: if_splits)
qed simp

text \<open>Sealing the active segment.\<close>

definition put_active :: "segment_builder \<Rightarrow> segment_writer \<Rightarrow> segment_writer" where
  "put_active b w = w\<lparr>sw_active := None, sw_active_started_ms := 0,
     sw_tier := (sw_tier w)\<lparr>hot := fst (store_put (sb_start_seq b) (sb_data b) (sb_idx b) (hot (sw_tier w)))\<rparr>\<rparr>"

lemma seal_active_put:
  assumes "sw_active w = Some b" "record_count b \<noteq> 0" "tier_resolve (sw_tier w) (sb_start_seq b) = None"
  shows "seal_active env w =
    (if snd (store_put (sb_start_seq b) (sb_data b) (sb_idx b) (hot (sw_tier w))) = None
     then ((put_active b w)\<lparr>sw_sealed := sw_sealed w @ [\<lparr>ss_start_seq = sb_start_seq b, ss_end_seq = builder_end_seq b,
             ss_data_len = length (sb_data b), ss_tier = Hot\<rparr>],
             sw_cache := cache_sealed env (sb_data b) (sb_idx b) (sb_start_seq b) [sb_start_seq b..<Suc (builder_end_seq b)] (sw_cache_cap w) (sw_cache w)\<rparr>,
           [sb_start_seq b..<Suc (builder_end_seq b)])
     else (put_active b w, []))"
  using assms by (cases "store_put (sb_start_seq b) (sb_data b) (sb_idx b) (hot (sw_tier w))"; cases "snd (store_put (sb_start_seq b) (sb_data b) (sb_idx b) (hot (sw_tier w)))")
    (simp_all add: seal_active_def builder_finish_def put_active_def Let_def del: upt_Suc)

lemma seal_holds:
  assumes crc: "crc_ok env" and h: "writer_holds env w n S P" and out: "seal_active env w = (w', sealed)"
  shows "writer_holds env w' n S P" "sw_active w' = None" "x \<in> set sealed \<Longrightarrow> x < n" "x \<in> set sealed \<Longrightarrow> S x \<Longrightarrow> sealed_as env w' x (P x)"
    "sealed_as env w y q \<Longrightarrow> sealed_as env w' y q" "sw_cfg w' = sw_cfg w" "sw_evict_resident w' = sw_evict_resident w"
proof -
  have "writer_holds env w' n S P \<and> sw_active w' = None \<and> (\<forall>x\<in>set sealed. S x \<longrightarrow> sealed_as env w' x (P x)) \<and>
    (\<forall>y q. sealed_as env w y q \<longrightarrow> sealed_as env w' y q) \<and> sw_cfg w' = sw_cfg w \<and> sw_evict_resident w' = sw_evict_resident w"
  proof (cases "sw_active w")
    case None
    then show ?thesis
      using out h by (simp add: seal_active_def)
  next
    case (Some b)
    let ?st = "sb_start_seq b" and ?crc = "env_crc env" and ?t = "sw_tier w"
    note d = writer_holdsD[OF h]
    obtain recs where r: "recs \<noteq> []" "b = build ?crc (builder_new ?st) recs" "map sg_seq recs = [?st..<?st + length recs]"
        "length (sb_data b) < max_bytes (sw_cfg w) + FRAME_MAX" "\<And>x. x \<in> set recs \<Longrightarrow> seg_record_ok x"
        "\<And>x. x \<in> set recs \<Longrightarrow> S (sg_seq x) \<Longrightarrow> payload_of env x = P (sg_seq x)"
      using d(6)[OF Some] unfolding active_holds_def by blast
    note cnt = active_ok_count[OF d(9) Some]
    have stop: "Suc (builder_end_seq b) = ?st + length recs"
      unfolding cnt(4)[symmetric] by (subst r(2)) (simp add: build_fields builder_new_def)
    have none: "tier_resolve ?t ?st = None"
      by (rule d(4)) (simp add: open_from_def Some)
    have dat: "sb_data b = concat (map (encode_data_frame ?crc) recs)" "sb_idx b = concat (map encode_idx_entry (idx_entries ?crc 0 recs))"
      by (subst r(2), simp add: build_fields builder_new_def)+
    have small: "length (sb_data b) < 256 ^ 4"
      using r(4) d(3) by (simp add: seal_limit_def)
    obtain hs res where put: "store_put ?st (sb_data b) (sb_idx b) (hot ?t) = (hs, res)" by fastforce
    have hok: "store_ok (hot ?t)"
      using d(8) by (simp add: tier_ok_def)
    let ?w1 = "put_active b w"
    have t1: "sw_tier ?w1 = ?t\<lparr>hot := fst (store_put ?st (sb_data b) (sb_idx b) (hot ?t))\<rparr>"
      by (simp add: put_active_def)
    note same = same_segment_put[OF hok, of _ ?st "sb_data b" "sb_idx b", folded t1]
    have f1: "sw_active ?w1 = None" "sw_sealed ?w1 = sw_sealed w" "sw_cache ?w1 = sw_cache w" "sw_cold_cache ?w1 = sw_cold_cache w"
        "sw_cfg ?w1 = sw_cfg w" "sw_evict_resident ?w1 = sw_evict_resident w" "sw_tier ?w1 = ?t\<lparr>hot := hs\<rparr>"
      using put by (simp_all add: put_active_def)
    have below: "ss_end_seq g < ?st" "ss_start_seq g \<noteq> ?st" if "g \<in> set (sw_sealed w)" for g
      using d(7,9) that Some by (fastforce simp: active_ok_def registry_ok_def)+
    have wf: "writer_wf env w' n"
      using seal_active_wf(1)[OF d(1)] out by (simp add: fst_def)
    have act: "sw_active w' = None"
      using seal_active_wf(2)[OF d(1)] out by (simp add: fst_def)
    note eq = seal_active_put[OF Some _ none, of env, unfolded put snd_conv]
    have sw': "sw_tier w' = ?t\<lparr>hot := hs\<rparr>" "sw_cfg w' = sw_cfg w" "sw_evict_resident w' = sw_evict_resident w" "sw_cold_cache w' = sw_cold_cache w"
        "set (sw_sealed w) \<subseteq> set (sw_sealed w')"
      using eq out cnt(1) f1 by (auto split: if_splits)
    have mono: "sealed_as env w' y q" if "sealed_as env w y q" for y q
      using that wf sw'(1,5) same(1) below(2)
      by (intro sealed_as_mono[OF that]) (auto simp: writer_wf_def f1(7) dest: segment_for_Some)
    have im: "seg_image ?crc ?st recs (replicate (length recs) SEG_DEL_LIVE) hs" if "res = None"
      using put_image[OF hok put[unfolded that] _ _ r(3), of ?crc] r(2,5) small by (simp add: builder_finish_def)
    have frames: "flagged_frames ?crc recs (replicate (length recs) SEG_DEL_LIVE) = map (encode_data_frame ?crc) recs"
      by (induction recs) (simp_all add: flagged_frames_def set_del_flag_live)
    have at: "recs ! (x - ?st) \<in> set recs" "sg_seq (recs ! (x - ?st)) = x" if "?st \<le> x" "x < ?st + length recs" for x
      using that arg_cong[OF r(3), of "\<lambda>l. l ! (x - ?st)"] by auto
    have caches: "caches_hold n S P w'"
    proof (cases res)
      case None
      then have "sw_cache w' = cache_sealed env (sb_data b) (sb_idx b) ?st [?st..<?st + length recs] (sw_cache_cap w) (sw_cache w)"
        using eq out cnt(1) stop by auto
      then have "set (sw_cache w') \<subseteq> set (sw_cache w) \<union> (\<lambda>s. (s, payload_of env (recs ! (s - ?st)))) ` {?st..<?st + length recs}"
        using cache_sealed_image[OF crc im[OF None], of "sb_data b" "sb_idx b" "[?st..<?st + length recs]" "sw_cache_cap w" "sw_cache w"]
        by (simp add: frames dat)
      moreover have "payload_of env (recs ! (s - ?st)) = P s" if "?st \<le> s" "s < ?st + length recs" "S s" for s
        using r(6)[OF at(1)[OF that(1,2)]] at(2)[OF that(1,2)] that(3) by simp
      moreover have "?st + length recs \<le> n"
        using cnt(3) stop by simp
      ultimately show ?thesis
        using d(5) sw'(4) unfolding caches_hold_def by (auto dest!: subsetD)
    next
      case (Some e)
      then show ?thesis
        using eq out cnt(1) d(5) f1(3,4) by (auto simp: caches_hold_def)
    qed
    have here: "sealed_as env w' x (P x)" if x: "x \<in> set sealed" "S x" for x
    proof -
      have none: "res = None" and rng: "?st \<le> x" "x < ?st + length recs"
        using eq out cnt(1) x(1) stop by (auto split: if_splits simp del: upt_Suc)
      then have g: "\<lparr>ss_start_seq = ?st, ss_end_seq = builder_end_seq b, ss_data_len = length (sb_data b), ss_tier = Hot\<rparr> \<in> set (sw_sealed w')" (is "?g \<in> _")
        using eq out cnt(1) by auto
      have seg: "segment_for w' x = Some ?g"
        using wf rng stop by (intro segment_for_member[OF _ g]) (auto simp: writer_wf_def)
      have sf: "store_for (sw_tier w') ?st = Some hs"
        using image_exists[OF im[OF none]] by (simp add: sw'(1) store_for_def tier_resolve_def)
      have rd: "\<not> fs_fails hs (ReadFile p i)" for p i
        using d(2) store_put_success(2)[OF hok put[unfolded none]] by (simp add: reads_ok_def)
      have "read_locator env \<lparr>loc_tier = sw_tier w', loc_seg = ?g, loc_seq = x\<rparr> = Some (payload_of env (recs ! (x - ?st)))"
        using read_locator_image[OF crc _ im[OF none], where loc="\<lparr>loc_tier = sw_tier w', loc_seg = ?g, loc_seq = x\<rparr>" and i="x - ?st"] sf rng rd
        by (simp add: SEG_DEL_LIVE_def SEG_DEL_SENTINEL_def)
      then show ?thesis
        using seg r(6)[OF at(1)[OF rng]] at(2)[OF rng] x(2) by (simp add: sealed_as_def)
    qed
    have "reads_ok (sw_tier w')"
      using d(2) store_put_other(2)[OF hok, of "Suc ?st" ?st "sb_data b" "sb_idx b"] put by (simp add: sw'(1) reads_ok_def)
    moreover have "tier_resolve (sw_tier w') i = None" if "n \<le> i" for i
    proof -
      have i: "?st < i" "open_from w n \<le> i"
        using that cnt(2,3) Some by (simp_all add: open_from_def)
      then show ?thesis
        using same(2)[of i] d(4)[OF i(2)] by (simp add: sw'(1) f1(7))
    qed
    ultimately have "writer_holds env w' n S P"
      using wf act caches d(3) by (simp add: writer_holds_def open_from_def sw'(2))
    then show ?thesis
      using act here mono sw'(2,3) by blast
  qed
  then show "writer_holds env w' n S P" "sw_active w' = None" "x \<in> set sealed \<Longrightarrow> S x \<Longrightarrow> sealed_as env w' x (P x)"
    "sealed_as env w y q \<Longrightarrow> sealed_as env w' y q" "sw_cfg w' = sw_cfg w" "sw_evict_resident w' = sw_evict_resident w"
    by blast+
  show "x \<in> set sealed \<Longrightarrow> x < n"
    using seal_active_wf(3)[OF writer_holdsD(1)[OF h]] out by simp
qed

lemma append_record_holds:
  assumes crc: "crc_ok env" and h: "writer_holds env w n S P" and s: "n \<le> s" "s \<le> u64_max" and st: "storable env r"
    and P: "S s \<longrightarrow> \<not> sr_deleted r \<and> slot_payload r = P s"
    and out: "append_record env s (sr_ts r) (sr_node r) (sr_tag r) (sr_data r) (sr_meta r) w = (w', sealed)"
  shows "writer_holds env w' (Suc s) S P" "x \<in> set sealed \<Longrightarrow> x < n" "x \<in> set sealed \<Longrightarrow> S x \<Longrightarrow> sealed_as env w' x (P x)"
    "sealed_as env w y q \<Longrightarrow> sealed_as env w' y q" "sw_evict_resident w' = sw_evict_resident w"
proof -
  define gap where "gap \<longleftrightarrow> (case sw_active w of Some a \<Rightarrow> record_count a > 0 \<and> sb_next_seq a \<noteq> s | None \<Rightarrow> False)"
  obtain w1 sl where p: "(if gap \<or> should_seal_before env w then seal_active env w else (w, [])) = (w1, sl)" by fastforce
  define w2 where "w2 = (case sw_active w1 of
      None \<Rightarrow> w1\<lparr>sw_active := Some (builder_new s), sw_active_started_ms := sr_ts r\<rparr> | Some _ \<Rightarrow> w1)"
  have w': "w' = w2\<lparr>sw_active := map_option (builder_push (env_crc env) (segment_form env s r)) (sw_active w2)\<rparr>" "sealed = sl"
    using out p unfolding append_record_def gap_def[symmetric] by (simp_all add: w2_def segment_form_def Let_def)
  have h1: "writer_holds env w1 n S P" "sw_evict_resident w1 = sw_evict_resident w"
    using p h seal_holds(1,7)[OF crc h] by (auto split: if_splits)
  have sl: "x < n" "S x \<Longrightarrow> sealed_as env w1 x (P x)" if "x \<in> set sl" for x
    using p that seal_holds(3,4)[OF crc h] by (auto split: if_splits)
  have mono: "sealed_as env w y q \<Longrightarrow> sealed_as env w1 y q" for y q
    using p seal_holds(5)[OF crc h] by (auto split: if_splits)
  have same: "sealed_as env w' = sealed_as env w1" "sw_evict_resident w' = sw_evict_resident w1"
      "sw_tier w' = sw_tier w1" "sw_cfg w' = sw_cfg w1" "caches_hold m S P w' = caches_hold m S P w1" for m
    by (simp_all add: fun_eq_iff sealed_as_def segment_for_def w' w2_def caches_hold_def split: option.split)
  have wf: "writer_wf env w' (Suc s)"
    using append_record_wf(1)[OF writer_holdsD(1)[OF h] s(1), of "sr_ts r" "sr_node r" "sr_tag r" "sr_data r" "sr_meta r"] out by simp
  note f = storable_form[OF st s(2)]
  have form: "sg_seq (segment_form env s r) = s" "S s \<Longrightarrow> payload_of env (segment_form env s r) = P s"
    using f(3) P by (simp_all add: segment_form_def)
  note d = writer_holdsD[OF h1(1)]
  have act: "\<exists>b. sw_active w' = Some b \<and> active_holds env (sw_cfg w1) S P b \<and> open_from w1 n \<le> sb_start_seq b"
  proof (cases "sw_active w1")
    case None
    let ?b = "builder_push (env_crc env) (segment_form env s r) (builder_new s)"
    have b: "?b = build (env_crc env) (builder_new s) [segment_form env s r]" by simp
    have "sb_start_seq ?b = s" "sb_data ?b = encode_data_frame (env_crc env) (segment_form env s r)"
      unfolding b build_fields by (simp_all add: builder_new_def)
    then have "active_holds env (sw_cfg w1) S P ?b"
      using f(1) f(2)[of "env_crc env"] form d(3) unfolding active_holds_def
      by (intro exI[of _ "[segment_form env s r]"]) (auto simp: seal_limit_def le_imp_less_Suc intro: le_less_trans)
    then show ?thesis
      using None \<open>sb_start_seq ?b = s\<close> s(1) by (simp add: w' w2_def open_from_def)
  next
    case (Some b)
    have no: "\<not> (gap \<or> should_seal_before env w)" "w1 = w"
      using p Some seal_holds(2)[OF crc h] by (auto split: if_splits)
    note cnt = active_ok_count[OF d(9) Some]
    obtain recs where rc: "recs \<noteq> []" "b = build (env_crc env) (builder_new (sb_start_seq b)) recs"
        "map sg_seq recs = [sb_start_seq b..<sb_start_seq b + length recs]"
        "\<forall>x\<in>set recs. seg_record_ok x \<and> (S (sg_seq x) \<longrightarrow> payload_of env x = P (sg_seq x))"
      using d(6)[OF Some] unfolding active_holds_def by blast
    have nx: "sb_next_seq b = s"
      using no Some cnt(1) by (simp add: gap_def)
    have len: "sb_start_seq b + length recs = s"
      using nx by (subst (asm) rc(2)) (simp add: build_fields builder_new_def)
    have dl: "length (sb_data b) < max_bytes (sw_cfg w1)"
      using no Some cnt(1) d(3) by (auto simp: should_seal_before_def seal_limit_def Let_def split: if_splits)
    let ?b = "builder_push (env_crc env) (segment_form env s r) b"
    have eq: "?b = build (env_crc env) (builder_new (sb_start_seq b)) (recs @ [segment_form env s r])"
      unfolding build_snoc rc(2)[symmetric] ..
    have "sb_start_seq ?b = sb_start_seq b" "length (sb_data ?b) \<le> length (sb_data b) + FRAME_MAX"
      using f(2)[of "env_crc env"] by (simp_all add: builder_push_def Let_def)
    moreover have "map sg_seq (recs @ [segment_form env s r]) = [sb_start_seq b..<sb_start_seq b + length (recs @ [segment_form env s r])]"
      using rc(3) len form(1) by simp
    ultimately have "active_holds env (sw_cfg w1) S P ?b"
      using f(1) form dl rc(4) eq unfolding active_holds_def
      by (intro exI[of _ "recs @ [segment_form env s r]"]) auto
    then show ?thesis
      using Some \<open>sb_start_seq ?b = sb_start_seq b\<close> by (simp add: w' w2_def open_from_def)
  qed
  then show "writer_holds env w' (Suc s) S P"
    using wf d caches_hold_mono[OF d(5), of "Suc s"] s(1) unfolding writer_holds_def same open_from_def[of w'] by auto
  show "x \<in> set sealed \<Longrightarrow> x < n" "x \<in> set sealed \<Longrightarrow> S x \<Longrightarrow> sealed_as env w' x (P x)"
    "sealed_as env w y q \<Longrightarrow> sealed_as env w' y q" "sw_evict_resident w' = sw_evict_resident w"
    using sl mono h1(2) same w'(2) by simp_all
qed

lemma writer_holds_skip:
  assumes h: "writer_holds env w n S P" and "n \<le> m"
  shows "writer_holds env w m S P"
proof -
  note d = writer_holdsD[OF h]
  have "active_ok env w m"
    using d(9) assms(2) by (fastforce simp: active_ok_def split: option.splits)
  moreover have "open_from w n \<le> open_from w m"
    using assms(2) by (simp add: open_from_def split: option.split)
  moreover have "caches_hold m S P w"
    by (rule caches_hold_mono[OF d(5) assms(2)])
  ultimately show ?thesis
    using d by (auto simp: writer_holds_def writer_wf_def)
qed

lemma feed_writer_holds:
  assumes "crc_ok env" "writer_holds env w n S P" "sorted_wrt (<) (map fst ps)" "\<forall>(s, r)\<in>set ps. n \<le> s \<and> s < m \<and> s \<le> u64_max \<and> storable env r \<and>
      (S s \<longrightarrow> \<not> sr_deleted r \<and> slot_payload r = P s)" "n \<le> m" "feed_writer env ps w = (w', sealed)"
  shows "writer_holds env w' m S P \<and> (\<forall>x\<in>set sealed. x < m \<and> (S x \<longrightarrow> sealed_as env w' x (P x))) \<and>
    (\<forall>y q. sealed_as env w y q \<longrightarrow> sealed_as env w' y q) \<and> sw_evict_resident w' = sw_evict_resident w"
  using assms(2-6)
proof (induction ps arbitrary: w n sealed)
  case Nil
  then show ?case
    using writer_holds_skip by auto
next
  case (Cons a ps)
  obtain s r where a: "a = (s, r)" by fastforce
  obtain w1 s1 where one: "append_record env s (sr_ts r) (sr_node r) (sr_tag r) (sr_data r) (sr_meta r) w = (w1, s1)" by fastforce
  obtain s2 where rest: "feed_writer env ps w1 = (w', s2)" and eq: "sealed = s1 @ s2"
    using Cons.prems(5) one by (auto simp: a split: prod.splits)
  have pre: "n \<le> s" "s < m" "s \<le> u64_max" "storable env r" "S s \<longrightarrow> \<not> sr_deleted r \<and> slot_payload r = P s"
    using Cons.prems(3) by (simp_all add: a)
  note h = append_record_holds[OF assms(1) Cons.prems(1) pre(1,3,4,5) one]
  have "sorted_wrt (<) (map fst ps)" "\<forall>(x, q)\<in>set ps. Suc s \<le> x \<and> x < m \<and> x \<le> u64_max \<and> storable env q \<and> (S x \<longrightarrow> \<not> sr_deleted q \<and> slot_payload q = P x)"
    using Cons.prems(2,3) by (fastforce simp: a)+
  from Cons.IH[OF h(1) this _ rest] pre(2)
  have i: "writer_holds env w' m S P" "\<forall>x\<in>set s2. x < m \<and> (S x \<longrightarrow> sealed_as env w' x (P x))"
      "\<forall>y q. sealed_as env w1 y q \<longrightarrow> sealed_as env w' y q" "sw_evict_resident w' = sw_evict_resident w1"
    by simp_all
  have "x < m" if "x \<in> set s1" for x
    using h(2)[OF that] pre(1,2) by simp
  then show ?case
    using i h(3-5) by (auto simp: eq)
qed

section \<open>The payloads of a topic\<close>

definition raw_slot :: "topic_state \<Rightarrow> seq \<Rightarrow> stored_record" where
  "raw_slot t s = records (t_index t) ! (s - base_seq (t_index t))"

definition reads_as :: "env \<Rightarrow> topic_state \<Rightarrow> seq \<Rightarrow> resolved_payload \<Rightarrow> bool" where
  "reads_as env t s p \<longleftrightarrow>
     (if sr_payload_resident (raw_slot t s) then slot_payload (raw_slot t s) = p
      else \<exists>w. t_segwriter t = Some w \<and> sealed_as env w s p)"

definition unfed_ok :: "env \<Rightarrow> topic_state \<Rightarrow> seq \<Rightarrow> bool" where
  "unfed_ok env t n \<longleftrightarrow> (\<forall>s. n \<le> s \<and> base_seq (t_index t) \<le> s \<and> s < tail t \<longrightarrow>
     storable env (raw_slot t s) \<and> (is_live (t_index t) s \<longrightarrow> sr_payload_resident (raw_slot t s)))"

definition slots_hold :: "env \<Rightarrow> topic_state \<Rightarrow> seq \<Rightarrow> (seq \<Rightarrow> bool) \<Rightarrow> (seq \<Rightarrow> resolved_payload) \<Rightarrow> bool" where
  "slots_hold env t n S P \<longleftrightarrow> (\<forall>s. S s \<and> is_live (t_index t) s \<longrightarrow> reads_as env t s (P s)) \<and>
     (\<forall>w. t_segwriter t = Some w \<longrightarrow> writer_holds env w n (\<lambda>s. S s \<and> is_live (t_index t) s) P \<and> unfed_ok env t n \<and> n \<le> tail t)"

definition payloads :: "env \<Rightarrow> topic_state \<Rightarrow> (seq \<Rightarrow> resolved_payload) \<Rightarrow> bool" where
  "payloads env t P \<longleftrightarrow> slots_hold env t (seam_next (t_seam t)) (\<lambda>_. True) P \<and>
     (\<forall>(a, b)\<in>set (seam_pending (t_seam t)). b < tail t)"

lemma slots_hold_cong:
  assumes "t_index t' = t_index t" "t_segwriter t' = t_segwriter t"
  shows "slots_hold env t' = slots_hold env t"
proof -
  have "raw_slot t' = raw_slot t" "tail t' = tail t"
    using assms by (simp_all add: raw_slot_def tail_def fun_eq_iff)
  then show ?thesis
    using assms by (simp add: slots_hold_def reads_as_def unfed_ok_def fun_eq_iff)
qed

text \<open>The code outside the repository that sealing relies on: a 64-bit checksum, and a short encoding of the empty payload.\<close>

definition codec_ok :: "env \<Rightarrow> bool" where
  "codec_ok env \<longleftrightarrow> crc_ok env \<and> length (encode_payload env JNull None) \<le> 65536"

lemma storable_dead:
  assumes "codec_ok env" "seg_str_ok (sr_node r)" "sr_ts r < 2 ^ 64"
  shows "storable env (dead_slot r)"
proof -
  have "length (str_bytes (sr_node r)) < 256 ^ 2"
    by (rule seg_str_length[OF assms(2)])
  then show ?thesis
    using assms by (simp add: storable_def dead_slot_def codec_ok_def FRAME_MAX_def seg_str_ok_def[of None] str_bytes_def[of None])
qed

lemma storable_hole: "codec_ok env \<Longrightarrow> storable env deleted_hole"
  by (simp add: storable_def deleted_hole_def codec_ok_def FRAME_MAX_def seg_str_ok_def str_bytes_def)

definition freed :: "stored_record \<Rightarrow> stored_record" where
  "freed r = r\<lparr>sr_payload_resident := False, sr_data := JNull, sr_meta := None\<rparr>"

lemma freed_simps [simp]: "sr_deleted (freed r) = sr_deleted r" "\<not> sr_payload_resident (freed r)"
  by (simp_all add: freed_def)

lemma free_payload_fields:
  "base_seq (free_payload s ix) = base_seq ix" "length (records (free_payload s ix)) = length (records ix)"
  "i < length (records ix) \<Longrightarrow> records (free_payload s ix) ! i =
     (if base_seq ix + i = s \<and> \<not> sr_deleted (records ix ! i) \<and> sr_payload_resident (records ix ! i) then freed (records ix ! i) else records ix ! i)"
  by (auto simp: free_payload_def freed_def Let_def nth_list_update slot_idx_Some slot_idx_None split: option.split)

lemma fold_free_payload_fields:
  "base_seq (fold free_payload ss ix) = base_seq ix" "length (records (fold free_payload ss ix)) = length (records ix)"
  "i < length (records ix) \<Longrightarrow> records (fold free_payload ss ix) ! i =
     (if base_seq ix + i \<in> set ss \<and> \<not> sr_deleted (records ix ! i) \<and> sr_payload_resident (records ix ! i) then freed (records ix ! i) else records ix ! i)"
  by (induction ss arbitrary: ix) (auto simp: free_payload_fields)

lemma materialize_segment_holds:
  assumes env: "codec_ok env" and h: "slots_hold env t n S P" and rng: "n \<le> a" "a \<le> Suc b" "b < tail t" and tl: "tail t \<le> u64_max"
    and t': "t' = materialize_segment env a b t"
  shows "slots_hold env t' (Suc b) S P"
proof (cases "t_segwriter t")
  case None
  then show ?thesis
    using t' h by (simp add: materialize_segment_def slots_hold_def)
next
  case (Some w)
  let ?L = "\<lambda>s. S s \<and> is_live (t_index t) s"
  define ps where "ps = concat (map (\<lambda>s. case ix_get (t_index t) s of Some r \<Rightarrow> [(s, r)] | None \<Rightarrow> []) [a..<Suc b])"
  obtain w' sealed where feed: "feed_writer env ps w = (w', sealed)" by fastforce
  have crc: "crc_ok env"
    using env by (simp add: codec_ok_def)
  have hw: "writer_holds env w n ?L P" and uf: "unfed_ok env t n" and rd: "\<And>s. ?L s \<Longrightarrow> reads_as env t s (P s)"
    using h Some by (simp_all add: slots_hold_def)
  have mem: "(s, r) \<in> set ps \<longleftrightarrow> a \<le> s \<and> s \<le> b \<and> ix_get (t_index t) s = Some r" for s r
    by (auto simp: ps_def less_Suc_eq_le split: option.splits)
  have "sorted_wrt (<) (map fst (concat (map (\<lambda>s. case ix_get ix s of Some r \<Rightarrow> [(s, r)] | None \<Rightarrow> []) xs)))" if "sorted_wrt (<) xs" for ix and xs :: "nat list"
    using that by (induction xs) (auto split: option.split)
  then have srt: "sorted_wrt (<) (map fst ps)"
    unfolding ps_def by (blast intro: sorted_wrt_upt)
  have slot: "r = raw_slot t s" "base_seq (t_index t) \<le> s" "s < tail t" "is_live (t_index t) s \<longleftrightarrow> \<not> sr_deleted r" if "(s, r) \<in> set ps" for s r
    using that unfolding mem by (auto simp: ix_get_Some raw_slot_def tail_def is_live_iff)
  have fed: "\<forall>(s, r)\<in>set ps. n \<le> s \<and> s < Suc b \<and> s \<le> u64_max \<and> storable env r \<and> (?L s \<longrightarrow> \<not> sr_deleted r \<and> slot_payload r = P s)"
  proof (clarify)
    fix s r assume m: "(s, r) \<in> set ps"
    note sl = slot[OF m]
    have "n \<le> s" "s \<le> b" using m rng by (simp_all add: mem)
    moreover have "storable env r" "is_live (t_index t) s \<Longrightarrow> sr_payload_resident r"
      using uf sl \<open>n \<le> s\<close> by (simp_all add: unfed_ok_def)
    ultimately show "n \<le> s \<and> s < Suc b \<and> s \<le> u64_max \<and> storable env r \<and> (?L s \<longrightarrow> \<not> sr_deleted r \<and> slot_payload r = P s)"
      using sl rd[of s] tl by (auto simp: reads_as_def)
  qed
  note f = feed_writer_holds[OF crc hw srt fed _ feed]
  have f1: "writer_holds env w' (Suc b) ?L P" "\<And>x. x \<in> set sealed \<Longrightarrow> x < Suc b" "\<And>x. x \<in> set sealed \<Longrightarrow> ?L x \<Longrightarrow> sealed_as env w' x (P x)"
      "\<And>y q. sealed_as env w y q \<Longrightarrow> sealed_as env w' y q"
    using f rng by auto
  have ix': "t_segwriter t' = Some w'" "t_index t' = t_index t \<or> t_index t' = fold free_payload sealed (t_index t)"
    using t' Some feed by (simp_all add: materialize_segment_def ps_def Let_def del: upt_Suc)
  have sim: "is_live (t_index t') s = is_live (t_index t) s" "tail t' = tail t" "base_seq (t_index t') = base_seq (t_index t)" for s
    using materialize_segment_sim[of t env a b] is_live_sim[of "t_index t" "t_index t'"] tail_sim[of t t'] by (simp_all add: t' topic_sim_def index_sim_def)
  have raw: "raw_slot t' s = raw_slot t s \<or> (s \<in> set sealed \<and> \<not> sr_deleted (raw_slot t s) \<and> raw_slot t' s = freed (raw_slot t s))"
    if "base_seq (t_index t) \<le> s" "s < tail t" for s
    using that ix'(2) fold_free_payload_fields(1,3)[where ss=sealed and ix="t_index t"] by (auto simp: raw_slot_def tail_def split: if_splits)
  have live_rng: "base_seq (t_index t) \<le> s \<and> s < tail t" if "is_live (t_index t) s" for s
    using that by (auto simp: is_live_iff tail_def)
  have "reads_as env t' s (P s)" if "?L s" for s
    using raw[of s] live_rng[of s] rd[OF that] f1(3)[of s] f1(4)[of s "P s"] that Some ix'(1) by (auto simp: reads_as_def)
  moreover have "unfed_ok env t' (Suc b)"
    unfolding unfed_ok_def sim
  proof (intro allI impI)
    fix s assume s: "Suc b \<le> s \<and> base_seq (t_index t) \<le> s \<and> s < tail t"
    then have "raw_slot t' s = raw_slot t s"
      using raw[of s] f1(2)[of s] by auto
    then show "storable env (raw_slot t' s) \<and> (is_live (t_index t) s \<longrightarrow> sr_payload_resident (raw_slot t' s))"
      using uf s rng by (simp add: unfed_ok_def)
  qed
  ultimately show ?thesis
    using f1(1) ix'(1) rng(3) by (simp add: slots_hold_def sim)
qed

text \<open>The seam hands out ranges that follow each other, all of them below the tail.\<close>

fun chained :: "seq \<Rightarrow> (seq \<times> seq) list \<Rightarrow> seq \<Rightarrow> bool" where
  "chained n [] m \<longleftrightarrow> n = m"
| "chained n ((a, b) # fs) m \<longleftrightarrow> a = n \<and> n \<le> Suc b \<and> chained (Suc b) fs m"

definition seam_below :: "seq \<Rightarrow> materialize_seam \<times> (seq \<times> seq) list \<Rightarrow> bool" where
  "seam_below T sf \<longleftrightarrow> (\<forall>(a, b)\<in>set (seam_pending (fst sf)) \<union> set (snd sf). b < T)"

lemma chained_snoc: "chained n fs m \<Longrightarrow> m \<le> b \<Longrightarrow> chained n (fs @ [(m, b)]) (Suc b)"
  by (induction n fs m rule: chained.induct) auto

lemma bt_remove_subset: "set (bt_remove k m) \<subseteq> set m"
  by (auto simp: bt_remove_def)

lemma bt_last_upto_mem: "bt_last_upto k m = Some p \<Longrightarrow> p \<in> set m"
  by (auto simp: bt_last_upto_def Let_def split: if_splits dest: last_in_set set_takeWhileD)

lemma bt_insert_subset: "set (bt_insert k v m) \<subseteq> insert (k, v) (set m)"
  by (induction k v m rule: bt_insert.induct) auto

lemma drain_seam_chained:
  assumes "chained n fs (seam_next seam)" "seam_below T (seam, fs)" "drain_seam seam fs = (seam', fs')"
  shows "chained n fs' (seam_next seam') \<and> seam_below T (seam', fs')"
  using assms
proof (induction seam fs arbitrary: seam' fs' rule: drain_seam.induct)
  case (1 seam fs)
  show ?case
  proof (cases "bt_last_upto (seam_next seam) (seam_pending seam)")
    case None
    then show ?thesis
      using 1(3-5) by (subst (asm) drain_seam.simps) simp
  next
    case (Some pr)
    obtain a b where pr: "(a, b) = pr" by (metis surj_pair)
    have sub: "set (bt_remove a (seam_pending seam)) \<subseteq> set (seam_pending seam)" and mem: "(a, b) \<in> set (seam_pending seam)"
      using bt_remove_subset bt_last_upto_mem[OF Some] pr by auto
    show ?thesis
    proof (cases "seam_next seam < a")
      case True
      then show ?thesis
        using 1(3-5) Some pr[symmetric] by (subst (asm) drain_seam.simps) simp
    next
      case F: False
      show ?thesis
      proof (cases "b < seam_next seam")
        case True
        let ?s1 = "seam\<lparr>seam_pending := bt_remove a (seam_pending seam)\<rparr>"
        have "drain_seam seam fs = drain_seam ?s1 fs"
          by (subst drain_seam.simps) (simp add: Some pr[symmetric] F True)
        then have "drain_seam ?s1 fs = (seam', fs')"
          using 1(5) by (rule subst)
        moreover have "seam_below T (?s1, fs)"
          using 1(4) sub by (auto simp: seam_below_def)
        ultimately show ?thesis
          using 1(3) by (intro 1(1)[OF Some pr F refl True]) simp_all
      next
        case False
        let ?s1 = "seam\<lparr>seam_pending := bt_remove a (seam_pending seam), seam_next := b + 1\<rparr>"
        have "chained n (fs @ [(seam_next seam, b)]) (seam_next ?s1)"
          using chained_snoc[OF 1(3), of b] False by simp
        moreover have "drain_seam seam fs = drain_seam ?s1 (fs @ [(seam_next seam, b)])"
          by (subst drain_seam.simps) (simp add: Some pr[symmetric] F False)
        then have "drain_seam ?s1 (fs @ [(seam_next seam, b)]) = (seam', fs')"
          using 1(5) by (rule subst)
        moreover have "seam_below T (?s1, fs @ [(seam_next seam, b)])"
          using 1(4) sub mem by (auto simp: seam_below_def)
        ultimately show ?thesis
          by (intro 1(2)[OF Some pr F refl False])
      qed
    qed
  qed
qed

lemma seam_admit_chained:
  assumes "seam_admit start stop seam = (seam', fs)" "stop < T" "\<forall>(a, b)\<in>set (seam_pending seam). b < T"
  shows "chained (seam_next seam) fs (seam_next seam') \<and> seam_below T (seam', fs)"
proof (cases "stop < seam_next seam")
  case False
  let ?v = "case map_of (seam_pending seam) start of Some e \<Rightarrow> max e stop | None \<Rightarrow> stop"
  define s1 where "s1 = (if max start (seam_next seam) = seam_next seam
      then (seam\<lparr>seam_next := stop + 1\<rparr>, [(max start (seam_next seam), stop)])
      else (seam\<lparr>seam_pending := bt_insert start ?v (seam_pending seam)\<rparr>, []))"
  have "?v < T"
    using assms(2,3) by (auto split: option.split dest!: map_of_SomeD)
  then have "chained (seam_next seam) (snd s1) (seam_next (fst s1))" "seam_below T (fst s1, snd s1)"
    using False assms(2,3) bt_insert_subset[of start ?v "seam_pending seam"] by (auto simp: s1_def seam_below_def)
  moreover have "drain_seam (fst s1) (snd s1) = (seam', fs)"
    using assms(1) False by (simp add: seam_admit_def Let_def split_beta s1_def[symmetric])
  ultimately show ?thesis
    by (rule drain_seam_chained)
qed (use assms in \<open>simp add: seam_admit_def seam_below_def\<close>)

lemma materialize_ranges_holds:
  assumes "codec_ok env" "slots_hold env t n S P" "chained n fs m" "\<forall>(a, b)\<in>set fs. b < tail t" "tail t \<le> u64_max"
  shows "slots_hold env (fold (\<lambda>(s, e). materialize_segment env s e) fs t) m S P"
  using assms(2-5)
proof (induction n fs m arbitrary: t rule: chained.induct)
  case (2 n a b fs m)
  let ?t = "materialize_segment env a b t"
  have "slots_hold env ?t (Suc b) S P" "tail ?t = tail t"
    using 2(2-5) materialize_segment_holds[OF assms(1) 2(2) _ _ _ 2(5) refl, of a b] tail_sim[OF materialize_segment_sim[of t env a b]] by simp_all
  then show ?case
    using 2(1)[of ?t] 2(3-5) by simp
qed simp

lemma materialize_published_payloads:
  assumes "codec_ok env" "payloads env t P" "tail t \<le> u64_max" "b < tail t"
  shows "payloads env (materialize_published env a b t) P"
proof (cases "t_segwriter t = None")
  case False
  obtain seam fs where adm: "seam_admit a b (t_seam t) = (seam, fs)" by fastforce
  let ?t = "t\<lparr>t_seam := seam\<rparr>"
  let ?t' = "fold (\<lambda>(s, e). materialize_segment env s e) fs ?t"
  have c: "chained (seam_next (t_seam t)) fs (seam_next seam)" "seam_below (tail t) (seam, fs)"
    using seam_admit_chained[OF adm assms(4)] assms(2) by (simp_all add: payloads_def)
  have "slots_hold env ?t (seam_next (t_seam t)) (\<lambda>_. True) P" "tail ?t = tail t"
    using assms(2,3) slots_hold_cong[of ?t t env] by (simp_all add: payloads_def tail_def)
  then have "slots_hold env ?t' (seam_next seam) (\<lambda>_. True) P"
    using c assms(3) by (intro materialize_ranges_holds[OF assms(1)]) (auto simp: seam_below_def)
  moreover have "t_seam (fold (\<lambda>(s, e). materialize_segment env s e) fs x) = t_seam x \<and> tail (fold (\<lambda>(s, e). materialize_segment env s e) fs x) = tail x" for fs x
    by (induction fs arbitrary: x) (auto simp: tail_sim[OF materialize_segment_sim], simp add: materialize_segment_def Let_def split_beta split: option.split)
  ultimately have "payloads env ?t' P"
    using c(2) \<open>tail ?t = tail t\<close> by (auto simp: payloads_def seam_below_def)
  moreover have "materialize_published env a b t = ?t'"
    using False adm unfolding materialize_published_def by (simp only: if_False prod.case Let_def)
  ultimately show ?thesis by simp
qed (use assms(2) in \<open>simp add: materialize_published_def\<close>)

text \<open>Every live record of the topic can be read.\<close>

definition payload_ok :: "env \<Rightarrow> topic_state \<Rightarrow> bool" where
  "payload_ok env t \<longleftrightarrow> (\<exists>P. payloads env t P)"

section \<open>Reading\<close>

lemma payloads_reads: "payloads env t P \<Longrightarrow> is_live (t_index t) s \<Longrightarrow> reads_as env t s (P s)"
  by (simp add: payloads_def slots_hold_def)

lemma caches_hit: "caches_hold n S P w \<Longrightarrow> S s \<Longrightarrow> cache_find (sw_cache w) s = Some p \<or> cache_find (sw_cold_cache w) s = Some p \<Longrightarrow> p = P s"
  by (auto simp: caches_hold_def cache_find_def dest!: map_of_SomeD)

lemma record_cold_read_fields [simp]:
  "sw_tier (record_cold_read loc p w) = sw_tier w" "sw_sealed (record_cold_read loc p w) = sw_sealed w"
  "sw_active (record_cold_read loc p w) = sw_active w" "sw_cache (record_cold_read loc p w) = sw_cache w" "sw_cfg (record_cold_read loc p w) = sw_cfg w"
  "set (sw_cold_cache (record_cold_read loc p w)) \<subseteq> insert (loc_seq loc, p) (set (sw_cold_cache w))"
  using ring_push_set[of "sw_cold_cache_cap w" "(loc_seq loc, p)" "sw_cold_cache w"] by (auto simp: record_cold_read_def Let_def)

lemma resolve_payload_holds:
  assumes h: "payloads env t P" and live: "is_live (t_index t) s" and out: "resolve_payload env s (raw_slot t s) t = (t', p)"
  shows "p = P s" "payloads env t' P"
proof -
  let ?r = "raw_slot t s"
  note rd = payloads_reads[OF h live]
  have "p = P s \<and> payloads env t' P"
  proof (cases "sr_payload_resident ?r")
    case True
    then show ?thesis
      using out rd h by (auto simp: resolve_payload_def reads_as_def)
  next
    case False
    then obtain w where w: "t_segwriter t = Some w" "sealed_as env w s (P s)"
      using rd by (auto simp: reads_as_def)
    then obtain g where g: "segment_for w s = Some g" "read_locator env \<lparr>loc_tier = sw_tier w, loc_seg = g, loc_seq = s\<rparr> = Some (P s)"
      by (auto simp: sealed_as_def)
    let ?loc = "\<lparr>loc_tier = sw_tier w, loc_seg = g, loc_seq = s\<rparr>"
    have hw: "writer_holds env w (seam_next (t_seam t)) (\<lambda>s. True \<and> is_live (t_index t) s) P"
      using h w by (simp add: payloads_def slots_hold_def)
    note d = writer_holdsD[OF hw]
    show ?thesis
    proof (cases "resolve_sealed_fast w s")
      case (Hit q)
      then have "q = P s"
        using caches_hit[OF d(5), of s q] live by (auto simp: resolve_sealed_fast_def split: option.splits)
      then show ?thesis
        using out False w Hit h by (simp add: resolve_payload_def)
    next
      case (Read loc)
      then have loc: "loc = ?loc"
        using g(1) by (auto simp: resolve_sealed_fast_def split: option.splits)
      let ?w = "record_cold_read ?loc (P s) w"
      have t': "p = P s" "t' = t\<lparr>t_segwriter := Some ?w\<rparr>"
        using out False w Read g(2) by (auto simp: resolve_payload_def loc)
      have "sealed_as env ?w = sealed_as env w"
        by (simp add: fun_eq_iff sealed_as_def segment_for_def)
      then have sl: "reads_as env t' x q = reads_as env t x q" for x q
        using w(1) by (simp add: reads_as_def t' raw_slot_def)
      have "s < seam_next (t_seam t)"
        using segment_for_Some[OF g(1)] d(9) by (fastforce simp: active_ok_def split: option.splits)
      then have "caches_hold (seam_next (t_seam t)) (\<lambda>s. True \<and> is_live (t_index t) s) P ?w"
        using d(5) record_cold_read_fields(6)[of ?loc "P s" w] by (auto simp: caches_hold_def dest!: subsetD)
      moreover have "writer_wf env ?w (seam_next (t_seam t))"
        using d(1) by (simp add: writer_wf_def active_ok_def cong: option.case_cong)
      ultimately have "writer_holds env ?w (seam_next (t_seam t)) (\<lambda>s. True \<and> is_live (t_index t) s) P"
        using hw by (simp add: writer_holds_def open_from_def)
      moreover have "unfed_ok env t' n = unfed_ok env t n" "tail t' = tail t" for n
        by (simp_all add: t' unfed_ok_def raw_slot_def tail_def)
      ultimately show ?thesis
        using h w(1) t' sl by (simp add: payloads_def slots_hold_def)
    next
      case NotSealed
      then show ?thesis
        using g(1) by (auto simp: resolve_sealed_fast_def split: option.splits)
    qed
  qed
  then show "p = P s" "payloads env t' P" by simp_all
qed

lemma resolved_payload:
  assumes "payloads env t P" "is_live (t_index t) s"
  shows "resolved env t s = with_payload (P s) (raw_slot t s)"
  using resolve_payload_holds(1)[OF assms, of "fst (resolve_payload env s (raw_slot t s) t)" "snd (resolve_payload env s (raw_slot t s) t)"]
  by (simp add: resolved_def raw_slot_def Let_def)

text \<open>What a reader is given is the readable log with the payloads put in.\<close>

definition fill :: "(seq \<Rightarrow> resolved_payload) \<Rightarrow> (seq \<times> stored_record) list \<Rightarrow> (seq \<times> stored_record) list" where
  "fill P v = map (\<lambda>(s, r). (s, with_payload (P s) r)) v"

lemma full_view_fill: "payloads env t P \<Longrightarrow> full_view env t = fill P (view t)"
  by (auto simp: full_view_def view_def fill_def visible_def resolved_payload slot_at_def raw_slot_def)

lemma forward_lookup_payload:
  assumes h: "payloads env t P" and out: "forward_lookup env s t = (t', slot)"
  shows "payloads env t' P" "slot = Some (r, True) \<Longrightarrow> with_payload (slot_payload r) r = with_payload (P s) (raw_slot t s)"
proof -
  have get: "ix_get (t_index t) s = Some q \<Longrightarrow> q = raw_slot t s \<and> (is_live (t_index t) s \<longleftrightarrow> \<not> sr_deleted q)" for q
    by (auto simp: ix_get_Some raw_slot_def is_live_iff)
  have "payloads env t' P \<and> (slot = Some (r, True) \<longrightarrow> with_payload (slot_payload r) r = with_payload (P s) (raw_slot t s))"
  proof (cases "ix_get (t_index t) s")
    case (Some q)
    note g = get[OF Some]
    show ?thesis
    proof (cases "sr_deleted q \<or> sr_payload_resident q")
      case True
      then show ?thesis
        using out Some h g payloads_reads[OF h, of s] by (auto simp: forward_lookup_def reads_as_def)
    next
      case False
      obtain t1 p where r: "resolve_payload env s (raw_slot t s) t = (t1, p)" by fastforce
      have "p = P s" "payloads env t1 P"
        using resolve_payload_holds[OF h _ r] g False by simp_all
      then show ?thesis
        using out Some False g r by (auto simp: forward_lookup_def with_payload_def slot_payload_def)
    qed
  qed (use out h in \<open>simp add: forward_lookup_def\<close>)
  then show "payloads env t' P" "slot = Some (r, True) \<Longrightarrow> with_payload (slot_payload r) r = with_payload (P s) (raw_slot t s)"
    by simp_all
qed

section \<open>Staging and publishing\<close>

text \<open>The payloads after a batch at the tail.\<close>

definition payloads_with :: "seq \<Rightarrow> stored_record list \<Rightarrow> (seq \<Rightarrow> resolved_payload) \<Rightarrow> seq \<Rightarrow> resolved_payload" where
  "payloads_with start rs P s = (if start \<le> s \<and> s < start + length rs then slot_payload (rs ! (s - start)) else P s)"

lemma writer_holds_weaken:
  assumes "writer_holds env w n S P" "\<And>s. s < n \<Longrightarrow> S' s \<Longrightarrow> S s \<and> P' s = P s"
  shows "writer_holds env w n S' P'"
proof -
  note d = writer_holdsD[OF assms(1)]
  have "s < n \<and> (S' s \<longrightarrow> p = P' s)" if "(s, p) \<in> set (sw_cache w) \<union> set (sw_cold_cache w)" for s p
  proof -
    have "s < n \<and> (S s \<longrightarrow> p = P s)"
      using d(5) that unfolding caches_hold_def by blast
    then show ?thesis
      using assms(2)[of s] by auto
  qed
  then have c: "caches_hold n S' P' w"
    by (auto simp: caches_hold_def)
  have a: "active_holds env (sw_cfg w) S' P' b" if b: "sw_active w = Some b" for b
  proof -
    note cnt = active_ok_count[OF d(9) b]
    obtain recs where r: "recs \<noteq> []" "b = build (env_crc env) (builder_new (sb_start_seq b)) recs"
        "map sg_seq recs = [sb_start_seq b..<sb_start_seq b + length recs]" "length (sb_data b) < max_bytes (sw_cfg w) + FRAME_MAX"
        "\<forall>x\<in>set recs. seg_record_ok x \<and> (S (sg_seq x) \<longrightarrow> payload_of env x = P (sg_seq x))"
      using d(6)[OF b] unfolding active_holds_def by blast
    have "sb_next_seq b = sb_start_seq b + length recs"
      by (subst r(2)) (simp add: build_fields builder_new_def)
    moreover have "sg_seq x \<in> {sb_start_seq b..<sb_start_seq b + length recs}" if "x \<in> set recs" for x
      using arg_cong[OF r(3), of set] imageI[OF that, of sg_seq] by simp
    ultimately have "sg_seq x < n" if "x \<in> set recs" for x
      using that cnt(3,4) by fastforce
    then show ?thesis
      using r assms(2) unfolding active_holds_def by (intro exI[of _ recs]) auto
  qed
  show ?thesis
    using d c a by (simp add: writer_holds_def)
qed

lemma slots_hold_weaken:
  assumes h: "slots_hold env t n S P" and seg: "t_segwriter t' = t_segwriter t"
    and live: "\<And>s. S' s \<Longrightarrow> is_live (t_index t') s \<Longrightarrow> S s \<and> is_live (t_index t) s \<and> raw_slot t' s = raw_slot t s"
    and unfed: "\<And>s. n \<le> s \<Longrightarrow> base_seq (t_index t') \<le> s \<Longrightarrow> s < tail t' \<Longrightarrow> base_seq (t_index t) \<le> s \<and> raw_slot t' s = raw_slot t s \<and> (is_live (t_index t') s \<longrightarrow> is_live (t_index t) s)"
    and tl: "tail t' = tail t"
  shows "slots_hold env t' n S' P"
proof -
  have "writer_holds env w n (\<lambda>s. S' s \<and> is_live (t_index t') s) P" if "t_segwriter t = Some w" for w
  proof (rule writer_holds_weaken)
    show "writer_holds env w n (\<lambda>s. S s \<and> is_live (t_index t) s) P"
      using h that by (simp add: slots_hold_def)
  qed (use live in blast)
  moreover have "reads_as env t' s (P s)" if "S' s" "is_live (t_index t') s" for s
    using h live[OF that] by (simp add: slots_hold_def reads_as_def seg)
  moreover have "unfed_ok env t' n" if w: "t_segwriter t = Some w" for w
    unfolding unfed_ok_def
  proof (intro allI impI)
    fix s assume s: "n \<le> s \<and> base_seq (t_index t') \<le> s \<and> s < tail t'"
    then show "storable env (raw_slot t' s) \<and> (is_live (t_index t') s \<longrightarrow> sr_payload_resident (raw_slot t' s))"
      using h w unfed[of s] tl by (auto simp: slots_hold_def unfed_ok_def)
  qed
  ultimately show ?thesis
    using h by (auto simp: slots_hold_def seg tl)
qed

lemma payloads_grow:
  assumes h: "payloads env t P" and ix: "base_seq (t_index t') = base_seq (t_index t)" "records (t_index t') = records (t_index t) @ rs"
    and same: "t_segwriter t' = t_segwriter t" "t_seam t' = t_seam t"
    and rs: "list_all (storable env) rs" "list_all (\<lambda>r. sr_deleted r \<or> sr_payload_resident r) rs"
  shows "payloads env t' (payloads_with (tail t) rs P)"
proof -
  let ?P = "payloads_with (tail t) rs P" and ?n = "seam_next (t_seam t)"
  have tl: "tail t' = tail t + length rs"
    by (simp add: tail_def ix)
  have raw: "raw_slot t' s = raw_slot t s" if "base_seq (t_index t) \<le> s" "s < tail t" for s
    using that by (auto simp: raw_slot_def ix tail_def nth_append)
  have old: "is_live (t_index t') s = is_live (t_index t) s" "?P s = P s" if "s < tail t" for s
    using that by (auto simp: is_live_iff ix tail_def nth_append payloads_with_def)
  have new: "raw_slot t' s = rs ! (s - tail t)" "?P s = slot_payload (rs ! (s - tail t))" "storable env (rs ! (s - tail t))"
      "is_live (t_index t') s \<Longrightarrow> sr_payload_resident (rs ! (s - tail t))" if s: "tail t \<le> s" "s < tail t'" for s
  proof -
    have i: "s - tail t < length rs"
      using s tl by simp
    show raw': "raw_slot t' s = rs ! (s - tail t)"
      using s by (simp add: raw_slot_def ix tail_def nth_append)
    show "?P s = slot_payload (rs ! (s - tail t))" "storable env (rs ! (s - tail t))"
      using s tl rs(1) i by (simp_all add: payloads_with_def list_all_length)
    show "is_live (t_index t') s \<Longrightarrow> sr_payload_resident (rs ! (s - tail t))"
      using raw' rs(2) i by (auto simp: list_all_length is_live_iff raw_slot_def)
  qed
  have lt: "s < tail t'" if "is_live (t_index t') s" for s
    using that by (auto simp: is_live_iff tail_def)
  have rd: "reads_as env t' s (?P s)" if "is_live (t_index t') s" for s
  proof (cases "s < tail t")
    case True
    then show ?thesis
      using payloads_reads[OF h, of s] old[OF True] raw[OF _ True] that by (simp add: reads_as_def same is_live_iff ix)
  next
    case False
    then show ?thesis
      using new[of s] lt[OF that] that by (simp add: reads_as_def)
  qed
  have w: "writer_holds env w ?n (\<lambda>s. True \<and> is_live (t_index t') s) ?P \<and> unfed_ok env t' ?n" if w: "t_segwriter t = Some w" for w
  proof
    have n: "?n \<le> tail t" "writer_holds env w ?n (\<lambda>s. True \<and> is_live (t_index t) s) P" "unfed_ok env t ?n"
      using h w by (auto simp: payloads_def slots_hold_def)
    show "writer_holds env w ?n (\<lambda>s. True \<and> is_live (t_index t') s) ?P"
      using n(1) old by (intro writer_holds_weaken[OF n(2)]) auto
    show "unfed_ok env t' ?n"
      unfolding unfed_ok_def ix
    proof (intro allI impI)
      fix s assume s: "?n \<le> s \<and> base_seq (t_index t) \<le> s \<and> s < tail t'"
      show "storable env (raw_slot t' s) \<and> (is_live (t_index t') s \<longrightarrow> sr_payload_resident (raw_slot t' s))"
        using s n(3) old[of s] raw[of s] new[of s] by (cases "s < tail t") (simp_all add: unfed_ok_def)
    qed
  qed
  show ?thesis
    using h rd w by (auto simp: payloads_def slots_hold_def same tl)
qed

lemma payloads_same:
  assumes "t_index t' = t_index t" "t_segwriter t' = t_segwriter t" "t_seam t' = t_seam t"
  shows "payloads env t' = payloads env t"
  using assms slots_hold_cong[OF assms(1,2)] by (simp add: payloads_def tail_def fun_eq_iff)

lemma stage_append_segments [simp]:
  "t_segwriter (fst (stage_append rs t)) = t_segwriter t" "t_seam (fst (stage_append rs t)) = t_seam t"
  by (simp_all add: stage_append_def Let_def split: prod.splits)

text \<open>A batch of records of the write path.\<close>

definition writable :: "env \<Rightarrow> stored_record list \<Rightarrow> bool" where
  "writable env rs \<longleftrightarrow> list_all (\<lambda>r. storable env r \<and> sr_payload_resident r) rs"

lemma stage_append_payloads:
  assumes "payloads env t P" "list_all (storable env) rs" "list_all (\<lambda>r. sr_deleted r \<or> sr_payload_resident r) rs"
  shows "payloads env (fst (stage_append rs t)) (payloads_with (tail t) rs P)"
  by (rule payloads_grow[OF assms(1)]) (simp_all add: stage_append_index assms)

lemma publish_payloads:
  assumes env: "codec_ok env" and h: "payloads env t P" and rs: "rs \<noteq> []" "writable env rs" "slot_bytes rs \<le> u64_max"
    and room: "tail t + length rs \<le> u64_max"
    and t': "t' = published_with env seal (snd (stage_append rs t)) now ((fst (stage_append rs t))\<lparr>t_reserved_head := rh\<rparr>)"
  shows "payloads env t' (payloads_with (tail t) rs P)"
proof -
  let ?P = "payloads_with (tail t) rs P" and ?sa = "snd (stage_append rs t)"
  let ?t = "(fst (stage_append rs t))\<lparr>t_reserved_head := rh\<rparr>"
  have w: "list_all (storable env) rs" "list_all (\<lambda>r. sr_deleted r \<or> sr_payload_resident r) rs"
    using rs(2) by (auto simp: writable_def list_all_iff)
  obtain p r where pub: "publish_staged_no_seal ?sa now ?t = (p, r)" by fastforce
  have p: "t_index p = t_index (fst (stage_append rs t))" "t_segwriter p = t_segwriter t" "t_seam p = t_seam t"
    using pub by (auto simp: publish_staged_no_seal_def publish_head_seq_def Let_def split: if_splits)
  have r: "r = Some (tail t, tail t + length rs - 1)"
    using pub rs(1) stage_append_ok_result[OF rs(1,3), of t] by (auto simp: publish_staged_no_seal_def Let_def split: if_splits)
  have hp: "payloads env p ?P"
    using stage_append_payloads[OF h w] payloads_same[of p "fst (stage_append rs t)" env] p by simp
  have tl: "tail p = tail t + length rs"
    by (simp add: tail_def p stage_append_index)
  have "payloads env (materialize_published env (tail t) (tail t + length rs - 1) p) ?P"
    using rs(1) room tl by (intro materialize_published_payloads[OF env hp]) (cases rs; simp)+
  then show ?thesis
    using hp pub r by (simp add: t' published_with_def publish_staged_def)
qed

lemma rollback_by_seqs_payloads:
  assumes env: "codec_ok env" and ok: "topic_ok t" and h: "payloads env t P" and ne: "rs \<noteq> []" and live: "list_all (\<lambda>r. \<not> sr_deleted r) rs"
    and w: "list_all (storable env) rs" and small: "slot_bytes rs \<le> u64_max"
    and t': "t' = rollback_staged_by_seqs (snd (stage_append rs t)) ((fst (stage_append rs t))\<lparr>t_reserved_head := rh\<rparr>)"
  shows "payloads env t' (payloads_with (tail t) (map dead_slot rs) P)"
proof -
  note r = rollback_by_seqs_ok[OF ok ne live small t']
  have st: "list_all (storable env) (map dead_slot rs)"
    using w storable_dead[OF env] by (auto simp: list_all_iff storable_def)
  have seg: "t_segwriter t' = t_segwriter t" "t_seam t' = t_seam t"
    by (simp_all add: t' rollback_staged_by_seqs_def)
  show ?thesis
    by (rule payloads_grow[OF h r(7,8) seg st]) (simp add: list_all_iff)
qed

lemma note_source_trim_payloads:
  assumes env: "codec_ok env" and h: "payloads env t P" and room: "tail t + 1 \<le> u64_max"
  shows "payloads env (note_source_trim env t) (payloads_with (tail t) [deleted_hole] P)"
proof -
  let ?P = "payloads_with (tail t) [deleted_hole] P" and ?t = "fst (stage_append [deleted_hole] t)"
  have hole: "sr_deleted deleted_hole" "sr_bytes deleted_hole = 0"
    by (simp_all add: deleted_hole_def)
  have sa: "sa_start (snd (stage_append [deleted_hole] t)) = tail t" "sa_count (snd (stage_append [deleted_hole] t)) = 1"
    using stage_append_ok_result[of "[deleted_hole]" t] hole by simp_all
  let ?u = "(publish_head_seq (tail t) ?t)\<lparr>t_floors := (t_floors ?t)\<lparr>source_trim_floor := max (source_trim_floor (t_floors ?t)) (tail t)\<rparr>\<rparr>"
  have "payloads env ?t ?P"
    using storable_hole[OF env] hole by (intro stage_append_payloads[OF h]) simp_all
  then have hu: "payloads env ?u ?P"
    using payloads_same[of ?u ?t env] by (simp add: publish_head_seq_def)
  have tl: "tail ?u = tail t + 1"
    by (simp add: tail_def publish_head_seq_def stage_append_index)
  have "note_source_trim env t = materialize_published env (tail t) (tail t) ?u"
    using sa by (simp add: note_source_trim_def publish_head_seq_def Let_def split_beta)
  then show ?thesis
    using materialize_published_payloads[OF env hu, of "tail t" "tail t"] tl room by simp
qed

section \<open>Retention\<close>

lemma drop_segment_cases:
  assumes "registry_ok (sw_sealed w)" "w' = drop_segment sid w"
  obtains (none) "w' = w"
  | (gone) g where "g \<in> set (sw_sealed w)" "ss_start_seq g = sid" "set (sw_sealed w') \<subseteq> set (sw_sealed w)" "registry_ok (sw_sealed w')"
      "\<forall>x\<in>set (sw_sealed w). ss_start_seq x \<noteq> sid \<longrightarrow> x \<in> set (sw_sealed w')" "sw_tier w' = delete_both sid (sw_tier w)"
      "sw_active w' = sw_active w" "sw_cfg w' = sw_cfg w" "set (sw_cache w') \<subseteq> set (sw_cache w)" "set (sw_cold_cache w') \<subseteq> set (sw_cold_cache w)"
proof (cases "find (\<lambda>g. ss_start_seq g = sid) (sw_sealed w)")
  case None
  then show ?thesis
    using assms none by (simp add: drop_segment_def)
next
  case (Some g)
  have rm: "set (remove_segment sid gs) \<subseteq> set gs \<and> (\<forall>x\<in>set gs. ss_start_seq x \<noteq> sid \<longrightarrow> x \<in> set (remove_segment sid gs)) \<and>
      (registry_ok gs \<longrightarrow> registry_ok (remove_segment sid gs))" for gs
    by (induction gs) (auto simp: registry_ok_def)
  show ?thesis
    using gone[of g] Some assms rm[of "sw_sealed w"] by (auto simp: drop_segment_def find_Some_iff Let_def)
qed

lemma drop_segment_holds:
  assumes h: "writer_holds env w n S P"
  shows "writer_holds env (drop_segment sid w) n S P"
    "sealed_as env w s p \<Longrightarrow> segment_for w s = Some g \<Longrightarrow> ss_start_seq g \<noteq> sid \<Longrightarrow>
       sealed_as env (drop_segment sid w) s p \<and> segment_for (drop_segment sid w) s = Some g"
proof -
  let ?w = "drop_segment sid w"
  note d = writer_holdsD[OF h]
  have "writer_holds env ?w n S P \<and> (sealed_as env w s p \<and> segment_for w s = Some g \<and> ss_start_seq g \<noteq> sid \<longrightarrow>
      sealed_as env ?w s p \<and> segment_for ?w s = Some g)"
    using d(7) refl[of ?w]
  proof (cases rule: drop_segment_cases)
    case none
    then show ?thesis using h by simp
  next
    case (gone g')
    have "tier_ok (sw_tier ?w)" "reads_ok (sw_tier ?w)"
      using d(2,8) store_delete_ok store_delete_other(2)[of "Suc sid" sid] by (auto simp: gone(6) tier_ok_def reads_ok_def delete_both_def)
    moreover have "active_ok env ?w n"
      using d(9) gone(3,7) by (fastforce simp: active_ok_def split: option.splits)
    moreover have "caches_hold n S P ?w"
      using d(5) gone(9,10) by (auto simp: caches_hold_def)
    moreover have "open_from ?w n = open_from w n"
      by (simp add: open_from_def gone(7))
    ultimately have hw: "writer_holds env ?w n S P"
      using d gone(4,6,7,8) delete_both_gone by (auto simp: writer_holds_def writer_wf_def)
    have "sealed_as env ?w s p \<and> segment_for ?w s = Some g" if s: "sealed_as env w s p" "segment_for w s = Some g" "ss_start_seq g \<noteq> sid"
    proof -
      note sg = segment_for_Some[OF s(2)]
      have m: "g \<in> set (sw_sealed ?w)"
        using gone(5) sg(1) s(3) by blast
      have "sealed_as env ?w s p"
        using s m same_segment_delete(1)[OF s(3)] by (intro sealed_as_mono[OF s(1) gone(4)]) (simp add: gone(6))
      then show ?thesis
        using segment_for_member[OF gone(4) m sg(2,3)] by simp
    qed
    then show ?thesis
      using hw by blast
  qed
  then show "writer_holds env ?w n S P" "sealed_as env w s p \<Longrightarrow> segment_for w s = Some g \<Longrightarrow> ss_start_seq g \<noteq> sid \<Longrightarrow>
      sealed_as env ?w s p \<and> segment_for ?w s = Some g"
    by blast+
qed

lemma drop_segments_holds:
  assumes "writer_holds env w n S P"
  shows "writer_holds env (fold drop_segment sids w) n S P \<and> (\<forall>s p g. sealed_as env w s p \<and> segment_for w s = Some g \<and> ss_start_seq g \<notin> set sids \<longrightarrow>
    sealed_as env (fold drop_segment sids w) s p)"
  using assms
proof (induction sids arbitrary: w)
  case (Cons sid sids)
  note a = drop_segment_holds[OF Cons.prems, where sid=sid]
  note i = Cons.IH[OF a(1)]
  have "sealed_as env (fold drop_segment sids (drop_segment sid w)) s p"
    if "sealed_as env w s p" "segment_for w s = Some g" "ss_start_seq g \<notin> set (sid # sids)" for s p g
  proof -
    have "sealed_as env (drop_segment sid w) s p" "segment_for (drop_segment sid w) s = Some g"
      using a(2)[OF that(1,2)] that(3) by simp_all
    then show ?thesis
      using i that(3) by (simp only: list.set insert_iff de_Morgan_disj) blast
  qed
  then show ?case
    using i by (simp only: fold_simps) blast
qed simp

lemma reclaim_segments_holds:
  assumes wf: "wf_topic t" and hd: "t_head_seq t < u64_max" and rest: "resting t" and h: "slots_hold env t n S P"
  shows "slots_hold env (reclaim_segments t) n (\<lambda>s. S s \<and> visible t s) P"
proof (cases "t_segwriter t")
  case None
  then show ?thesis
    using h by (simp add: reclaim_segments_def slots_hold_def)
next
  case (Some w)
  let ?t = "reclaim_segments t" and ?L = "\<lambda>s. S s \<and> is_live (t_index t) s" and ?V = "\<lambda>s. (S s \<and> visible t s) \<and> is_live (t_index t) s"
  define sids where "sids = map ss_start_seq (filter (\<lambda>g. ss_end_seq g < earliest_seq t \<or>
      range_all_dead (t_index t) (ss_start_seq g) (ss_end_seq g)) (sw_sealed w))"
  have t': "?t = t\<lparr>t_segwriter := Some (fold drop_segment sids w)\<rparr>"
    by (simp add: reclaim_segments_def Some sids_def Let_def)
  have hw: "writer_holds env w n ?L P" "unfed_ok env t n" "n \<le> tail t"
    using h Some by (simp_all add: slots_hold_def)
  note f = drop_segments_holds[OF hw(1), of sids]
  have reg: "registry_ok (sw_sealed w)"
    by (rule writer_holdsD(7)[OF hw(1)])
  have keep: "ss_start_seq g \<notin> set sids" if v: "visible t s" and g: "segment_for w s = Some g" for s g
  proof
    note sg = segment_for_Some[OF g]
    assume "ss_start_seq g \<in> set sids"
    then obtain g' where g': "g' \<in> set (sw_sealed w)" "ss_start_seq g' = ss_start_seq g"
        "ss_end_seq g' < earliest_seq t \<or> range_all_dead (t_index t) (ss_start_seq g') (ss_end_seq g')"
      by (auto simp: sids_def)
    have "ss_start_seq g' \<le> ss_end_seq g'"
      using reg g'(1) by (simp add: registry_ok_def)
    then have "segment_for w (ss_start_seq g) = Some g'"
      using g'(1,2) by (intro segment_for_member[OF reg]) auto
    moreover have "segment_for w (ss_start_seq g) = Some g"
      using sg by (intro segment_for_member[OF reg]) auto
    ultimately have "g' = g" by simp
    then have "ss_end_seq g < earliest_seq t \<or> is_dead (t_index t) s"
      using g'(3) sg(2,3) by (auto simp: range_all_dead_iff)
    moreover have "\<not> is_dead (t_index t) s"
    proof -
      have "delete_floor (t_floors t) < s"
        using v hd floors_earliest_le[of "t_head_seq t" s "t_floors t" "t_seq_base t"] by (auto simp: visible_floor floor_earliest_def)
      then have "\<not> s < delete_below (t_index t)"
        using wf_topicD(6)[OF wf] by simp
      moreover have "slot_idx (t_index t) s = Some (s - base_seq (t_index t))"
        using v by (simp add: visible_def is_live_iff slot_idx_Some)
      ultimately show ?thesis
        using v by (simp add: visible_def is_dead_def is_live_iff)
    qed
    ultimately show False
      using v sg(3) by (simp add: visible_def)
  qed
  have "reads_as env ?t s (P s)" if s: "S s \<and> visible t s" "is_live (t_index t) s" for s
  proof -
    have rd: "reads_as env t s (P s)"
      using h s by (simp add: slots_hold_def)
    have "sealed_as env (fold drop_segment sids w) s p" if "sealed_as env w s p" for p
      using f that keep[of s] s by (auto simp: sealed_as_def[of env w])
    then show ?thesis
      using rd Some by (simp add: reads_as_def t' raw_slot_def split: if_splits)
  qed
  moreover have "writer_holds env (fold drop_segment sids w) n ?V P"
    by (rule writer_holds_weaken[OF conjunct1[OF f]]) auto
  moreover have "unfed_ok env ?t n" "n \<le> tail ?t"
    using hw(2,3) by (simp_all add: unfed_ok_def raw_slot_def tail_def t')
  ultimately show ?thesis
    by (simp add: slots_hold_def t')
qed

lemma reclaim_front_raw:
  assumes t': "t' = fst (reclaim_front (t_head_seq t) t)"
  shows "base_seq (t_index t) \<le> base_seq (t_index t')" "base_seq (t_index t') \<le> s \<Longrightarrow> raw_slot t' s = raw_slot t s"
    "is_live (t_index t') s \<Longrightarrow> is_live (t_index t) s \<and> base_seq (t_index t') \<le> s" "tail t' = tail t" "t_segwriter t' = t_segwriter t" "t_seam t' = t_seam t"
proof -
  define n where "n = front_drop (floor_earliest t) (t_index t)"
  note f = reclaim_front_fields[OF t' n_def]
  have n: "n \<le> length (records (t_index t))"
    by (simp add: n_def front_drop_le)
  have b: "base_seq (t_index t') = base_seq (t_index t) + n" "records (t_index t') = drop n (records (t_index t))"
    using n by (simp_all add: f)
  then show "base_seq (t_index t) \<le> base_seq (t_index t')" "tail t' = tail t"
      "base_seq (t_index t') \<le> s \<Longrightarrow> raw_slot t' s = raw_slot t s"
    using n by (simp_all add: tail_def raw_slot_def)
  show "is_live (t_index t') s \<Longrightarrow> is_live (t_index t) s \<and> base_seq (t_index t') \<le> s"
    using n by (auto simp: is_live_iff b)
  show "t_segwriter t' = t_segwriter t" "t_seam t' = t_seam t"
    by (simp_all add: t' reclaim_front_def Let_def subtract_live_count_def subtract_bytes_retained_def split_beta)
qed

lemma reclaim_front_holds:
  assumes h: "slots_hold env t n S P" and t': "t' = fst (reclaim_front (t_head_seq t) t)"
    and live: "\<And>s. is_live (t_index t') s \<Longrightarrow> S s"
  shows "slots_hold env t' n (\<lambda>_. True) P"
proof -
  note r = reclaim_front_raw[OF t']
  have up: "base_seq (t_index t) \<le> s" if "base_seq (t_index t') \<le> s" for s
    using r(1) that by simp
  show ?thesis
    by (rule slots_hold_weaken[OF h r(5)]) (auto simp: r(2,4) live dest: r(3) up)
qed

lemma enforce_retention_payloads:
  assumes ok: "topic_ok t" and tl: "tail t \<le> u64_max" and h: "payloads env t P" and out: "enforce_retention_hardened now harden t = Inr (t', adv)"
  shows "payloads env t' P"
proof (cases "retention_active t")
  case True
  let ?c = "commit_floors (plan_retention now t) t"
  define t2 where "t2 = (if ra_floor_advanced (plan_retention now t) then reclaim_segments ?c else t)"
  have sim: "topic_sim ?c t2"
    using reclaim_segments_sim[of ?c] commit_floors_idle[of now t] by (simp add: t2_def)
  then have hd: "t_head_seq t2 = t_head_seq t" "t_head_seq ?c = t_head_seq t" "tail t2 = tail t"
    using tail_sim[OF sim] by (simp_all add: topic_sim_def commit_floors_fields tail_def)
  have "\<not> (t_head_seq t = 0)" "\<not> (cfg_ttl_ms (t_config t) = 0 \<and> cfg_cap_records (t_config t) = 0 \<and> cfg_cap_bytes (t_config t) = 0)"
    using True by (auto simp: retention_active_def)
  then have t': "t' = fst (reclaim_front (t_head_seq t2) t2)"
    using out unfolding hd
    by (auto simp: enforce_retention_hardened_def Let_def t2_def split_beta split: option.splits if_splits)
  note okc = commit_floors_ok[OF ok, of now]
  have small: "t_head_seq ?c < u64_max"
    using topic_okD(5)[OF ok] tl hd by simp
  have ok2: "topic_ok t2"
    using okc topic_ok_sim[OF sim] by simp
  let ?n = "seam_next (t_seam t)"
  have seam: "t_seam t2 = t_seam t"
    by (simp add: t2_def reclaim_segments_def commit_floors_def Let_def split: option.split)
  have hc: "slots_hold env ?c ?n (\<lambda>_. True) P"
    using h slots_hold_cong[of ?c t env] by (simp add: payloads_def commit_floors_def)
  have live: "is_live (t_index t') s \<Longrightarrow> visible ?c s" for s
  proof -
    assume "is_live (t_index t') s"
    then have s: "is_live (t_index t2) s" "base_seq (t_index t') \<le> s"
      using reclaim_front_raw(3)[OF t'] by blast+
    have "floor_earliest t2 \<le> s"
      using reclaim_front_base[OF topic_okD(1)[OF ok2] t'] s(2) by simp
    moreover have "s \<le> t_head_seq t2"
      using topic_okD(2)[OF ok2] s(1) by (simp add: resting_def)
    ultimately have "visible t2 s"
      using small hd s(1) by (simp add: visible_floor)
    then show "visible ?c s"
      using topic_sim_earliest(1)[OF sim] is_live_sim[of "t_index ?c" "t_index t2" s] sim hd by (simp add: visible_def topic_sim_def)
  qed
  have "slots_hold env t' ?n (\<lambda>_. True) P"
  proof (cases "ra_floor_advanced (plan_retention now t)")
    case True
    then have "slots_hold env t2 ?n (\<lambda>s. True \<and> visible ?c s) P"
      using reclaim_segments_holds[OF topic_okD(1)[OF okc] small topic_okD(2)[OF okc] hc] by (simp add: t2_def)
    then show ?thesis
      by (rule reclaim_front_holds[OF _ t']) (simp add: live)
  next
    case False
    then have "slots_hold env t2 ?n (\<lambda>_. True) P"
      using h by (simp add: t2_def payloads_def)
    then show ?thesis
      by (rule reclaim_front_holds[OF _ t']) simp
  qed
  moreover have "t_seam t' = t_seam t" "tail t' = tail t"
    using reclaim_front_raw(4,6)[OF t'] seam hd by simp_all
  ultimately show ?thesis
    using h by (simp add: payloads_def)
next
  case False
  then show ?thesis
    using h out by (simp add: enforce_inactive)
qed

section \<open>New topics\<close>

text \<open>A segment store that was opened for a topic that did not exist: no file, nothing sealed, nothing cached.\<close>

definition blank_writer :: "segment_writer \<Rightarrow> bool" where
  "blank_writer w \<longleftrightarrow> sw_active w = None \<and> sw_sealed w = [] \<and> sw_cache w = [] \<and> sw_cold_cache w = [] \<and> tier_ok (sw_tier w) \<and>
     reads_ok (sw_tier w) \<and> seal_limit (sw_cfg w) \<and> (\<forall>i. tier_resolve (sw_tier w) i = None)"

lemma new_topic_payloads:
  "payloads env (topic_new name tid cfg base ep) P"
  by (simp add: payloads_def slots_hold_def topic_new_def index_new_def is_live_iff)

lemma attached_topic_payloads:
  assumes "blank_writer w"
  shows "payloads env (attach_segwriter env w (topic_new name tid cfg base ep)) P"
proof -
  have "writer_holds env w base S P" for S
    using assms by (simp add: blank_writer_def writer_holds_def writer_wf_def registry_ok_def active_ok_def caches_hold_def)
  then show ?thesis
    by (auto simp: payloads_def slots_hold_def attach_segwriter_def topic_new_def index_new_def is_live_iff unfed_ok_def tail_def Let_def)
qed

section \<open>The readable log with its payloads\<close>

lemma fill_append [simp]: "fill P (v @ w) = fill P v @ fill P w"
  by (simp add: fill_def)

lemma fill_filter: "fill P (filter (\<lambda>(s, r). Q s) v) = filter (\<lambda>(s, r). Q s) (fill P v)"
  by (induction v) (auto simp: fill_def)

lemma fill_cong: "(\<And>s r. (s, r) \<in> set v \<Longrightarrow> P s = Q s) \<Longrightarrow> fill P v = fill Q v"
  by (auto simp: fill_def)

lemma fill_old:
  assumes "t_head_seq t < tail t"
  shows "fill (payloads_with (tail t) rs P) (view t) = fill P (view t)"
  using assms by (intro fill_cong) (auto simp: view_def visible_def payloads_with_def simp del: upt_Suc)

lemma fill_new:
  assumes "writable env rs"
  shows "fill (payloads_with start rs P) (zip [start..<start + length rs] (map erase rs)) = zip [start..<start + length rs] rs"
proof (rule nth_equalityI)
  fix i assume "i < length (fill (payloads_with start rs P) (zip [start..<start + length rs] (map erase rs)))"
  then have "i < length rs" by (simp add: fill_def)
  then show "fill (payloads_with start rs P) (zip [start..<start + length rs] (map erase rs)) ! i = zip [start..<start + length rs] rs ! i"
    using assms with_own_payload[of "rs ! i"] by (simp add: fill_def payloads_with_def writable_def list_all_length)
qed (simp add: fill_def)

end
