(* ===== verification/Retention_Bound.thy ===== *)
theory Retention_Bound
  imports Topic_Ok
begin

text \<open>
  What retention may evict. A record is due when it is older than the topic's time to live, when
  the topic has as many newer sequences as its record cap allows, or when the records that stay
  with it exceed the byte cap. The bound is stated on the slots of the topic before an operation,
  so it also covers operations that run retention more than once.
\<close>

section \<open>Due records\<close>

definition overdue :: "i64 \<Rightarrow> topic_config \<Rightarrow> seq \<Rightarrow> seq \<Rightarrow> i64 \<Rightarrow> bool" where
  "overdue now cfg head s ts \<longleftrightarrow>
     (0 < cfg_ttl_ms cfg \<and> as_i64 (cfg_ttl_ms cfg) < i64_sat_sub now ts) \<or> (0 < cfg_cap_records cfg \<and> s + cfg_cap_records cfg \<le> head)"

definition load :: "(seq \<Rightarrow> i64 \<Rightarrow> bool) \<Rightarrow> (seq \<times> stored_record) list \<Rightarrow> nat" where
  "load Q ws = sum_list (map (\<lambda>(y, q). if Q y (sr_ts q) then sr_bytes q else 0) ws)"

text \<open>
  The slots \<open>ws\<close> count against the byte cap of a record \<open>s\<close> when they are not older than it, below
  the floor \<open>fl\<close> but not reclaimed yet, or due themselves: the scan of the source takes the bytes of
  due records off only when they are reclaimed.
\<close>

definition evictable :: "i64 \<Rightarrow> topic_config \<Rightarrow> seq \<Rightarrow> seq \<Rightarrow> (seq \<times> stored_record) list \<Rightarrow> seq \<times> stored_record \<Rightarrow> bool" where
  "evictable now cfg head fl ws = (\<lambda>(s, r). overdue now cfg head s (sr_ts r) \<or>
     (0 < cfg_cap_bytes cfg \<and> cfg_cap_bytes cfg < load (\<lambda>y ts. s \<le> y \<or> y < fl \<or> overdue now cfg head y ts) ws))"

definition slots :: "topic_state \<Rightarrow> (seq \<times> stored_record) list" where
  "slots t = zip [base_seq (t_index t)..<tail t] (map erase (records (t_index t)))"

definition lighter :: "(seq \<times> stored_record) list \<Rightarrow> (seq \<times> stored_record) list \<Rightarrow> bool" where
  "lighter ws ws' \<longleftrightarrow> (\<forall>Q. load Q ws \<le> load Q ws')"

lemma lighter_refl [simp]: "lighter ws ws"
  by (simp add: lighter_def)

lemma lighter_trans: "lighter a b \<Longrightarrow> lighter b c \<Longrightarrow> lighter a c"
  unfolding lighter_def by (meson le_trans)

lemma load_append [simp]: "load Q (a @ b) = load Q a + load Q b"
  by (simp add: load_def)

lemma load_Cons [simp]: "load Q ((y, q) # ws) = (if Q y (sr_ts q) then sr_bytes q else 0) + load Q ws"
  by (simp add: load_def)

lemma load_Nil [simp]: "load Q [] = 0"
  by (simp add: load_def)

lemma lighter_append: "lighter a b \<Longrightarrow> lighter (a @ c) (b @ c)"
  by (simp add: lighter_def)

lemma load_mono:
  assumes "\<And>y q. (y, q) \<in> set ws \<Longrightarrow> sr_bytes q \<noteq> 0 \<Longrightarrow> Q y (sr_ts q) \<Longrightarrow> Q' y (sr_ts q)"
  shows "load Q ws \<le> load Q' ws"
  unfolding load_def
proof (rule sum_list_mono)
  fix p assume p: "p \<in> set ws"
  obtain y q where yq: "p = (y, q)" by fastforce
  show "(case p of (y, q) \<Rightarrow> if Q y (sr_ts q) then sr_bytes q else 0) \<le> (case p of (y, q) \<Rightarrow> if Q' y (sr_ts q) then sr_bytes q else 0)"
    using assms[of y q] p by (cases "sr_bytes q = 0") (auto simp: yq)
qed

lemma load_split: "load Q ws + load (\<lambda>y ts. \<not> Q y ts) ws = load (\<lambda>_ _. True) ws"
  by (induction ws) auto

lemma overdue_mono: "overdue now cfg h s ts \<Longrightarrow> h \<le> h' \<Longrightarrow> overdue now cfg h' s ts"
  by (auto simp: overdue_def)

text \<open>The bound grows with the head and with the slots.\<close>

lemma evictable_mono:
  assumes "evictable now cfg h fl ws x" "h \<le> h'" "lighter ws ws'"
    "\<And>y q. (y, q) \<in> set ws \<Longrightarrow> sr_bytes q \<noteq> 0 \<Longrightarrow> y < fl \<Longrightarrow> y < fl'"
  shows "evictable now cfg h' fl' ws' x"
proof -
  obtain s r where x: "x = (s, r)" by fastforce
  have "load (\<lambda>y ts. s \<le> y \<or> y < fl \<or> overdue now cfg h y ts) ws \<le> load (\<lambda>y ts. s \<le> y \<or> y < fl' \<or> overdue now cfg h' y ts) ws"
    using assms(4) overdue_mono[OF _ assms(2)] by (intro load_mono) blast
  also have "\<dots> \<le> load (\<lambda>y ts. s \<le> y \<or> y < fl' \<or> overdue now cfg h' y ts) ws'"
    using assms(3) by (simp add: lighter_def)
  finally show ?thesis
    using assms(1) overdue_mono[OF _ assms(2)] by (auto simp: evictable_def x)
qed

section \<open>The scans\<close>

lemma ttl_scan_due:
  assumes "x \<le> ttl_scan now k b rs e" "e < x" "b \<le> x"
  shows "x - b < length rs \<and> k < i64_sat_sub now (sr_ts (rs ! (x - b)))"
  using assms
proof (induction now k b rs e rule: ttl_scan.induct)
  case (2 now k b r rs e)
  show ?case
  proof (cases "k < i64_sat_sub now (sr_ts r)")
    case True
    show ?thesis
    proof (cases "x = b")
      case False
      then have "x - (b + 1) < length rs \<and> k < i64_sat_sub now (sr_ts (rs ! (x - (b + 1))))"
        using 2 True by simp
      moreover have "x - b = Suc (x - (b + 1))"
        using False 2(4) by simp
      ultimately show ?thesis by simp
    qed (use True in simp)
  qed (use 2 in simp)
qed simp

lemma bytes_scan_over:
  assumes "x \<le> bytes_scan f b rs over ev" "ev < x" "f < x" "b \<le> x"
  shows "load (\<lambda>y _. f < y \<and> y < x) (zip [b..<b + length rs] rs) < over"
  using assms
proof (induction rs arbitrary: b over ev)
  case (Cons r rs)
  let ?Q = "\<lambda>y (_ :: i64). f < y \<and> y < x"
  have z: "zip [b..<b + length (r # rs)] (r # rs) = (b, r) # zip [Suc b..<Suc b + length rs] rs"
    by (simp add: upt_conv_Cons del: upt_Suc)
  have later: "load ?Q (zip [Suc b..<Suc b + length rs] rs) = 0" if "x \<le> Suc b"
    using load_mono[of "zip [Suc b..<Suc b + length rs] rs" ?Q "\<lambda>_ _. False"] that by (auto simp: load_def dest!: set_zip_leftD)
  show ?case
  proof (cases "b \<le> f")
    case True
    then have "load ?Q (zip [Suc b..<Suc b + length rs] rs) < over"
      using Cons.prems by (intro Cons.IH) simp_all
    then show ?thesis
      using True unfolding z by simp
  next
    case F: False
    have ov: "0 < over"
      using Cons.prems F by (auto simp: Let_def split: if_splits)
    show ?thesis
    proof (cases "x = b")
      case True
      then show ?thesis
        using ov later unfolding z by simp
    next
      case False
      then have bx: "b < x" using Cons.prems(4) by simp
      have big: "sr_bytes r < over" "x \<le> bytes_scan f (Suc b) rs (over - sr_bytes r) b"
        using Cons.prems(1) F bx ov by (auto simp: Let_def split: if_splits)
      have "load ?Q (zip [Suc b..<Suc b + length rs] rs) < over - sr_bytes r"
        using big(2) bx Cons.prems(3) by (intro Cons.IH) simp_all
      then show ?thesis
        using F bx big(1) unfolding z by simp
    qed
  qed
qed simp

section \<open>Retention evicts only due records\<close>

lemma load_erase: "load Q (zip ys (map erase rs)) = load Q (zip ys rs)"
  by (induction ys rs rule: list_induct2') (auto simp: erase_def)

lemma slot_bytes_load: "slot_bytes rs = load (\<lambda>_ _. True) (zip [b..<b + length rs] rs)"
proof (induction rs arbitrary: b)
  case (Cons r rs)
  show ?case
    using Cons[of "Suc b"] by (simp add: upt_conv_Cons del: upt_Suc)
qed simp

lemma slots_split:
  assumes "base_seq (t_index t) \<le> tail t"
  shows "zip [base_seq (t_index t)..<base_seq (t_index t) + length (records (t_index t))] (records (t_index t)) =
    zip [base_seq (t_index t)..<base_seq (t_index t) + length (published h (t_index t))] (published h (t_index t)) @
    zip [base_seq (t_index t) + length (published h (t_index t))..<tail t] (staged h (t_index t))"
proof -
  let ?p = "published h (t_index t)" and ?b = "base_seq (t_index t)"
  have r: "records (t_index t) = ?p @ staged h (t_index t)"
    by (rule published_staged)
  have len: "length (records (t_index t)) = length ?p + length (staged h (t_index t))"
    using arg_cong[OF r, of length] by simp
  have u: "[?b..<?b + length (records (t_index t))] = [?b..<?b + length ?p] @ [?b + length ?p..<tail t]"
    unfolding tail_def len add.assoc[symmetric] by (rule upt_add_eq_append) simp
  have "zip ([?b..<?b + length ?p] @ [?b + length ?p..<tail t]) (?p @ staged h (t_index t)) =
      zip [?b..<?b + length ?p] ?p @ zip [?b + length ?p..<tail t] (staged h (t_index t))"
    by (rule zip_append) simp
  then show ?thesis
    unfolding u r[symmetric] .
qed

lemma below_planned:
  assumes q: "(y, q) \<in> set (zip [base_seq (t_index t)..<base_seq (t_index t) + length (records (t_index t))] (records (t_index t)))"
    and y: "y \<le> t_head_seq t" "y \<le> max (count_floor t) (ttl_floor now t)" and hd: "t_head_seq t < u64_max"
  shows "y < floor_earliest t \<or> overdue now (t_config t) (t_head_seq t) y (sr_ts q)"
proof (rule disjCI)
  assume no: "\<not> overdue now (t_config t) (t_head_seq t) y (sr_ts q)"
  let ?ix = "t_index t"
  have at: "base_seq ?ix \<le> y" "q = records ?ix ! (y - base_seq ?ix)"
    using q by (auto simp: in_set_zip)
  have "y \<le> evict_floor (t_floors t) \<or> y \<le> expiry_floor (t_floors t)"
  proof (cases "y \<le> count_floor t")
    case True
    then show ?thesis
      using no y(1) by (auto simp: count_floor_def overdue_def split: if_splits)
  next
    case False
    then have tt: "y \<le> ttl_floor now t" using y(2) by simp
    show ?thesis
    proof (rule ccontr)
      assume c: "\<not> (y \<le> evict_floor (t_floors t) \<or> y \<le> expiry_floor (t_floors t))"
      then have "0 < cfg_ttl_ms (t_config t)"
          "y \<le> ttl_scan now (as_i64 (cfg_ttl_ms (t_config t))) (base_seq ?ix) (records ?ix) (expiry_floor (t_floors t))"
        using tt by (auto simp: ttl_floor_def split: if_splits)
      then show False
        using ttl_scan_due[of y now "as_i64 (cfg_ttl_ms (t_config t))" "base_seq ?ix" "records ?ix" "expiry_floor (t_floors t)"] c at no
        by (simp add: overdue_def)
    qed
  qed
  then show "y < floor_earliest t"
    using floors_earliest_le[OF hd y(1), of "t_floors t" "t_seq_base t"] by (auto simp: floor_earliest_def not_le[symmetric])
qed

lemma planned_floor_due:
  assumes ok: "topic_ok t" and hd: "t_head_seq t < u64_max" and v: "visible t s"
    and s: "s \<le> max (byte_floor now t) (ttl_floor now t)"
  shows "evictable now (t_config t) (t_head_seq t) (floor_earliest t) (slots t) (s, slot_at t s)"
proof (cases "s \<le> max (count_floor t) (ttl_floor now t)")
  case True
  let ?ix = "t_index t"
  have "(s, records ?ix ! (s - base_seq ?ix)) \<in> set (zip [base_seq ?ix..<base_seq ?ix + length (records ?ix)] (records ?ix))"
    using v by (auto simp: visible_def is_live_iff in_set_zip intro!: exI[of _ "s - base_seq ?ix"])
  moreover have "s \<le> t_head_seq t" "\<not> s < floor_earliest t"
    using v hd by (auto simp: visible_floor)
  ultimately show ?thesis
    using below_planned[OF _ _ True hd] by (auto simp: evictable_def slot_at_def erase_def)
next
  case False
  let ?ix = "t_index t" and ?f = "max (count_floor t) (ttl_floor now t)" and ?cb = "cfg_cap_bytes (t_config t)" and ?b = "base_seq (t_index t)"
  let ?all = "zip [?b..<?b + length (records ?ix)] (records ?ix)"
  let ?pub = "zip [?b..<?b + length (published (t_head_seq t) ?ix)] (published (t_head_seq t) ?ix)"
  have sb: "?b \<le> s" "s \<le> t_head_seq t"
    using v by (auto simp: visible_def is_live_iff)
  have cap: "0 < ?cb" "?cb < t_bytes_retained t"
      "s \<le> bytes_scan ?f ?b (records ?ix) (t_bytes_retained t - ?cb) (count_floor t)"
    using s False by (auto simp: byte_floor_def max_def split: if_splits)
  have over: "load (\<lambda>y _. ?f < y \<and> y < s) ?all < t_bytes_retained t - ?cb"
    using False sb by (intro bytes_scan_over[OF cap(3)]) auto
  have split: "?all = ?pub @ zip [?b + length (published (t_head_seq t) ?ix)..<tail t] (staged (t_head_seq t) ?ix)"
    by (rule slots_split) (simp add: tail_def)
  have tot: "t_bytes_retained t = load (\<lambda>_ _. True) ?pub"
    using wf_topicD(4)[OF topic_okD(1)[OF ok]] slot_bytes_load[of "published (t_head_seq t) ?ix" ?b] by simp
  have "load (\<lambda>y _. ?f < y \<and> y < s) ?pub < t_bytes_retained t - ?cb"
    using over unfolding split by simp
  then have "?cb < load (\<lambda>y ts. \<not> (?f < y \<and> y < s)) ?pub"
    using load_split[of "\<lambda>y _. ?f < y \<and> y < s" ?pub] tot cap(2) by linarith
  also have "\<dots> \<le> load (\<lambda>y ts. s \<le> y \<or> y < floor_earliest t \<or> overdue now (t_config t) (t_head_seq t) y ts) ?pub"
  proof (rule load_mono)
    fix y q assume m: "(y, q) \<in> set ?pub" and "\<not> (?f < y \<and> y < s)"
    then consider "s \<le> y" | "y < s" "y \<le> ?f" by linarith
    then show "s \<le> y \<or> y < floor_earliest t \<or> overdue now (t_config t) (t_head_seq t) y (sr_ts q)"
    proof cases
      case 2
      have "(y, q) \<in> set ?all"
        using m unfolding split by simp
      then show ?thesis
        using below_planned[OF _ _ 2(2) hd] 2(1) sb(2) by simp
    qed simp
  qed
  also have "\<dots> \<le> load (\<lambda>y ts. s \<le> y \<or> y < floor_earliest t \<or> overdue now (t_config t) (t_head_seq t) y ts) ?all"
    unfolding split by simp
  finally show ?thesis
    using cap(1) by (simp add: evictable_def slots_def load_erase tail_def)
qed

text \<open>
  What a step of retention, or a delete, may leave: a record that falls below the new floor was due,
  no slot weighs more than before, and slots left below the new floor were below the old one.
\<close>

definition sheds :: "i64 \<Rightarrow> topic_state \<Rightarrow> topic_state \<Rightarrow> bool" where
  "sheds now t t' \<longleftrightarrow>
     (\<forall>(s, r) \<in> set (view t). s < floor_earliest t' \<longrightarrow> evictable now (t_config t) (t_head_seq t) (floor_earliest t) (slots t) (s, r)) \<and>
     lighter (slots t') (slots t) \<and> (\<forall>(y, q) \<in> set (slots t'). sr_bytes q \<noteq> 0 \<and> y < floor_earliest t' \<longrightarrow> y < floor_earliest t)"

lemma view_member: "(s, r) \<in> set (view t) \<longleftrightarrow> visible t s \<and> r = slot_at t s"
  by (auto simp: view_def visible_def simp del: upt_Suc)

lemma sheds_same:
  assumes "slots t' = slots t" "floor_earliest t' = floor_earliest t" "t_head_seq t < u64_max"
  shows "sheds now t t'"
  using assms by (auto simp: sheds_def view_member visible_floor)

lemma slots_sim: "topic_sim t t' \<Longrightarrow> slots t' = slots t"
  using tail_sim[of t t'] by (auto simp: slots_def topic_sim_def index_sim_def)

lemma lighter_drop: "lighter (drop n ws) ws"
  by (metis append_take_drop_id le_add2 lighter_def load_append)

lemma reclaim_front_slots:
  assumes t': "t' = fst (reclaim_front (t_head_seq t) t)"
  shows "slots t' = drop (front_drop (floor_earliest t) (t_index t)) (slots t)"
proof -
  define n where "n = front_drop (floor_earliest t) (t_index t)"
  note f = reclaim_front_fields[OF t' n_def]
  have n: "n \<le> length (records (t_index t))"
    by (simp add: n_def front_drop_le)
  show ?thesis
    unfolding n_def[symmetric] using n by (simp add: slots_def f tail_def drop_zip drop_map min_def)
qed

lemma slots_base: "(y, q) \<in> set (slots t) \<Longrightarrow> base_seq (t_index t) \<le> y"
  by (auto simp: slots_def dest!: set_zip_leftD)

lemma enforce_retention_sheds:
  assumes ok: "topic_ok t" and tl: "tail t \<le> u64_max" and out: "enforce_retention_hardened now harden t = Inr (t', adv)"
  shows "sheds now t t'"
proof (cases "retention_active t")
  case True
  let ?c = "commit_floors (plan_retention now t) t"
  obtain t2 where sim: "topic_sim ?c t2" and t': "t' = fst (reclaim_front (t_head_seq t2) t2)"
    using True out by (rule enforce_active)
  have hd: "t_head_seq t < u64_max"
    using topic_okD(5)[OF ok] tl by simp
  have sl: "slots t2 = slots t"
    using slots_sim[OF sim] by (simp add: slots_def commit_floors_fields tail_def)
  have fl: "t_floors t' = (t_floors t)\<lparr>evict_floor := byte_floor now t, expiry_floor := ttl_floor now t\<rparr>"
  proof -
    have "t_floors t' = t_floors ?c"
      using sim reclaim_front_fields(3)[OF t' refl] by (simp add: topic_sim_def)
    then show ?thesis
      by (simp add: commit_floors_fields(1)) (simp add: plan_retention_alt)
  qed
  have same: "t_head_seq t' = t_head_seq t" "t_seq_base t' = t_seq_base t"
    using enforce_retention_fields(2,4)[OF topic_okD(1)[OF ok] out] by simp_all
  have due: "s \<le> max (byte_floor now t) (ttl_floor now t)" if v: "visible t s" and s: "s < floor_earliest t'" for s
  proof -
    have "floor_earliest t \<le> s" "s \<le> t_head_seq t"
      using v hd by (simp_all add: visible_floor)
    then show ?thesis
      using s floors_earliest_le[OF hd, of s "t_floors t'" "t_seq_base t"] floors_earliest_le[OF hd, of s "t_floors t" "t_seq_base t"]
      by (simp add: floor_earliest_def same fl) linarith
  qed
  have ev: "\<forall>(s, r) \<in> set (view t). s < floor_earliest t' \<longrightarrow> evictable now (t_config t) (t_head_seq t) (floor_earliest t) (slots t) (s, r)"
    using planned_floor_due[OF ok hd _ due] by (auto simp: view_member)
  have "lighter (slots t') (slots t)"
    unfolding reclaim_front_slots[OF t'] sl by (rule lighter_drop)
  moreover have "\<not> y < floor_earliest t'" if "(y, q) \<in> set (slots t')" for y q
    using slots_base[OF that] enforce_retention_fields(10)[OF topic_okD(1)[OF ok] out True] by simp
  ultimately show ?thesis
    using ev by (auto simp: sheds_def)
next
  case False
  then have "t' = t"
    using out by (simp add: enforce_inactive)
  then show ?thesis
    using topic_okD(5)[OF ok] tl by (simp add: sheds_same)
qed

end
