(* ===== verification/Spec2Isabelle.thy ===== *)
theory Spec2Isabelle
  imports Filters Eviction Wal_Codec Diff Publish_Gate Engine_Claims Recovery_Claims Payloads Retention_Bound
begin

text \<open>
  A verification library for \<^emph>\<open>streams\<close>, a server for append-only topics, work queues and routers
  between topics, written in Rust (\<open>src/src\<close>).

  \<^bold>\<open>The program.\<close> A client writes batches of JSON records to a topic, reads them back with a cursor
  (\<open>diff\<close>), deletes them, or uses a topic as a queue whose records are jobs: it claims jobs under
  leases and acknowledges, returns or extends them. A router copies the records of one topic into
  another. Retention bounds a topic by age, count and bytes. Durability is a write-ahead log with
  group commit (\<open>storage/wal.rs\<close>), routed to shards (\<open>storage/sharded_wal.rs\<close>), and segment files into
  which older payloads are sealed and which may move to a cold tier (\<open>engine/segwriter.rs\<close>,
  \<open>storage/segment.rs\<close>, \<open>storage/segstore.rs\<close>).

  \<^bold>\<open>Conventions.\<close> A struct is a record, an enum a datatype. A \<open>u64\<close> is a natural number; where the source
  saturates, so does the model (\<open>sat_add\<close>, subtraction of naturals), and where it adds plainly the theorems carry
  room hypotheses (\<open>engine_room\<close>: sequences and byte counters below 2^62). An \<open>i64\<close> is an integer with the clamps
  written out, a byte an 8-bit word, a string a list of characters. A \<open>HashMap\<close> is an association
  list, a \<open>BTreeMap\<close> an ascending one, a \<open>BinaryHeap\<close> a sorted list. A fallible function returns a
  sum, \<open>Inl\<close> the error. A function on shared state takes the state and returns it; a handler reads the
  clock once and gets the time as argument. Code that is not part of the repository is a
  parameter: the record \<open>env\<close> holds the checksum and the JSON encoding, \<open>wal_io\<close> the answers of the
  operating system to the log writer, \<open>fs_fails\<close> those to the segment store, \<open>wh_reject\<close> those of the log's
  channel, and the engine carries the opening of a segment store and the encoding of a configuration.

  \<^bold>\<open>Storage.\<close> \<open>Byte_Codec\<close> and \<open>Wal_Codec\<close>: the encoding of the nine record kinds and their frames, the
  decoder and the reader (\<open>encode_record\<close>, \<open>decode_one\<close>, \<open>WalReader\<close>); C1, C15. \<open>Wal_Writer\<close>: the writer task with
  its active file, rotation, rewind and the bounded channel with submitters, commits and shutdown as
  a step relation; C17, C18, C19. \<open>Segment_Codec\<close>, \<open>Segment_Store\<close>, \<open>Segment_Writer\<close>: segment files,
  sealing, the locators and caches, delete flags, relocation; C12, C13, C14.

  \<^bold>\<open>Topics.\<close> \<open>Topic_Types\<close>, \<open>Filters\<close>, \<open>Eviction\<close>: configuration, records, tag filters, floors, admission.
  \<open>Ordered_Map\<close>, \<open>Topic_Index\<close>: the record window with its tag index; C16. \<open>Topic_State\<close>: all operations of
  \<open>TopicState\<close> (stage, publish, roll back, delete, retain, reclaim, watermarks, source trims), with the
  invariant \<open>wf_topic\<close> and the readable log \<open>view\<close> in \<open>Topic_Invariants\<close>, deletes in \<open>Topic_Deletes\<close>, and the
  state between requests (\<open>topic_ok\<close>) in \<open>Topic_Ok\<close>; C2 to C6. \<open>Publish_Gate\<close>: staged writers of one topic
  interleaved with commits, failures, panics, deletes and retention; C7, C8 (\<open>Reachability\<close> has the shared
  locales on step systems). \<open>Diff\<close>: one read and a consumer that follows its cursor; C9 to C11.

  \<^bold>\<open>Engine.\<close> \<open>Engine_Core\<close>, \<open>Engine_Append\<close>: the registry, the byte quota, the log handle and the durable
  append path. \<open>Engine_Topics\<close>: \<open>put_topic\<close> and \<open>delete_topic\<close>, and the invariant \<open>engine_ok\<close> (names and ids
  are unique, every topic is well formed, the quota counter is exact). \<open>Engine_Write\<close>: \<open>write\<close> and \<open>delete\<close>;
  C24 to C29. \<open>Router_Graph\<close>: the router registry and its cycle check; C20 to C22. \<open>Router_Forward\<close>: the
  forwarding pass, catching up, creating and removing routers; C35 to C38. \<open>Heap\<close>, \<open>Queue_Projection\<close>: the
  lease projection of a queue. \<open>Queue_Engine\<close>, \<open>Queue_Handlers\<close>: claim, dead letters, \<open>ack\<close>, \<open>nack\<close>, \<open>extend\<close>
  and the release of a lost connection; C30 to C34. \<open>Scheduler\<close>: priority bands and the ready set; C23.
  \<open>Samples\<close> and \<open>Samples_Engine\<close> hold the concrete states of the witnesses, \<open>Engine_Claims\<close> the properties of the engine.

  \<^bold>\<open>Snapshots and recovery.\<close> \<open>Snapshot\<close>: the captured form of topics and routers, checkpoint positions by
  log group, the framing and choice of snapshot files, \<open>capture\<close> and \<open>restore\<close>; C39. \<open>Recovery\<close>: log groups from a
  directory listing, the replay of every kind of frame, topics split over groups, torn tails, the passes after
  the replay, and the removal of absorbed files; C40. \<open>Recovery_Claims\<close> has the two properties.

  \<^bold>\<open>Interfaces.\<close> \<open>ordered_map\<close> (the tag index over its map), \<open>byte_codec\<close> (a field encoding and its decoder),
  \<open>min_heap\<close> (the freelist and the delayed jobs), \<open>settle_op\<close> (what \<open>ack\<close>, \<open>nack\<close> and \<open>extend\<close> do to one lease),
  \<open>step_invariant\<close>, \<open>monotone_system\<close> and \<open>draining_system\<close> (the step relations of the gate, the log channel
  and the router graph); each is interpreted on the model's own definitions.

  \<^bold>\<open>Loops.\<close> Every loop is a terminating function; none needs fuel. The catch-up of a destination repeats
  passes up to the bound the source itself has (\<open>CATCH_UP_PASSES\<close>), and so does the forwarding after a
  recovery (\<open>REFORWARD_PASSES\<close>).

  \<^bold>\<open>Not modelled.\<close> Errors of the file system while snapshots and log directories are listed, read and
  written, and the binary encoding of a snapshot (a parameter); the HTTP, event-stream and socket layers (\<open>http/\<close>), authentication
  (\<open>auth.rs\<close>), environment parsing, the server loop and the broadcast of frames to watchers: input and
  output around the handlers. The linger of group commit, metrics and timings: they do not
  change results. The test file system and the probe are tools. Handlers on different topics run one after the other
  in the model; inside a topic the interleaving is that of \<open>Publish_Gate\<close>.
\<close>

section \<open>The write-ahead log\<close>

text \<open>
  C1. A log cut at any byte is read back as a whole number of its frames: reading a prefix of
  the encoded frames returns exactly the frames that lie entirely before the cut, and reports
  their total length as the valid length. A torn tail is never decoded as a frame.
\<close>

theorem wal_crash_prefix:
  assumes "crc_u64 crc" "\<forall>f\<in>set fs. record_ok (wf_record f)"
  shows "\<exists>n\<le>length fs.
    read_wal crc (take k (encode_frames crc fs)) = (take n fs, length (encode_frames crc (take n fs))) \<and>
    length (encode_frames crc (take n fs)) \<le> k \<and>
    (n < length fs \<longrightarrow> k < length (encode_frames crc (take (Suc n) fs)))"
proof -
  obtain n tail where n: "take k (encode_frames crc fs) = encode_frames crc (take n fs) @ tail"
    "decode_one crc tail = Torn" "n \<le> length fs" "n < length fs \<longrightarrow> k < length (encode_frames crc (take (Suc n) fs))"
    using encode_frames_cut[OF assms(2)] by blast
  have "\<forall>f\<in>set (take n fs). record_ok (wf_record f)"
    using assms(2) by (meson in_set_takeD)
  note read = read_wal_frames[OF assms(1) this n(2)]
  have "length (encode_frames crc (take n fs)) \<le> k"
    using arg_cong[OF n(1), of length] by (simp del: length_take) (metis length_take le_add1 le_trans min.cobounded2)
  then show ?thesis
    using n read by (intro exI[of _ n]) simp
qed

definition demo_frames :: "wal_frame list" where
  "demo_frames = [\<lparr>wf_record = HeadWatermark 7 300 5, wf_durable = True\<rparr>,
     \<lparr>wf_record = Append 7 1 5 None (Some ''a'') [1, 2], wf_durable = False\<rparr>]"

theorem wal_crash_prefix_witness:
  "crc_u64 (\<lambda>_. 0) \<and> list_all (\<lambda>f. record_ok (wf_record f)) demo_frames \<and>
   (\<exists>n\<le>length demo_frames. read_wal (\<lambda>_. 0) (take 60 (encode_frames (\<lambda>_. 0) demo_frames)) =
      (take n demo_frames, length (encode_frames (\<lambda>_. 0) (take n demo_frames))))"
proof -
  have ok: "crc_u64 (\<lambda>_. 0)" "\<forall>f\<in>set demo_frames. record_ok (wf_record f)"
    by (simp_all add: crc_u64_def demo_frames_def record_ok_def u64_ok_def short_str_ok_def valid_str_def opt_bytes_def)
  show ?thesis
    using ok wal_crash_prefix[OF ok, of 60] by (auto simp: list_all_iff)
qed

section \<open>The readable log of a topic\<close>




text \<open>
  C3. A staged batch that is rejected before it gets a ticket leaves no trace: rolling it back
  restores the topic exactly, the tag index included.
\<close>

theorem rollback_restores_topic:
  assumes "wf_topic t" "list_all slot_ok rs"
  shows "rollback_staged (snd (stage_append rs t)) (fst (stage_append rs t)) = t"
  using assms rollback_stage_identity by (simp add: list_all_iff)

theorem rollback_restores_topic_witness:
  "wf_topic (demo_log default_config) \<and> list_all slot_ok demo_records \<and>
   rollback_staged (snd (stage_append demo_records (demo_log default_config)))
     (fst (stage_append demo_records (demo_log default_config))) = demo_log default_config"
proof -
  have ok: "list_all slot_ok demo_records"
    by (simp add: demo_records_def demo_record_def slot_ok_def)
  show ?thesis
    using ok demo_log_wf(1) rollback_restores_topic[OF demo_log_wf(1) ok] by blast
qed

text \<open>
  C4. A delete is exact and point-in-time: after retention has run, it removes from the readable
  log precisely the records below its bound that match its tag selector, keeps every other
  record as it was, counts each removed slot once, and reports as freed exactly the bytes that
  the topic no longer retains. The involuntary floors, and so the gaps readers are told of, do
  not move.
\<close>

theorem delete_exact:
  assumes "wf_topic t" "t_head_seq t < u64_max" "pit_bound bound_head t \<le> Suc (t_head_seq t)"
  shows "let t1 = fst (enforce_retention now t);
             t' = fst (apply_delete_stats before match_sel bound_head now t);
             st = snd (apply_delete_stats before match_sel bound_head now t);
             bound = delete_bound before bound_head t
         in view t' = filter (\<lambda>x. \<not> selected match_sel bound x) (view t1) \<and>
            ds_deleted st = length (victims match_sel bound t1) \<and>
            ds_bytes_freed st + t_bytes_retained t' = t_bytes_retained t \<and>
            evict_earliest_seq t' = evict_earliest_seq t1 \<and> t_head_seq t' = t_head_seq t \<and> wf_topic t'"
proof -
  obtain t1 ra where ret: "enforce_retention now t = (t1, ra)" by fastforce
  obtain t' st where out: "apply_delete_stats before match_sel bound_head now t = (t', st)" by fastforce
  note sp = apply_delete_spec[OF assms ret out]
  note ef = enforce_retention_fields[OF assms(1) enforce_retention_hardenedD[OF ret]]
  have "source_trim_floor (t_floors t') = source_trim_floor (t_floors t1)"
    using apply_delete_source_trim[OF assms ret out] .
  then have "evict_earliest_seq t' = evict_earliest_seq t1"
    using sp(3,7,8,11) ef(2,4) by (simp add: evict_earliest_seq_def floors_evict_earliest_def)
  then show ?thesis
    using sp ret out by (simp add: Let_def)
qed

theorem delete_exact_witness:
  "wf_topic (demo_log default_config) \<and>
   view (fst (apply_delete_stats None (Some \<lparr>flt_op = Eq, flt_value = ''a''\<rparr>) None 1000 (demo_log default_config))) =
     filter (\<lambda>x. \<not> selected (Some \<lparr>flt_op = Eq, flt_value = ''a''\<rparr>) 4 x) (view (fst (enforce_retention 1000 (demo_log default_config))))"
proof -
  have pit: "pit_bound None (demo_log default_config) \<le> Suc (t_head_seq (demo_log default_config))"
    "delete_bound None None (demo_log default_config) = 4"
    by (simp_all add: pit_bound_def delete_bound_def demo_log_wf(3) sat_add_def u64_max_def)
  show ?thesis
    using delete_exact[OF demo_log_wf(1) demo_head(1) pit(1), of 1000 None "Some \<lparr>flt_op = Eq, flt_value = ''a''\<rparr>"] demo_log_wf(1)
    by (simp add: Let_def pit(2))
qed

section \<open>Retention\<close>

text \<open>
  C5. An enforcement of retention that returns leaves the topic within its caps: at most
  \<open>cap_records\<close> live records and at most \<open>cap_bytes\<close> retained bytes, where these are set. It only
  raises floors and keeps the invariant.
\<close>

theorem retention_enforces_caps:
  assumes "wf_topic t" "0 < t_head_seq t" "t_head_seq t < u64_max"
    and "enforce_retention_hardened now harden t = Inr (t', adv)"
  shows "(cfg_cap_records (t_config t) = 0 \<or> t_live_count t' \<le> cfg_cap_records (t_config t)) \<and>
    (cfg_cap_bytes (t_config t) = 0 \<or> t_bytes_retained t' \<le> cfg_cap_bytes (t_config t)) \<and>
    floors_le (t_floors t) (t_floors t') \<and> wf_topic t'"
  using retention_caps[OF assms] enforce_retention_fields(1,5)[OF assms(1,4)] by auto

theorem retention_enforces_caps_witness:
  "\<exists>t' adv. enforce_retention_hardened 1000 (\<lambda>_. None :: unit option) (demo_log (default_config\<lparr>cfg_cap_records := 2\<rparr>)) = Inr (t', adv) \<and>
     t_live_count t' \<le> 2 \<and> wf_topic t'"
proof -
  let ?t = "demo_log (default_config\<lparr>cfg_cap_records := 2\<rparr>)"
  obtain t' adv where out: "enforce_retention 1000 ?t = (t', adv)" by fastforce
  show ?thesis
    using retention_enforces_caps[OF demo_log_wf(1) demo_head(2,1) enforce_retention_hardenedD[OF out]]
      enforce_retention_hardenedD[OF out] by (simp add: demo_log_fields)
qed

text \<open>
  C6. Retention removes from the readable log exactly the records below the new earliest
  sequence, and what it reports as reclaimed is what the byte counter lost. It fails only if a
  floor that a restart could not recompute would move and hardening it failed; nothing is
  committed then, since the result carries no new state.
\<close>

theorem retention_exact:
  assumes "wf_topic t" "t_head_seq t < u64_max"
  shows "case enforce_retention_hardened now harden t of
      Inr (t', adv) \<Rightarrow> view t' = filter (\<lambda>(s, r). floor_earliest t' \<le> s) (view t) \<and>
        ra_bytes_reclaimed adv + t_bytes_retained t' = t_bytes_retained t
    | Inl e \<Rightarrow> harden (plan_retention now t) = Some e \<and> ra_durable_advance (plan_retention now t)"
proof (cases "enforce_retention_hardened now harden t")
  case (Inl e)
  then show ?thesis
    using enforce_Inl_iff[THEN iffD1, OF Inl] by simp
next
  case (Inr r)
  then obtain t' adv where out: "enforce_retention_hardened now harden t = Inr (t', adv)"
    by (cases r) auto
  then show ?thesis
    using enforce_retention_view[OF assms out] enforce_retention_fields(8)[OF assms(1) out] by simp
qed

theorem retention_exact_witness:
  "wf_topic (demo_log default_config) \<and>
   (case enforce_retention_hardened 9000 (\<lambda>_. Some (0::nat)) (demo_log default_config) of
      Inr (t', adv) \<Rightarrow> view t' = filter (\<lambda>(s, r). floor_earliest t' \<le> s) (view (demo_log default_config)) \<and>
        ra_bytes_reclaimed adv + t_bytes_retained t' = t_bytes_retained (demo_log default_config)
    | Inl e \<Rightarrow> Some (0::nat) = Some e \<and> ra_durable_advance (plan_retention 9000 (demo_log default_config)))"
  using demo_log_wf(1) retention_exact[OF demo_log_wf(1) demo_head(1), where now=9000 and harden="\<lambda>_. Some (0::nat)"] by simp

section \<open>Concurrent writers\<close>

text \<open>
  C7. Whatever the interleaving of writers, commits, failures, panics, deletes and retention,
  a record is readable only if it was readable at the start or its batch was committed to the
  log. No reader ever sees a record whose commit is pending or failed.
\<close>

theorem only_committed_readable:
  assumes "gate_inv (gate_new t)" "(gate_step env)\<^sup>*\<^sup>* (gate_new t) g"
  shows "{s. visible (g_topic g) s} \<subseteq> {s. visible t s} \<union> g_committed g"
  using gate_safety.run_inv[OF assms(2) gate_new_safe[OF assms(1)]] by (auto simp: gate_safe_def)

lemma demo_gate_inv: "gate_inv (gate_new (demo_log cfg))"
  using demo_log_wf[of cfg] demo_log_fields(5)[of cfg] by (intro gate_new_inv) (simp_all add: u64_max_def)

definition demo_gate :: gate where
  "demo_gate = begin_append demo_records (gate_new (demo_log default_config))"

lemma demo_gate_step: "gate_step demo_env (gate_new (demo_log default_config)) demo_gate"
proof -
  have "length (records (t_index (demo_log default_config))) = 3"
    using map_erase_fields(5)[OF demo_log_wf(4)] demo_records_live(4) by simp
  then have "room demo_records (g_topic (gate_new (demo_log default_config)))"
    by (simp add: room_def gate_new_def demo_log_fields demo_records_live demo_log_wf(5) u64_max_def)
  then show ?thesis
    unfolding demo_gate_def using demo_records_live by (intro gate_step.stage)
qed

theorem only_committed_readable_witness:
  "gate_inv (gate_new (demo_log default_config)) \<and> (gate_step demo_env)\<^sup>*\<^sup>* (gate_new (demo_log default_config)) demo_gate \<and>
   {s. visible (g_topic demo_gate) s} \<subseteq> {s. visible (demo_log default_config) s} \<union> g_committed demo_gate"
  using only_committed_readable[OF demo_gate_inv r_into_rtranclp[of "gate_step demo_env", OF demo_gate_step]]
    demo_gate_inv demo_gate_step by blast

text \<open>
  C8. The gate never wedges and never goes backwards: in every state writers can reach, the
  topic invariant holds and the head is at least the initial one, tickets are held in order,
  and the holders can finish one after the other until the gate is quiesced, even if every
  commit fails or every writer's commit is still pending.
\<close>

theorem gate_drains:
  assumes "gate_inv g0" "(gate_step env)\<^sup>*\<^sup>* g0 g"
  shows "gate_inv g \<and> t_head_seq (g_topic g0) \<le> t_head_seq (g_topic g) \<and>
    map (pg_ticket \<circ> fl_guard) (g_flights g) = [g_next g..<g_ticket g] \<and>
    (\<exists>g'. (gate_step env)\<^sup>*\<^sup>* g g' \<and> quiesced g')"
proof -
  have inv: "gate_inv g"
    by (rule gate_mono.run_inv[OF assms(2,1)])
  then show ?thesis
    using gate_mono.run_mono[OF assms(2,1)] gate_quiesces[OF inv] by (auto simp: gate_inv_def flights_ok_def)
qed

theorem gate_drains_witness:
  "gate_inv demo_gate \<and> map (pg_ticket \<circ> fl_guard) (g_flights demo_gate) = [g_next demo_gate..<g_ticket demo_gate] \<and>
   (\<exists>g'. (gate_step demo_env)\<^sup>*\<^sup>* demo_gate g' \<and> quiesced g')"
  using gate_drains[OF demo_gate_inv r_into_rtranclp[of "gate_step demo_env", OF demo_gate_step]] by blast

section \<open>Reading from a cursor\<close>

text \<open>
  C9. One read returns exactly the live, unexpired, unfiltered records after the cursor up to
  its \<open>next_from_seq\<close>, in order, within the record limit, and within the byte budget unless it
  is a single record. It always makes progress: if it stops before the head it has delivered a
  record.
\<close>

theorem diff_batch_exact:
  assumes "t_head_seq t < u64_max"
  shows "let out = snd (diff_read env now req t); c = diff_cursor req t in
    map ro_seq (dr_records out) =
      filter (\<lambda>s. is_live (t_index t) s \<and> passes now req t s) [Suc c..<Suc (dr_next_from_seq out)] \<and>
    c \<le> dr_next_from_seq out \<and> dr_next_from_seq out \<le> t_head_seq t \<and>
    length (dr_records out) \<le> clamp_limit (dq_limit req) \<and>
    (length (dr_records out) \<le> 1 \<or>
      sum_list (map (seq_bytes (t_index t)) (map ro_seq (dr_records out))) \<le> clamp_batch_bytes (dq_max_batch_bytes req)) \<and>
    (dr_next_from_seq out = t_head_seq t \<or> dr_records out \<noteq> [])"
  using diff_read_spec[OF assms, where env=env and now=now and req=req] diff_read_bytes[OF assms, where env=env and now=now and req=req]
  unfolding Let_def by (metis le_neq_implies_less)

definition demo_diff :: diff_request where
  "demo_diff = \<lparr>dq_from_seq = 1, dq_limit = 1, dq_node = None, dq_include_tags = True, dq_include_meta = False,
     dq_max_batch_bytes = 0\<rparr>"

theorem diff_batch_exact_witness:
  "t_head_seq (demo_log default_config) < u64_max \<and>
   length (dr_records (snd (diff_read demo_env 1000 demo_diff (demo_log default_config)))) \<le> 1 \<and>
   dr_next_from_seq (snd (diff_read demo_env 1000 demo_diff (demo_log default_config))) \<le> 3"
  using diff_batch_exact[OF demo_head(1)[of default_config], where env=demo_env and now=1000 and req=demo_diff] demo_head(1)[of default_config]
  by (simp add: Let_def demo_log_wf(3) clamp_limit_def demo_diff_def MAX_LIMIT_def)

text \<open>
  C10. A consumer that follows \<open>next_from_seq\<close> until \<open>caught_up\<close> terminates, after at most as many
  reads as there are sequences to the head, and is given every readable record it asked for
  exactly once and in order, whatever the limits of the single reads. No readable record after
  its cursor is skipped.
\<close>

theorem consumer_reads_everything:
  assumes "t_head_seq t < u64_max" "t_head_seq t - diff_cursor req t < fuel"
  shows "\<exists>got. read_all env now req fuel t = Some got \<and> sorted got \<and> distinct got \<and>
    {s. visible t s \<and> passes now req t s \<and> dq_from_seq req < s} \<subseteq> set got \<and>
    set got \<subseteq> {s. is_live (t_index t) s \<and> passes now req t s \<and> s \<le> t_head_seq t}"
proof -
  let ?got = "filter (\<lambda>s. is_live (t_index t) s \<and> passes now req t s) [Suc (diff_cursor req t)..<Suc (t_head_seq t)]"
  have "s \<in> set ?got" if "visible t s" "passes now req t s" "dq_from_seq req < s" for s
    using visible_after_cursor[of t s req] that by (auto simp: visible_def simp del: upt_Suc)
  moreover have "sorted ?got" "distinct ?got"
    by (simp_all add: sorted_wrt_filter del: upt_Suc)
  moreover have "set ?got \<subseteq> {s. is_live (t_index t) s \<and> passes now req t s \<and> s \<le> t_head_seq t}"
    by (auto simp del: upt_Suc)
  ultimately show ?thesis
    using read_all_spec[OF assms, where env=env and now=now] by blast
qed

theorem consumer_reads_everything_witness:
  "\<exists>got. read_all demo_env 1000 demo_diff 4 (demo_log default_config) = Some got \<and> sorted got \<and> distinct got"
proof -
  have "t_head_seq (demo_log default_config) - diff_cursor demo_diff (demo_log default_config) < 4"
    by (simp add: demo_log_wf(3))
  then show ?thesis
    using consumer_reads_everything[OF demo_head(1), where env=demo_env and now=1000 and req=demo_diff] by blast
qed



section \<open>Sealed segments\<close>

text \<open>
  C12. Sealing the active segment on a store that works reports every one of its sequences as
  sealed, and from then on each record reads back from the segment files with exactly the
  payload that was written, through the index and the checksummed frame.
\<close>

theorem sealed_segment_reads_back:
  assumes "crc_ok env" "store_ok (hot (sw_tier w))" "sw_active w = Some (build (env_crc env) (builder_new start) recs)"
    and "recs \<noteq> []" "list_all seg_record_ok recs" "map sg_seq recs = [start..<start + length recs]"
    and "length (concat (map (encode_data_frame (env_crc env)) recs)) < 256 ^ 4" "tier_resolve (sw_tier w) start = None"
    and "\<forall>c. \<not> fs_fails (hot (sw_tier w)) c"
  shows "snd (seal_active env w) = [start..<start + length recs] \<and>
    (\<forall>i<length recs. read_locator env
        \<lparr>loc_tier = sw_tier (fst (seal_active env w)), loc_seg = last (sw_sealed (fst (seal_active env w))), loc_seq = start + i\<rparr> =
      Some (payload_of env (recs ! i)))"
proof -
  obtain w' sealed where out: "seal_active env w = (w', sealed)" by fastforce
  have ok: "\<forall>r\<in>set recs. seg_record_ok r"
    using assms(5) by (simp add: list_all_iff)
  have "sealed \<noteq> []"
    using seal_active_succeeds[OF assms(3,4,8,9)] out by simp
  then have st: "sealed = [start..<start + length recs]" "store_for (sw_tier w') start = Some (hot (sw_tier w'))"
      "fs_fails (hot (sw_tier w')) = fs_fails (hot (sw_tier w))"
      "seg_image (env_crc env) start recs (replicate (length recs) SEG_DEL_LIVE) (hot (sw_tier w'))"
    and "\<exists>g. sw_sealed w' = sw_sealed w @ [g] \<and> ss_start_seq g = start"
    using seal_active_image[OF assms(2-4) ok assms(6-8) out] by blast+
  then have seg: "ss_start_seq (last (sw_sealed w')) = start" by auto
  have "read_locator env \<lparr>loc_tier = sw_tier w', loc_seg = last (sw_sealed w'), loc_seq = start + i\<rparr> = Some (payload_of env (recs ! i))"
    if "i < length recs" for i
    using read_locator_image[OF assms(1), of "\<lparr>loc_tier = sw_tier w', loc_seg = last (sw_sealed w'), loc_seq = start + i\<rparr>"] st seg that assms(9)
    by (simp add: SEG_DEL_LIVE_def SEG_DEL_SENTINEL_def)
  then show ?thesis
    using out st(1) by simp
qed

theorem sealed_segment_reads_back_witness:
  "snd (seal_active demo_env demo_writer) = [5, 6] \<and>
   read_locator demo_env \<lparr>loc_tier = sw_tier (fst (seal_active demo_env demo_writer)),
       loc_seg = last (sw_sealed (fst (seal_active demo_env demo_writer))), loc_seq = 6\<rparr> =
     Some (payload_of demo_env (demo_seg_records ! 1))"
proof -
  note b = sealed_segment_reads_back[OF demo_crc demo_writer_facts(1-8)]
  have "(1::nat) < length demo_seg_records"
    by (simp add: demo_writer_facts(9))
  from b[THEN conjunct2, rule_format, OF this] show ?thesis
    using b[THEN conjunct1] by (simp add: demo_writer_facts(9) upt_rec)
qed

text \<open>
  C13. Deleting a sealed record flips one byte on disk: from then on that record no longer reads
  back, from the files or from a cache, and every other record of the segment reads back exactly
  as before, payload and deletion state.
\<close>

theorem sealed_delete_flips_one_record:
  assumes "crc_ok env" "segment_for w (start + i) = Some g" "ss_start_seq g = start" "store_for (sw_tier w) start = Some st"
    and "store_ok st" "seg_image (env_crc env) start recs flags st" "i < length recs" "\<forall>c. \<not> fs_fails st c" "j < length recs"
  shows "let w' = fst (flag_sealed_deleted (start + i) w) in snd (flag_sealed_deleted (start + i) w) \<and>
    read_locator env \<lparr>loc_tier = sw_tier w', loc_seg = g, loc_seq = start + j\<rparr> =
      (if j = i then None else read_locator env \<lparr>loc_tier = sw_tier w, loc_seg = g, loc_seq = start + j\<rparr>) \<and>
    start + i \<notin> fst ` set (sw_cache w') \<and> start + i \<notin> fst ` set (sw_cold_cache w')"
proof -
  obtain w' st' where w': "flag_sealed_deleted (start + i) w = (w', True)" "store_for (sw_tier w') start = Some st'"
    "seg_image (env_crc env) start recs (flags[i := SEG_DEL_SENTINEL]) st'" "\<forall>c. \<not> fs_fails st' c"
    "start + i \<notin> fst ` set (sw_cache w')" "start + i \<notin> fst ` set (sw_cold_cache w')"
    using flag_sealed_deleted_image[OF assms(2-8)] by metis
  have len: "length flags = length recs"
    using assms(6) by (simp add: seg_image_def)
  show ?thesis
    using w' read_locator_image[OF assms(1), of "\<lparr>loc_tier = sw_tier w', loc_seg = g, loc_seq = start + j\<rparr>"]
      read_locator_image[OF assms(1), of "\<lparr>loc_tier = sw_tier w, loc_seg = g, loc_seq = start + j\<rparr>"] assms len
    by (simp add: Let_def nth_list_update)
qed


theorem sealed_delete_flips_one_record_witness:
  "snd (flag_sealed_deleted 5 demo_sealed) \<and>
   read_locator demo_env \<lparr>loc_tier = sw_tier (fst (flag_sealed_deleted 5 demo_sealed)), loc_seg = demo_segment, loc_seq = 5\<rparr> = None"
  using sealed_delete_flips_one_record[OF demo_crc, of demo_sealed 5 0 demo_segment "hot (sw_tier demo_sealed)" demo_seg_records
      "replicate 2 SEG_DEL_LIVE" 0] demo_sealed_facts demo_writer_facts(9)
  by (simp add: Let_def)

text \<open>
  C14. Moving a sealed segment to the cold tier loses neither a payload nor a deletion, even the
  deletions that land in the hot file between the copy and the flip: after the copy, any deletes,
  and the confirmation, each record reads as it did before the move unless it was one of those
  deleted, and the hot copy is gone.
\<close>

theorem relocation_keeps_reads:
  assumes "crc_ok env" "find (\<lambda>g. ss_start_seq g = start) (sw_sealed w) = Some g" "ss_tier g = Hot"
    and "\<forall>i<length recs. segment_for w (start + i) = Some g" "store_ok (hot (sw_tier w))"
    and "seg_image (env_crc env) start recs flags (hot (sw_tier w))" "\<forall>c. \<not> fs_fails (hot (sw_tier w)) c"
    and "cold (sw_tier w) = Some c" "store_ok c" "\<not> store_exists start Data c" "\<forall>x. \<not> fs_fails c x"
    and "set ds \<subseteq> {..<length recs}" "i < length recs"
  shows "let w1 = w\<lparr>sw_tier := fst (copy_segment_to_cold start (sw_tier w))\<rparr>;
             w2 = fold (\<lambda>i w. fst (flag_sealed_deleted (start + i) w)) ds w1;
             w3 = confirm_relocated env start w2
         in read_locator env \<lparr>loc_tier = sw_tier w3, loc_seg = g, loc_seq = start + i\<rparr> =
              (if i \<in> set ds then None else read_locator env \<lparr>loc_tier = sw_tier w, loc_seg = g, loc_seq = start + i\<rparr>) \<and>
            \<not> store_exists start Data (hot (sw_tier w3))"
proof -
  let ?mark = "\<lambda>i fl. fl[i := SEG_DEL_SENTINEL]"
  have start: "ss_start_seq g = start"
    using assms(2) by (auto simp: find_Some_iff)
  obtain c1 where c1: "copy_segment_to_cold start (sw_tier w) = ((sw_tier w)\<lparr>cold := Some c1\<rparr>, None)"
    "seg_image (env_crc env) start recs flags c1" "store_ok c1" "\<forall>x. \<not> fs_fails c1 x"
    using copy_segment_image[OF assms(8,9,10,6,7,11)] .
  define w1 where "w1 = w\<lparr>sw_tier := (sw_tier w)\<lparr>cold := Some c1\<rparr>\<rparr>"
  have "segment_for w1 = segment_for w"
    by (simp add: fun_eq_iff segment_for_def w1_def)
  with assms(4) have seg1: "\<forall>i<length recs. segment_for w1 (start + i) = Some g"
    by simp
  define w2 where "w2 = fold (\<lambda>i w. fst (flag_sealed_deleted (start + i) w)) ds w1"
  have w2: "seg_image (env_crc env) start recs (fold ?mark ds flags) (hot (sw_tier w2))" "cold (sw_tier w2) = Some c1"
    "sw_sealed w2 = sw_sealed w" "\<forall>c. \<not> fs_fails (hot (sw_tier w2)) c"
    using hot_deletes_image[OF seg1 start, of "env_crc env" flags ds] assms(5,6,7,12) by (simp_all add: w1_def w2_def)
  obtain c3 where c3: "store_for (sw_tier (confirm_relocated env start w2)) start = Some c3"
    "seg_image (env_crc env) start recs (merge_flags (fold ?mark ds flags) [0..<length recs] flags) c3" "\<forall>x. \<not> fs_fails c3 x"
    "\<not> store_exists start Data (hot (sw_tier (confirm_relocated env start w2)))"
    using confirm_relocated_image[OF assms(1) _ assms(3) w2(2) c1(3) w2(1) c1(2) w2(4) c1(4)] assms(2) w2(3) by metis
  have len: "length flags = length recs"
    using assms(6) by (simp add: seg_image_def)
  have "store_for (sw_tier w) start = Some (hot (sw_tier w))"
    using image_exists[OF assms(6)] by (simp add: tier_resolve_def store_for_def)
  then show ?thesis
    using c1(1) c3 len start assms(13) flags_after_deletes[of i flags ds] merge_flags_nth[of i flags "fold ?mark ds flags"]
      read_locator_image[OF assms(1) _ c3(2), of "\<lparr>loc_tier = sw_tier (confirm_relocated env start w2), loc_seg = g, loc_seq = start + i\<rparr>" i]
      read_locator_image[OF assms(1) _ assms(6), of "\<lparr>loc_tier = sw_tier w, loc_seg = g, loc_seq = start + i\<rparr>" i] assms(7)
    by (simp add: Let_def w1_def[symmetric] w2_def[symmetric])
qed

theorem relocation_keeps_reads_witness:
  "let w1 = demo_sealed\<lparr>sw_tier := fst (copy_segment_to_cold 5 (sw_tier demo_sealed))\<rparr>;
       w3 = confirm_relocated demo_env 5 (fst (flag_sealed_deleted 5 w1))
   in read_locator demo_env \<lparr>loc_tier = sw_tier w3, loc_seg = demo_segment, loc_seq = 5\<rparr> = None"
proof -
  have "\<forall>i<length demo_seg_records. segment_for demo_sealed (5 + i) = Some demo_segment"
    using demo_sealed_facts(2,3) demo_writer_facts(9) by (auto simp: less_2_cases_iff)
  from relocation_keeps_reads[OF demo_crc demo_sealed_facts(8,9) this demo_sealed_facts(6,7,5,10,11,12,13), of "[0]" 0]
  show ?thesis
    using demo_writer_facts(9) by (simp add: Let_def)
qed


section \<open>Frames and the tag index\<close>

text \<open>
  C15. Every record a log can hold, of each of the nine kinds, survives the frame format: a
  frame decodes to exactly the record and durability class that was encoded and to its own
  length, whatever bytes follow it in the file.
\<close>

theorem wal_frame_round_trip:
  assumes "record_ok r" "crc_u64 crc"
  shows "decode_one crc (encode_frame crc r d @ rest) =
    Frame \<lparr>wf_record = r, wf_durable = d\<rparr> (length (encode_frame crc r d))"
  using assms by (rule decode_encode_frame)

theorem wal_frame_round_trip_witness:
  "decode_one (\<lambda>_. 0) (encode_frame (\<lambda>_. 0) (HeadWatermark 7 300 5) True @ [1, 2, 3]) =
     Frame \<lparr>wf_record = HeadWatermark 7 300 5, wf_durable = True\<rparr>
       (length (encode_frame (\<lambda>_. 0) (HeadWatermark 7 300 5) True))"
  by (rule wal_frame_round_trip) (simp_all add: crc_u64_def record_ok_def u64_ok_def opt_bytes_def)

text \<open>
  C16. The tag index is an optimisation only: the sequences it returns for a filter are exactly
  those a linear scan of the window finds, in ascending order.
\<close>

theorem tag_selection_is_scan:
  assumes "wf_index ix"
  shows "matching_live_seqs ix f bound =
    filter (\<lambda>s. s < bound \<and> (case ix_get ix s of None \<Rightarrow> False
        | Some r \<Rightarrow> \<not> sr_deleted r \<and> (case sr_tag r of None \<Rightarrow> False | Some t \<Rightarrow> filter_matches f t)))
      [base_seq ix..<base_seq ix + length (records ix)]"
  unfolding matching_live_seqs_spec[OF assms]
  by (rule filter_cong[OF refl]) (auto split: option.splits simp del: filter_matches.simps)

theorem tag_selection_is_scan_witness:
  "wf_index (t_index (demo_log default_config)) \<and>
   matching_live_seqs (t_index (demo_log default_config)) \<lparr>flt_op = Eq, flt_value = ''a''\<rparr> 10 = [1, 3]"
proof -
  let ?ix = "t_index (demo_log default_config)"
  have wf: "wf_index ?ix"
    using demo_log_wf(1)[of default_config] by (simp add: wf_topic_def)
  obtain a b c where "records ?ix = [a, b, c]" "erase a = erase (demo_record 10 (Some ''a''))"
      "erase b = erase (demo_record 20 (Some ''b''))" "erase c = erase (demo_record 30 (Some ''a''))"
    using demo_log_wf(4)[of default_config] by (auto simp: demo_records_def Cons_eq_map_conv map_eq_Cons_conv)
  then have "records ?ix = [a, b, c]" "\<not> sr_deleted a" "\<not> sr_deleted c" "sr_tag a = Some ''a''" "sr_tag b = Some ''b''" "sr_tag c = Some ''a''"
    by (auto simp: erase_def demo_record_def dest: arg_cong[where f = sr_tag] arg_cong[where f = sr_deleted])
  then show ?thesis
    using wf tag_selection_is_scan[OF wf, of "\<lparr>flt_op = Eq, flt_value = ''a''\<rparr>" 10] demo_log_wf(5)[of default_config]
    by (simp add: upt_rec ix_get_def)
qed

section \<open>Group commit and shutdown\<close>

text \<open>
  C17. In every interleaving of submitters, group commits with any failures of the operating
  system, rotation and shutdown, the log holds exactly the frames of the submissions whose token
  was signalled as committed, and after a power loss at any moment, whatever the unsynced bytes
  turned into, the files still read back every frame of every committed durable submission, in order.
\<close>

theorem acks_survive_crash:
  assumes "crc_u64 crc" "writer_ok crc w" "log_frames crc w = []"
    and "(chan_step crc io)\<^sup>*\<^sup>* (chan_new cap w) c" "list_all2 crash_image (wal_files (ch_writer c)) imgs"
  shows "log_frames crc (ch_writer c) = ok_frames (ch_done c) \<and>
    subseq (ok_durable_frames (ch_done c)) (concat (map (\<lambda>img. fst (read_wal crc img)) imgs))"
proof -
  have inv: "chan_inv crc c"
    using chan_safety.run_inv[OF assms(4)] chan_new_inv[OF assms(1-3)] assms(1) by blast
  then have "writer_ok crc (ch_writer c)" and d: "subseq (ok_durable_frames (ch_done c)) (durable_log crc (ch_writer c))"
    and "log_frames crc (ch_writer c) = ok_frames (ch_done c)"
    by (simp_all add: chan_inv_def)
  then show ?thesis
    using crash_keeps_durable_log[OF assms(1) _ assms(5)] subseq_order.dual_order.trans by blast
qed

theorem acks_survive_crash_witness:
  "subseq [\<lparr>wf_record = HeadWatermark 7 300 5, wf_durable = True\<rparr>]
     (concat (map (\<lambda>f. fst (read_wal (\<lambda>_. 0) (af_bytes f))) (wal_files (ch_writer demo_chan))))"
proof -
  have img: "list_all2 crash_image (wal_files w) (map af_bytes (wal_files w))" for w
    by (simp add: list_all2_conv_all_nth crash_image_def)
  have crc: "crc_u64 (\<lambda>_. 0)" by (simp add: crc_u64_def)
  from acks_survive_crash[OF crc demo_wal_ok(1,2) demo_chan_run img]
  show ?thesis
    by (simp add: demo_chan_done ok_durable_frames_def batch_frames_def comp_def) (simp add: demo_sub_def)
qed

text \<open>
  C18. Shutdown strands nobody. In every reachable state the queue is within its bound, and once
  the writer thread has exited nothing is queued and no submitter is past the stop check, so no
  token is left unsignalled; and once the stop signal is set the writer can always come to exit.
\<close>

theorem wal_shutdown_drains:
  assumes "crc_u64 crc" "writer_ok crc w" "log_frames crc w = []" "(chan_step crc io)\<^sup>*\<^sup>* (chan_new cap w) c"
  shows "length (ch_queue c) \<le> ch_cap c \<and> list_all (\<lambda>(s, out). out \<noteq> CoPending) (ch_done c) \<and>
    (ch_exited c \<longrightarrow> ch_queue c = [] \<and> ch_checked c = []) \<and>
    (ch_shutdown c \<longrightarrow> (\<exists>c'. (chan_step crc io)\<^sup>*\<^sup>* c c' \<and> ch_exited c'))"
proof -
  have inv: "chan_inv crc c"
    using chan_safety.run_inv[OF assms(4)] chan_new_inv[OF assms(1-3)] assms(1) by blast
  then have "chan_stopping crc c" if "ch_shutdown c"
    using that assms(1) by (simp add: chan_stopping_def)
  then show ?thesis
    using inv chan_exits[of crc c io] by (auto simp: chan_inv_def list_all_iff)
qed

theorem wal_shutdown_drains_witness:
  "\<exists>c'. (chan_step (\<lambda>_. 0) demo_io)\<^sup>*\<^sup>* (demo_chan\<lparr>ch_shutdown := True\<rparr>) c' \<and> ch_exited c'"
proof -
  have crc: "crc_u64 (\<lambda>_. 0)" by (simp add: crc_u64_def)
  have "(chan_step (\<lambda>_. 0) demo_io)\<^sup>*\<^sup>* (chan_new 4 demo_wal) (demo_chan\<lparr>ch_shutdown := True\<rparr>)"
    using demo_chan_run chan_step.stop by (rule rtranclp.rtrancl_into_rtrancl)
  from wal_shutdown_drains[OF crc demo_wal_ok(1,2) this] show ?thesis
    by simp
qed

text \<open>
  C19. A batch that failed at its sync is answered with an error and rewound, but its bytes stay
  in the file: when the next batch is as long as the first record of the failed one, a restart
  reads the second record of the failed batch as part of the log, although its submission failed.
\<close>

theorem rewound_frame_replayed:
  assumes "crc_u64 crc" "file_ok crc (wt_file w)" "\<not> wt_read_only w" "record_ok lost1" "record_ok lost2" "record_ok kept"
    and "length (encode_frame crc kept True) = length (encode_frame crc lost1 True)"
    and "drop (af_len (wt_file w)) (af_bytes (wt_file w)) = replicate n 0"
    and "length (encode_frame crc lost1 True) + length (encode_frame crc lost2 True) \<le> n"
    and "af_len (wt_file w) + n \<le> af_capacity (wt_file w)"
    and "\<And>i. io_write io i = Some n" "\<not> io_sync io (wt_calls w + 1)" "io_sync io (wt_calls w + 3)"
  shows "\<exists>w1 w2. commit_batch crc io [\<lparr>sb_records = [lost1, lost2], sb_durable = True, sb_token = t\<rparr>] True w = (CoFailed, w1) \<and>
    commit_batch crc io [\<lparr>sb_records = [kept], sb_durable = True, sb_token = t'\<rparr>] True w1 = (CoOk, w2) \<and>
    fst (read_wal crc (af_bytes (wt_file w2))) =
      file_frames crc (wt_file w) @ [\<lparr>wf_record = kept, wf_durable = True\<rparr>, \<lparr>wf_record = lost2, wf_durable = True\<rparr>]"
proof -
  have recs: "\<forall>x\<in>{lost1, lost2, kept}. record_ok x" and io: "\<forall>i. \<exists>k\<ge>n. io_write io i = Some k"
    using assms(4-6,11) by auto
  from rewind_leaves_frame[OF assms(1-3) recs assms(7-10) io assms(12,13), of t t'] show ?thesis
    by blast
qed

definition sync_fails_once :: wal_io where
  "sync_fails_once = \<lparr>io_write = (\<lambda>_. Some 4096), io_sync = (\<lambda>n. n \<noteq> 1), io_create = (\<lambda>_. True)\<rparr>"

theorem rewound_frame_replayed_witness:
  "\<exists>w1 w2. commit_batch (\<lambda>_. 0) sync_fails_once
       [\<lparr>sb_records = [HeadWatermark 7 10 5, HeadWatermark 7 11 5], sb_durable = True, sb_token = 0\<rparr>] True demo_wal = (CoFailed, w1) \<and>
     commit_batch (\<lambda>_. 0) sync_fails_once [\<lparr>sb_records = [HeadWatermark 7 20 5], sb_durable = True, sb_token = 1\<rparr>] True w1 = (CoOk, w2) \<and>
     fst (read_wal (\<lambda>_. 0) (af_bytes (wt_file w2))) =
     [\<lparr>wf_record = HeadWatermark 7 20 5, wf_durable = True\<rparr>, \<lparr>wf_record = HeadWatermark 7 11 5, wf_durable = True\<rparr>]"
proof -
  have crc: "crc_u64 (\<lambda>_. 0)" by (simp add: crc_u64_def)
  have f: "file_ok (\<lambda>_. 0) (wt_file demo_wal)" "file_frames (\<lambda>_. 0) (wt_file demo_wal) = []"
    using demo_wal_ok by (simp_all add: writer_ok_def log_frames_def)
  have ok: "record_ok (HeadWatermark 7 n 5)" if "n < 100" for n
    using that by (simp add: record_ok_def u64_ok_def opt_bytes_def)
  have len: "length (encode_frame (\<lambda>_. 0) (HeadWatermark 7 n 5) True) = 54" for n
    by (simp add: encode_frame_def Let_def length_frame_body opt_bytes_def)
  have w: "\<not> wt_read_only demo_wal" "wt_calls demo_wal = 0" "af_len (wt_file demo_wal) = 0"
    "af_bytes (wt_file demo_wal) = replicate 4096 0" "af_capacity (wt_file demo_wal) = 4096"
    by (simp_all add: demo_wal_def open_at_with_def open_for_append_def Let_def)
  have io: "io_write sync_fails_once i = Some 4096" "\<not> io_sync sync_fails_once (0 + 1)" "io_sync sync_fails_once (0 + 3)" for i
    by (simp_all add: sync_fails_once_def)
  from rewound_frame_replayed[OF crc f(1) w(1) ok ok ok, of 10 11 20 4096 sync_fails_once 0 1] show ?thesis
    unfolding f(2) w len using io by simp
qed

section \<open>The router graph\<close>

text \<open>
  C20. The cycle check is exact: a router from \<open>source\<close> to \<open>dest\<close> is refused if and only if it would
  close a cycle over the routers other than the one it replaces, and what the refusal reports is
  such a cycle: a walk over the existing routers and the new one that starts and ends at the source.
\<close>

theorem router_cycle_check_exact:
  "(would_create_cycle_excluding source dest exclude g = None \<longleftrightarrow>
      source \<noteq> dest \<and> (dest, source) \<notin> (set (router_edges exclude g))\<^sup>*) \<and>
   (case would_create_cycle_excluding source dest exclude g of None \<Rightarrow> True
    | Some c \<Rightarrow> hd c = source \<and> last c = source \<and> walk_ok ((source, dest) # router_edges exclude g) c)"
  using cycle_check_iff[of source dest exclude g] cycle_check_path[of source dest exclude g]
  by (auto split: option.splits)

text \<open>
  C21. However routers are created, replaced, removed one by one or with a topic, and advanced, as
  long as no router asks to allow cycles the forwarding graph stays acyclic and its registry keyed
  by distinct names; and removing a topic leaves no router that reads from it or writes to it.
\<close>

theorem routers_stay_acyclic:
  assumes "graph_step\<^sup>*\<^sup>* graph_new g"
  shows "acyclic (set (router_edges None g)) \<and> wf_graph g \<and>
    list_all (\<lambda>(k, r). r_source r \<noteq> topic \<and> r_dest r \<noteq> topic) (rg_routers (fst (remove_touching_topic topic g)))"
proof -
  have "acyclic_graph g"
    using graph_reachable_acyclic[OF assms] .
  then have wf: "wf_graph g" and "acyclic (set (router_edges None g))"
    by (simp_all add: acyclic_graph_def)
  then show ?thesis
    using remove_touching_clears(2,3)[OF wf, where topic = topic] by (fastforce simp: list_all_iff)
qed

theorem routers_stay_acyclic_witness:
  "acyclic (set (router_edges None (snd (projr (upsert_capped (demo_router ''a'' ''b'') 0 graph_new)))))"
proof -
  obtain created g where u: "upsert_capped (demo_router ''a'' ''b'') 0 graph_new = Inr (created, g)"
    by (auto simp: upsert_capped_def upsert_def graph_new_def demo_router_def would_create_cycle_excluding_def dfs_to.simps
        router_edges_def neighbors_def)
  have "graph_step graph_new g"
    using graph_step.put[OF _ u] by (simp add: demo_router_def)
  then have "graph_step\<^sup>*\<^sup>* graph_new g" by blast
  from routers_stay_acyclic[OF this] show ?thesis
    by (simp add: u)
qed

text \<open>
  C22. A snapshot of the routers restores them: replaying the captured entries into an empty graph
  gives the same routers in the same order, each with its cursor, its forwarded total and its base
  in the destination.
\<close>

theorem router_snapshot_round_trip:
  assumes "wf_graph g" "name \<in> fst ` set (rg_routers g)"
  shows "rg_routers (fold graph_restore (snapshot_all g) graph_new) = rg_routers g \<and>
    router_cursor name (fold graph_restore (snapshot_all g) graph_new) = router_cursor name g \<and>
    next_dest_seq name (fold graph_restore (snapshot_all g) graph_new) = next_dest_seq name g"
  using snapshot_restores[OF assms(1) refl] assms(2) by (simp add: next_dest_seq_def)

theorem router_snapshot_round_trip_witness:
  "router_cursor ''ab'' (fold graph_restore (snapshot_all (set_cursor ''ab'' 5
     (graph_new\<lparr>rg_routers := [(''ab'', demo_router ''a'' ''b'')]\<rparr>))) graph_new) = 5"
proof -
  let ?g = "set_cursor ''ab'' 5 (graph_new\<lparr>rg_routers := [(''ab'', demo_router ''a'' ''b'')]\<rparr>)"
  have "wf_graph ?g" "''ab'' \<in> fst ` set (rg_routers ?g)"
    by (simp_all add: wf_graph_def set_cursor_def demo_router_def)
  moreover have "router_cursor ''ab'' ?g = 5"
    by (simp add: set_cursor_def router_cursor_def get_or_zero_def update_conv')
  ultimately show ?thesis
    using router_snapshot_round_trip[of ?g "''ab''"] by simp
qed

section \<open>The scheduler\<close>

text \<open>
  C23. One drain of the ready set serves every topic marked since the last one, exactly once, in
  the order of the priority bands, and within a band in the order of the first mark; and it leaves
  the set empty.
\<close>

theorem drain_serves_by_band:
  "distinct (fst (drain_order (mark_topics prio ts))) \<and> set (fst (drain_order (mark_topics prio ts))) = set ts \<and>
   sorted (map (\<lambda>t. band_of (prio t)) (fst (drain_order (mark_topics prio ts)))) \<and>
   filter (\<lambda>t. band_of (prio t) = b) (fst (drain_order (mark_topics prio ts))) = first_seen (filter (\<lambda>t. band_of (prio t) = b) ts) \<and>
   snd (drain_order (mark_topics prio ts)) = ready_empty"
  using drain_spec[OF refl, where prio = prio and ts = ts] by (simp add: drain_order_def)

end
